(* ===== verification/Prelude.thy ===== *)
theory Prelude imports Main "HOL-Library.Word" begin

text \<open>
  The vocabulary shared by the component theories.

  \<^item> \<open>fault\<close> names the ways a C run can leave the defined behaviour of the language (or be
    aborted by a library). A fallible operation returns \<open>fault + 'a\<close>; \<open>bind_c\<close> sequences two
    of them, so a fault stops the run as it stops the daemon.
  \<^item> C \<open>int\<close> values are HOL integers with an explicit range (\<open>in_int\<close>); conversions and
    overflows are written out where the code has them. Unsigned fields are words.
  \<^item> A C string is the list of its characters up to (not including) the terminating NUL;
    \<open>peek\<close> reads the character under a pointer, NUL at the end.
\<close>

section \<open>Faults and sequencing\<close>

datatype fault =
    NullDeref        \<comment> \<open>a NULL pointer is dereferenced\<close>
  | OutOfBounds      \<comment> \<open>a read outside an object\<close>
  | BufferOverflow   \<comment> \<open>a write outside an object\<close>
  | SignedOverflow   \<comment> \<open>an \<open>int\<close> operation leaves the range of \<open>int\<close>\<close>
  | IntCastRange     \<comment> \<open>a \<open>double\<close> is cast to an integer type that cannot hold it\<close>
  | BadVlaSize       \<comment> \<open>a variable length array of size zero or less\<close>
  | UseAfterFree     \<comment> \<open>memory is used that is not allocated (any more)\<close>
  | BadFree          \<comment> \<open>memory is released that is not allocated (any more)\<close>
  | LibAssert        \<comment> \<open>an assertion of a library fails\<close>
  | ExitFailure      \<comment> \<open>\<open>exit(EXIT_FAILURE)\<close>\<close>

type_synonym 'a c = "fault + 'a"

definition bind_c :: "'a c \<Rightarrow> ('a \<Rightarrow> 'b c) \<Rightarrow> 'b c" where
  "bind_c m f = (case m of Inl e \<Rightarrow> Inl e | Inr x \<Rightarrow> f x)"

lemma bind_c_simps [simp]:
  "bind_c (Inl e) f = Inl e"
  "bind_c (Inr x) f = f x"
  by (simp_all add: bind_c_def)

lemma bind_c_eq_Inr: "bind_c m f = Inr y \<longleftrightarrow> (\<exists>x. m = Inr x \<and> f x = Inr y)"
  by (cases m) simp_all

lemma bind_c_InrE:
  assumes "bind_c m f = Inr y" obtains x where "m = Inr x" "f x = Inr y"
  using assms by (auto simp: bind_c_eq_Inr)

lemma bind_c_pairE:
  assumes "bind_c m f = Inr y" obtains a b where "m = Inr (a, b)" "f (a, b) = Inr y"
  using assms by (cases m) auto

lemma bind_c_tripleE:
  assumes "bind_c m f = Inr y" obtains a b c where "m = Inr ((a, b), c)" "f ((a, b), c) = Inr y"
  using assms by (cases m) auto

lemma bind_c_eq_Inl: "bind_c m f = Inl e \<longleftrightarrow> m = Inl e \<or> (\<exists>x. m = Inr x \<and> f x = Inl e)"
  by (cases m) simp_all

lemma bind_c_cong [fundef_cong]:
  "m = m' \<Longrightarrow> (\<And>x. m' = Inr x \<Longrightarrow> f x = f' x) \<Longrightarrow> bind_c m f = bind_c m' f'"
  by (cases m') simp_all

text \<open>A pointer that the code dereferences without a test.\<close>

definition deref :: "'a option \<Rightarrow> 'a c" where
  "deref p = (case p of None \<Rightarrow> Inl NullDeref | Some x \<Rightarrow> Inr x)"

lemma deref_simps [simp]:
  "deref None = Inl NullDeref"
  "deref (Some x) = Inr x"
  by (simp_all add: deref_def)

lemma deref_eq_Inr [simp]: "deref p = Inr x \<longleftrightarrow> p = Some x"
  by (cases p) simp_all

section \<open>C integers\<close>

abbreviation INT_MAX :: int where "INT_MAX \<equiv> 2147483647"
abbreviation INT_MIN :: int where "INT_MIN \<equiv> -2147483648"

type_synonym u8 = "8 word"
type_synonym u16 = "16 word"
type_synonym u32 = "32 word"

definition in_int :: "int \<Rightarrow> bool" where
  "in_int k \<longleftrightarrow> INT_MIN \<le> k \<and> k \<le> INT_MAX"

text \<open>The result of an \<open>int\<close> operation whose exact value is \<open>k\<close>.\<close>

definition int_result :: "int \<Rightarrow> int c" where
  "int_result k = (if in_int k then Inr k else Inl SignedOverflow)"

lemma int_result_Inr [simp]: "int_result k = Inr j \<longleftrightarrow> in_int k \<and> j = k"
  by (auto simp: int_result_def)

text \<open>The conversion of a \<open>size_t\<close> or \<open>ptrdiff_t\<close> with the value \<open>k\<close> to \<open>int\<close>: it wraps around.\<close>

definition int_wrap :: "int \<Rightarrow> int" where
  "int_wrap k = (k + 2 ^ 31) mod 2 ^ 32 - 2 ^ 31"

lemma int_wrap_in_int [simp]: "in_int k \<Longrightarrow> int_wrap k = k"
  by (simp add: int_wrap_def in_int_def)

lemma in_int_bounds: "in_int k \<Longrightarrow> INT_MIN \<le> k" "in_int k \<Longrightarrow> k \<le> INT_MAX"
  by (simp_all add: in_int_def)

section \<open>Characters and C strings\<close>

abbreviation NUL :: char where "NUL \<equiv> CHR 0x00"

definition byte :: "char \<Rightarrow> nat" where
  "byte c = of_char c"

lemma byte_less: "byte c < 256"
  unfolding byte_def using nat_of_char_less_256 [of c] by simp

lemma byte_inject [simp]: "byte c = byte d \<longleftrightarrow> c = d"
  by (simp add: byte_def)

lemma byte_Char [simp]:
  "byte (Char b0 b1 b2 b3 b4 b5 b6 b7) = horner_sum of_bool 2 [b0, b1, b2, b3, b4, b5, b6, b7]"
  by (simp only: byte_def of_char_Char)

lemma char_of_byte [simp]: "char_of (byte c) = c"
  by (simp add: byte_def)

lemma byte_char_of: "n < 256 \<Longrightarrow> byte (char_of n) = n"
  by (simp add: byte_def)

text \<open>The character under a pointer into a NUL-terminated text, as the suffix it points to.\<close>

definition peek :: "string \<Rightarrow> char" where
  "peek s = (case s of [] \<Rightarrow> NUL | c # _ \<Rightarrow> c)"

lemma peek_simps [simp]: "peek [] = NUL" "peek (c # s) = c"
  by (simp_all add: peek_def)

definition nul_free :: "string \<Rightarrow> bool" where
  "nul_free s \<longleftrightarrow> NUL \<notin> set s"

lemma nul_free_simps [simp]:
  "nul_free []"
  "nul_free (c # s) \<longleftrightarrow> c \<noteq> NUL \<and> nul_free s"
  "nul_free (s @ t) \<longleftrightarrow> nul_free s \<and> nul_free t"
  by (auto simp: nul_free_def)

lemma nul_free_tl [simp]: "nul_free s \<Longrightarrow> nul_free (tl s)"
  by (cases s) auto

text \<open>What a C function sees of a byte buffer: everything before the first NUL.\<close>

definition c_str :: "string \<Rightarrow> string" where
  "c_str s = takeWhile (\<lambda>c. c \<noteq> NUL) s"

lemma nul_free_c_str [simp]: "nul_free (c_str s)"
  unfolding nul_free_def c_str_def using set_takeWhileD by fastforce

lemma c_str_id: "nul_free s \<Longrightarrow> c_str s = s"
  by (auto simp: nul_free_def c_str_def takeWhile_eq_all_conv)

lemma c_str_append: "nul_free s \<Longrightarrow> c_str (s @ t) = s @ c_str t"
  by (auto simp: c_str_def nul_free_def takeWhile_append)

text \<open>\<open>tolower\<close> in the C locale.\<close>

definition tolower :: "char \<Rightarrow> char" where
  "tolower c = (if 65 \<le> byte c \<and> byte c \<le> 90 then char_of (byte c + 32) else c)"

definition is_digit :: "char \<Rightarrow> bool" where
  "is_digit c \<longleftrightarrow> 48 \<le> byte c \<and> byte c \<le> 57"

definition digit_val :: "char \<Rightarrow> int" where
  "digit_val c = int (byte c) - 48"

text \<open>\<open>strcmp(a, b) == 0\<close>, and the sign of \<open>strcmp\<close> in general (bytes compared unsigned).\<close>

fun strcmp :: "string \<Rightarrow> string \<Rightarrow> int" where
  "strcmp [] [] = 0"
| "strcmp [] (b # bs) = - int (byte b)"
| "strcmp (a # as) [] = int (byte a)"
| "strcmp (a # as) (b # bs) = (if a = b then strcmp as bs else int (byte a) - int (byte b))"

lemma byte_eq_0_iff [simp]: "byte c = 0 \<longleftrightarrow> c = NUL"
  using byte_inject [of c NUL] by (simp add: byte_def)

lemma strcmp_zero_iff: "nul_free a \<Longrightarrow> nul_free b \<Longrightarrow> strcmp a b = 0 \<longleftrightarrow> a = b"
  by (induction a b rule: strcmp.induct) auto

lemma strcmp_refl [simp]: "strcmp a a = 0"
  by (induction a) auto

section \<open>Lists\<close>

lemma those_Some_iff: "those xs = Some ys \<longleftrightarrow> xs = map Some ys"
proof (induction xs arbitrary: ys)
  case (Cons x xs)
  then show ?case by (cases x; cases ys) (auto split: option.splits)
qed auto

lemma those_map_Some [simp]: "those (map Some xs) = Some xs"
  by (simp add: those_Some_iff)

lemma find_append:
  "find P (xs @ ys) = (case find P xs of None \<Rightarrow> find P ys | Some x \<Rightarrow> Some x)"
  by (induction xs) auto

end
