(* ===== verification/CDouble.thy ===== *)
theory CDouble imports Complex_Main "HOL-Library.Log_Nat" Prelude begin

text \<open>
  The C type \<open>double\<close>, as far as \<open>json/cJSON.c\<close> computes with it: IEEE 754 binary64 with
  rounding to nearest, ties to even. A finite value is the rational number it denotes; the two
  zeros are one value, because nothing in the sources tells them apart (the printer tests
  \<open>d==0\<close> first and no sign of zero is read anywhere). Overflow gives an infinity, an invalid
  operation a NaN. The casts to integer types are faults outside the target's range, as in C.
  \<open>pow(10.0, k)\<close> is the correctly rounded power, with \<open>pow(10.0, 0) = 1\<close>.
\<close>

datatype double = DFin rat | DInf bool | DNaN   \<comment> \<open>\<open>DInf True\<close> is minus infinity\<close>

section \<open>Rounding\<close>

definition pow2 :: "int \<Rightarrow> rat" where
  "pow2 e = (if 0 \<le> e then 2 ^ nat e else 1 / 2 ^ nat (- e))"

text \<open>\<open>\<lfloor>log 2 |x|\<rfloor>\<close> of a non-zero rational.\<close>

definition ilog2 :: "rat \<Rightarrow> int" where
  "ilog2 x =
     (let (p, q) = quotient_of \<bar>x\<bar>; n = bitlen p - bitlen q
      in if pow2 n \<le> \<bar>x\<bar> then n else n - 1)"

definition round_half_even :: "rat \<Rightarrow> int" where
  "round_half_even x =
     (let n = \<lfloor>x\<rfloor>; r = x - of_int n
      in if r < 1 / 2 then n else if r > 1 / 2 then n + 1 else if even n then n else n + 1)"

definition round_double :: "rat \<Rightarrow> double" where
  "round_double x =
     (if x = 0 then DFin 0
      else let e = max (ilog2 x - 52) (- 1074);
               y = of_int (round_half_even (\<bar>x\<bar> * pow2 (- e))) * pow2 e
           in if pow2 1024 \<le> y then DInf (x < 0)
              else DFin (if x < 0 then - y else y))"

section \<open>Arithmetic and comparison\<close>

fun dmul :: "double \<Rightarrow> double \<Rightarrow> double" where
  "dmul (DFin a) (DFin b) = round_double (a * b)"
| "dmul (DFin a) (DInf s) = (if a = 0 then DNaN else DInf ((a < 0) \<noteq> s))"
| "dmul (DInf s) (DFin a) = (if a = 0 then DNaN else DInf ((a < 0) \<noteq> s))"
| "dmul (DInf s) (DInf t) = DInf (s \<noteq> t)"
| "dmul DNaN _ = DNaN"
| "dmul _ DNaN = DNaN"

fun dadd :: "double \<Rightarrow> double \<Rightarrow> double" where
  "dadd (DFin a) (DFin b) = round_double (a + b)"
| "dadd (DFin a) (DInf s) = DInf s"
| "dadd (DInf s) (DFin a) = DInf s"
| "dadd (DInf s) (DInf t) = (if s = t then DInf s else DNaN)"
| "dadd DNaN _ = DNaN"
| "dadd _ DNaN = DNaN"

fun dneg :: "double \<Rightarrow> double" where
  "dneg (DFin a) = DFin (- a)"
| "dneg (DInf s) = DInf (\<not> s)"
| "dneg DNaN = DNaN"

definition dsub :: "double \<Rightarrow> double \<Rightarrow> double" where
  "dsub a b = dadd a (dneg b)"

fun dfabs :: "double \<Rightarrow> double" where
  "dfabs (DFin a) = DFin \<bar>a\<bar>"
| "dfabs (DInf s) = DInf False"
| "dfabs DNaN = DNaN"

fun dfloor :: "double \<Rightarrow> double" where
  "dfloor (DFin a) = DFin (of_int \<lfloor>a\<rfloor>)"
| "dfloor d = d"

fun dle :: "double \<Rightarrow> double \<Rightarrow> bool" where
  "dle (DFin a) (DFin b) \<longleftrightarrow> a \<le> b"
| "dle (DFin a) (DInf s) \<longleftrightarrow> \<not> s"
| "dle (DInf s) (DFin a) \<longleftrightarrow> s"
| "dle (DInf s) (DInf t) \<longleftrightarrow> s \<or> \<not> t"
| "dle DNaN _ \<longleftrightarrow> False"
| "dle _ DNaN \<longleftrightarrow> False"

text \<open>\<open>a == b\<close>: false when either is a NaN.\<close>

definition deq :: "double \<Rightarrow> double \<Rightarrow> bool" where
  "deq a b \<longleftrightarrow> a = b \<and> a \<noteq> DNaN"

definition dlt :: "double \<Rightarrow> double \<Rightarrow> bool" where
  "dlt a b \<longleftrightarrow> dle a b \<and> \<not> deq a b"

definition DBL_EPSILON :: double where
  "DBL_EPSILON = DFin (1 / 2 ^ 52)"

section \<open>Conversions\<close>

text \<open>\<open>(double) k\<close> of an integer.\<close>

definition double_of_int :: "int \<Rightarrow> double" where
  "double_of_int k = round_double (of_int k)"

text \<open>A cast to an integer type with the values \<open>lo .. hi\<close>: the fraction is discarded.\<close>

definition truncate :: "rat \<Rightarrow> int" where
  "truncate x = (if x < 0 then - \<lfloor>- x\<rfloor> else \<lfloor>x\<rfloor>)"

fun cast_double :: "int \<Rightarrow> int \<Rightarrow> double \<Rightarrow> int c" where
  "cast_double lo hi (DFin x) =
     (let k = truncate x in if lo \<le> k \<and> k \<le> hi then Inr k else Inl IntCastRange)"
| "cast_double lo hi _ = Inl IntCastRange"

definition int_of_double :: "double \<Rightarrow> int c" where
  "int_of_double d = cast_double INT_MIN INT_MAX d"

definition uint8_of_double :: "double \<Rightarrow> u8 c" where
  "uint8_of_double d = bind_c (cast_double 0 255 d) (\<lambda>k. Inr (word_of_int k))"

definition uint16_of_double :: "double \<Rightarrow> u16 c" where
  "uint16_of_double d = bind_c (cast_double 0 65535 d) (\<lambda>k. Inr (word_of_int k))"

text \<open>\<open>pow(10.0, k)\<close>; outside \<open>-400 .. 400\<close> the result is zero or infinity anyway.\<close>

definition pow10 :: "int \<Rightarrow> double" where
  "pow10 k =
     (if 400 < k then DInf False
      else if k < - 400 then DFin 0
      else if 0 \<le> k then round_double (10 ^ nat k)
      else round_double (1 / 10 ^ nat (- k)))"

section \<open>Integers below \<open>2 ^ 53\<close> are exact\<close>

lemma pow2_pos [simp]: "0 < pow2 e"
  by (simp add: pow2_def)

lemma pow2_neg: "pow2 (- e) * pow2 e = 1"
proof -
  consider "e = 0" | "0 < e" | "e < 0" by linarith
  then show ?thesis by cases (simp_all add: pow2_def)
qed

lemma round_half_even_of_int [simp]: "round_half_even (of_int k) = k"
  by (simp add: round_half_even_def)

lemma ilog2_of_int_le:
  assumes "k \<noteq> 0" "\<bar>k\<bar> < 2 ^ n"
  shows "ilog2 (of_int k) < int n"
proof -
  have q: "quotient_of \<bar>of_int k\<bar> = (\<bar>k\<bar>, 1)"
    by (simp only: of_int_abs [symmetric] quotient_of_rat_of_int)
  have "2 ^ nat (bitlen \<bar>k\<bar> - 1) \<le> \<bar>k\<bar>"
    using assms(1) by (intro bitlen_bounds [THEN conjunct1]) simp
  then have "(2 :: int) ^ nat (bitlen \<bar>k\<bar> - 1) < 2 ^ n"
    using assms(2) by (rule le_less_trans)
  then have "nat (bitlen \<bar>k\<bar> - 1) < n" by (rule power_less_imp_less_exp [rotated]) simp
  then have b: "bitlen \<bar>k\<bar> - 1 < int n" by linarith
  have b1: "bitlen 1 = 1" by (simp add: bitlen_alt_def)
  show ?thesis using b
    by (simp only: ilog2_def q prod.case b1 Let_def) (auto split: if_splits)
qed

lemma round_double_of_int:
  assumes "\<bar>k\<bar> < 2 ^ 53"
  shows "round_double (of_int k) = DFin (of_int k)"
proof (cases "k = 0")
  case False
  define e where "e = max (ilog2 (of_int k) - 52) (- 1074)"
  have "ilog2 (of_int k) < 53"
    using ilog2_of_int_le [OF False assms] by simp
  then have e: "e \<le> 0" by (simp add: e_def)
  have p: "pow2 (- e) = of_int (2 ^ nat (- e))" using e by (simp add: pow2_def)
  have y: "of_int (round_half_even (\<bar>of_int k\<bar> * pow2 (- e))) * pow2 e = (of_int \<bar>k\<bar> :: rat)"
  proof -
    have "\<bar>of_int k\<bar> * pow2 (- e) = of_int (\<bar>k\<bar> * 2 ^ nat (- e))"
      by (simp add: p)
    then have "of_int (round_half_even (\<bar>of_int k\<bar> * pow2 (- e))) = \<bar>of_int k\<bar> * pow2 (- e)"
      by (metis round_half_even_of_int)
    then show ?thesis by (simp add: mult.assoc pow2_neg)
  qed
  have "(of_int \<bar>k\<bar> :: rat) < of_int (2 ^ 53)" using assms by (simp only: of_int_less_iff)
  also have "\<dots> \<le> pow2 1024" by (simp add: pow2_def)
  finally have big: "\<not> pow2 1024 \<le> (of_int \<bar>k\<bar> :: rat)" by simp
  have nz: "(of_int k :: rat) \<noteq> 0" using False by simp
  show ?thesis
    unfolding round_double_def Let_def e_def [symmetric] y
    using big nz by (auto simp: abs_if)
qed (simp add: round_double_def)

lemma round_double_nat: "n < 2 ^ 53 \<Longrightarrow> round_double (of_nat n) = DFin (of_nat n)"
  using round_double_of_int [of "int n"] by simp

lemma double_of_int_exact: "\<bar>k\<bar> < 2 ^ 53 \<Longrightarrow> double_of_int k = DFin (of_int k)"
  by (simp add: double_of_int_def round_double_of_int)

lemma double_of_int_in_int [simp]: "in_int k \<Longrightarrow> double_of_int k = DFin (of_int k)"
  by (rule double_of_int_exact) (auto simp: in_int_def)

lemma truncate_of_int [simp]: "truncate (of_int k) = k"
  by (auto simp: truncate_def simp flip: of_int_minus)

lemma int_of_double_of_int [simp]: "in_int k \<Longrightarrow> int_of_double (DFin (of_int k)) = Inr k"
  by (simp add: int_of_double_def in_int_def)

lemma pow10_0 [simp]: "pow10 0 = DFin 1"
proof -
  have "round_double (of_int 1) = DFin (of_int 1)" by (rule round_double_of_int) simp
  then show ?thesis by (simp add: pow10_def)
qed

lemma dmul_of_int:
  "\<bar>a * b\<bar> < 2 ^ 53 \<Longrightarrow> dmul (DFin (of_int a)) (DFin (of_int b)) = DFin (of_int (a * b))"
  by (simp add: round_double_of_int flip: of_int_mult)

lemma dadd_of_int:
  "\<bar>a + b\<bar> < 2 ^ 53 \<Longrightarrow> dadd (DFin (of_int a)) (DFin (of_int b)) = DFin (of_int (a + b))"
  by (simp add: round_double_of_int flip: of_int_add)

lemma dsub_of_int:
  "\<bar>a - b\<bar> < 2 ^ 53 \<Longrightarrow> dsub (DFin (of_int a)) (DFin (of_int b)) = DFin (of_int (a - b))"
  using dadd_of_int [of a "- b"] by (simp add: dsub_def)

end
