(* ===== verification/CJson.thy ===== *)
theory CJson imports CDouble begin

text \<open>
  The cJSON tree of \<open>json/cJSON.h\<close> and the operations of \<open>json/cJSON.c\<close> that build, query and
  edit it. An item is one \<open>cJSON\<close> structure; its \<open>child\<close> pointer, a chain through \<open>next\<close> and
  \<open>prev\<close>, is the list of the items in the chain. A \<open>char *\<close> or \<open>cJSON *\<close> that may be NULL is an
  \<open>option\<close>. Allocation is taken to succeed; an operation that dereferences a pointer without a
  test is a fault when the pointer is NULL.
\<close>

section \<open>Items\<close>

datatype cJSON = CJSON
  (ctype: u32) (valuestring: "string option") (valueuint8: u8) (valueuint16: u16)
  (valueint: int) (valuedouble: double) (cstring: "string option") (child: "cJSON list")

abbreviation cJSON_False :: u32 where "cJSON_False \<equiv> 1"
abbreviation cJSON_True :: u32 where "cJSON_True \<equiv> 2"
abbreviation cJSON_NULL :: u32 where "cJSON_NULL \<equiv> 4"
abbreviation cJSON_Number :: u32 where "cJSON_Number \<equiv> 8"
abbreviation cJSON_String :: u32 where "cJSON_String \<equiv> 16"
abbreviation cJSON_Array :: u32 where "cJSON_Array \<equiv> 32"
abbreviation cJSON_Object :: u32 where "cJSON_Object \<equiv> 64"
abbreviation cJSON_IsReference :: u32 where "cJSON_IsReference \<equiv> 256"
abbreviation cJSON_StringIsConst :: u32 where "cJSON_StringIsConst \<equiv> 512"

text \<open>Assignments to the fields of an item.\<close>

primrec set_ctype :: "u32 \<Rightarrow> cJSON \<Rightarrow> cJSON" where
  "set_ctype t (CJSON _ vs u8 u16 vi vd s ch) = CJSON t vs u8 u16 vi vd s ch"
primrec set_valuestring :: "string option \<Rightarrow> cJSON \<Rightarrow> cJSON" where
  "set_valuestring vs (CJSON t _ u8 u16 vi vd s ch) = CJSON t vs u8 u16 vi vd s ch"
primrec set_valueuint8 :: "u8 \<Rightarrow> cJSON \<Rightarrow> cJSON" where
  "set_valueuint8 u8 (CJSON t vs _ u16 vi vd s ch) = CJSON t vs u8 u16 vi vd s ch"
primrec set_valueuint16 :: "u16 \<Rightarrow> cJSON \<Rightarrow> cJSON" where
  "set_valueuint16 u16 (CJSON t vs u8 _ vi vd s ch) = CJSON t vs u8 u16 vi vd s ch"
primrec set_valueint :: "int \<Rightarrow> cJSON \<Rightarrow> cJSON" where
  "set_valueint vi (CJSON t vs u8 u16 _ vd s ch) = CJSON t vs u8 u16 vi vd s ch"
primrec set_valuedouble :: "double \<Rightarrow> cJSON \<Rightarrow> cJSON" where
  "set_valuedouble vd (CJSON t vs u8 u16 vi _ s ch) = CJSON t vs u8 u16 vi vd s ch"
primrec set_cstring :: "string option \<Rightarrow> cJSON \<Rightarrow> cJSON" where
  "set_cstring s (CJSON t vs u8 u16 vi vd _ ch) = CJSON t vs u8 u16 vi vd s ch"
primrec set_child :: "cJSON list \<Rightarrow> cJSON \<Rightarrow> cJSON" where
  "set_child ch (CJSON t vs u8 u16 vi vd s _) = CJSON t vs u8 u16 vi vd s ch"

lemma set_sel [simp]:
  "ctype (set_ctype t it) = t" "valuestring (set_valuestring vs it) = vs"
  "valueint (set_valueint vi it) = vi" "valuedouble (set_valuedouble vd it) = vd"
  "cstring (set_cstring s it) = s" "child (set_child ch it) = ch"
  by (cases it; simp)+

lemma set_other_sel [simp]:
  "ctype (set_cstring s it) = ctype it" "valuestring (set_cstring s it) = valuestring it"
  "valueint (set_cstring s it) = valueint it" "valuedouble (set_cstring s it) = valuedouble it"
  "child (set_cstring s it) = child it" "ctype (set_child ch it) = ctype it"
  "cstring (set_child ch it) = cstring it" "valueint (set_child ch it) = valueint it"
  "valuestring (set_child ch it) = valuestring it" "child (set_ctype t it) = child it"
  "cstring (set_ctype t it) = cstring it" "valueint (set_ctype t it) = valueint it"
  "valuestring (set_ctype t it) = valuestring it"
  by (cases it; simp)+

lemma set_same [simp]:
  "set_child (child it) it = it" "set_cstring (cstring it) it = it"
  "set_child xs (set_child ys it) = set_child xs it"
  "set_cstring a (set_cstring b it) = set_cstring a it"
  by (cases it; simp)+

lemma size_child: "size_list size (child it) < size it"
  by (cases it) simp

text \<open>\<open>cJSON_New_Item\<close>: a zeroed structure.\<close>

definition cJSON_New_Item :: cJSON where
  "cJSON_New_Item = CJSON 0 None 0 0 0 (DFin 0) None []"

section \<open>Case-insensitive comparison\<close>

fun strcasecmp_loop :: "string \<Rightarrow> string \<Rightarrow> int" where
  "strcasecmp_loop [] [] = 0"
| "strcasecmp_loop [] (b # bs) = - int (byte (tolower b))"
| "strcasecmp_loop (a # as) [] = int (byte (tolower a))"
| "strcasecmp_loop (a # as) (b # bs) =
     (if tolower a = tolower b then strcasecmp_loop as bs
      else int (byte (tolower a)) - int (byte (tolower b)))"

definition cJSON_strcasecmp :: "string option \<Rightarrow> string option \<Rightarrow> int" where
  "cJSON_strcasecmp s1 s2 =
     (case s1 of
        None \<Rightarrow> (if s2 = None then 0 else 1)
      | Some a \<Rightarrow> (case s2 of None \<Rightarrow> 1 | Some b \<Rightarrow> strcasecmp_loop a b))"

section \<open>Size and items of arrays and objects\<close>

definition cJSON_GetArraySize :: "cJSON option \<Rightarrow> int c" where
  "cJSON_GetArraySize array = bind_c (deref array) (\<lambda>a. Inr (int (length (child a))))"

definition cJSON_GetArrayItem :: "cJSON option \<Rightarrow> int \<Rightarrow> cJSON option" where
  "cJSON_GetArrayItem array item =
     (case array of
        None \<Rightarrow> None
      | Some a \<Rightarrow> (case drop (nat item) (child a) of [] \<Rightarrow> None | c # _ \<Rightarrow> Some c))"

definition cJSON_GetObjectItem :: "cJSON option \<Rightarrow> string \<Rightarrow> cJSON option" where
  "cJSON_GetObjectItem obj key =
     (case obj of
        None \<Rightarrow> None
      | Some ob \<Rightarrow> find (\<lambda>c. cJSON_strcasecmp (cstring c) (Some key) = 0) (child ob))"

definition cJSON_HasObjectItem :: "cJSON option \<Rightarrow> string \<Rightarrow> int" where
  "cJSON_HasObjectItem obj key = (if cJSON_GetObjectItem obj key \<noteq> None then 1 else 0)"

section \<open>Adding items\<close>

definition cJSON_AddItemToArray :: "cJSON \<Rightarrow> cJSON option \<Rightarrow> cJSON" where
  "cJSON_AddItemToArray array item =
     (case item of None \<Rightarrow> array | Some it \<Rightarrow> set_child (child array @ [it]) array)"

definition cJSON_AddItemToObject :: "cJSON \<Rightarrow> string \<Rightarrow> cJSON option \<Rightarrow> cJSON" where
  "cJSON_AddItemToObject obj key item =
     (case item of
        None \<Rightarrow> obj
      | Some it \<Rightarrow> cJSON_AddItemToArray obj (Some (set_cstring (Some key) it)))"

definition cJSON_AddItemToObjectCS :: "cJSON \<Rightarrow> string \<Rightarrow> cJSON option \<Rightarrow> cJSON" where
  "cJSON_AddItemToObjectCS obj key item =
     (case item of
        None \<Rightarrow> obj
      | Some it \<Rightarrow>
          let it = set_cstring (Some key) it
          in cJSON_AddItemToArray obj (Some (set_ctype (or (ctype it) cJSON_StringIsConst) it)))"

section \<open>Detaching, inserting and replacing items\<close>

definition cJSON_DetachItemFromArray :: "cJSON \<Rightarrow> int \<Rightarrow> cJSON option \<times> cJSON" where
  "cJSON_DetachItemFromArray array which =
     (let i = nat which; ch = child array
      in if i < length ch then (Some (ch ! i), set_child (take i ch @ drop (Suc i) ch) array)
         else (None, array))"

definition cJSON_DeleteItemFromArray :: "cJSON \<Rightarrow> int \<Rightarrow> cJSON" where
  "cJSON_DeleteItemFromArray array which = snd (cJSON_DetachItemFromArray array which)"

text \<open>The search loop of the object variants: the position of the first matching item.\<close>

fun find_index :: "string \<Rightarrow> cJSON list \<Rightarrow> nat \<Rightarrow> nat option" where
  "find_index key [] i = None"
| "find_index key (c # cs) i =
     (if cJSON_strcasecmp (cstring c) (Some key) = 0 then Some i else find_index key cs (Suc i))"

definition cJSON_DetachItemFromObject :: "cJSON \<Rightarrow> string \<Rightarrow> cJSON option \<times> cJSON" where
  "cJSON_DetachItemFromObject obj key =
     (case find_index key (child obj) 0 of
        Some i \<Rightarrow> cJSON_DetachItemFromArray obj (int i)
      | None \<Rightarrow> (None, obj))"

definition cJSON_DeleteItemFromObject :: "cJSON \<Rightarrow> string \<Rightarrow> cJSON" where
  "cJSON_DeleteItemFromObject obj key = snd (cJSON_DetachItemFromObject obj key)"

definition cJSON_InsertItemInArray :: "cJSON \<Rightarrow> int \<Rightarrow> cJSON \<Rightarrow> cJSON" where
  "cJSON_InsertItemInArray array which newitem =
     (let i = nat which; ch = child array
      in if i < length ch then set_child (take i ch @ newitem # drop i ch) array
         else cJSON_AddItemToArray array (Some newitem))"

definition cJSON_ReplaceItemInArray :: "cJSON \<Rightarrow> int \<Rightarrow> cJSON \<Rightarrow> cJSON" where
  "cJSON_ReplaceItemInArray array which newitem =
     (let i = nat which; ch = child array
      in if i < length ch then set_child (take i ch @ newitem # drop (Suc i) ch) array
         else array)"

definition cJSON_ReplaceItemInObject :: "cJSON \<Rightarrow> string \<Rightarrow> cJSON \<Rightarrow> cJSON" where
  "cJSON_ReplaceItemInObject obj key newitem =
     (case find_index key (child obj) 0 of
        Some i \<Rightarrow> cJSON_ReplaceItemInArray obj (int i) (set_cstring (Some key) newitem)
      | None \<Rightarrow> obj)"

section \<open>Creating items\<close>

definition cJSON_CreateNull :: cJSON where
  "cJSON_CreateNull = set_ctype cJSON_NULL cJSON_New_Item"
definition cJSON_CreateTrue :: cJSON where
  "cJSON_CreateTrue = set_ctype cJSON_True cJSON_New_Item"
definition cJSON_CreateFalse :: cJSON where
  "cJSON_CreateFalse = set_ctype cJSON_False cJSON_New_Item"
definition cJSON_CreateBool :: "int \<Rightarrow> cJSON" where
  "cJSON_CreateBool b = set_ctype (if b \<noteq> 0 then cJSON_True else cJSON_False) cJSON_New_Item"
definition cJSON_CreateString :: "string \<Rightarrow> cJSON" where
  "cJSON_CreateString s = set_valuestring (Some s) (set_ctype cJSON_String cJSON_New_Item)"
definition cJSON_CreateArray :: cJSON where
  "cJSON_CreateArray = set_ctype cJSON_Array cJSON_New_Item"
definition cJSON_CreateObject :: cJSON where
  "cJSON_CreateObject = set_ctype cJSON_Object cJSON_New_Item"

definition cJSON_CreateNumber :: "double \<Rightarrow> cJSON c" where
  "cJSON_CreateNumber num =
     bind_c (int_of_double num) (\<lambda>k.
       Inr (set_valueint k (set_valuedouble num (set_ctype cJSON_Number cJSON_New_Item))))"

definition cJSON_CreateUInt8 :: "double \<Rightarrow> cJSON c" where
  "cJSON_CreateUInt8 num =
     bind_c (uint8_of_double num) (\<lambda>k.
       Inr (set_valueuint8 k (set_valuedouble num (set_ctype cJSON_Number cJSON_New_Item))))"

definition cJSON_CreateUInt16 :: "double \<Rightarrow> cJSON c" where
  "cJSON_CreateUInt16 num =
     bind_c (uint16_of_double num) (\<lambda>k.
       Inr (set_valueuint16 k (set_valuedouble num (set_ctype cJSON_Number cJSON_New_Item))))"

text \<open>
  The loop of the array constructors: \<open>n\<close> more elements are read from the buffer, each made an
  item and linked behind the one before it.
\<close>

fun create_items :: "('a \<Rightarrow> cJSON c) \<Rightarrow> 'a list \<Rightarrow> nat \<Rightarrow> cJSON list c" where
  "create_items mk numbers 0 = Inr []"
| "create_items mk [] (Suc n) = Inl OutOfBounds"
| "create_items mk (x # numbers) (Suc n) =
     bind_c (mk x) (\<lambda>it. bind_c (create_items mk numbers n) (\<lambda>its. Inr (it # its)))"

definition create_array :: "('a \<Rightarrow> cJSON c) \<Rightarrow> 'a list \<Rightarrow> int \<Rightarrow> cJSON c" where
  "create_array mk numbers count =
     bind_c (create_items mk numbers (nat count)) (\<lambda>its. Inr (set_child its cJSON_CreateArray))"

definition cJSON_CreateUInt8Array :: "u8 list \<Rightarrow> int \<Rightarrow> cJSON c" where
  "cJSON_CreateUInt8Array = create_array (\<lambda>x. cJSON_CreateUInt8 (double_of_int (uint x)))"
definition cJSON_CreateUInt16Array :: "u16 list \<Rightarrow> int \<Rightarrow> cJSON c" where
  "cJSON_CreateUInt16Array = create_array (\<lambda>x. cJSON_CreateUInt16 (double_of_int (uint x)))"
definition cJSON_CreateIntArray :: "int list \<Rightarrow> int \<Rightarrow> cJSON c" where
  "cJSON_CreateIntArray = create_array (\<lambda>x. cJSON_CreateNumber (double_of_int x))"
text \<open>A \<open>float\<close> is one of the doubles, and its conversion to \<open>double\<close> is exact.\<close>

definition cJSON_CreateFloatArray :: "double list \<Rightarrow> int \<Rightarrow> cJSON c" where
  "cJSON_CreateFloatArray = create_array cJSON_CreateNumber"
definition cJSON_CreateDoubleArray :: "double list \<Rightarrow> int \<Rightarrow> cJSON c" where
  "cJSON_CreateDoubleArray = create_array cJSON_CreateNumber"
definition cJSON_CreateStringArray :: "string list \<Rightarrow> int \<Rightarrow> cJSON c" where
  "cJSON_CreateStringArray = create_array (\<lambda>s. Inr (cJSON_CreateString s))"

text \<open>The macros.\<close>

definition cJSON_AddNullToObject :: "cJSON \<Rightarrow> string \<Rightarrow> cJSON" where
  "cJSON_AddNullToObject obj name = cJSON_AddItemToObject obj name (Some cJSON_CreateNull)"

definition cJSON_AddTrueToObject :: "cJSON \<Rightarrow> string \<Rightarrow> cJSON" where
  "cJSON_AddTrueToObject obj name = cJSON_AddItemToObject obj name (Some cJSON_CreateTrue)"

definition cJSON_AddFalseToObject :: "cJSON \<Rightarrow> string \<Rightarrow> cJSON" where
  "cJSON_AddFalseToObject obj name = cJSON_AddItemToObject obj name (Some cJSON_CreateFalse)"

definition cJSON_AddBoolToObject :: "cJSON \<Rightarrow> string \<Rightarrow> int \<Rightarrow> cJSON" where
  "cJSON_AddBoolToObject obj name b = cJSON_AddItemToObject obj name (Some (cJSON_CreateBool b))"

definition cJSON_SetNumberValue :: "cJSON option \<Rightarrow> double \<Rightarrow> cJSON option c" where
  "cJSON_SetNumberValue object val =
     (case object of
        None \<Rightarrow> Inr None
      | Some it \<Rightarrow> bind_c (int_of_double val) (\<lambda>i. Inr (Some (set_valueint i (set_valuedouble val it)))))"

definition cJSON_SetIntValue :: "cJSON option \<Rightarrow> int \<Rightarrow> cJSON option c" where
  "cJSON_SetIntValue object val = cJSON_SetNumberValue object (double_of_int val)"

definition cJSON_AddNumberToObject :: "cJSON \<Rightarrow> string \<Rightarrow> double \<Rightarrow> cJSON c" where
  "cJSON_AddNumberToObject obj name n =
     bind_c (cJSON_CreateNumber n) (\<lambda>it. Inr (cJSON_AddItemToObject obj name (Some it)))"

definition cJSON_AddStringToObject :: "cJSON \<Rightarrow> string \<Rightarrow> string \<Rightarrow> cJSON" where
  "cJSON_AddStringToObject obj name s =
     cJSON_AddItemToObject obj name (Some (cJSON_CreateString s))"

section \<open>Duplication\<close>

fun cJSON_Duplicate_item :: "cJSON \<Rightarrow> bool \<Rightarrow> cJSON" where
  "cJSON_Duplicate_item (CJSON t vs u8 u16 vi vd s ch) recurse =
     CJSON (and t (not cJSON_IsReference)) vs 0 0 vi vd s
       (if recurse then map (\<lambda>c. cJSON_Duplicate_item c True) ch else [])"

definition cJSON_Duplicate :: "cJSON option \<Rightarrow> bool \<Rightarrow> cJSON option" where
  "cJSON_Duplicate item recurse = map_option (\<lambda>it. cJSON_Duplicate_item it recurse) item"

end
