(* ===== verification/CJsonParse.thy ===== *)
theory CJsonParse imports CJson begin

text \<open>
  The parser of \<open>json/cJSON.c\<close>. A pointer into the text is the suffix it points to; the text ends
  at its NUL, so \<open>peek\<close> of the empty suffix is NUL and a read behind it is a fault. Each function
  takes the item it populates, as in the code, and returns one of
  \<^item> \<open>POk item rest\<close>: the populated item and the returned pointer;
  \<^item> \<open>PFail ep\<close>: the returned NULL, with the error pointer stored through \<open>ep\<close>, if any;
  \<^item> \<open>PFault f\<close>: undefined behaviour;
  \<^item> \<open>PFuel\<close>: the recursion bound of the model was too small. \<open>cJSON_ParseWithOpts\<close> starts with
    a bound for which this never happens (proved below), so the bound is no limit of the parser.
\<close>

datatype 'a presult = PFault fault | PFail "string option" | PFuel | POk 'a string

definition pbind :: "'a presult \<Rightarrow> ('a \<Rightarrow> string \<Rightarrow> 'b presult) \<Rightarrow> 'b presult" where
  "pbind r f =
     (case r of POk x s \<Rightarrow> f x s | PFail ep \<Rightarrow> PFail ep | PFault e \<Rightarrow> PFault e | PFuel \<Rightarrow> PFuel)"

lemma pbind_simps [simp]:
  "pbind (POk x s) f = f x s" "pbind (PFail ep) f = PFail ep"
  "pbind (PFault e) f = PFault e" "pbind PFuel f = PFuel"
  by (simp_all add: pbind_def)

lemma pbind_eq_POk: "pbind r f = POk y t \<longleftrightarrow> (\<exists>x s. r = POk x s \<and> f x s = POk y t)"
  by (cases r) simp_all

lemma pbind_eq_PFuel: "pbind r f = PFuel \<longleftrightarrow> r = PFuel \<or> (\<exists>x s. r = POk x s \<and> f x s = PFuel)"
  by (cases r) simp_all

definition pfault :: "'a c \<Rightarrow> ('a \<Rightarrow> 'b presult) \<Rightarrow> 'b presult" where
  "pfault m f = (case m of Inl e \<Rightarrow> PFault e | Inr x \<Rightarrow> f x)"

lemma pfault_simps [simp]: "pfault (Inl e) f = PFault e" "pfault (Inr x) f = f x"
  by (simp_all add: pfault_def)

section \<open>White space\<close>

fun skip :: "string \<Rightarrow> string" where
  "skip [] = []"
| "skip (c # s) = (if c \<noteq> NUL \<and> byte c \<le> 32 then skip s else c # s)"

section \<open>Numbers\<close>

fun number_digits :: "double \<Rightarrow> string \<Rightarrow> double \<times> string" where
  "number_digits n [] = (n, [])"
| "number_digits n (c # s) =
     (if is_digit c then number_digits (dadd (dmul n (DFin 10)) (double_of_int (digit_val c))) s
      else (n, c # s))"

fun number_fraction :: "double \<Rightarrow> int \<Rightarrow> string \<Rightarrow> double \<times> int \<times> string" where
  "number_fraction n scale [] = (n, scale, [])"
| "number_fraction n scale (c # s) =
     (if is_digit c
      then number_fraction (dadd (dmul n (DFin 10)) (double_of_int (digit_val c))) (scale - 1) s
      else (n, scale, c # s))"

fun number_exponent :: "int \<Rightarrow> string \<Rightarrow> (int \<times> string) c" where
  "number_exponent subscale [] = Inr (subscale, [])"
| "number_exponent subscale (c # s) =
     (if is_digit c
      then bind_c (int_result (subscale * 10)) (\<lambda>x.
             bind_c (int_result (x + digit_val c)) (\<lambda>y. number_exponent y s))
      else Inr (subscale, c # s))"

text \<open>The phases of \<open>parse_number\<close>: sign, integer part, fraction, exponent.\<close>

definition number_sign :: "string \<Rightarrow> double \<times> string" where
  "number_sign num = (if peek num = CHR ''-'' then (DFin (- 1), tl num) else (DFin 1, num))"

definition number_integer :: "string \<Rightarrow> double \<times> string" where
  "number_integer num =
     (let num = (if peek num = CHR ''0'' then tl num else num)
      in if is_digit (peek num) \<and> peek num \<noteq> CHR ''0'' then number_digits (DFin 0) num
         else (DFin 0, num))"

definition number_scale :: "double \<Rightarrow> string \<Rightarrow> double \<times> int \<times> string" where
  "number_scale n num =
     (if peek num = CHR ''.'' \<and> is_digit (peek (tl num)) then number_fraction n 0 (tl num)
      else (n, 0, num))"

definition number_exp :: "string \<Rightarrow> (int \<times> string) c" where
  "number_exp num =
     (if peek num = CHR ''e'' \<or> peek num = CHR ''E''
      then let num = tl num;
               (signsubscale, num) =
                 (if peek num = CHR ''+'' then (1, tl num)
                  else if peek num = CHR ''-'' then (- 1, tl num) else (1, num))
           in bind_c (number_exponent 0 num) (\<lambda>(subscale, num).
                Inr (subscale * signsubscale, num))
      else Inr (0, num))"

definition parse_number :: "cJSON \<Rightarrow> string \<Rightarrow> cJSON presult" where
  "parse_number item num =
     (let (sign, num) = number_sign num;
          (n, num) = number_integer num;
          (n, scale, num) = number_scale n num
      in pfault (number_exp num) (\<lambda>(exponent, num).
           let v = dmul (dmul sign n) (pow10 (scale + exponent))
           in pfault (int_of_double v) (\<lambda>k.
                POk (set_ctype cJSON_Number (set_valueint k (set_valuedouble v item))) num)))"

section \<open>Strings\<close>

definition hex_val :: "char \<Rightarrow> u32 option" where
  "hex_val c =
     (let b = byte c
      in if 48 \<le> b \<and> b \<le> 57 then Some (of_nat (b - 48))
         else if 65 \<le> b \<and> b \<le> 70 then Some (of_nat (10 + (b - 65)))
         else if 97 \<le> b \<and> b \<le> 102 then Some (of_nat (10 + (b - 97)))
         else None)"

fun hex_steps :: "nat \<Rightarrow> u32 \<Rightarrow> string \<Rightarrow> u32" where
  "hex_steps 0 h s = h"
| "hex_steps (Suc n) h s =
     (case hex_val (peek s) of
        None \<Rightarrow> 0
      | Some v \<Rightarrow> hex_steps n (push_bit 4 h + v) (tl s))"

definition parse_hex4 :: "string \<Rightarrow> u32" where
  "parse_hex4 str = hex_steps 4 0 str"

text \<open>
  The fall-through \<open>switch (len)\<close> that writes the UTF-8 bytes from the last to the first:
  continuation bytes while \<open>len > 1\<close>, then the first byte with its mark.
\<close>

definition firstByteMark :: "nat \<Rightarrow> u32" where
  "firstByteMark len = [0x00, 0x00, 0xC0, 0xE0, 0xF0, 0xF8, 0xFC] ! len"

definition char_of_u32 :: "u32 \<Rightarrow> char" where
  "char_of_u32 w = char_of (unat w)"

fun utf8_switch :: "nat \<Rightarrow> u32 \<Rightarrow> string \<Rightarrow> u32 \<times> string" where
  "utf8_switch 0 uc out = (uc, out)"
| "utf8_switch (Suc n) uc out =
     utf8_switch n (drop_bit 6 uc) (char_of_u32 (and (or uc 0x80) 0xBF) # out)"

definition utf8_len :: "u32 \<Rightarrow> nat" where
  "utf8_len uc = (if uc < 0x80 then 1 else if uc < 0x800 then 2 else if uc < 0x10000 then 3 else 4)"

definition utf8_bytes :: "u32 \<Rightarrow> string" where
  "utf8_bytes uc =
     (let len = utf8_len uc; (uc, out) = utf8_switch (len - 1) uc []
      in char_of_u32 (or uc (firstByteMark len)) # out)"

text \<open>
  The first loop: \<open>len\<close> counts the characters, an escaped one as one, and \<open>off\<close> is the distance
  of \<open>end_ptr\<close> from the first character. A backslash before the NUL moves \<open>end_ptr\<close> behind it.
\<close>

fun scan_string :: "string \<Rightarrow> nat \<Rightarrow> nat \<Rightarrow> (nat \<times> nat) c" where
  "scan_string [] len off = Inr (len, off)"
| "scan_string (c # s) len off =
     (if c = CHR 0x22 then Inr (len, off)
      else if c = CHR 0x5C
      then (case s of [] \<Rightarrow> Inl OutOfBounds | _ # s' \<Rightarrow> scan_string s' (len + 1) (off + 2))
      else scan_string s (len + 1) (off + 1))"

definition simple_escape :: "char \<Rightarrow> char" where
  "simple_escape e =
     (if e = CHR ''b'' then CHR 0x08 else if e = CHR ''f'' then CHR 0x0C
      else if e = CHR ''n'' then CHR 0x0A else if e = CHR ''r'' then CHR 0x0D
      else if e = CHR ''t'' then CHR 0x09 else e)"

text \<open>
  The second loop, with \<open>n = end_ptr - ptr\<close> (zero once \<open>ptr\<close> has reached \<open>end_ptr\<close>) and the
  characters written so far. \<open>start\<close> is the beginning of the string, where errors point.
\<close>

fun decode_string :: "string \<Rightarrow> string \<Rightarrow> nat \<Rightarrow> string \<Rightarrow> string presult" where
  "decode_string start s n out =
     (if n = 0 then POk out s
      else case s of
        [] \<Rightarrow> PFault OutOfBounds
      | c # s1 \<Rightarrow>
          if c \<noteq> CHR 0x5C then decode_string start s1 (n - 1) (out @ [c])
          else case s1 of
            [] \<Rightarrow> PFault OutOfBounds
          | e # s2 \<Rightarrow>
              if e \<noteq> CHR ''u'' then decode_string start s2 (n - 2) (out @ [simple_escape e])
              else
                let uc = parse_hex4 s2; p = drop 4 s1
                in if n \<le> 5 then PFail (Some start)
                   else if 0xDC00 \<le> uc \<and> uc \<le> 0xDFFF \<or> uc = 0 then PFail (Some start)
                   else if 0xD800 \<le> uc \<and> uc \<le> 0xDBFF
                   then if n - 5 < 6 then PFail (Some start)
                        else if peek (drop 1 p) \<noteq> CHR 0x5C \<or> peek (drop 2 p) \<noteq> CHR ''u''
                        then PFail (Some start)
                        else
                          let uc2 = parse_hex4 (drop 3 p)
                          in if uc2 < 0xDC00 \<or> 0xDFFF < uc2 then PFail (Some start)
                             else decode_string start (drop 7 p) (n - 12)
                                    (out @ utf8_bytes (0x10000 +
                                       or (push_bit 10 (and uc 0x3FF)) (and uc2 0x3FF)))
                   else decode_string start (drop 1 p) (n - 6) (out @ utf8_bytes uc))"

declare decode_string.simps [simp del]

definition parse_string :: "cJSON \<Rightarrow> string \<Rightarrow> cJSON presult" where
  "parse_string item str =
     (if peek str \<noteq> CHR 0x22 then PFail (Some str)
      else pfault (scan_string (tl str) 0 0) (\<lambda>(len, off).
        pbind (decode_string str (tl str) off []) (\<lambda>out ptr.
          POk (set_valuestring (Some out) (set_ctype cJSON_String item))
              (if peek ptr = CHR 0x22 then tl ptr else ptr))))"

section \<open>Values, arrays and objects\<close>

function (sequential) parse_value :: "nat \<Rightarrow> cJSON \<Rightarrow> string \<Rightarrow> cJSON presult"
  and parse_array :: "nat \<Rightarrow> cJSON \<Rightarrow> string \<Rightarrow> cJSON presult"
  and array_loop :: "nat \<Rightarrow> cJSON \<Rightarrow> cJSON list \<Rightarrow> string \<Rightarrow> cJSON presult"
  and parse_object :: "nat \<Rightarrow> cJSON \<Rightarrow> string \<Rightarrow> cJSON presult"
  and object_loop :: "nat \<Rightarrow> cJSON \<Rightarrow> cJSON list \<Rightarrow> string \<Rightarrow> cJSON presult"
  and parse_member :: "nat \<Rightarrow> string \<Rightarrow> cJSON presult" where
  "parse_value 0 item value = PFuel"
| "parse_value (Suc n) item value =
     (if take 4 value = ''null'' then POk (set_ctype cJSON_NULL item) (drop 4 value)
      else if take 5 value = ''false'' then POk (set_ctype cJSON_False item) (drop 5 value)
      else if take 4 value = ''true''
      then POk (set_valueint 1 (set_ctype cJSON_True item)) (drop 4 value)
      else if peek value = CHR 0x22 then parse_string item value
      else if peek value = CHR ''-'' \<or> is_digit (peek value) then parse_number item value
      else if peek value = CHR ''['' then parse_array n item value
      else if peek value = CHR ''{'' then parse_object n item value
      else PFail (Some value))"
| "parse_array 0 item value = PFuel"
| "parse_array (Suc n) item value =
     (if peek value \<noteq> CHR ''['' then PFail (Some value)
      else
        let item = set_ctype cJSON_Array item; value = skip (tl value)
        in if peek value = CHR '']'' then POk item (tl value)
           else pbind (parse_value n cJSON_New_Item (skip value)) (\<lambda>ch rest.
                  array_loop n item [ch] (skip rest)))"
| "array_loop 0 item chs value = PFuel"
| "array_loop (Suc n) item chs value =
     (if peek value = CHR '',''
      then pbind (parse_value n cJSON_New_Item (skip (tl value))) (\<lambda>ch rest.
             array_loop n item (chs @ [ch]) (skip rest))
      else if peek value = CHR '']'' then POk (set_child chs item) (tl value)
      else PFail (Some value))"
| "parse_object 0 item value = PFuel"
| "parse_object (Suc n) item value =
     (if peek value \<noteq> CHR ''{'' then PFail (Some value)
      else
        let item = set_ctype cJSON_Object item; value = skip (tl value)
        in if peek value = CHR ''}'' then POk item (tl value)
           else pbind (parse_member n (skip value)) (\<lambda>ch rest.
                  object_loop n item [ch] rest))"
| "object_loop 0 item chs value = PFuel"
| "object_loop (Suc n) item chs value =
     (if peek value = CHR '',''
      then pbind (parse_member n (skip (tl value))) (\<lambda>ch rest.
             object_loop n item (chs @ [ch]) rest)
      else if peek value = CHR ''}'' then POk (set_child chs item) (tl value)
      else PFail (Some value))"
| "parse_member 0 value = PFuel"
| "parse_member (Suc n) value =
     pbind (parse_string cJSON_New_Item value) (\<lambda>ch rest.
       let value = skip rest;
           ch = set_valuestring None (set_cstring (valuestring ch) ch)
       in if peek value \<noteq> CHR '':'' then PFail (Some value)
          else pbind (parse_value n ch (skip (tl value))) (\<lambda>ch rest. POk ch (skip rest)))"
  by pat_completeness auto
termination
  by (relation "measure (case_sum (case_sum fst (case_sum fst fst)) (case_sum fst (case_sum fst fst)))") auto

definition parse_fuel :: "string \<Rightarrow> nat" where
  "parse_fuel s = 2 * length s + 2"

text \<open>
  \<open>cJSON_ParseWithOpts\<close>: the root item or NULL, and the pointer stored for the caller (the error
  or, after a success with \<open>return_parse_end\<close>, the end of the text consumed).
\<close>

definition cJSON_ParseWithOpts ::
  "string option \<Rightarrow> bool \<Rightarrow> bool \<Rightarrow> (cJSON option \<times> string option) c" where
  "cJSON_ParseWithOpts value return_parse_end require_null_terminated =
     (case value of
        None \<Rightarrow> Inr (None, None)
      | Some text \<Rightarrow>
          (case parse_value (parse_fuel text) cJSON_New_Item (skip text) of
             PFault e \<Rightarrow> Inl e
           | PFuel \<Rightarrow> Inr (None, None)
           | PFail ep \<Rightarrow> Inr (None, ep)
           | POk it end \<Rightarrow>
               let end = (if require_null_terminated then skip end else end)
               in if require_null_terminated \<and> peek end \<noteq> NUL then Inr (None, Some end)
                  else Inr (Some it, if return_parse_end then Some end else None)))"

definition cJSON_Parse :: "string \<Rightarrow> cJSON option c" where
  "cJSON_Parse value = bind_c (cJSON_ParseWithOpts (Some value) False False) (\<lambda>(it, ep). Inr it)"

section \<open>The recursion bound is never reached\<close>

lemma length_skip: "length (skip s) \<le> length s"
  by (induction s) auto

lemma length_skip_tl: "s \<noteq> [] \<Longrightarrow> length (skip (tl s)) < length s"
  using length_skip [of "tl s"] by (cases s) auto

lemma peek_ne_NUL: "peek s = c \<Longrightarrow> c \<noteq> NUL \<Longrightarrow> s \<noteq> []"
  by (cases s) auto

lemma number_digits_length: "number_digits n s = (m, t) \<Longrightarrow> length t \<le> length s"
  by (induction n s rule: number_digits.induct) (auto split: if_splits)

lemma number_fraction_length: "number_fraction n k s = (m, j, t) \<Longrightarrow> length t \<le> length s"
  by (induction n k s rule: number_fraction.induct) (auto split: if_splits)

lemma number_exponent_length: "number_exponent k s = Inr (j, t) \<Longrightarrow> length t \<le> length s"
proof (induction k s rule: number_exponent.induct)
  case (2 k c s)
  then show ?case by (auto simp: bind_c_eq_Inr split: if_splits)
qed simp

lemma scan_string_bound:
  "scan_string s l k = Inr (len, off) \<Longrightarrow> k \<le> off \<and> off - k \<le> length s"
proof (induction s l k rule: scan_string.induct)
  case (2 c s l k)
  then show ?case by (auto split: if_splits list.splits)
qed simp

lemma surrogate_gap: "56319 < x \<Longrightarrow> 56320 \<le> x" for x :: u32
  by (simp add: word_less_nat_alt word_le_nat_alt)

text \<open>One round of the decoding loop, by the kind of character it consumes.\<close>

lemma decode_string_cases:
  assumes "decode_string st s n out = POk t r" and "n \<noteq> 0"
  obtains (plain) c s1 where "s = c # s1" "c \<noteq> CHR 0x5C"
      "decode_string st s1 (n - 1) (out @ [c]) = POk t r"
    | (escape) e s2 where "s = CHR 0x5C # e # s2" "e \<noteq> CHR ''u''"
      "decode_string st s2 (n - 2) (out @ [simple_escape e]) = POk t r"
    | (unicode) s2 where "s = CHR 0x5C # CHR ''u'' # s2" "5 < n" "parse_hex4 s2 \<noteq> 0"
      "parse_hex4 s2 < 0xD800 \<or> 0xDFFF < parse_hex4 s2"
      "decode_string st (drop 4 s2) (n - 6) (out @ utf8_bytes (parse_hex4 s2)) = POk t r"
    | (surrogate) s2 where "s = CHR 0x5C # CHR ''u'' # s2" "10 < n" "parse_hex4 s2 \<noteq> 0"
      "0xD800 \<le> parse_hex4 s2" "parse_hex4 s2 \<le> 0xDBFF"
      "peek (drop 4 s2) = CHR 0x5C" "peek (drop 5 s2) = CHR ''u''"
      "0xDC00 \<le> parse_hex4 (drop 6 s2)" "parse_hex4 (drop 6 s2) \<le> 0xDFFF"
      "decode_string st (drop 10 s2) (n - 12) (out @ utf8_bytes (0x10000 +
         or (push_bit 10 (and (parse_hex4 s2) 0x3FF)) (and (parse_hex4 (drop 6 s2)) 0x3FF)))
       = POk t r"
proof -
  note prem = assms(1) [unfolded decode_string.simps [of st s n out]]
  consider "s = []" | c where "s = [c]" | c e s2 where "s = c # e # s2"
    by (metis list.exhaust)
  then show ?thesis
  proof cases
    case 3
    show ?thesis
    proof (cases "c = CHR 0x5C \<and> e = CHR ''u''")
      case True
      let ?uc = "parse_hex4 s2"
      show ?thesis
      proof (cases "0xD800 \<le> ?uc \<and> ?uc \<le> 0xDBFF")
        case sur: True
        show ?thesis using prem assms(2) 3 True sur
          by (intro surrogate [of s2]) (auto simp: Let_def not_less split: if_splits)
      next
        case False
        then show ?thesis using prem assms(2) 3 True
          by (intro unicode [of s2])
            (auto simp: Let_def not_le split: if_splits dest: surrogate_gap)
      qed
    next
      case False
      then show ?thesis using prem assms(2) 3 plain [of c "e # s2"] escape [of e s2]
        by (auto split: if_splits)
    qed
  qed (use prem assms(2) plain in \<open>auto split: if_splits\<close>)
qed

lemma decode_string_length: "decode_string st s n out = POk t r \<Longrightarrow> length r \<le> length s"
proof (induction n arbitrary: s out rule: less_induct)
  case (less n)
  show ?case
  proof (cases "n = 0")
    case True
    with less.prems show ?thesis by (simp add: decode_string.simps [of st s 0 out])
  next
    case False
    from less.prems False show ?thesis
      by (cases rule: decode_string_cases) (use False in \<open>auto dest!: less.IH [rotated]\<close>)+
  qed
qed

lemma parse_string_length: "parse_string item s = POk it t \<Longrightarrow> length t < length s"
  by (cases s) (auto simp: parse_string_def pbind_eq_POk pfault_def split: if_splits sum.splits
      dest!: decode_string_length)

lemma length_tl_less: "s \<noteq> [] \<Longrightarrow> length (tl s) < length s"
  by (cases s) auto

lemma number_sign_length: "number_sign s = (a, t) \<Longrightarrow> length t \<le> length s"
  by (cases s) (auto simp: number_sign_def split: if_splits)

lemma number_integer_length: "number_integer s = (n, t) \<Longrightarrow> length t \<le> length s"
  by (cases s) (auto simp: number_integer_def Let_def split: if_splits dest!: number_digits_length)

lemma number_integer_length_less:
  "number_integer s = (n, t) \<Longrightarrow> is_digit (peek s) \<Longrightarrow> length t < length s"
  by (cases s) (auto simp: number_integer_def Let_def is_digit_def split: if_splits
      dest!: number_digits_length)

lemma number_scale_length: "number_scale n s = (m, k, t) \<Longrightarrow> length t \<le> length s"
  by (cases s) (auto simp: number_scale_def split: if_splits dest!: number_fraction_length)

lemma number_exp_length: "number_exp s = Inr (k, t) \<Longrightarrow> length t \<le> length s"
  by (cases s; cases "tl s")
    (auto simp: number_exp_def bind_c_eq_Inr Let_def split: if_splits
      dest!: number_exponent_length)

lemma parse_number_length:
  assumes "parse_number item s = POk it t" and start: "peek s = CHR ''-'' \<or> is_digit (peek s)"
  shows "length t < length s"
proof -
  obtain a s1 where a: "number_sign s = (a, s1)" by fastforce
  obtain n s2 where n: "number_integer s1 = (n, s2)" by fastforce
  obtain m k s3 where m: "number_scale n s2 = (m, k, s3)" by (metis prod_cases3)
  have "length t \<le> length s3"
    using assms(1) by (auto simp: parse_number_def a n m Let_def pfault_def
        dest!: number_exp_length split: sum.splits)
  also have "\<dots> \<le> length s2" using m by (rule number_scale_length)
  also have "\<dots> < length s"
  proof (cases "peek s = CHR ''-''")
    case True
    then show ?thesis using a n number_integer_length [of s1 n s2]
      by (cases s) (auto simp: number_sign_def)
  next
    case False
    then show ?thesis using start a n number_integer_length_less [of s n s2]
      by (auto simp: number_sign_def)
  qed
  finally show ?thesis .
qed

text \<open>Every parser consumes input, and a bound of two per character is enough for it.\<close>

definition consumes :: "string \<Rightarrow> 'a presult \<Rightarrow> bool" where
  "consumes s r \<longleftrightarrow> (\<forall>x t. r = POk x t \<longrightarrow> length t < length s)"

lemma consumes_simps [simp]:
  "consumes s (PFail ep)" "consumes s (PFault f)" "consumes s PFuel"
  "consumes s (POk x t) \<longleftrightarrow> length t < length s"
  by (simp_all add: consumes_def)

lemma consumes_mono: "consumes s r \<Longrightarrow> length s \<le> length s' \<Longrightarrow> consumes s' r"
  by (auto simp: consumes_def)

lemma consumes_pbind:
  assumes "consumes s r" and "\<And>x t. r = POk x t \<Longrightarrow> length t < length s \<Longrightarrow> consumes s' (f x t)"
  shows "consumes s' (pbind r f)"
  using assms by (cases r) auto

lemma length_skip_le: "length s \<le> m \<Longrightarrow> length (skip s) \<le> m"
  using length_skip [of s] by linarith

lemma length_skip_less: "length s < m \<Longrightarrow> length (skip s) < m"
  using length_skip [of s] by linarith

lemma skip_peek_less: "peek (skip s) \<noteq> NUL \<Longrightarrow> length (tl (skip s)) < length s"
  using length_skip [of s] by (cases "skip s") auto

lemmas consumes_intros =
  consumes_pbind consumes_mono length_skip_le length_skip_less order_less_imp_le

lemma parse_consumes_all:
  "(\<forall>item s. consumes s (parse_value n item s)) \<and> (\<forall>item s. consumes s (parse_array n item s)) \<and>
   (\<forall>item chs s. consumes s (array_loop n item chs s)) \<and>
   (\<forall>item s. consumes s (parse_object n item s)) \<and>
   (\<forall>item chs s. consumes s (object_loop n item chs s)) \<and> (\<forall>s. consumes s (parse_member n s))"
proof (induction n)
  case (Suc n)
  then have val: "consumes s (parse_value n item s)"
    and arr: "consumes s (parse_array n item s)" and aloop: "consumes s (array_loop n item chs s)"
    and obj: "consumes s (parse_object n item s)" and oloop: "consumes s (object_loop n item chs s)"
    and member: "consumes s (parse_member n s)" for item chs s
    by auto
  have str: "consumes s (parse_string item s)" for item s
    using parse_string_length by (auto simp: consumes_def)
  note loops = consumes_mono [OF aloop] consumes_mono [OF oloop]
  have "consumes s (parse_value (Suc n) item s)" for item s
  proof -
    have "consumes s (parse_number item s)" if "peek s = CHR ''-'' \<or> is_digit (peek s)"
      using that parse_number_length by (auto simp: consumes_def)
    moreover have "length s - k < length s" if "take j s = c # u" "0 < k" for j k c u
      using that by (cases s) auto
    ultimately show ?thesis
      using arr [of s item] obj [of s item] str [of s item]
      unfolding parse_value.simps by simp
  qed
  moreover have "consumes s (parse_array (Suc n) item s)" for item s
    using skip_peek_less [of "tl s"] length_skip [of "tl s"] length_skip [of "skip (tl s)"]
    by (cases s)
      (auto simp: Let_def intro!: consumes_pbind [OF val] loops length_skip_le)
  moreover have "consumes s (array_loop (Suc n) item chs s)" for item chs s
    using length_skip [of "tl s"]
    by (cases s) (auto intro!: consumes_pbind [OF val] loops length_skip_le)
  moreover have "consumes s (parse_object (Suc n) item s)" for item s
    using skip_peek_less [of "tl s"] length_skip [of "tl s"] length_skip [of "skip (tl s)"]
    by (cases s) (auto simp: Let_def intro!: consumes_pbind [OF member] loops)
  moreover have "consumes s (object_loop (Suc n) item chs s)" for item chs s
    using length_skip [of "tl s"]
    by (cases s) (auto intro!: consumes_pbind [OF member] loops)
  moreover have "consumes s (parse_member (Suc n) s)" for s
    unfolding parse_member.simps
  proof (intro consumes_pbind [OF str])
    fix ch and rest :: string
    assume "length rest < length s"
    then show "consumes s (let va = skip rest;
           ch = set_valuestring None (set_cstring (valuestring ch) ch)
       in if peek va \<noteq> CHR '':'' then PFail (Some va)
          else pbind (parse_value n ch (skip (tl va))) (\<lambda>ch rest. POk ch (skip rest)))"
      using length_skip [of rest] length_skip [of "tl (skip rest)"]
      by (auto simp: Let_def intro!: consumes_pbind [OF val] length_skip_less)
  qed
  ultimately show ?case by blast
qed simp

lemma parse_value_consumes: "parse_value n item s = POk it t \<Longrightarrow> length t < length s"
  and parse_member_consumes: "parse_member n s = POk it t \<Longrightarrow> length t < length s"
  using parse_consumes_all [of n] by (auto simp: consumes_def)

definition fueled :: "'a presult \<Rightarrow> bool" where
  "fueled r \<longleftrightarrow> r \<noteq> PFuel"

lemma fueled_simps [simp]:
  "fueled (PFail ep)" "fueled (PFault f)" "fueled (POk x s)" "\<not> fueled PFuel"
  by (simp_all add: fueled_def)

lemma fueled_pbind: "fueled r \<Longrightarrow> (\<And>x t. r = POk x t \<Longrightarrow> fueled (f x t)) \<Longrightarrow> fueled (pbind r f)"
  by (cases r) auto

lemma fueled_pfault: "(\<And>x. m = Inr x \<Longrightarrow> fueled (f x)) \<Longrightarrow> fueled (pfault m f)"
  by (cases m) auto

lemma fueled_decode_string: "fueled (decode_string st s n out)"
proof (induction n arbitrary: s out rule: less_induct)
  case (less n)
  then show ?case
    by (subst decode_string.simps) (auto simp: Let_def split: list.split)
qed

lemma fueled_parse_string [simp]: "fueled (parse_string item s)"
  by (auto simp: parse_string_def fueled_decode_string intro!: fueled_pbind fueled_pfault)

lemma fueled_parse_number [simp]: "fueled (parse_number item s)"
  by (auto simp: parse_number_def Let_def intro!: fueled_pfault split: prod.split)

lemma parse_enough_fuel:
  "(\<forall>item s. 2 * length s + 2 \<le> n \<longrightarrow> fueled (parse_value n item s)) \<and>
   (\<forall>item s. 2 * length s + 1 \<le> n \<longrightarrow> fueled (parse_array n item s)) \<and>
   (\<forall>item chs s. 2 * length s + 1 \<le> n \<longrightarrow> fueled (array_loop n item chs s)) \<and>
   (\<forall>item s. 2 * length s + 1 \<le> n \<longrightarrow> fueled (parse_object n item s)) \<and>
   (\<forall>item chs s. 2 * length s + 1 \<le> n \<longrightarrow> fueled (object_loop n item chs s)) \<and>
   (\<forall>s. 2 * length s + 1 \<le> n \<longrightarrow> fueled (parse_member n s))"
proof (induction n)
  case (Suc n)
  then have val: "2 * length s + 2 \<le> n \<Longrightarrow> fueled (parse_value n item s)"
    and arr: "2 * length s + 1 \<le> n \<Longrightarrow> fueled (parse_array n item s)"
    and aloop: "2 * length s + 1 \<le> n \<Longrightarrow> fueled (array_loop n item chs s)"
    and obj: "2 * length s + 1 \<le> n \<Longrightarrow> fueled (parse_object n item s)"
    and oloop: "2 * length s + 1 \<le> n \<Longrightarrow> fueled (object_loop n item chs s)"
    and member: "2 * length s + 1 \<le> n \<Longrightarrow> fueled (parse_member n s)" for item chs s
    by auto
  note less = parse_value_consumes [THEN length_skip_less] parse_member_consumes
  have "fueled (parse_value (Suc n) item s)" if "2 * length s + 2 \<le> Suc n" for item s
    using that arr [of s item] obj [of s item] by simp
  moreover have "fueled (parse_array (Suc n) item s)" if "2 * length s + 1 \<le> Suc n" for item s
    using that length_skip [of "tl s"] length_skip [of "skip (tl s)"]
    by (cases s) (auto simp: Let_def intro!: fueled_pbind val aloop dest!: less)
  moreover have "fueled (array_loop (Suc n) item chs s)" if "2 * length s + 1 \<le> Suc n" for item chs s
    using that length_skip [of "tl s"]
    by (cases s) (auto simp: Let_def intro!: fueled_pbind val aloop dest!: less)
  moreover have "fueled (parse_object (Suc n) item s)" if "2 * length s + 1 \<le> Suc n" for item s
    using that length_skip [of "tl s"] length_skip [of "skip (tl s)"]
    by (cases s) (auto simp: Let_def intro!: fueled_pbind member oloop dest!: less)
  moreover have "fueled (object_loop (Suc n) item chs s)" if "2 * length s + 1 \<le> Suc n" for item chs s
    using that length_skip [of "tl s"]
    by (cases s) (auto simp: Let_def intro!: fueled_pbind member oloop dest!: less)
  moreover have "fueled (parse_member (Suc n) s)" if len: "2 * length s + 1 \<le> Suc n" for s
    unfolding parse_member.simps
  proof (intro fueled_pbind)
    fix ch rest
    assume "parse_string cJSON_New_Item s = POk ch rest"
    then have "length rest < length s" by (rule parse_string_length)
    then show "fueled (let va = skip rest;
           ch = set_valuestring None (set_cstring (valuestring ch) ch)
       in if peek va \<noteq> CHR '':'' then PFail (Some va)
          else pbind (parse_value n ch (skip (tl va))) (\<lambda>ch rest. POk ch (skip rest)))"
      using len length_skip [of rest] length_skip [of "tl (skip rest)"]
        length_tl_less [of "skip rest"] peek_ne_NUL [of "skip rest"]
      by (auto simp: Let_def intro!: fueled_pbind val)
  qed simp
  ultimately show ?case by blast
qed simp

lemma parse_value_fueled: "2 * length s + 2 \<le> n \<Longrightarrow> parse_value n item s \<noteq> PFuel"
  using parse_enough_fuel [of n] by (auto simp: fueled_def)

section \<open>More fuel changes nothing\<close>

text \<open>\<open>agrees r r'\<close>: the run \<open>r\<close> ran out of fuel, or \<open>r'\<close> is the same.\<close>

definition agrees :: "'a presult \<Rightarrow> 'a presult \<Rightarrow> bool" where
  "agrees r r' \<longleftrightarrow> r = PFuel \<or> r' = r"

lemma agrees_simps [simp]: "agrees r r" "agrees PFuel r"
  by (simp_all add: agrees_def)

lemma agrees_pbind:
  "agrees r r' \<Longrightarrow> (\<And>x s. agrees (f x s) (f' x s)) \<Longrightarrow> agrees (pbind r f) (pbind r' f')"
  by (cases r) (auto simp: agrees_def)

lemma agrees_Let: "(\<And>x. agrees (f x) (f' x)) \<Longrightarrow> agrees (Let a f) (Let a f')"
  by simp

lemma agrees_if:
  "(b \<Longrightarrow> agrees r r') \<Longrightarrow> (\<not> b \<Longrightarrow> agrees q q') \<Longrightarrow> agrees (if b then r else q) (if b then r' else q')"
  by simp

lemmas agrees_intros = agrees_if agrees_Let agrees_pbind agrees_simps

definition all_agree :: "nat \<Rightarrow> nat \<Rightarrow> bool" where
  "all_agree n m \<longleftrightarrow>
     (\<forall>item s. agrees (parse_value n item s) (parse_value m item s))
     \<and> (\<forall>item s. agrees (parse_array n item s) (parse_array m item s))
     \<and> (\<forall>item chs s. agrees (array_loop n item chs s) (array_loop m item chs s))
     \<and> (\<forall>item s. agrees (parse_object n item s) (parse_object m item s))
     \<and> (\<forall>item chs s. agrees (object_loop n item chs s) (object_loop m item chs s))
     \<and> (\<forall>s. agrees (parse_member n s) (parse_member m s))"

lemma all_agreeD:
  assumes "all_agree n m"
  shows "agrees (parse_value n item s) (parse_value m item s)"
    "agrees (parse_array n item s) (parse_array m item s)"
    "agrees (array_loop n item chs s) (array_loop m item chs s)"
    "agrees (parse_object n item s) (parse_object m item s)"
    "agrees (object_loop n item chs s) (object_loop m item chs s)"
    "agrees (parse_member n s) (parse_member m s)"
  using assms by (simp_all add: all_agree_def)

lemma all_agree_step: "all_agree n m \<Longrightarrow> all_agree (Suc n) (Suc m)"
  unfolding all_agree_def [of "Suc n"]
    parse_value.simps parse_array.simps array_loop.simps parse_object.simps object_loop.simps
    parse_member.simps
  by (intro conjI allI; intro agrees_intros all_agreeD; assumption)

lemma all_agree_Suc: "all_agree n (Suc n)"
  by (induction n) (simp add: all_agree_def, rule all_agree_step)

lemma parse_value_more:
  "parse_value n item s \<noteq> PFuel \<Longrightarrow> parse_value (n + k) item s = parse_value n item s"
proof (induction k)
  case (Suc k)
  have "agrees (parse_value (n + k) item s) (parse_value (Suc (n + k)) item s)"
    by (rule all_agreeD(1)) (rule all_agree_Suc)
  then show ?case using Suc by (simp only: agrees_def add_Suc_right) simp
qed simp

text \<open>C11: Parsing terminates on every text: with the recursion bound the model uses, two calls per
  character and two more, the parser never runs out of it, and a larger bound gives the same result.
  So the bound is no restriction of the parser of the code.\<close>

theorem parse_terminates:
  "parse_value (parse_fuel s) item s \<noteq> PFuel
   \<and> parse_value (parse_fuel s + k) item s = parse_value (parse_fuel s) item s"
proof -
  have "parse_value (parse_fuel s) item s \<noteq> PFuel"
    by (rule parse_value_fueled) (simp add: parse_fuel_def)
  then show ?thesis using parse_value_more by blast
qed

end
