(* ===== verification/CJsonBounds.thy ===== *)
theory CJsonBounds imports CJsonParse begin

text \<open>
  Memory bounds of \<open>parse_string\<close>: the first loop counts an upper bound of the decoded length, the
  second one writes no more than that, so the buffer of \<open>len + 1\<close> bytes is never overrun. The one
  read outside the text that remains is a backslash right before the terminating NUL.
\<close>

definition plain_char :: "char \<Rightarrow> bool" where
  "plain_char c \<longleftrightarrow> c \<noteq> CHR 0x22 \<and> c \<noteq> CHR 0x5C"

lemma hex_val_plain: "hex_val c = Some v \<Longrightarrow> plain_char c \<and> c \<noteq> NUL"
  by (auto simp: hex_val_def Let_def plain_char_def split: if_splits)

lemma hex_val_NUL [simp]: "hex_val NUL = None"
  by (simp add: hex_val_def)

lemma hex_steps_plain:
  "hex_steps n h s \<noteq> 0 \<Longrightarrow> n \<le> length s \<and> (\<forall>c\<in>set (take n s). plain_char c)"
proof (induction n arbitrary: h s)
  case (Suc n)
  then obtain v where v: "hex_val (peek s) = Some v" by (cases "hex_val (peek s)") auto
  then obtain c s' where s: "s = c # s'" by (cases s) auto
  with Suc.prems v have "hex_steps n (push_bit 4 h + v) s' \<noteq> 0" by simp
  from Suc.IH [OF this] show ?case using v hex_val_plain by (auto simp: s)
qed simp

lemma scan_plain:
  "n \<le> length s \<Longrightarrow> \<forall>c\<in>set (take n s). plain_char c \<Longrightarrow>
   scan_string s l k = scan_string (drop n s) (l + n) (k + n)"
proof (induction n arbitrary: s l k)
  case (Suc n)
  then obtain c s' where s: "s = c # s'" by (cases s) auto
  then show ?case using Suc.IH [of s' "l + 1" "k + 1"] Suc.prems by (simp add: plain_char_def)
qed simp

lemma scan_hex4:
  "parse_hex4 s \<noteq> 0 \<Longrightarrow> scan_string s l k = scan_string (drop 4 s) (l + 4) (k + 4)"
  unfolding parse_hex4_def by (rule scan_plain) (use hex_steps_plain in blast)+

lemma length_utf8_switch: "length (snd (utf8_switch n uc out)) = n + length out"
  by (induction n arbitrary: uc out) simp_all

lemma length_utf8_bytes: "length (utf8_bytes uc) \<le> 4"
proof -
  obtain u out where s: "utf8_switch (utf8_len uc - 1) uc [] = (u, out)" by fastforce
  have "length out = utf8_len uc - 1" using length_utf8_switch [of "utf8_len uc - 1" uc "[]"] s by simp
  then show ?thesis using s by (simp add: utf8_bytes_def Let_def utf8_len_def)
qed

lemma peek_pair: "peek (drop n s) = c \<Longrightarrow> peek (drop (Suc n) s) = d \<Longrightarrow> c \<noteq> NUL \<Longrightarrow> d \<noteq> NUL \<Longrightarrow>
    drop n s = c # d # drop (Suc (Suc n)) s"
proof -
  assume p: "peek (drop n s) = c" "peek (drop (Suc n) s) = d" "c \<noteq> NUL" "d \<noteq> NUL"
  obtain t where t: "drop n s = c # t" using p(1,3) by (cases "drop n s") auto
  have "drop (Suc n) s = t" using arg_cong [OF t, of tl] by (simp add: drop_Suc tl_drop)
  then obtain u where u: "t = d # u" using p(2,4) by (cases t) auto
  then have "drop (Suc (Suc n)) s = u"
    using arg_cong [OF \<open>drop (Suc n) s = t\<close>, of tl] by (simp add: drop_Suc tl_drop)
  with t u show ?thesis by simp
qed

lemma scan_off: "scan_string s l k = Inr (len, off) \<Longrightarrow> k \<le> off"
  using scan_string_bound by blast

lemma scan_len: "scan_string s l k = Inr (len, off) \<Longrightarrow> l \<le> len"
proof (induction s l k rule: scan_string.induct)
  case (2 c s l k)
  consider "c = CHR 0x22" | "c = CHR 0x5C" | "c \<noteq> CHR 0x22" "c \<noteq> CHR 0x5C" by blast
  then show ?case
  proof cases
    case 2
    then obtain e s' where "s = e # s'" using "2.prems" by (cases s) auto
    then show ?thesis using "2.IH"(1) "2.prems" 2 by simp
  next
    case 3
    then show ?thesis using "2.IH"(2) "2.prems" by simp
  qed (use "2.prems" in simp)
qed simp

lemma scan_unicode:
  "parse_hex4 s \<noteq> 0 \<Longrightarrow>
   scan_string (CHR 0x5C # CHR ''u'' # s) l k = scan_string (drop 4 s) (5 + l) (6 + k)"
  using scan_hex4 [of s "Suc l" "Suc (Suc k)"] by (simp add: eval_nat_numeral)

lemma decode_fits:
  "scan_string s l k = Inr (len, off) \<Longrightarrow> n = off - k \<Longrightarrow> decode_string st s n out = POk t r \<Longrightarrow>
   length t + l \<le> len + length out"
proof (induction n arbitrary: s l k out rule: less_induct)
  case (less n)
  show ?case
  proof (cases "n = 0")
    case True
    then show ?thesis using less.prems scan_len by (simp add: decode_string.simps [of st s 0 out])
  next
    case False
    then have off: "k < off" using less.prems(2) by simp
    from less.prems(3) False show ?thesis
    proof (cases rule: decode_string_cases)
      case (plain c s1)
      then have "scan_string s1 (l + 1) (k + 1) = Inr (len, off)"
        using less.prems(1) off by (auto split: if_splits)
      from less.IH [OF _ this _ plain(3)] show ?thesis using less.prems(2) False by simp
    next
      case (escape e s2)
      then have sc: "scan_string s2 (l + 1) (k + 2) = Inr (len, off)" using less.prems(1) by simp
      from less.IH [OF _ sc _ escape(3)] show ?thesis using less.prems(2) False by simp
    next
      case (unicode s2)
      then have sc: "scan_string (drop 4 s2) (5 + l) (6 + k) = Inr (len, off)"
        using scan_unicode [OF unicode(3), of l k] less.prems(1) by simp
      have n: "n - 6 < n" "n - 6 = off - (6 + k)" using less.prems(2) False by linarith+
      from less.IH [OF n(1) sc n(2) unicode(5)] show ?thesis
        using length_utf8_bytes [of "parse_hex4 s2"] by simp
    next
      case (surrogate s2)
      then have "scan_string (drop 4 s2) (5 + l) (6 + k) = Inr (len, off)"
        using scan_unicode [OF surrogate(3), of l k] less.prems(1) by simp
      moreover have "drop 4 s2 = CHR 0x5C # CHR ''u'' # drop 6 s2"
        using peek_pair [of 4 s2 "CHR 0x5C" "CHR ''u''"] surrogate(6,7) by simp
      moreover have "parse_hex4 (drop 6 s2) \<noteq> 0" using surrogate(8) by auto
      ultimately have sc: "scan_string (drop 10 s2) (5 + (5 + l)) (6 + (6 + k)) = Inr (len, off)"
        using scan_unicode [of "drop 6 s2" "5 + l" "6 + k"] by simp
      have n: "n - 12 < n" "n - 12 = off - (6 + (6 + k))" using less.prems(2) False by linarith+
      from less.IH [OF n(1) sc n(2) surrogate(10)] show ?thesis
        using length_utf8_bytes [of "0x10000 +
         or (push_bit 10 (and (parse_hex4 s2) 0x3FF)) (and (parse_hex4 (drop 6 s2)) 0x3FF)"] by simp
    qed
  qed
qed

text \<open>\<open>dangling s\<close>: scanning \<open>s\<close> meets a backslash that is the last character.\<close>

fun dangling :: "string \<Rightarrow> bool" where
  "dangling [] \<longleftrightarrow> False"
| "dangling (c # s) \<longleftrightarrow>
     (if c = CHR 0x22 then False else if c = CHR 0x5C then (case s of [] \<Rightarrow> True | _ # s' \<Rightarrow> dangling s')
      else dangling s)"

lemma scan_fault: "scan_string s l k = Inl f \<longleftrightarrow> f = OutOfBounds \<and> dangling s"
  by (induction s l k rule: scan_string.induct) (auto split: list.split)

lemma decode_no_fault:
  "scan_string s l k = Inr (len, off) \<Longrightarrow> n = off - k \<Longrightarrow> decode_string st s n out \<noteq> PFault f"
proof (induction n arbitrary: s l k out rule: less_induct)
  case (less n)
  show ?case
  proof (cases "n = 0")
    case True
    then show ?thesis by (simp add: decode_string.simps [of st s 0 out])
  next
    case False
    then obtain c s1 where s: "s = c # s1" using less.prems by (cases s) auto
    show ?thesis
    proof (cases "c = CHR 0x5C")
      case False
      then have "scan_string s1 (l + 1) (k + 1) = Inr (len, off)"
        using less.prems s \<open>n \<noteq> 0\<close> by (auto split: if_splits)
      from less.IH [OF _ this, of "n - 1"] show ?thesis using less.prems(2) \<open>n \<noteq> 0\<close> False
        by (subst decode_string.simps) (simp add: s)
    next
      case True
      then obtain e s2 where s1: "s1 = e # s2" using less.prems(1) s by (cases s1) auto
      have sc: "scan_string s2 (l + 1) (k + 2) = Inr (len, off)" using less.prems(1) s s1 True by simp
      show ?thesis
      proof (cases "e = CHR ''u''")
        case False
        from less.IH [OF _ sc, of "n - 2"] show ?thesis using less.prems(2) \<open>n \<noteq> 0\<close> True False
          by (subst decode_string.simps) (simp add: s s1)
      next
        case u: True
        let ?uc = "parse_hex4 s2"
        have IH1: "decode_string st (drop 4 s2) (n - 6) out' \<noteq> PFault f" if "5 < n" "?uc \<noteq> 0" for out'
        proof -
          have "scan_string (drop 4 s2) (5 + l) (6 + k) = Inr (len, off)"
            using scan_unicode [OF that(2), of l k] less.prems(1) s s1 True u by simp
          moreover have "n - 6 < n" "n - 6 = off - (6 + k)" using less.prems(2) that(1) by linarith+
          ultimately show ?thesis using less.IH by blast
        qed
        have IH2: "decode_string st (drop 10 s2) (n - 12) out' \<noteq> PFault f"
          if n10: "6 \<le> n - 5" and "?uc \<noteq> 0" "peek (drop 4 s2) = CHR 0x5C" "peek (drop 5 s2) = CHR ''u''"
            "0xDC00 \<le> parse_hex4 (drop 6 s2)" for out'
        proof -
          have nz: "parse_hex4 (drop 6 s2) \<noteq> 0" using that(5) by auto
          have "scan_string (drop 4 s2) (5 + l) (6 + k) = Inr (len, off)"
            using scan_unicode [OF that(2), of l k] less.prems(1) s s1 True u by simp
          moreover have "drop 4 s2 = CHR 0x5C # CHR ''u'' # drop 6 s2"
            using peek_pair [of 4 s2 "CHR 0x5C" "CHR ''u''"] that(3,4) by simp
          ultimately have "scan_string (drop 10 s2) (5 + (5 + l)) (6 + (6 + k)) = Inr (len, off)"
            using scan_unicode [OF nz, of "5 + l" "6 + k"] by simp
          moreover have "n - 12 < n" "n - 12 = off - (6 + (6 + k))" using less.prems(2) n10 by linarith+
          ultimately show ?thesis using less.IH by blast
        qed
        show ?thesis using \<open>n \<noteq> 0\<close> True u IH1 IH2
          by (subst decode_string.simps) (auto simp: s s1 Let_def not_less)
      qed
    qed
  qed
qed

text \<open>So \<open>parse_string\<close> faults on a dangling backslash, and only there.\<close>

lemma parse_string_fault:
  "parse_string item str = PFault f \<longleftrightarrow>
     peek str = CHR 0x22 \<and> f = OutOfBounds \<and> dangling (tl str)"
proof (cases "scan_string (tl str) 0 0")
  case (Inl g)
  then show ?thesis using scan_fault [of "tl str" 0 0 g] by (auto simp: parse_string_def)
next
  case (Inr r)
  obtain len off where r: "r = (len, off)" by fastforce
  have "\<not> dangling (tl str)" using Inr scan_fault [of "tl str" 0 0] by fastforce
  moreover have "pbind (decode_string str (tl str) off []) (\<lambda>out ptr.
      POk (set_valuestring (Some out) (set_ctype cJSON_String item))
        (if peek ptr = CHR 0x22 then tl ptr else ptr)) \<noteq> PFault f"
    using decode_no_fault [OF Inr [unfolded r], of off str "[]" f]
    by (cases "decode_string str (tl str) off []") auto
  ultimately show ?thesis using Inr r by (simp add: parse_string_def)
qed

section \<open>Memory safety of \<open>parse_string\<close>\<close>

text \<open>\<open>scan_string\<close> counts the characters as a number. The \<open>int\<close> \<open>len\<close> of the code is counted up to it, and one is added
  for the NUL: a sum on the way leaves the range of \<open>int\<close> only when the last one does.\<close>

definition parse_string_alloc :: "nat \<Rightarrow> int c" where
  "parse_string_alloc len = int_result (int len + 1)"

lemma scan_len_bound: "scan_string s l k = Inr (len, off) \<Longrightarrow> len \<le> l + length s"
proof (induction s l k rule: scan_string.induct)
  case (2 c s l k)
  consider "c = CHR 0x22" | "c = CHR 0x5C" | "c \<noteq> CHR 0x22" "c \<noteq> CHR 0x5C" by blast
  then show ?case
  proof cases
    case 2
    then obtain e s' where "s = e # s'" using "2.prems" by (cases s) auto
    then show ?thesis using "2.IH"(1) "2.prems" 2 by fastforce
  next
    case 3
    then show ?thesis using "2.IH"(2) "2.prems" by fastforce
  qed (use "2.prems" in simp)
qed simp

text \<open>C15: The text a quoted string is decoded to, surrogate pairs and all other escapes included,
  with its terminating NUL fits the \<open>len + 1\<close> bytes the code allocates after counting the
  characters, unless \<open>len + 1\<close> overflows the \<open>int\<close>; and that takes a text of 2^31 - 1 characters or more.\<close>

theorem parse_string_within_buffer:
  assumes "scan_string s 0 0 = Inr (len, off)" and "decode_string start s off [] = POk out rest"
  shows "case parse_string_alloc len of
      Inr k \<Rightarrow> int (length out) + 1 \<le> k \<and> k \<le> INT_MAX
    | Inl f \<Rightarrow> f = SignedOverflow \<and> INT_MAX \<le> int (length s)"
proof -
  have "length out \<le> len" using decode_fits [OF assms(1) _ assms(2)] by simp
  moreover have "len \<le> length s" using scan_len_bound [OF assms(1)] by simp
  ultimately show ?thesis by (auto simp: parse_string_alloc_def int_result_def in_int_def)
qed

theorem parse_string_within_buffer_witness:
  "scan_string ''ab\"'' 0 0 = Inr (2, 2) \<and> (\<exists>k. parse_string_alloc 2 = Inr k \<and> int (length ''ab'') + 1 \<le> k)"
proof -
  have scan: "scan_string ''ab\"'' 0 0 = Inr (2, 2)" by simp
  have "decode_string [] ''ab\"'' 2 [] = POk ''ab'' ''\"''" by (simp add: decode_string.simps)
  from parse_string_within_buffer [OF scan this] scan show ?thesis
    by (simp add: parse_string_alloc_def int_result_def in_int_def)
qed

text \<open>C16: \<open>parse_string\<close> reads outside the text in one case only: the string it parses contains a
  backslash right before the terminating NUL. On all other inputs, terminated by a quote or not,
  it returns or reports an error. (For texts of 2^31 - 1 characters or more, see the size \<open>len\<close> above.)\<close>

theorem parse_string_overread:
  "parse_string item str = PFault f \<longleftrightarrow>
     peek str = CHR 0x22 \<and> f = OutOfBounds \<and> dangling (tl str)"
  by (rule parse_string_fault)

end
