(* ===== verification/CJsonPrint.thy ===== *)
theory CJsonPrint imports CJson begin

text \<open>
  The unbuffered printer of \<open>json/cJSON.c\<close> (\<open>cJSON_Print\<close> and \<open>cJSON_PrintUnformatted\<close>, the
  branches with \<open>p == 0\<close>): numbers, strings with their escapes, arrays and objects. A result of
  type \<open>string option\<close> is the \<open>char *\<close> the code returns, \<open>None\<close> when it is NULL. The sizes the
  code passes to \<open>cJSON_malloc\<close> before it composes a text are separate definitions (\<open>..._alloc\<close>),
  computed in \<open>int\<close> as the code does, and the lemmas show that a text with its terminating NUL fits as long
  as they stay in the range of \<open>int\<close>, and what happens when they do not.
\<close>

section \<open>The conversions of \<open>sprintf\<close> the printer uses\<close>

definition digit_char :: "nat \<Rightarrow> char" where
  "digit_char d = char_of (48 + d)"

lemma digit_char_0 [simp]: "digit_char 0 = CHR ''0''"
  by code_simp

fun nat_digits :: "nat \<Rightarrow> string" where
  "nat_digits n =
     (if n < 10 then [digit_char n] else nat_digits (n div 10) @ [digit_char (n mod 10)])"

declare nat_digits.simps [simp del]

text \<open>\<open>%d\<close>, and \<open>%.0f\<close> of an integral value.\<close>

definition show_int :: "int \<Rightarrow> string" where
  "show_int k = (if k < 0 then CHR ''-'' # nat_digits (nat (- k)) else nat_digits (nat k))"

definition pad_left :: "nat \<Rightarrow> string \<Rightarrow> string" where
  "pad_left w s = replicate (w - length s) (CHR ''0'') @ s"

definition hex_char :: "nat \<Rightarrow> char" where
  "hex_char d = (if d < 10 then char_of (48 + d) else char_of (87 + d))"

text \<open>\<open>u%04x\<close> of a character.\<close>

definition unicode_escape :: "char \<Rightarrow> string" where
  "unicode_escape c =
     [CHR ''u'', CHR ''0'', CHR ''0'', hex_char (byte c div 16), hex_char (byte c mod 16)]"

text \<open>\<open>%f\<close> and \<open>%e\<close> of a finite value: six decimals, rounded to nearest even.\<close>

definition show_f :: "rat \<Rightarrow> string" where
  "show_f x =
     (let k = nat (round_half_even (\<bar>x\<bar> * 10 ^ 6))
      in (if x < 0 then ''-'' else '''') @ nat_digits (k div 10 ^ 6) @ ''.''
         @ pad_left 6 (nat_digits (k mod 10 ^ 6)))"

definition pow10_rat :: "int \<Rightarrow> rat" where
  "pow10_rat e = (if 0 \<le> e then 10 ^ nat e else 1 / 10 ^ nat (- e))"

text \<open>The decimal exponent of a positive value: the search goes down from \<open>e\<close>.\<close>

fun exp10_from :: "nat \<Rightarrow> int \<Rightarrow> rat \<Rightarrow> int" where
  "exp10_from 0 e x = e"
| "exp10_from (Suc n) e x = (if pow10_rat e \<le> x then e else exp10_from n (e - 1) x)"

definition show_e :: "rat \<Rightarrow> string" where
  "show_e x =
     (let e0 = exp10_from 640 310 \<bar>x\<bar>;
          k0 = nat (round_half_even (\<bar>x\<bar> / pow10_rat e0 * 10 ^ 6));
          (k, e) = (if k0 = 10 ^ 7 then (10 ^ 6, e0 + 1) else (k0, e0))
      in (if x < 0 then ''-'' else '''') @ nat_digits (k div 10 ^ 6) @ ''.''
         @ pad_left 6 (nat_digits (k mod 10 ^ 6)) @ ''e''
         @ (if e < 0 then ''-'' else ''+'') @ pad_left 2 (nat_digits (nat \<bar>e\<bar>)))"

section \<open>Numbers\<close>

fun show_fin :: "(rat \<Rightarrow> string) \<Rightarrow> double \<Rightarrow> string" where
  "show_fin f (DFin x) = f x"
| "show_fin f _ = ''null''"

text \<open>The literals \<open>1.0e60\<close> and \<open>1.0e-6\<close> are the doubles nearest to these powers of ten.\<close>

definition print_number :: "cJSON \<Rightarrow> string" where
  "print_number item =
     (let d = valuedouble item
      in if deq d (DFin 0) then ''0''
         else if dle (dfabs (dsub (double_of_int (valueint item)) d)) DBL_EPSILON
                 \<and> dle d (double_of_int INT_MAX) \<and> dle (double_of_int INT_MIN) d
         then show_int (valueint item)
         else if \<not> deq (dmul d (DFin 0)) (DFin 0) then ''null''
         else if dle (dfabs (dsub (dfloor d) d)) DBL_EPSILON \<and> dlt (dfabs d) (pow10 60)
         then show_fin (\<lambda>x. show_int (round_half_even x)) d
         else if dlt (dfabs d) (pow10 (- 6)) \<or> dlt (DFin (10 ^ 9)) (dfabs d)
         then show_fin show_e d
         else show_fin show_f d)"

section \<open>Strings\<close>

definition needs_escape :: "char \<Rightarrow> bool" where
  "needs_escape c \<longleftrightarrow> byte c < 32 \<or> c = CHR 0x22 \<or> c = CHR 0x5C"

definition escape_char :: "char \<Rightarrow> string" where
  "escape_char c =
     (if \<not> needs_escape c then [c]
      else CHR 0x5C #
        (if c = CHR 0x5C then [CHR 0x5C]
         else if c = CHR 0x22 then [CHR 0x22]
         else if c = CHR 0x08 then ''b''
         else if c = CHR 0x0C then ''f''
         else if c = CHR 0x0A then ''n''
         else if c = CHR 0x0D then ''r''
         else if c = CHR 0x09 then ''t''
         else unicode_escape c))"

definition print_string_ptr :: "string option \<Rightarrow> string" where
  "print_string_ptr str =
     (case str of
        None \<Rightarrow> [CHR 0x22, CHR 0x22]
      | Some s \<Rightarrow>
          if \<not> list_ex needs_escape s then CHR 0x22 # s @ [CHR 0x22]
          else CHR 0x22 # concat (map escape_char s) @ [CHR 0x22])"

text \<open>The number of bytes the code counts for a character.\<close>

definition escape_len :: "char \<Rightarrow> nat" where
  "escape_len c =
     1 + (if c \<in> {CHR 0x22, CHR 0x5C, CHR 0x08, CHR 0x0C, CHR 0x0A, CHR 0x0D, CHR 0x09} then 1
          else if byte c < 32 then 5 else 0)"

text \<open>The size that is allocated, an \<open>int\<close>. Without escapes \<open>len\<close> is the difference of two pointers, cut to \<open>int\<close>;
  with escapes it is counted up, so that an intermediate sum leaves the range of \<open>int\<close> only when the last one
  does.\<close>

definition print_string_alloc :: "string option \<Rightarrow> int c" where
  "print_string_alloc str =
     (case str of
        None \<Rightarrow> Inr 3
      | Some s \<Rightarrow>
          if \<not> list_ex needs_escape s then int_result (int_wrap (int (length s)) + 3)
          else int_result (int (sum_list (map escape_len s)) + 3))"

definition print_string :: "cJSON \<Rightarrow> string" where
  "print_string item = print_string_ptr (valuestring item)"

section \<open>Arrays and objects\<close>

text \<open>The loops that compose the output from the printed entries.\<close>

fun array_entries :: "bool \<Rightarrow> string list \<Rightarrow> string" where
  "array_entries fmt [] = ''''"
| "array_entries fmt [e] = e"
| "array_entries fmt (e # es) = e @ '','' @ (if fmt then '' '' else '''') @ array_entries fmt es"

definition tabs :: "nat \<Rightarrow> string" where
  "tabs n = replicate n (CHR 0x09)"

fun object_entries :: "bool \<Rightarrow> nat \<Rightarrow> (string \<times> string) list \<Rightarrow> string" where
  "object_entries fmt depth [] = ''''"
| "object_entries fmt depth ((n, e) # es) =
     (if fmt then tabs depth else '''') @ n @ '':'' @ (if fmt then tabs 1 else '''') @ e
     @ (if es \<noteq> [] then '','' else '''') @ (if fmt then [CHR 0x0A] else '''')
     @ object_entries fmt depth es"

definition print_array_out :: "bool \<Rightarrow> string list \<Rightarrow> string" where
  "print_array_out fmt entries =
     (if entries = [] then ''[]'' else ''['' @ array_entries fmt entries @ '']'')"

text \<open>The sizes: the lengths of the entries are added as \<open>size_t\<close>, and each sum is cut to \<open>int\<close>, which is the
  same as cutting the last one.\<close>

definition print_array_alloc :: "bool \<Rightarrow> string list \<Rightarrow> int" where
  "print_array_alloc fmt entries =
     (if entries = [] then 3
      else int_wrap (5 + int (sum_list (map (\<lambda>e. length e + 2 + (if fmt then 1 else 0)) entries))))"

text \<open>\<open>depth\<close> is the depth of the object; its entries are indented one level deeper.\<close>

definition print_object_out :: "bool \<Rightarrow> nat \<Rightarrow> (string \<times> string) list \<Rightarrow> string" where
  "print_object_out fmt depth entries =
     (if entries = []
      then ''{'' @ (if fmt then CHR 0x0A # tabs depth else '''') @ ''}''
      else ''{'' @ (if fmt then [CHR 0x0A] else '''') @ object_entries fmt (depth + 1) entries
           @ (if fmt then tabs depth else '''') @ ''}'')"

definition print_object_alloc :: "bool \<Rightarrow> nat \<Rightarrow> (string \<times> string) list \<Rightarrow> int c" where
  "print_object_alloc fmt depth entries =
     (if entries = [] then int_result (if fmt then int depth + 4 else 3)
      else bind_c (int_result (7 + (if fmt then int depth + 1 else 0))) (\<lambda>len.
             Inr (int_wrap (len + int (sum_list
               (map (\<lambda>(n, e). length e + length n + 2 + (if fmt then 2 + (depth + 1) else 0)) entries))))))"

section \<open>Values\<close>

fun print_value :: "cJSON \<Rightarrow> nat \<Rightarrow> bool \<Rightarrow> string option"
  and print_array :: "cJSON \<Rightarrow> nat \<Rightarrow> bool \<Rightarrow> string option"
  and print_object :: "cJSON \<Rightarrow> nat \<Rightarrow> bool \<Rightarrow> string option" where
  "print_value item depth fmt =
     (let t = and (ctype item) 255
      in if t = cJSON_NULL then Some ''null''
         else if t = cJSON_False then Some ''false''
         else if t = cJSON_True then Some ''true''
         else if t = cJSON_Number then Some (print_number item)
         else if t = cJSON_String then Some (print_string item)
         else if t = cJSON_Array then print_array item depth fmt
         else if t = cJSON_Object then print_object item depth fmt
         else None)"
| "print_array (CJSON t vs u8 u16 vi vd s ch) depth fmt =
     map_option (print_array_out fmt) (those (map (\<lambda>c. print_value c (depth + 1) fmt) ch))"
| "print_object (CJSON t vs u8 u16 vi vd s ch) depth fmt =
     map_option (\<lambda>rets. print_object_out fmt depth
         (zip (map (\<lambda>c. print_string_ptr (cstring c)) ch) rets))
       (those (map (\<lambda>c. print_value c (depth + 1) fmt) ch))"

definition print_value_ptr :: "cJSON option \<Rightarrow> nat \<Rightarrow> bool \<Rightarrow> string option" where
  "print_value_ptr item depth fmt = (case item of None \<Rightarrow> None | Some it \<Rightarrow> print_value it depth fmt)"

definition cJSON_Print :: "cJSON option \<Rightarrow> string option" where
  "cJSON_Print item = print_value_ptr item 0 True"

definition cJSON_PrintUnformatted :: "cJSON option \<Rightarrow> string option" where
  "cJSON_PrintUnformatted item = print_value_ptr item 0 False"

section \<open>Every text fits its allocation\<close>

lemma length_escape_char: "length (escape_char c) = escape_len c"
  by (auto simp: escape_char_def escape_len_def needs_escape_def unicode_escape_def)

lemma not_needs_escape: "\<not> needs_escape c \<Longrightarrow> escape_char c = [c]"
  by (simp add: escape_char_def)

lemma concat_escape_plain: "\<not> list_ex needs_escape s \<Longrightarrow> concat (map escape_char s) = s"
  by (induction s) (auto simp: not_needs_escape)

text \<open>The fast path for strings without escapes prints what the general path would.\<close>

lemma print_string_ptr_Some:
  "print_string_ptr (Some s) = CHR 0x22 # concat (map escape_char s) @ [CHR 0x22]"
  by (simp add: print_string_ptr_def concat_escape_plain)

lemma print_string_length: "length (print_string_ptr (Some s)) = sum_list (map escape_len s) + 2"
  by (simp add: print_string_ptr_Some length_concat o_def length_escape_char)

lemma escape_len_plain: "\<not> list_ex needs_escape s \<Longrightarrow> sum_list (map escape_len s) = length s"
  by (induction s) (auto simp: escape_len_def needs_escape_def)

lemma print_string_fits:
  "int (length (print_string_ptr str)) < INT_MAX \<Longrightarrow> print_string_alloc str = Inr (int (length (print_string_ptr str)) + 1)"
proof (cases str)
  case (Some s)
  assume "int (length (print_string_ptr str)) < INT_MAX"
  then have n: "in_int (int (sum_list (map escape_len s)) + 3)" "in_int (int (sum_list (map escape_len s)))"
    by (auto simp: Some print_string_length in_int_def)
  show ?thesis
  proof (cases "list_ex needs_escape s")
    case False
    then show ?thesis using n escape_len_plain [OF False] by (simp add: Some print_string_length print_string_alloc_def)
  qed (use n in \<open>simp add: Some print_string_length print_string_alloc_def\<close>)
qed (simp add: print_string_alloc_def print_string_ptr_def)

lemma print_string_overflows:
  assumes "list_ex needs_escape s" "INT_MAX \<le> int (length (print_string_ptr (Some s)))"
  shows "print_string_alloc (Some s) = Inl SignedOverflow"
proof -
  have "\<not> in_int (int (sum_list (map escape_len s)) + 3)"
    using assms(2) by (simp add: print_string_length in_int_def)
  then show ?thesis using assms(1) by (simp add: print_string_alloc_def int_result_def)
qed

text \<open>Without escapes the length is cut silently: for a string of 2^32 characters three bytes are allocated.\<close>

lemma plain_string_wraps:
  assumes "\<not> list_ex needs_escape s" "length s = 2 ^ 32"
  shows "print_string_alloc (Some s) = Inr 3"
  using assms by (simp add: print_string_alloc_def int_wrap_def in_int_def)

lemma length_array_entries:
  "es \<noteq> [] \<Longrightarrow> length (array_entries fmt es) + (if fmt then 2 else 1)
     = sum_list (map (\<lambda>e. length e + (if fmt then 2 else 1)) es)"
  by (induction fmt es rule: array_entries.induct) auto

lemma array_entries_count: "length es \<le> length (array_entries fmt es) + 1"
  by (induction fmt es rule: array_entries.induct) auto

lemma print_array_fits:
  assumes "2 * int (length (print_array_out fmt es)) + 8 \<le> INT_MAX"
  shows "int (length (print_array_out fmt es)) + 1 \<le> print_array_alloc fmt es"
proof (cases "es = []")
  case False
  let ?n = "sum_list (map (\<lambda>e. length e + 2 + (if fmt then 1 else 0)) es)"
  have "?n = sum_list (map (\<lambda>e. length e + (if fmt then 2 else 1)) es) + length es"
    by (induction es) auto
  then have n: "?n = length (array_entries fmt es) + (if fmt then 2 else 1) + length es"
    using length_array_entries [OF False, of fmt] by simp
  have out: "length (print_array_out fmt es) = length (array_entries fmt es) + 2" using False by (simp add: print_array_out_def)
  define a where "a = int (length (array_entries fmt es))"
  define k where "k = int (length es)"
  have b: "1 \<le> k" "k \<le> a + 1" "2 * a + 12 \<le> INT_MAX"
    using False array_entries_count [of es fmt] assms by (simp_all add: k_def a_def out Suc_le_eq)
  have "5 + int ?n = 5 + a + (if fmt then 2 else 1) + k" unfolding n by (simp add: a_def k_def)
  then have "in_int (5 + int ?n)" "a + 3 \<le> 5 + int ?n" using b by (auto simp only: in_int_def split: if_splits)
  then have "print_array_alloc fmt es = 5 + int ?n" "a + 3 \<le> 5 + int ?n"
    by (simp_all only: print_array_alloc_def False if_False int_wrap_in_int)
  then show ?thesis by (simp add: out a_def)
qed (simp add: print_array_out_def print_array_alloc_def)

lemma length_object_entries:
  "length (object_entries fmt d es) + (if es = [] then 0 else 1)
     = sum_list (map (\<lambda>(n, e). length e + length n + 2 + (if fmt then 2 + d else 0)) es)"
  by (induction fmt d es rule: object_entries.induct) (auto simp: tabs_def)

lemma print_object_fits:
  assumes "int (length (print_object_out fmt depth es)) + 8 \<le> INT_MAX"
  obtains size where "print_object_alloc fmt depth es = Inr size" "int (length (print_object_out fmt depth es)) + 1 \<le> size"
proof (cases "es = []")
  case True
  then show ?thesis
    using assms that [of "if fmt then int depth + 4 else 3"]
    by (auto simp: print_object_alloc_def print_object_out_def tabs_def in_int_def split: if_splits)
next
  case False
  let ?n = "sum_list (map (\<lambda>(n, e). length e + length n + 2 + (if fmt then 2 + (depth + 1) else 0)) es)"
  have n: "?n = length (object_entries fmt (depth + 1) es) + 1"
    using length_object_entries [of fmt "depth + 1" es] False by simp
  have out: "length (print_object_out fmt depth es) = 2 + (if fmt then depth + 1 else 0) + length (object_entries fmt (depth + 1) es)"
    using False by (simp add: print_object_out_def tabs_def)
  let ?len = "7 + (if fmt then int depth + 1 else 0)"
  have "in_int ?len" "in_int (?len + int ?n)" "int (length (print_object_out fmt depth es)) + 1 \<le> ?len + int ?n"
    unfolding n using assms by (simp_all add: in_int_def out split: if_splits)
  moreover from this(1) have "int_result ?len = Inr ?len" by simp
  ultimately show ?thesis
    by (intro that [of "?len + int ?n"])
      (simp_all only: print_object_alloc_def False if_False bind_c_simps int_wrap_in_int simp_thms)
qed

section \<open>Integral numbers print in decimal\<close>

lemma pow10_60: "dlt (DFin (of_int 2147483648)) (pow10 60)"
  by code_simp

lemma DBL_EPSILON_less_1: "(1 :: rat) / 2 ^ 52 < 1"
  by simp

lemma print_number_int:
  assumes "valuedouble it = DFin (of_int k)" and "in_int k" and "in_int (valueint it)"
  shows "print_number it = show_int k"
proof (cases "k = 0")
  case True
  with assms show ?thesis
    by (simp add: print_number_def deq_def show_int_def nat_digits.simps)
next
  case False
  have bounds: "\<bar>valueint it - k\<bar> < 2 ^ 53" "\<bar>k - k\<bar> < 2 ^ 53"
    using assms(2,3) by (auto simp: in_int_def)
  have eps: "dle (DFin (of_int \<bar>valueint it - k\<bar>)) DBL_EPSILON \<longleftrightarrow> valueint it = k"
  proof
    assume "dle (DFin (of_int \<bar>valueint it - k\<bar>)) DBL_EPSILON"
    then have "of_int \<bar>valueint it - k\<bar> \<le> (1 :: rat) / 2 ^ 52" by (simp add: DBL_EPSILON_def)
    then have "of_int \<bar>valueint it - k\<bar> < (of_int 1 :: rat)"
      using DBL_EPSILON_less_1 by linarith
    then have "\<bar>valueint it - k\<bar> < 1" unfolding of_int_less_iff .
    then show "valueint it = k" by linarith
  qed (simp add: DBL_EPSILON_def)
  have range: "of_int INT_MIN \<le> (of_int k :: rat)" "(of_int k :: rat) \<le> of_int INT_MAX"
    using assms(2) by (simp_all only: of_int_le_iff in_int_def)
  have d: "dsub (double_of_int (valueint it)) (DFin (of_int k)) = DFin (of_int (valueint it - k))"
    using assms(3) bounds(1) by (simp add: dsub_of_int)
  have z: "dsub (DFin (of_int k)) (DFin (of_int k)) = DFin 0"
    using dsub_of_int [OF bounds(2)] by simp
  have "\<bar>of_int k :: rat\<bar> \<le> of_int 2147483648"
    using range by (simp add: abs_if)
  then have big: "dlt (DFin \<bar>of_int k\<bar>) (pow10 60)" using pow10_60 by (cases "pow10 60") (auto simp: dlt_def deq_def)
  have mz: "dmul (DFin (of_int k)) (DFin 0) = DFin 0" by (simp add: round_double_def)
  have eps0: "dle (DFin 0) DBL_EPSILON" by (simp add: DBL_EPSILON_def)
  show ?thesis
    using False assms(1) eps range big
    by (simp add: print_number_def Let_def d z mz eps0 deq_def in_int_def
        del: dmul.simps of_int_diff flip: of_int_abs)
qed

section \<open>Memory safety of the printer\<close>

text \<open>C17: What is printed fits the buffer the code allocates for it, terminating NUL included - a string with its
  escapes, the entries of an array, the members of an object at any depth, formatted or not - as long as the text is
  so short that its size, which the code computes in an \<open>int\<close>, stays below 2^31: for a string less than 2^31 - 1
  characters, and then the size is exact; for an array half of that, because of how the code estimates, and for an
  object all but eight. A longer string with escapes overflows the \<open>int\<close>.\<close>

theorem print_within_allocation:
  "(int (length (print_string_ptr str)) < INT_MAX
      \<longrightarrow> print_string_alloc str = Inr (int (length (print_string_ptr str)) + 1))
   \<and> (INT_MAX \<le> int (length (print_string_ptr (Some s))) \<and> list_ex needs_escape s
      \<longrightarrow> print_string_alloc (Some s) = Inl SignedOverflow)
   \<and> (2 * int (length (print_array_out fmt entries)) + 8 \<le> INT_MAX
      \<longrightarrow> int (length (print_array_out fmt entries)) + 1 \<le> print_array_alloc fmt entries)
   \<and> (int (length (print_object_out fmt depth members)) + 8 \<le> INT_MAX
      \<longrightarrow> (\<exists>size. print_object_alloc fmt depth members = Inr size
            \<and> int (length (print_object_out fmt depth members)) + 1 \<le> size))"
  using print_string_fits [of str] print_string_overflows [of s] print_array_fits [of fmt entries]
    print_object_fits [of fmt depth members]
  by blast

theorem print_within_allocation_witness:
  "print_string_alloc (Some ''a'') = Inr 4 \<and> 6 \<le> print_array_alloc False [''1'', ''2'']
    \<and> (\<exists>size. print_object_alloc True 0 [(''a'', ''1'')] = Inr size \<and> 10 \<le> size)"
proof -
  have len: "int (length (print_string_ptr (Some ''a''))) = 3" "int (length (print_array_out False [''1'', ''2''])) = 5"
    "int (length (print_object_out True 0 [(''a'', ''1'')])) = 9"
    by (simp_all add: print_string_ptr_def needs_escape_def print_array_out_def print_object_out_def tabs_def)
  from print_within_allocation [of "Some ''a''" "''a''" False "[''1'', ''2'']" 0 "[]"]
  have "print_string_alloc (Some ''a'') = Inr 4" "6 \<le> print_array_alloc False [''1'', ''2'']"
    unfolding len by simp_all
  moreover from print_within_allocation [of None "''a''" True "[]" 0 "[(''a'', ''1'')]"]
  have "\<exists>size. print_object_alloc True 0 [(''a'', ''1'')] = Inr size \<and> 10 \<le> size"
    unfolding len by simp
  ultimately show ?thesis by blast
qed

end
