(* ===== verification/CJsonTree.thy ===== *)
theory CJsonTree imports CJsonPrint begin

text \<open>
  What the operations of \<open>json/cJSON.c\<close> that edit arrays and objects promise: positions, names, and
  which of several members with one name is found.
\<close>

section \<open>Arrays\<close>

lemma child_add_array [simp]: "child (cJSON_AddItemToArray a (Some it)) = child a @ [it]"
  by (simp add: cJSON_AddItemToArray_def)

lemma child_insert:
  "child (cJSON_InsertItemInArray a which it) = take (nat which) (child a) @ it # drop (nat which) (child a)"
  by (simp add: cJSON_InsertItemInArray_def Let_def)

lemma get_array_item:
  "cJSON_GetArrayItem (Some a) i = (if nat i < length (child a) then Some (child a ! nat i) else None)"
  by (auto simp: cJSON_GetArrayItem_def Cons_nth_drop_Suc [symmetric] split: list.split)

lemma set_child_cong: "set_child xs a = set_child ys a \<longleftrightarrow> xs = ys"
  by (metis set_sel(6))

lemma insert_set_child:
  "cJSON_InsertItemInArray a which it
     = set_child (take (nat which) (child a) @ it # drop (nat which) (child a)) a"
  by (simp add: cJSON_InsertItemInArray_def cJSON_AddItemToArray_def Let_def)

text \<open>Detaching undoes inserting: the item inserted at a valid position of an array is the one
  detached from there, and the array is what it was.\<close>

lemma detach_insert:
  assumes "0 \<le> which" and "which \<le> int (length (child a))"
  shows "cJSON_DetachItemFromArray (cJSON_InsertItemInArray a which it) which = (Some it, a)"
  using assms by (simp add: cJSON_DetachItemFromArray_def insert_set_child Let_def nth_append)

text \<open>After an insertion at position \<open>which\<close> the items before it are where they were, the new one
  is at \<open>which\<close>, and the others have moved up by one.\<close>

lemma get_insert:
  assumes "0 \<le> which" and "which \<le> int (length (child a))" and "0 \<le> j"
  shows "cJSON_GetArrayItem (Some (cJSON_InsertItemInArray a which it)) j =
    (if j < which then cJSON_GetArrayItem (Some a) j
     else if j = which then Some it
     else cJSON_GetArrayItem (Some a) (j - 1))"
proof -
  obtain w k where wk: "which = int w" "j = int k" using assms nonneg_int_cases by metis
  then have w: "w \<le> length (child a)" using assms(2) by simp
  have "nat (int k - 1) = k - 1" by simp
  then show ?thesis using w unfolding wk
    by (auto simp: get_array_item child_insert nth_append nth_Cons' min_def)
qed

section \<open>Objects\<close>

lemma get_object_find:
  "cJSON_GetObjectItem (Some ob) key = find (\<lambda>c. cJSON_strcasecmp (cstring c) (Some key) = 0) (child ob)"
  by (simp add: cJSON_GetObjectItem_def)

lemma strcasecmp_refl [simp]: "cJSON_strcasecmp (Some s) (Some s) = 0"
proof -
  have "strcasecmp_loop s s = 0" by (induction s) simp_all
  then show ?thesis by (simp add: cJSON_strcasecmp_def)
qed

text \<open>The comparison of names is equality up to the case of ASCII letters.\<close>

lemma tolower_NUL: "tolower c = NUL \<longleftrightarrow> c = NUL"
proof
  assume t: "tolower c = NUL"
  show "c = NUL"
  proof (rule ccontr)
    assume c: "c \<noteq> NUL"
    with t have "65 \<le> byte c" "byte c \<le> 90" "char_of (byte c + 32) = NUL"
      by (auto simp: tolower_def split: if_splits)
    then have "byte (char_of (byte c + 32)) = byte c + 32" by (intro byte_char_of) simp
    then show False using \<open>char_of (byte c + 32) = NUL\<close> by simp
  qed
qed (simp add: tolower_def)

lemma strcasecmp_iff:
  "nul_free a \<Longrightarrow> nul_free b \<Longrightarrow>
   cJSON_strcasecmp (Some a) (Some b) = 0 \<longleftrightarrow> map tolower a = map tolower b"
proof -
  have "nul_free a \<Longrightarrow> nul_free b \<Longrightarrow> strcasecmp_loop a b = 0 \<longleftrightarrow> map tolower a = map tolower b"
    by (induction a b rule: strcasecmp_loop.induct) (auto simp: tolower_NUL)
  then show "nul_free a \<Longrightarrow> nul_free b \<Longrightarrow>
    cJSON_strcasecmp (Some a) (Some b) = 0 \<longleftrightarrow> map tolower a = map tolower b"
    by (simp add: cJSON_strcasecmp_def)
qed

lemma find_index_find:
  "find_index key cs i = None \<longleftrightarrow> find (\<lambda>c. cJSON_strcasecmp (cstring c) (Some key) = 0) cs = None"
  "find_index key cs i = Some k \<Longrightarrow> i \<le> k \<and> k - i < length cs
     \<and> find (\<lambda>c. cJSON_strcasecmp (cstring c) (Some key) = 0) cs = Some (cs ! (k - i))
     \<and> (\<forall>j<k - i. cJSON_strcasecmp (cstring (cs ! j)) (Some key) \<noteq> 0)"
proof -
  show "find_index key cs i = None \<longleftrightarrow> find (\<lambda>c. cJSON_strcasecmp (cstring c) (Some key) = 0) cs = None"
    by (induction key cs i rule: find_index.induct) auto
  show "find_index key cs i = Some k \<Longrightarrow> i \<le> k \<and> k - i < length cs
     \<and> find (\<lambda>c. cJSON_strcasecmp (cstring c) (Some key) = 0) cs = Some (cs ! (k - i))
     \<and> (\<forall>j<k - i. cJSON_strcasecmp (cstring (cs ! j)) (Some key) \<noteq> 0)"
  proof (induction key cs i rule: find_index.induct)
    case (2 key c cs i)
    show ?case
    proof (cases "cJSON_strcasecmp (cstring c) (Some key) = 0")
      case False
      with 2 have ih: "Suc i \<le> k \<and> k - Suc i < length cs
         \<and> find (\<lambda>c. cJSON_strcasecmp (cstring c) (Some key) = 0) cs = Some (cs ! (k - Suc i))
         \<and> (\<forall>j<k - Suc i. cJSON_strcasecmp (cstring (cs ! j)) (Some key) \<noteq> 0)" by simp
      then obtain m where "k - i = Suc m" "k - Suc i = m" by (metis Suc_diff_le diff_Suc_Suc)
      then show ?thesis using ih False by (auto simp: nth_Cons split: nat.split)
    qed (use 2 in auto)
  qed simp
qed

text \<open>Adding a member never changes what a name that is already there finds: the first member
  whose name matches, ignoring case, wins, and the new one is found only where nothing was.\<close>

lemma get_add_object:
  "cJSON_GetObjectItem (Some (cJSON_AddItemToObject ob key (Some it))) k =
     (case cJSON_GetObjectItem (Some ob) k of
        Some x \<Rightarrow> Some x
      | None \<Rightarrow> if cJSON_strcasecmp (Some key) (Some k) = 0 then Some (set_cstring (Some key) it) else None)"
  by (simp add: get_object_find cJSON_AddItemToObject_def find_append split: option.split)

text \<open>After a member is replaced, its name finds the new item, under the new spelling.\<close>

lemma get_replace_object:
  assumes "cJSON_GetObjectItem (Some ob) key = Some old"
  shows "cJSON_GetObjectItem (Some (cJSON_ReplaceItemInObject ob key it)) key = Some (set_cstring (Some key) it)"
proof -
  obtain i where i: "find_index key (child ob) 0 = Some i"
    using find_index_find(1) [of key "child ob" 0] assms by (auto simp: get_object_find)
  note f = find_index_find(2) [OF i, simplified]
  have "find (\<lambda>c. cJSON_strcasecmp (cstring c) (Some key) = 0) (take i (child ob)) = None"
    using f by (auto simp: find_None_iff in_set_conv_nth)
  then show ?thesis using f
    by (simp add: cJSON_ReplaceItemInObject_def i cJSON_ReplaceItemInArray_def Let_def get_object_find find_append)
qed

lemma delete_absent:
  "cJSON_GetObjectItem (Some ob) key = None \<Longrightarrow> cJSON_DeleteItemFromObject ob key = ob"
  using find_index_find(1) [of key "child ob" 0]
  by (simp add: get_object_find cJSON_DeleteItemFromObject_def cJSON_DetachItemFromObject_def)

lemma detach_object:
  assumes "cJSON_GetObjectItem (Some ob) key = Some it"
  obtains i where "i < length (child ob)" "child ob ! i = it"
    "cJSON_DetachItemFromObject ob key = (Some it, set_child (take i (child ob) @ drop (Suc i) (child ob)) ob)"
proof -
  obtain i where i: "find_index key (child ob) 0 = Some i"
    using find_index_find(1) [of key "child ob" 0] assms by (auto simp: get_object_find)
  note f = find_index_find(2) [OF i, simplified]
  then show ?thesis using assms
    by (intro that [of i]) (auto simp: cJSON_DetachItemFromObject_def i cJSON_DetachItemFromArray_def
        get_object_find Let_def)
qed

section \<open>Duplicates\<close>

lemma low_byte_no_reference: "and (and t (not cJSON_IsReference)) 255 = and t (255 :: u32)"
proof -
  have "and (not cJSON_IsReference) 255 = (255 :: u32)" by simp
  then show ?thesis by (simp only: and.assoc)
qed

text \<open>A recursive duplicate of an item, without its reference flags and its \<open>valueuint8\<close> and
  \<open>valueuint16\<close>, prints as the original does.\<close>

lemma print_duplicate: "print_value (cJSON_Duplicate_item it True) d fmt = print_value it d fmt"
proof (induction it arbitrary: d)
  case (CJSON t vs u8 u16 vi vd s ch)
  let ?dup = "\<lambda>c. cJSON_Duplicate_item c True"
  have "those (map (\<lambda>c. print_value c (d + 1) fmt) (map ?dup ch)) = those (map (\<lambda>c. print_value c (d + 1) fmt) ch)"
    using CJSON.IH by (simp add: o_def cong: map_cong)
  moreover have "cstring (?dup c) = cstring c" for c by (cases c) simp
  then have "map (\<lambda>c. print_string_ptr (cstring c)) (map ?dup ch) = map (\<lambda>c. print_string_ptr (cstring c)) ch"
    by simp
  ultimately show ?case
    unfolding cJSON_Duplicate_item.simps if_True
      print_value.simps [of "CJSON (and t (not cJSON_IsReference)) vs 0 0 vi vd s (map ?dup ch)"]
      print_value.simps [of "CJSON t vs u8 u16 vi vd s ch"] cJSON.sel low_byte_no_reference
      print_array.simps print_object.simps
    by (simp add: Let_def print_number_def print_string_def del: print_value.simps map_map list.map_comp)
qed

end
