(* ===== verification/CJsonRound.thy ===== *)
theory CJsonRound imports CJsonPrint CJsonParse begin

text \<open>
  The parser and the printer of \<open>json/cJSON.c\<close> together: parsing a printed item gives the item
  back, formatted or not, whatever follows it in the buffer. \<open>printable\<close> says which items this
  holds for (integral numbers in the range of \<open>int\<close>, strings without NUL), \<open>canon\<close> which item the
  parser builds: names of array elements are dropped, a number has its \<open>valueint\<close> filled in, a
  parsed \<open>true\<close> has \<open>valueint == 1\<close>.
\<close>

section \<open>Numbers\<close>

definition value_end :: "string \<Rightarrow> bool" where
  "value_end s \<longleftrightarrow> \<not> is_digit (peek s) \<and> peek s \<noteq> CHR ''.'' \<and> peek s \<noteq> CHR ''e'' \<and> peek s \<noteq> CHR ''E''"

lemma byte_digit_char: "d < 10 \<Longrightarrow> byte (digit_char d) = 48 + d"
  by (simp add: digit_char_def byte_char_of)

lemma is_digit_digit_char [simp]: "d < 10 \<Longrightarrow> is_digit (digit_char d)"
  by (simp add: is_digit_def byte_digit_char)

lemma digit_val_digit_char [simp]: "d < 10 \<Longrightarrow> digit_val (digit_char d) = int d"
  by (simp add: digit_val_def byte_digit_char)

lemma nat_digits_head:
  "nat_digits n \<noteq> [] \<and> is_digit (peek (nat_digits n @ r))
   \<and> (0 < n \<longrightarrow> byte (peek (nat_digits n @ r)) \<noteq> 48)"
proof (induction n arbitrary: r rule: nat_digits.induct)
  case (1 n)
  show ?case
  proof (cases "n < 10")
    case True
    then show ?thesis by (simp add: nat_digits.simps [of n] byte_digit_char)
  next
    case False
    with "1.IH" [of "[digit_char (n mod 10)] @ r"] show ?thesis
      by (simp add: nat_digits.simps [of n])
  qed
qed

lemma number_digits_step:
  assumes "m * 10 + d < 2 ^ 53" and "d < 10"
  shows "number_digits (DFin (of_nat m)) (digit_char d # s) = number_digits (DFin (of_nat (m * 10 + d))) s"
proof -
  have "dmul (DFin (of_nat m)) (DFin 10) = DFin (of_nat (m * 10))"
    using dmul_of_int [of "int m" 10] assms by simp
  moreover have "double_of_int (int d) = DFin (of_nat d)"
    using double_of_int_exact [of "int d"] assms by simp
  moreover have "dadd (DFin (of_nat (m * 10))) (DFin (of_nat d)) = DFin (of_nat (m * 10 + d))"
    using dadd_of_int [of "int (m * 10)" "int d"] assms(1) by simp
  ultimately show ?thesis using assms(2) by simp
qed

lemma number_digits_nat_digits:
  "m * 10 ^ length (nat_digits n) + n < 2 ^ 53 \<Longrightarrow>
   number_digits (DFin (of_nat m)) (nat_digits n @ s)
     = number_digits (DFin (of_nat (m * 10 ^ length (nat_digits n) + n))) s"
proof (induction n arbitrary: s rule: nat_digits.induct)
  case (1 n)
  show ?case
  proof (cases "n < 10")
    case True
    with "1.prems" number_digits_step [of m n s] show ?thesis
      by (simp add: nat_digits.simps [of n])
  next
    case False
    let ?m = "m * 10 ^ length (nat_digits (n div 10)) + n div 10"
    have eq: "?m * 10 + n mod 10 = m * 10 ^ length (nat_digits n) + n"
      using False by (subst (2) nat_digits.simps) simp
    have "?m \<le> ?m * 10 + n mod 10" by (rule trans_le_add1) simp
    then have "?m < 2 ^ 53" using "1.prems" unfolding eq [symmetric] by (rule le_less_trans)
    from "1.IH" [OF False this, of "digit_char (n mod 10) # s"]
    have "number_digits (DFin (of_nat m)) (nat_digits n @ s)
        = number_digits (DFin (of_nat ?m)) (digit_char (n mod 10) # s)"
      using False by (simp only: nat_digits.simps [of n] if_False append_assoc append_Cons append_Nil)
    also have "\<dots> = number_digits (DFin (of_nat (?m * 10 + n mod 10))) s"
      by (rule number_digits_step) (use "1.prems" in \<open>unfold eq, assumption\<close>, simp)
    finally show ?thesis by (simp only: eq)
  qed
qed

lemma number_digits_end: "\<not> is_digit (peek s) \<Longrightarrow> number_digits n s = (n, s)"
  by (cases s) auto

lemma number_integer_nat:
  assumes "n < 2 ^ 53" and "value_end rest"
  shows "number_integer (nat_digits n @ rest) = (DFin (of_nat n), rest)"
proof (cases "n = 0")
  case True
  with assms(2) show ?thesis
    by (simp add: number_integer_def nat_digits.simps value_end_def)
next
  case False
  have "peek (nat_digits n @ rest) \<noteq> CHR ''0''"
    using nat_digits_head [of n rest] False by auto
  moreover have "number_digits (DFin 0) (nat_digits n @ rest) = (DFin (of_nat n), rest)"
    using number_digits_nat_digits [of 0 n rest] assms
    by (simp add: number_digits_end value_end_def)
  ultimately show ?thesis using nat_digits_head [of n rest] by (simp add: number_integer_def)
qed

lemma parse_number_show_int:
  assumes k: "in_int k" and rest: "value_end rest"
  shows "parse_number item (show_int k @ rest)
     = POk (set_ctype cJSON_Number (set_valueint k (set_valuedouble (DFin (of_int k)) item))) rest"
proof -
  have small: "nat \<bar>k\<bar> < 2 ^ 53" using k by (auto simp: in_int_def)
  have int: "number_integer (nat_digits (nat \<bar>k\<bar>) @ rest) = (DFin (of_int \<bar>k\<bar>), rest)"
    using number_integer_nat [OF small rest] by simp
  have tail: "number_scale n rest = (n, 0, rest)" "number_exp rest = Inr (0, rest)" for n
    using rest by (auto simp: number_scale_def number_exp_def value_end_def)
  have mul: "dmul (DFin (of_int a)) (DFin (of_int \<bar>k\<bar>)) = DFin (of_int (a * \<bar>k\<bar>))"
    if "\<bar>a\<bar> = 1" for a
    using that k by (intro dmul_of_int) (auto simp: abs_mult in_int_def)
  have mul1: "dmul (DFin (of_int k)) (DFin (of_int 1)) = DFin (of_int (k * 1))"
    using k by (intro dmul_of_int) (auto simp: in_int_def)
  show ?thesis
  proof (cases "k < 0")
    case True
    then show ?thesis
      using int tail mul [of "- 1"] mul1 k
      by (simp add: parse_number_def show_int_def number_sign_def del: dmul.simps)
  next
    case False
    have "peek (nat_digits (nat k) @ rest) \<noteq> CHR ''-''"
      using nat_digits_head [of "nat k" rest] by (auto simp: is_digit_def)
    then show ?thesis
      using False int tail mul [of 1] mul1 k
      by (simp add: parse_number_def show_int_def number_sign_def del: dmul.simps)
  qed
qed

section \<open>Strings\<close>

text \<open>The escapes of the control characters, checked one by one.\<close>

definition control_ok :: "nat \<Rightarrow> bool" where
  "control_ok n \<longleftrightarrow>
     (let c = char_of n; h1 = hex_char (n div 16); h2 = hex_char (n mod 16)
      in h1 \<noteq> CHR 0x22 \<and> h2 \<noteq> CHR 0x22 \<and> h1 \<noteq> CHR 0x5C \<and> h2 \<noteq> CHR 0x5C
         \<and> hex_val h1 = Some (of_nat (n div 16)) \<and> hex_val h2 = Some (of_nat (n mod 16))
         \<and> (let w = push_bit 4 (of_nat (n div 16)) + of_nat (n mod 16)
             in w < 0x80 \<and> (n \<noteq> 0 \<longrightarrow> w \<noteq> 0) \<and> utf8_bytes w = [c]))"

lemma control_all: "list_all control_ok [0..<32]"
  by code_simp

lemma control: "n < 32 \<Longrightarrow> control_ok n"
  using control_all by (simp add: list_all_iff)

lemma control_hex:
  assumes "n < 32"
  shows "hex_char (n div 16) \<noteq> CHR 0x22" "hex_char (n mod 16) \<noteq> CHR 0x22"
    "hex_char (n div 16) \<noteq> CHR 0x5C" "hex_char (n mod 16) \<noteq> CHR 0x5C"
    "hex_val (hex_char (n div 16)) = Some (of_nat (n div 16))"
    "hex_val (hex_char (n mod 16)) = Some (of_nat (n mod 16))"
  using control [OF assms] unfolding control_ok_def Let_def by blast+

lemma control_word:
  assumes "n < 32" and "w = push_bit 4 (of_nat (n div 16)) + of_nat (n mod 16)"
  shows "w < 0x80" "n \<noteq> 0 \<Longrightarrow> w \<noteq> 0" "utf8_bytes w = [char_of n]"
  using control [OF assms(1)] unfolding control_ok_def Let_def assms(2) by blast+

text \<open>The three forms an escaped character can have.\<close>

lemma escape_char_cases:
  obtains (plain) "escape_char c = [c]" "c \<noteq> CHR 0x22" "c \<noteq> CHR 0x5C"
    | (simple) e where "escape_char c = [CHR 0x5C, e]" "e \<noteq> CHR ''u''" "simple_escape e = c"
    | (unicode) "escape_char c = CHR 0x5C # unicode_escape c" "byte c < 32"
proof -
  consider "\<not> needs_escape c" | "c = CHR 0x5C" | "c = CHR 0x22" | "c = CHR 0x08" | "c = CHR 0x0C"
    | "c = CHR 0x0A" | "c = CHR 0x0D" | "c = CHR 0x09"
    | "c \<noteq> CHR 0x5C" "c \<noteq> CHR 0x22" "c \<noteq> CHR 0x08" "c \<noteq> CHR 0x0C" "c \<noteq> CHR 0x0A"
      "c \<noteq> CHR 0x0D" "c \<noteq> CHR 0x09" "needs_escape c"
    by metis
  then show ?thesis
  proof cases
    case 1
    then show ?thesis by (intro plain) (auto simp: escape_char_def needs_escape_def)
  next
    case 9
    then show ?thesis by (intro unicode) (simp_all add: escape_char_def needs_escape_def)
  qed (rule simple, simp add: escape_char_def needs_escape_def, simp, simp add: simple_escape_def)+
qed

definition escape_count :: "char \<Rightarrow> nat" where
  "escape_count c = max 1 (length (escape_char c) - 1)"

lemma scan_escape_char:
  "scan_string (escape_char c @ s) l k = scan_string s (l + escape_count c) (k + length (escape_char c))"
proof (cases c rule: escape_char_cases)
  case unicode
  with control_hex [of "byte c"] show ?thesis
    by (simp add: unicode_escape_def escape_count_def)
qed (simp_all add: escape_count_def)

lemma scan_print_string:
  "scan_string (concat (map escape_char s) @ CHR 0x22 # rest) l k
     = Inr (l + sum_list (map escape_count s), k + length (concat (map escape_char s)))"
  by (induction s arbitrary: l k) (simp_all add: scan_escape_char)

lemma decode_plain:
  "c \<noteq> CHR 0x5C \<Longrightarrow> 0 < n \<Longrightarrow>
   decode_string st (c # s) n out = decode_string st s (n - 1) (out @ [c])"
  by (subst decode_string.simps) simp

lemma decode_simple:
  "e \<noteq> CHR ''u'' \<Longrightarrow> 0 < n \<Longrightarrow>
   decode_string st (CHR 0x5C # e # s) n out = decode_string st s (n - 2) (out @ [simple_escape e])"
  by (subst decode_string.simps) simp

lemma decode_unicode:
  "parse_hex4 s = w \<Longrightarrow> w \<noteq> 0 \<Longrightarrow> w < 0x80 \<Longrightarrow> 5 < n \<Longrightarrow>
   decode_string st (CHR 0x5C # CHR ''u'' # s) n out = decode_string st (drop 4 s) (n - 6) (out @ utf8_bytes w)"
proof -
  assume w: "parse_hex4 s = w" "w \<noteq> 0" "w < 0x80" "5 < n"
  then have "\<not> 0xDC00 \<le> w" "\<not> 0xD800 \<le> w" by (simp_all add: word_less_nat_alt word_le_nat_alt)
  with w show ?thesis
    unfolding decode_string.simps [of st "CHR 0x5C # CHR ''u'' # s" n out]
    by (simp only: list.case Let_def) simp
qed

lemma parse_hex4_00:
  assumes "hex_val a = Some v" and "hex_val b = Some v'"
  shows "parse_hex4 (CHR ''0'' # CHR ''0'' # a # b # s) = push_bit 4 v + v'"
proof -
  have z: "hex_val (CHR ''0'') = Some 0" by code_simp
  have "parse_hex4 (CHR ''0'' # CHR ''0'' # a # b # s)
      = hex_steps (Suc (Suc (Suc (Suc 0)))) 0 (CHR ''0'' # CHR ''0'' # a # b # s)"
    by (simp add: parse_hex4_def eval_nat_numeral)
  also have "\<dots> = push_bit 4 v + v'"
    unfolding hex_steps.simps peek_simps list.sel z assms option.case by simp
  finally show ?thesis .
qed

lemma decode_escape_char:
  assumes "c \<noteq> NUL"
  shows "decode_string st (escape_char c @ s) (length (escape_char c) + n) out
     = decode_string st s n (out @ [c])"
proof (cases c rule: escape_char_cases)
  case unicode
  define w :: u32 where "w = push_bit 4 (of_nat (byte c div 16)) + of_nat (byte c mod 16)"
  note ok = control_word [OF unicode(2) w_def]
  have h: "parse_hex4 (CHR ''0'' # CHR ''0'' # hex_char (byte c div 16) # hex_char (byte c mod 16) # s) = w"
    by (rule parse_hex4_00 [OF control_hex(5,6) [OF unicode(2)], folded w_def])
  have "w \<noteq> 0" using ok(2) assms by simp
  from decode_unicode [OF h this ok(1), of "Suc (Suc (Suc (Suc (Suc (Suc n)))))" st out] show ?thesis
    using unicode(1) ok(3) by (simp add: unicode_escape_def)
qed (simp_all add: decode_plain decode_simple)

lemma decode_print_string:
  "nul_free s \<Longrightarrow> decode_string st (concat (map escape_char s) @ rest)
     (length (concat (map escape_char s))) out = POk (out @ s) rest"
proof (induction s arbitrary: out)
  case Nil
  then show ?case by (simp add: decode_string.simps [of st rest 0])
next
  case (Cons c s)
  then show ?case by (simp add: decode_escape_char)
qed

lemma parse_print_string:
  assumes "nul_free s"
  shows "parse_string item (print_string_ptr (Some s) @ rest)
     = POk (set_valuestring (Some s) (set_ctype cJSON_String item)) rest"
proof -
  show ?thesis
    using decode_print_string [OF assms, of _ "CHR 0x22 # rest" "[]"]
    by (simp add: parse_string_def print_string_ptr_Some scan_print_string)
qed

section \<open>The items the round trip holds for\<close>

text \<open>A value that is an \<open>int\<close>, and that \<open>int\<close>.\<close>

fun int_valued :: "double \<Rightarrow> bool" where
  "int_valued (DFin x) \<longleftrightarrow> x = of_int \<lfloor>x\<rfloor> \<and> in_int \<lfloor>x\<rfloor>"
| "int_valued _ \<longleftrightarrow> False"

fun int_part :: "double \<Rightarrow> int" where
  "int_part (DFin x) = \<lfloor>x\<rfloor>"
| "int_part _ = 0"

definition text_of :: "string option \<Rightarrow> string" where
  "text_of s = (case s of None \<Rightarrow> '''' | Some t \<Rightarrow> t)"

lemma text_of_simps [simp]: "text_of None = ''''" "text_of (Some t) = t"
  by (simp_all add: text_of_def)

fun printable :: "cJSON \<Rightarrow> bool" where
  "printable (CJSON t vs u8 u16 vi vd s ch) \<longleftrightarrow>
     (let t = and t 255
      in t = cJSON_NULL \<or> t = cJSON_False \<or> t = cJSON_True
         \<or> t = cJSON_Number \<and> int_valued vd \<and> in_int vi
         \<or> t = cJSON_String \<and> nul_free (text_of vs)
         \<or> t = cJSON_Array \<and> list_all printable ch
         \<or> t = cJSON_Object \<and> list_all (\<lambda>c. nul_free (text_of (cstring c)) \<and> printable c) ch)"

text \<open>The item the parser builds, with the name \<open>nm\<close>.\<close>

fun canon :: "string option \<Rightarrow> cJSON \<Rightarrow> cJSON" where
  "canon nm (CJSON t vs u8 u16 vi vd s ch) =
     (let t = and t 255
      in if t = cJSON_True then CJSON t None 0 0 1 (DFin 0) nm []
         else if t = cJSON_Number then CJSON t None 0 0 (int_part vd) vd nm []
         else if t = cJSON_String then CJSON t (Some (text_of vs)) 0 0 0 (DFin 0) nm []
         else if t = cJSON_Array then CJSON t None 0 0 0 (DFin 0) nm (map (canon None) ch)
         else if t = cJSON_Object
         then CJSON t None 0 0 0 (DFin 0) nm (map (\<lambda>c. canon (Some (text_of (cstring c))) c) ch)
         else CJSON t None 0 0 0 (DFin 0) nm [])"

text \<open>The item a value is parsed into: zeroed but for its type and its name.\<close>

definition item0 :: "u32 \<Rightarrow> string option \<Rightarrow> cJSON" where
  "item0 t nm = CJSON t None 0 0 0 (DFin 0) nm []"

lemma New_Item_item0: "cJSON_New_Item = item0 0 None"
  by (simp add: cJSON_New_Item_def item0_def)

text \<open>
  \<open>reads it e\<close>: the text \<open>e\<close> is parsed to \<open>it\<close>, wherever it stands. Only a number depends on what
  follows it.
\<close>

definition ends :: "cJSON \<Rightarrow> string \<Rightarrow> bool" where
  "ends it rest \<longleftrightarrow> and (ctype it) 255 \<noteq> cJSON_Number \<or> value_end rest"

definition reads :: "cJSON \<Rightarrow> string \<Rightarrow> bool" where
  "reads it e \<longleftrightarrow>
     (\<forall>t nm rest n. ends it rest \<longrightarrow> 2 * length e + 2 \<le> n
        \<longrightarrow> parse_value n (item0 t nm) (e @ rest) = POk (canon nm it) rest)
     \<and> 32 < byte (peek e) \<and> peek e \<noteq> CHR '']''"

lemma readsD:
  "reads it e \<Longrightarrow> value_end rest \<Longrightarrow> 2 * length e + 2 \<le> n
     \<Longrightarrow> parse_value n (item0 t nm) (e @ rest) = POk (canon nm it) rest"
  by (simp add: reads_def ends_def)

lemma reads_ne: "reads it e \<Longrightarrow> e \<noteq> [] \<and> 0 < length e"
  by (cases e) (auto simp: reads_def)

lemma peek_append: "e \<noteq> [] \<Longrightarrow> peek (e @ s) = peek e"
  by (cases e) auto

lemma skip_dark: "32 < byte (peek s) \<Longrightarrow> skip s = s"
  by (cases s) auto

lemma reads_skip: "reads it e \<Longrightarrow> skip (e @ s) = e @ s"
  using reads_ne [of it e] by (auto simp: reads_def peek_append intro: skip_dark)

lemma reads_peek: "reads it e \<Longrightarrow> peek (e @ s) \<noteq> CHR '']''"
  using reads_ne [of it e] by (auto simp: reads_def peek_append)

definition blanks :: "string \<Rightarrow> bool" where
  "blanks b \<longleftrightarrow> (\<forall>c\<in>set b. c \<noteq> NUL \<and> byte c \<le> 32)"

lemma skip_blanks: "blanks b \<Longrightarrow> skip (b @ s) = skip s"
  by (induction b) (auto simp: blanks_def)

lemma value_end_sep:
  "value_end (CHR '','' # s)" "value_end (CHR '']'' # s)" "value_end (CHR ''}'' # s)"
  "value_end (CHR 0x0A # s)" "value_end []"
  by (simp_all add: value_end_def is_digit_def)

section \<open>Arrays\<close>

definition array_tail :: "bool \<Rightarrow> string list \<Rightarrow> string" where
  "array_tail fmt es = concat (map (\<lambda>e. '','' @ (if fmt then '' '' else '''') @ e) es)"

lemma array_entries_tail: "array_entries fmt (e # es) = e @ array_tail fmt es"
  by (induction es arbitrary: e) (simp_all add: array_tail_def)

lemma array_tail_start:
  "value_end (array_tail fmt es @ CHR '']'' # rest)
   \<and> skip (array_tail fmt es @ CHR '']'' # rest) = array_tail fmt es @ CHR '']'' # rest"
  by (cases es) (simp_all add: array_tail_def value_end_sep)

lemma array_loop_reads:
  assumes "list_all2 reads its es" and "2 * length (array_tail fmt es) + 1 \<le> n"
  shows "array_loop n item chs (array_tail fmt es @ CHR '']'' # rest)
     = POk (set_child (chs @ map (canon None) its) item) rest"
  using assms
proof (induction arbitrary: n chs rule: list_all2_induct)
  case Nil
  then show ?case by (cases n) (simp_all add: array_tail_def)
next
  case (Cons it its e es)
  let ?t = "array_tail fmt es @ CHR '']'' # rest"
  have tl: "array_tail fmt (e # es) = CHR '','' # (if fmt then '' '' else '''') @ e @ array_tail fmt es"
    by (simp add: array_tail_def)
  obtain m where n: "n = Suc m" using Cons.prems tl by (cases n) auto
  have "skip ((if fmt then '' '' else '''') @ e @ ?t) = e @ ?t"
    using reads_skip [OF Cons.hyps(1), of ?t] by (cases fmt) simp_all
  moreover have "parse_value m cJSON_New_Item (e @ ?t) = POk (canon None it) ?t"
    unfolding New_Item_item0 using Cons.prems array_tail_start [of fmt es rest]
    by (intro readsD [OF Cons.hyps(1)]) (simp_all add: tl n)
  moreover have "array_loop m item (chs @ [canon None it]) ?t
      = POk (set_child ((chs @ [canon None it]) @ map (canon None) its) item) rest"
    using Cons.prems reads_ne [OF Cons.hyps(1)] by (intro Cons.IH) (simp add: tl n)
  ultimately show ?case
    using array_tail_start [of fmt es rest] by (simp add: tl n)
qed

lemma parse_array_reads:
  assumes "list_all2 reads its es" and "2 * length (print_array_out fmt es) + 1 \<le> n"
  shows "parse_array n item (print_array_out fmt es @ rest)
     = POk (if its = [] then set_ctype cJSON_Array item
            else set_child (map (canon None) its) (set_ctype cJSON_Array item)) rest"
proof (cases its)
  case Nil
  with assms show ?thesis by (cases n) (simp_all add: print_array_out_def)
next
  case (Cons it its')
  with assms(1) obtain e es' where es: "es = e # es'" and e: "reads it e"
    and es': "list_all2 reads its' es'"
    by (auto simp: list_all2_Cons1)
  let ?t = "array_tail fmt es' @ CHR '']'' # rest"
  have out: "print_array_out fmt es @ rest = CHR ''['' # e @ ?t"
    unfolding print_array_out_def es array_entries_tail by simp
  have len: "length (print_array_out fmt es) = 2 + length e + length (array_tail fmt es')"
    unfolding print_array_out_def es array_entries_tail by simp
  obtain m where n: "n = Suc m" using assms(2) len by (cases n) auto
  have "parse_value m cJSON_New_Item (e @ ?t) = POk (canon None it) ?t"
    unfolding New_Item_item0 using assms(2) array_tail_start [of fmt es' rest]
    by (intro readsD [OF e]) (simp_all add: len n)
  moreover have "array_loop m (set_ctype cJSON_Array item) [canon None it] ?t
      = POk (set_child ([canon None it] @ map (canon None) its') (set_ctype cJSON_Array item)) rest"
    using assms(2) by (intro array_loop_reads [OF es']) (simp add: len n)
  ultimately show ?thesis
    unfolding out n Cons using reads_skip [OF e, of ?t] reads_peek [OF e, of ?t]
      array_tail_start [of fmt es' rest]
    by simp
qed

section \<open>Objects\<close>

lemma parse_print_name:
  "nul_free (text_of nm) \<Longrightarrow> parse_string item (print_string_ptr nm @ rest)
     = POk (set_valuestring (Some (text_of nm)) (set_ctype cJSON_String item)) rest"
  using parse_print_string [of "text_of nm" item rest]
  by (cases nm) (simp_all add: print_string_ptr_def)

lemma print_string_ptr_head: "\<exists>s. print_string_ptr nm = CHR 0x22 # s \<and> s \<noteq> []"
  by (auto simp: print_string_ptr_def split: option.split)

lemma parse_member_reads:
  assumes e: "reads it e" and nm: "nul_free (text_of nm)" and rest: "value_end rest"
    and n: "2 * length (print_string_ptr nm @ '':'' @ b @ e) + 1 \<le> n" and b: "blanks b"
  shows "parse_member n (print_string_ptr nm @ '':'' @ b @ e @ rest)
     = POk (canon (Some (text_of nm)) it) (skip rest)"
proof -
  obtain m where m: "n = Suc m" using n by (cases n) auto
  have "set_valuestring None (set_cstring (Some (text_of nm))
      (set_valuestring (Some (text_of nm)) (set_ctype cJSON_String cJSON_New_Item)))
      = item0 cJSON_String (Some (text_of nm))"
    by (simp add: cJSON_New_Item_def item0_def)
  moreover have "skip (b @ e @ rest) = e @ rest"
    using reads_skip [OF e] by (simp add: skip_blanks [OF b])
  moreover have "parse_value m (item0 cJSON_String (Some (text_of nm))) (e @ rest)
      = POk (canon (Some (text_of nm)) it) rest"
    using n print_string_ptr_head [of nm] by (intro readsD [OF e rest]) (auto simp: m)
  ultimately show ?thesis by (simp add: m parse_print_name [OF nm])
qed

abbreviation member_name :: "cJSON \<Rightarrow> string" where
  "member_name c \<equiv> text_of (cstring c)"

text \<open>The text behind a member's value: a comma if more members follow, then these.\<close>

definition object_tail :: "bool \<Rightarrow> nat \<Rightarrow> (string \<times> string) list \<Rightarrow> string" where
  "object_tail fmt d ps =
     (if ps \<noteq> [] then '','' else '''') @ (if fmt then [CHR 0x0A] else '''') @ object_entries fmt d ps"

lemma object_entries_Cons:
  "object_entries fmt d ((n, e) # ps) =
     (if fmt then tabs d else '''') @ n @ '':'' @ (if fmt then tabs 1 else '''') @ e
       @ object_tail fmt d ps"
  by (simp add: object_tail_def)

lemma blanks_tabs: "blanks (if fmt then tabs d else '''')"
  by (simp add: blanks_def tabs_def)

lemma blanks_nl: "blanks (if fmt then [CHR 0x0A] else '''')"
  by (simp add: blanks_def)

definition member_of :: "cJSON \<Rightarrow> string \<times> string \<Rightarrow> bool" where
  "member_of it p \<longleftrightarrow> nul_free (member_name it) \<and> fst p = print_string_ptr (cstring it) \<and> reads it (snd p)"

lemma object_tail_end:
  "value_end (object_tail fmt d ps @ pad @ CHR ''}'' # rest)" if "fmt \<or> pad = []"
proof (cases ps)
  case Nil
  with that show ?thesis by (cases fmt) (simp_all add: object_tail_def value_end_sep)
next
  case (Cons p ps')
  then show ?thesis by (simp add: object_tail_def value_end_sep)
qed

lemma skip_member:
  "skip (print_string_ptr nm @ s) = print_string_ptr nm @ s"
  using print_string_ptr_head [of nm] by auto

lemma object_loop_reads:
  assumes "list_all2 member_of its ps" and "2 * length (object_tail fmt d ps) + 1 \<le> n"
    and pad: "blanks pad" "fmt \<or> pad = []"
  shows "object_loop n item chs (skip (object_tail fmt d ps @ pad @ CHR ''}'' # rest))
     = POk (set_child (chs @ map (\<lambda>c. canon (Some (member_name c)) c) its) item) rest"
  using assms(1,2)
proof (induction arbitrary: n chs rule: list_all2_induct)
  case Nil
  then show ?case
    by (cases n) (simp_all add: object_tail_def skip_blanks blanks_nl pad(1))
next
  case (Cons it its p ps)
  obtain e where p: "p = (print_string_ptr (cstring it), e)" and e: "reads it e"
    and nm: "nul_free (member_name it)"
    using Cons.hyps(1) by (cases p) (auto simp: member_of_def)
  let ?t = "object_tail fmt d ps @ pad @ CHR ''}'' # rest"
  let ?nl = "if fmt then [CHR 0x0A] else ''''" and ?b = "if fmt then tabs d else ''''"
  let ?s = "if fmt then tabs 1 else ''''"
  let ?m = "print_string_ptr (cstring it) @ '':'' @ ?s @ e @ ?t"
  have tl: "object_tail fmt d (p # ps) @ r
      = CHR '','' # ?nl @ ?b @ print_string_ptr (cstring it) @ '':'' @ ?s @ e @ object_tail fmt d ps @ r" for r
    unfolding p by (subst object_tail_def) (simp only: object_entries_Cons, simp)
  have len: "length (object_tail fmt d (p # ps)) = 1 + length ?nl + length ?b
      + length (print_string_ptr (cstring it) @ '':'' @ ?s @ e) + length (object_tail fmt d ps)"
    using tl [of "[]"] by simp
  obtain m where n: "n = Suc m" using Cons.prems(1) by (cases n) auto
  have bound: "2 * length (print_string_ptr (cstring it) @ '':'' @ ?s @ e) + 1 \<le> m"
    "2 * length (object_tail fmt d ps) + 1 \<le> m"
    using Cons.prems(1) unfolding len n by simp_all
  have sk: "skip (?nl @ ?b @ ?m) = ?m"
    by (simp only: skip_blanks [OF blanks_nl] skip_blanks [OF blanks_tabs] skip_member)
  have mem: "parse_member m ?m = POk (canon (Some (member_name it)) it) (skip ?t)"
    by (rule parse_member_reads [OF e nm object_tail_end [OF pad(2)] bound(1) blanks_tabs])
  have loop: "object_loop m item (chs @ [canon (Some (member_name it)) it]) (skip ?t)
      = POk (set_child ((chs @ [canon (Some (member_name it)) it])
          @ map (\<lambda>c. canon (Some (member_name c)) c) its) item) rest"
    by (rule Cons.IH [OF bound(2)])
  have start: "skip (object_tail fmt d (p # ps) @ pad @ CHR ''}'' # rest) = CHR '','' # ?nl @ ?b @ ?m"
    unfolding tl by simp
  show ?case
    unfolding n start object_loop.simps peek_simps list.sel sk mem pbind_simps loop by simp
qed

lemma parse_object_reads:
  assumes "list_all2 member_of its ps" and "2 * length (print_object_out fmt d ps) + 1 \<le> n"
  shows "parse_object n item (print_object_out fmt d ps @ rest)
     = POk (if its = [] then set_ctype cJSON_Object item
            else set_child (map (\<lambda>c. canon (Some (member_name c)) c) its)
              (set_ctype cJSON_Object item)) rest"
proof (cases its)
  case Nil
  have "skip ((if fmt then CHR 0x0A # tabs d else '''') @ CHR ''}'' # rest) = CHR ''}'' # rest"
    by (subst skip_blanks) (auto simp: blanks_def tabs_def)
  then show ?thesis using assms Nil by (cases n) (simp_all add: print_object_out_def)
next
  case (Cons it its')
  with assms(1) obtain e ps' where ps: "ps = (print_string_ptr (cstring it), e) # ps'"
    and e: "reads it e" and nm: "nul_free (member_name it)" and ps': "list_all2 member_of its' ps'"
    by (auto simp: list_all2_Cons1 member_of_def)
  let ?pad = "if fmt then tabs d else ''''" and ?nl = "if fmt then [CHR 0x0A] else ''''"
  let ?b = "if fmt then tabs (d + 1) else ''''" and ?s = "if fmt then tabs 1 else ''''"
  let ?t = "object_tail fmt (d + 1) ps' @ ?pad @ CHR ''}'' # rest"
  let ?m = "print_string_ptr (cstring it) @ '':'' @ ?s @ e @ ?t"
  have out: "print_object_out fmt d ps @ r = CHR ''{'' # ?nl @ ?b @ print_string_ptr (cstring it)
      @ '':'' @ ?s @ e @ object_tail fmt (d + 1) ps' @ ?pad @ CHR ''}'' # r" for r
    unfolding ps print_object_out_def by (simp only: object_entries_Cons) simp
  have len: "length (print_object_out fmt d ps) = 2 + length ?nl + length ?b
      + length (print_string_ptr (cstring it) @ '':'' @ ?s @ e) + length (object_tail fmt (d + 1) ps')
      + length ?pad"
    using out [of "[]"] by simp
  obtain m where n: "n = Suc m" using assms(2) unfolding len by (cases n) auto
  have bound: "2 * length (print_string_ptr (cstring it) @ '':'' @ ?s @ e) + 1 \<le> m"
    "2 * length (object_tail fmt (d + 1) ps') + 1 \<le> m"
    using assms(2) unfolding len n by simp_all
  have pad: "fmt \<or> ?pad = []" by simp
  have sk: "skip (?nl @ ?b @ ?m) = ?m"
    by (simp only: skip_blanks [OF blanks_nl] skip_blanks [OF blanks_tabs] skip_member)
  have mem: "parse_member m ?m = POk (canon (Some (member_name it)) it) (skip ?t)"
    by (rule parse_member_reads [OF e nm object_tail_end [OF pad] bound(1) blanks_tabs])
  have loop: "object_loop m (set_ctype cJSON_Object item) [canon (Some (member_name it)) it] (skip ?t)
      = POk (set_child ([canon (Some (member_name it)) it]
          @ map (\<lambda>c. canon (Some (member_name c)) c) its') (set_ctype cJSON_Object item)) rest"
    by (rule object_loop_reads [OF ps' bound(2) blanks_tabs pad])
  have quote: "peek ?m = CHR 0x22" using print_string_ptr_head [of "cstring it"] by auto
  have "parse_object (Suc m) item (CHR ''{'' # ?nl @ ?b @ ?m)
      = POk (set_child ([canon (Some (member_name it)) it]
          @ map (\<lambda>c. canon (Some (member_name c)) c) its') (set_ctype cJSON_Object item)) rest"
    unfolding parse_object.simps peek_simps list.sel sk quote Let_def skip_member mem
      pbind_simps loop by simp
  then show ?thesis unfolding out n Cons by simp
qed

section \<open>Every printable item\<close>

lemma print_number_printable:
  assumes "int_valued (valuedouble it)" and "in_int (valueint it)"
  shows "print_number it = show_int (int_part (valuedouble it))"
    and "valuedouble it = DFin (of_int (int_part (valuedouble it)))"
    and "in_int (int_part (valuedouble it))"
proof -
  obtain x where x: "valuedouble it = DFin x" "x = of_int \<lfloor>x\<rfloor>" "in_int \<lfloor>x\<rfloor>"
    using assms(1) by (cases "valuedouble it") auto
  then show "print_number it = show_int (int_part (valuedouble it))"
    using print_number_int [of it "\<lfloor>x\<rfloor>"] assms(2) by simp
  show "valuedouble it = DFin (of_int (int_part (valuedouble it)))"
    and "in_int (int_part (valuedouble it))"
    using x by simp_all
qed

lemma show_int_head:
  "\<exists>c s. show_int k = c # s \<and> (c = CHR ''-'' \<or> is_digit c)"
proof (cases "k < 0")
  case False
  then show ?thesis using nat_digits_head [of "nat k" "[]"]
    by (cases "nat_digits (nat k)") (auto simp: show_int_def)
qed (simp add: show_int_def)

lemma is_digit_not:
  "is_digit c \<Longrightarrow> c \<noteq> CHR ''n'' \<and> c \<noteq> CHR ''f'' \<and> c \<noteq> CHR ''t'' \<and> c \<noteq> CHR 0x22 \<and> c \<noteq> CHR ''-'' \<and> 32 < byte c
     \<and> c \<noteq> CHR '']''"
  by (auto simp: is_digit_def)

lemma parse_value_number:
  assumes "in_int k" "value_end rest" "0 < n"
  shows "parse_value n item (show_int k @ rest)
     = POk (set_ctype cJSON_Number (set_valueint k (set_valuedouble (DFin (of_int k)) item))) rest"
proof -
  obtain m where n: "n = Suc m" using assms(3) by (cases n) auto
  obtain c s where cs: "show_int k = c # s" "c = CHR ''-'' \<or> is_digit c"
    using show_int_head by blast
  have "parse_value (Suc m) item (show_int k @ rest) = parse_number item (show_int k @ rest)"
    using cs(2) is_digit_not [of c] unfolding parse_value.simps cs(1) by auto
  then show ?thesis using parse_number_show_int [OF assms(1,2), of item] n by simp
qed

lemma reads_number:
  assumes "int_valued (valuedouble it)" "in_int (valueint it)" "and (ctype it) 255 = cJSON_Number"
  shows "reads it (print_number it)"
proof -
  note num = print_number_printable [OF assms(1,2)]
  let ?k = "int_part (valuedouble it)"
  have "canon nm it = CJSON cJSON_Number None 0 0 ?k (DFin (of_int ?k)) nm []" for nm
    using assms(3) num(2) by (cases it) simp
  moreover have "32 < byte (peek (show_int ?k)) \<and> peek (show_int ?k) \<noteq> CHR '']''"
    using show_int_head [of ?k] is_digit_not by fastforce
  ultimately show ?thesis
    unfolding reads_def num(1) using num(3) by (auto simp: parse_value_number item0_def ends_def assms(3))
qed

lemma reads_string:
  assumes "nul_free (text_of (valuestring it))" "and (ctype it) 255 = cJSON_String"
  shows "reads it (print_string it)"
proof -
  obtain s where s: "print_string_ptr (valuestring it) = CHR 0x22 # s"
    using print_string_ptr_head by blast
  have "parse_value n item (print_string it @ rest) =
      POk (set_valuestring (Some (text_of (valuestring it))) (set_ctype cJSON_String item)) rest"
    if "0 < n" for n item rest
  proof -
    obtain m where n: "n = Suc m" using \<open>0 < n\<close> by (cases n) auto
    have "parse_value n item (print_string it @ rest)
        = parse_string item (print_string_ptr (valuestring it) @ rest)"
      unfolding n parse_value.simps print_string_def s by simp
    then show ?thesis using parse_print_name [OF assms(1)] by simp
  qed
  moreover have "canon nm it = CJSON cJSON_String (Some (text_of (valuestring it))) 0 0 0 (DFin 0) nm []"
    for nm using assms(2) by (cases it) simp
  ultimately show ?thesis using s by (simp add: reads_def item0_def print_string_def)
qed

lemma reads_literal:
  assumes "and (ctype it) 255 \<in> {cJSON_NULL, cJSON_False, cJSON_True}"
  shows "reads it (the (print_value it d fmt))"
proof -
  have suc: "10 \<le> n \<Longrightarrow> \<exists>m. n = Suc m" "12 \<le> n \<Longrightarrow> \<exists>m. n = Suc m" for n :: nat
    by (cases n; simp)+
  show ?thesis using assms by (cases it) (auto simp: reads_def item0_def dest!: suc)
qed

lemma those_list_all2: "those (map f xs) = Some ys \<Longrightarrow> list_all2 (\<lambda>x y. f x = Some y) xs ys"
  by (auto simp: those_Some_iff list_all2_conv_all_nth dest: map_eq_imp_length_eq)
    (metis length_map nth_map)

lemma object_children_reads:
  assumes "list_all2 reads ch es" "\<forall>c\<in>set ch. printable c \<and> nul_free (text_of (cstring c))"
  shows "list_all2 member_of ch (zip (map (\<lambda>c. print_string_ptr (cstring c)) ch) es)"
  using assms by (induction rule: list_all2_induct) (auto simp: member_of_def)

lemma Suc_of_bound: "k + 2 \<le> n \<Longrightarrow> \<exists>m. n = Suc m \<and> k + 1 \<le> m" for n :: nat
  by (cases n) auto

lemma parse_value_array_start:
  "parse_value (Suc m) item (CHR ''['' # s) = parse_array m item (CHR ''['' # s)"
  by (simp add: is_digit_def)

lemma parse_value_object_start:
  "parse_value (Suc m) item (CHR ''{'' # s) = parse_object m item (CHR ''{'' # s)"
  by (simp add: is_digit_def)

lemma reads_array:
  assumes "list_all2 reads ch es" and "and t 255 = cJSON_Array"
  shows "reads (CJSON t vs u8 u16 vi vd s ch) (print_array_out fmt es)"
proof -
  obtain u where u: "print_array_out fmt es = CHR ''['' # u"
    by (cases "es = []") (auto simp: print_array_out_def)
  have "parse_value n (item0 t' nm) (print_array_out fmt es @ rest)
      = POk (canon nm (CJSON t vs u8 u16 vi vd s ch)) rest"
    if bound: "2 * length (print_array_out fmt es) + 2 \<le> n" for n t' nm rest
  proof -
    obtain m where m: "n = Suc m" "2 * length (print_array_out fmt es) + 1 \<le> m"
      using Suc_of_bound [OF bound] by blast
    have "parse_value n (item0 t' nm) (print_array_out fmt es @ rest)
        = parse_array m (item0 t' nm) (print_array_out fmt es @ rest)"
      unfolding m(1) u append_Cons by (rule parse_value_array_start)
    also have "\<dots> = POk (canon nm (CJSON t vs u8 u16 vi vd s ch)) rest"
      unfolding parse_array_reads [OF assms(1) m(2)] using assms(2) by (simp add: item0_def)
    finally show ?thesis .
  qed
  then show ?thesis by (simp add: reads_def u)
qed

lemma reads_object:
  assumes "list_all2 member_of ch ps" and "and t 255 = cJSON_Object"
  shows "reads (CJSON t vs u8 u16 vi vd s ch) (print_object_out fmt d ps)"
proof -
  obtain u where u: "print_object_out fmt d ps = CHR ''{'' # u"
    by (cases "ps = []") (auto simp: print_object_out_def)
  have "parse_value n (item0 t' nm) (print_object_out fmt d ps @ rest)
      = POk (canon nm (CJSON t vs u8 u16 vi vd s ch)) rest"
    if bound: "2 * length (print_object_out fmt d ps) + 2 \<le> n" for n t' nm rest
  proof -
    obtain m where m: "n = Suc m" "2 * length (print_object_out fmt d ps) + 1 \<le> m"
      using Suc_of_bound [OF bound] by blast
    have "parse_value n (item0 t' nm) (print_object_out fmt d ps @ rest)
        = parse_object m (item0 t' nm) (print_object_out fmt d ps @ rest)"
      unfolding m(1) u append_Cons by (rule parse_value_object_start)
    also have "\<dots> = POk (canon nm (CJSON t vs u8 u16 vi vd s ch)) rest"
      unfolding parse_object_reads [OF assms(1) m(2)] using assms(2) by (simp add: item0_def)
    finally show ?thesis .
  qed
  then show ?thesis by (simp add: reads_def u)
qed

text \<open>The texts of the children of a printed item.\<close>

lemma print_array_texts:
  assumes "print_value it d fmt = Some e" "and (ctype it) 255 = cJSON_Array"
  obtains es where "e = print_array_out fmt es"
    "list_all2 (\<lambda>c e. print_value c (d + 1) fmt = Some e) (child it) es"
  using assms by (cases it) (auto dest: those_list_all2)

lemma print_object_texts:
  assumes "print_value it d fmt = Some e" "and (ctype it) 255 = cJSON_Object"
  obtains es where "e = print_object_out fmt d (zip (map (\<lambda>c. print_string_ptr (cstring c)) (child it)) es)"
    "list_all2 (\<lambda>c e. print_value c (d + 1) fmt = Some e) (child it) es"
  using assms by (cases it) (auto dest: those_list_all2)

text \<open>Induction over what is printed: one case for each form of text.\<close>

lemma print_induct [consumes 2, case_names literal number string array object]:
  assumes "print_value it d fmt = Some e" "printable it"
    and lit: "\<And>it d e. and (ctype it) 255 \<in> {cJSON_NULL, cJSON_False, cJSON_True} \<Longrightarrow>
      print_value it d fmt = Some e \<Longrightarrow> P it d e"
    and num: "\<And>it d. and (ctype it) 255 = cJSON_Number \<Longrightarrow> int_valued (valuedouble it) \<Longrightarrow>
      in_int (valueint it) \<Longrightarrow> P it d (print_number it)"
    and str: "\<And>it d. and (ctype it) 255 = cJSON_String \<Longrightarrow> nul_free (text_of (valuestring it)) \<Longrightarrow>
      P it d (print_string_ptr (valuestring it))"
    and arr: "\<And>it d es. and (ctype it) 255 = cJSON_Array \<Longrightarrow> \<forall>c\<in>set (child it). printable c \<Longrightarrow>
      list_all2 (\<lambda>c e. print_value c (d + 1) fmt = Some e) (child it) es \<Longrightarrow>
      list_all2 (\<lambda>c e. P c (d + 1) e) (child it) es \<Longrightarrow> P it d (print_array_out fmt es)"
    and obj: "\<And>it d es. and (ctype it) 255 = cJSON_Object \<Longrightarrow>
      \<forall>c\<in>set (child it). printable c \<and> nul_free (text_of (cstring c)) \<Longrightarrow>
      list_all2 (\<lambda>c e. print_value c (d + 1) fmt = Some e) (child it) es \<Longrightarrow>
      list_all2 (\<lambda>c e. P c (d + 1) e) (child it) es \<Longrightarrow>
      P it d (print_object_out fmt d (zip (map (\<lambda>c. print_string_ptr (cstring c)) (child it)) es))"
  shows "P it d e"
  using assms(1,2)
proof (induction it arbitrary: d e)
  case (CJSON t vs u8 u16 vi vd s ch)
  let ?it = "CJSON t vs u8 u16 vi vd s ch"
  have kids: "list_all2 (\<lambda>c e. P c (d + 1) e) ch es"
    if "list_all2 (\<lambda>c e. print_value c (d + 1) fmt = Some e) ch es" "\<forall>c\<in>set ch. printable c" for es
    using that CJSON.IH by (induction rule: list_all2_induct) auto
  consider "and t 255 \<in> {cJSON_NULL, cJSON_False, cJSON_True}" | "and t 255 = cJSON_Number"
    | "and t 255 = cJSON_String" | "and t 255 = cJSON_Array" | "and t 255 = cJSON_Object"
    using CJSON.prems(2) by (auto simp: Let_def)
  then show ?case
  proof cases
    case 1
    then show ?thesis using lit [of ?it d e] CJSON.prems(1) by simp
  next
    case 2
    then show ?thesis using num [of ?it d] CJSON.prems by simp
  next
    case 3
    then show ?thesis using str [of ?it d] CJSON.prems by (simp add: print_string_def)
  next
    case 4
    then obtain es where es: "e = print_array_out fmt es" "list_all2 (\<lambda>c e. print_value c (d + 1) fmt = Some e) ch es"
      using print_array_texts [OF CJSON.prems(1)] by auto
    have "\<forall>c\<in>set ch. printable c" using CJSON.prems(2) 4 by (simp add: list_all_iff)
    then show ?thesis unfolding es(1) using arr [of ?it d es] 4 es(2) kids by simp
  next
    case 5
    then obtain es where es: "e = print_object_out fmt d (zip (map (\<lambda>c. print_string_ptr (cstring c)) ch) es)"
      "list_all2 (\<lambda>c e. print_value c (d + 1) fmt = Some e) ch es"
      using print_object_texts [OF CJSON.prems(1)] by auto
    have "\<forall>c\<in>set ch. printable c \<and> nul_free (text_of (cstring c))" using CJSON.prems(2) 5 by (simp add: list_all_iff)
    then show ?thesis unfolding es(1) using obj [of ?it d es] 5 es(2) kids by simp
  qed
qed

lemma reads_print_value:
  "print_value it d fmt = Some e \<Longrightarrow> printable it \<Longrightarrow> reads it e"
proof (induction rule: print_induct)
  case (array it d es)
  have "list_all2 reads (child it) es" using array(4) by simp
  then show ?case using reads_array [of "child it" es "ctype it"] array(1) by (cases it) simp
next
  case (object it d es)
  have "list_all2 member_of (child it) (zip (map (\<lambda>c. print_string_ptr (cstring c)) (child it)) es)"
    using object(4) object(2) by (intro object_children_reads)
  then show ?case using reads_object [of "child it" _ "ctype it"] object(1) by (cases it) simp
next
  case (literal it d e)
  then show ?case using reads_literal [of it d fmt] by simp
next
  case (string it d)
  then show ?case using reads_string [of it] by (simp add: print_string_def)
qed (rule reads_number)

lemma those_total: "(\<And>x. x \<in> set xs \<Longrightarrow> \<exists>y. f x = Some y) \<Longrightarrow> \<exists>ys. those (map f xs) = Some ys"
  by (induction xs) fastforce+

lemma print_value_total: "printable it \<Longrightarrow> \<exists>e. print_value it d fmt = Some e"
proof (induction it arbitrary: d)
  case (CJSON t vs u8 u16 vi vd s ch)
  have "\<exists>ys. those (map (\<lambda>c. print_value c (d + 1) fmt) ch) = Some ys" if "list_all printable ch"
    using CJSON.IH that by (intro those_total) (auto simp: list_all_iff)
  then show ?case using CJSON.prems
    by (auto simp: Let_def list_all_iff simp del: print_value.simps
        simp add: print_value.simps [of "CJSON t vs u8 u16 vi vd s ch"])
qed

lemma cJSON_Parse_reads:
  assumes "reads it e" and "ends it rest"
  shows "cJSON_Parse (e @ rest) = Inr (Some (canon None it))"
proof -
  have "parse_value (parse_fuel (e @ rest)) cJSON_New_Item (e @ rest) = POk (canon None it) rest"
    unfolding New_Item_item0 using assms(2)
    by (intro assms(1) [unfolded reads_def, THEN conjunct1, rule_format])
      (simp_all add: parse_fuel_def)
  then show ?thesis
    by (simp add: cJSON_Parse_def cJSON_ParseWithOpts_def reads_skip [OF assms(1)])
qed

section \<open>Printed texts are C strings\<close>

lemma nul_free_set: "nul_free s \<longleftrightarrow> (\<forall>c\<in>set s. c \<noteq> NUL)"
  by (auto simp: nul_free_def)

lemma nul_free_digits: "nul_free (nat_digits n)"
proof (induction n rule: nat_digits.induct)
  case (1 n)
  have d: "digit_char k \<noteq> NUL" if "k < 10" for k
    using byte_digit_char [OF that] by (metis add_is_0 byte_eq_0_iff zero_neq_numeral)
  show ?case using "1.IH" d by (subst nat_digits.simps) auto
qed

lemma nul_free_show_int: "nul_free (show_int k)"
  by (simp add: show_int_def nul_free_digits)

lemma control_hex_NUL:
  "n < 32 \<Longrightarrow> hex_char (n div 16) \<noteq> NUL \<and> hex_char (n mod 16) \<noteq> NUL"
proof -
  have "list_all (\<lambda>n. hex_char (n div 16) \<noteq> NUL \<and> hex_char (n mod 16) \<noteq> NUL) [0..<32]" by code_simp
  then show "n < 32 \<Longrightarrow> hex_char (n div 16) \<noteq> NUL \<and> hex_char (n mod 16) \<noteq> NUL"
    by (simp add: list_all_iff)
qed

lemma nul_free_escape: "c \<noteq> NUL \<Longrightarrow> nul_free (escape_char c)"
proof (cases c rule: escape_char_cases)
  case (simple e)
  assume "c \<noteq> NUL"
  then have "e \<noteq> NUL" using simple(3) by (auto simp: simple_escape_def split: if_splits)
  then show ?thesis by (simp add: simple)
next
  case unicode
  then show ?thesis using control_hex_NUL [of "byte c"] by (simp add: unicode_escape_def)
qed simp

lemma nul_free_print_string: "nul_free (text_of s) \<Longrightarrow> nul_free (print_string_ptr s)"
proof (cases s)
  case (Some t)
  assume "nul_free (text_of s)"
  then have "nul_free (concat (map escape_char t))"
    unfolding Some text_of_simps by (induction t) (auto simp: nul_free_escape)
  then show ?thesis by (simp add: Some print_string_ptr_Some)
qed (simp add: print_string_ptr_def)

lemma nul_free_array_out: "list_all nul_free es \<Longrightarrow> nul_free (print_array_out fmt es)"
proof -
  have "list_all nul_free es \<Longrightarrow> nul_free (array_entries fmt es)"
    by (induction fmt es rule: array_entries.induct) auto
  then show "list_all nul_free es \<Longrightarrow> nul_free (print_array_out fmt es)"
    by (simp add: print_array_out_def)
qed

lemma nul_free_tabs [simp]: "nul_free (tabs n)"
  by (auto simp: tabs_def nul_free_def)

lemma nul_free_object_out:
  "list_all (\<lambda>(n, e). nul_free n \<and> nul_free e) es \<Longrightarrow> nul_free (print_object_out fmt d es)"
proof -
  have "list_all (\<lambda>(n, e). nul_free n \<and> nul_free e) es \<Longrightarrow> nul_free (object_entries fmt k es)" for k
    by (induction fmt k es rule: object_entries.induct) auto
  then show "list_all (\<lambda>(n, e). nul_free n \<and> nul_free e) es \<Longrightarrow> nul_free (print_object_out fmt d es)"
    by (simp add: print_object_out_def)
qed

lemma list_all2_right: "list_all2 (\<lambda>x y. Q y) xs ys \<Longrightarrow> list_all Q ys"
  by (induction rule: list_all2_induct) simp_all

lemma nul_free_print_value:
  "print_value it d fmt = Some e \<Longrightarrow> printable it \<Longrightarrow> nul_free e"
proof (induction rule: print_induct)
  case (number it d)
  then show ?case by (simp add: print_number_printable(1) nul_free_show_int)
next
  case (array it d es)
  have "list_all nul_free es" using array(4) by (rule list_all2_right)
  then show ?case by (rule nul_free_array_out)
next
  case (object it d es)
  have "list_all nul_free es" using object(4) by (rule list_all2_right)
  moreover have "\<forall>c\<in>set (child it). nul_free (print_string_ptr (cstring c))"
    using object(2) by (simp add: nul_free_print_string)
  ultimately show ?case
    by (intro nul_free_object_out) (fastforce simp: list_all_iff dest: set_zip_leftD set_zip_rightD)
next
  case (string it d)
  then show ?case by (simp add: nul_free_print_string)
next
  case (literal it d e)
  then consider "and (ctype it) 255 = cJSON_NULL" | "and (ctype it) 255 = cJSON_False" | "and (ctype it) 255 = cJSON_True"
    by blast
  then show ?case using literal(2) by cases auto
qed

section \<open>The parsed item prints like the printed one\<close>

lemma those_map_cong: "(\<And>c. c \<in> set ch \<Longrightarrow> f (g c) = h c) \<Longrightarrow> those (map f (map g ch)) = those (map h ch)"
  by (simp add: o_def cong: map_cong)

lemma print_string_ptr_text: "print_string_ptr (Some (text_of s)) = print_string_ptr s"
  by (cases s) (simp_all add: print_string_ptr_def)

lemma canon_sel: "cstring (canon nm it) = nm"
  by (cases it) (simp add: Let_def)

lemma print_canon: "printable it \<Longrightarrow> print_value (canon nm it) d fmt = print_value it d fmt"
proof (induction it arbitrary: nm d)
  case (CJSON t vs u8 u16 vi vd s ch)
  let ?it = "CJSON t vs u8 u16 vi vd s ch"
  consider "and t 255 \<in> {cJSON_NULL, cJSON_False, cJSON_True}" | "and t 255 = cJSON_Number"
    | "and t 255 = cJSON_String" | "and t 255 = cJSON_Array" | "and t 255 = cJSON_Object"
    using CJSON.prems by (auto simp: Let_def)
  then show ?case
  proof cases
    case 1
    then show ?thesis by auto
  next
    case 2
    then have v: "int_valued vd" "in_int vi" using CJSON.prems by simp_all
    note p = print_number_printable [of ?it]
    have "in_int (int_part vd)" using p(3) v by simp
    then show ?thesis using 2 v p(1) print_number_printable(1) [of "canon nm ?it"]
      by simp
  next
    case 3
    then show ?thesis by (simp add: print_string_def print_string_ptr_text)
  next
    case 4
    then have "those (map (\<lambda>c. print_value c (d + 1) fmt) (map (canon None) ch))
        = those (map (\<lambda>c. print_value c (d + 1) fmt) ch)"
      using CJSON.prems CJSON.IH by (intro those_map_cong) (auto simp: list_all_iff)
    then show ?thesis using 4 by (simp del: map_map list.map_comp)
  next
    case 5
    let ?c = "\<lambda>c. canon (Some (text_of (cstring c))) c"
    have "those (map (\<lambda>c. print_value c (d + 1) fmt) (map ?c ch))
        = those (map (\<lambda>c. print_value c (d + 1) fmt) ch)"
      using CJSON.prems CJSON.IH 5 by (intro those_map_cong) (auto simp: list_all_iff)
    moreover have "map (\<lambda>c. print_string_ptr (cstring c)) (map ?c ch)
        = map (\<lambda>c. print_string_ptr (cstring c)) ch"
      by (simp add: canon_sel print_string_ptr_text)
    ultimately show ?thesis using 5 by (simp del: map_map list.map_comp)
  qed
qed

section \<open>The round trip\<close>

text \<open>Neither condition can be dropped: \<open>%f\<close> prints six decimals, so that 2^-10 comes out as 0.000977; and 12 with
  a 3 behind it is read as 123.\<close>

lemma digit_chars:
  "digit_char 1 = CHR ''1''" "digit_char 2 = CHR ''2''" "digit_char 3 = CHR ''3''" "digit_char 7 = CHR ''7''" "digit_char 9 = CHR ''9''"
  by code_simp+
lemma show_int_examples: "show_int 12 = ''12''" "show_int 123 = ''123''"
  using digit_chars by (simp_all add: show_int_def nat_digits.simps)
lemma show_f_small: "show_f (1 / 1024) = ''0.000977''" 
proof -
  have "\<lfloor>15625 / 16 :: rat\<rfloor> = 976" by (simp add: floor_eq_iff)
  then have "round_half_even (\<bar>1 / 1024\<bar> * 10 ^ 6) = 977" by (simp add: round_half_even_def Let_def)
  moreover have "nat_digits 977 = ''977''" "nat_digits 0 = ''0''" using digit_chars by (simp_all add: nat_digits.simps)
  moreover have "pad_left 6 ''977'' = ''000977''" by code_simp
  moreover have "\<not> (1 / 1024 :: rat) < 0" "nat 977 div 10 ^ 6 = 0" "nat 977 mod 10 ^ 6 = 977" by simp_all
  ultimately show ?thesis by (simp only: show_f_def Let_def if_False append.simps)
qed
lemma fraction_rounded:
  "print_number (CJSON cJSON_Number None 0 0 0 (DFin (1 / 1024)) None []) = ''0.000977''"
proof -
  have "dle (dfabs (dsub (double_of_int 0) (DFin (1 / 1024)))) DBL_EPSILON = False"
    "dmul (DFin (1 / 1024)) (DFin 0) = DFin 0"
    "dle (dfabs (dsub (dfloor (DFin (1 / 1024))) (DFin (1 / 1024)))) DBL_EPSILON = False"
    "dlt (dfabs (DFin (1 / 1024))) (pow10 (- 6)) = False"
    "dlt (DFin (10 ^ 9)) (dfabs (DFin (1 / 1024))) = False" "deq (DFin (1 / 1024)) (DFin 0) = False" "deq (DFin 0) (DFin 0)"
    by code_simp+
  then show ?thesis by (simp only: print_number_def Let_def show_f_small show_fin.simps cJSON.sel if_False if_True simp_thms)
qed

lemma number_runs_on:
  "print_value (CJSON cJSON_Number None 0 0 12 (DFin 12) None []) depth fmt = Some ''12''
    \<and> cJSON_Parse (''12'' @ ''3'') = Inr (Some (CJSON cJSON_Number None 0 0 123 (DFin 123) None []))"
proof -
  let ?n = "\<lambda>k. CJSON cJSON_Number None 0 0 k (DFin (of_int k)) None []"
  have out: "print_value (?n k) depth fmt = Some (show_int k)" if "in_int k" for k
    using print_number_int [of "?n k" k] that by (simp add: Let_def)
  have n: "printable (?n 123)" "ends (?n 123) []" "in_int 123" by (simp_all add: ends_def value_end_def in_int_def is_digit_def)
  have "cJSON_Parse (show_int 123 @ []) = Inr (Some (canon None (?n 123)))"
    by (rule cJSON_Parse_reads [OF reads_print_value [OF out [OF n(3)] n(1)] n(2)])
  then show ?thesis using out [of 12] by (simp add: show_int_examples in_int_def del: print_value.simps)
qed

text \<open>C5: Printing an item and parsing the text gives the item back (as \<open>canon\<close> describes: names of
  array elements dropped, \<open>valueint\<close> filled in), formatted or not; and the item that was parsed prints to the same
  text again. This is for items whose numbers are integers in the range of \<open>int\<close> and whose strings hold no NUL
  (\<open>printable\<close>), at any depth. What follows the text in the buffer may be anything, except that behind a number
  that is not inside an array or object no character may follow that continues it (\<open>ends\<close>): a digit, a point or
  an exponent.\<close>

theorem parse_print:
  assumes "printable it" and "ends it rest"
  shows "\<exists>e. print_value it depth fmt = Some e \<and> cJSON_Parse (e @ rest) = Inr (Some (canon None it))
    \<and> print_value (canon None it) depth fmt = Some e"
proof -
  obtain e where e: "print_value it depth fmt = Some e" using print_value_total [OF assms(1)] by blast
  have "cJSON_Parse (e @ rest) = Inr (Some (canon None it))"
    by (rule cJSON_Parse_reads [OF reads_print_value [OF e assms(1)] assms(2)])
  then show ?thesis using e by (simp add: print_canon [OF assms(1)] del: print_value.simps)
qed

theorem parse_print_witness:
  "\<exists>e. print_value (CJSON cJSON_Array None 0 0 0 (DFin 0) None
           [CJSON cJSON_Number None 0 0 (- 7) (DFin (- 7)) None [], cJSON_CreateString [CHR 0x0A]]) 0 True
         = Some e
     \<and> cJSON_Parse (e @ ''junk'') = Inr (Some (canon None (CJSON cJSON_Array None 0 0 0 (DFin 0) None
           [CJSON cJSON_Number None 0 0 (- 7) (DFin (- 7)) None [], cJSON_CreateString [CHR 0x0A]])))"
proof -
  let ?it = "CJSON cJSON_Array None 0 0 0 (DFin 0) None
    [CJSON cJSON_Number None 0 0 (- 7) (DFin (- 7)) None [], cJSON_CreateString [CHR 0x0A]]"
  have "printable ?it"
    by (simp add: cJSON_CreateString_def cJSON_New_Item_def in_int_def)
  moreover have "ends ?it ''junk''" by (simp add: ends_def)
  ultimately show ?thesis using parse_print [of ?it "''junk''" 0 True] by blast
qed

end
