(* ===== verification/CJsonPointer.thy ===== *)
theory CJsonPointer imports CJsonTree CJsonRound begin

text \<open>
  The JSON pointers of \<open>json/cJSON_Utils.c\<close>: their encoding, the pointer from an item to one of its
  descendants, and the item a pointer leads to. Two pointers to items are equal when the items stand
  at the same position of the tree, so an item inside a tree is named by its position: the path of
  child indexes from the root.
\<close>

section \<open>Positions\<close>

fun item_at :: "cJSON \<Rightarrow> nat list \<Rightarrow> cJSON option" where
  "item_at it [] = Some it"
| "item_at it (i # is) = (if i < length (child it) then item_at (child it ! i) is else None)"

text \<open>An assignment through a pointer to the item at a position.\<close>

fun update_at :: "nat list \<Rightarrow> (cJSON \<Rightarrow> cJSON) \<Rightarrow> cJSON \<Rightarrow> cJSON" where
  "update_at [] f it = f it"
| "update_at (i # is) f it =
     (if i < length (child it) then set_child ((child it)[i := update_at is f (child it ! i)]) it else it)"

lemma item_at_append: "item_at it (is @ js) = Option.bind (item_at it is) (\<lambda>x. item_at x js)"
  by (induction it "is" rule: item_at.induct) auto

lemma item_at_update: "item_at it is = Some x \<Longrightarrow> item_at (update_at is f it) is = Some (f x)"
  by (induction it "is" rule: item_at.induct) (auto split: if_splits)

section \<open>Encoding\<close>

fun PointerEncodedstrlen :: "string \<Rightarrow> nat" where
  "PointerEncodedstrlen [] = 0"
| "PointerEncodedstrlen (c # s) =
     (if c = CHR ''~'' \<or> c = CHR ''/'' then 2 else 1) + PointerEncodedstrlen s"

fun PointerEncodedstrcpy :: "string \<Rightarrow> string" where
  "PointerEncodedstrcpy [] = []"
| "PointerEncodedstrcpy (c # s) =
     (if c = CHR ''/'' then ''~1'' else if c = CHR ''~'' then ''~0'' else [c]) @ PointerEncodedstrcpy s"

text \<open>
  The loop of \<open>cJSONUtils_Pstrcasecmp\<close>, which compares a name with a component of a pointer: \<open>e\<close> ends
  at its NUL or at the next slash.
\<close>

definition in_component :: "string \<Rightarrow> bool" where
  "in_component e \<longleftrightarrow> peek e \<noteq> NUL \<and> peek e \<noteq> CHR ''/''"

fun Pstrcasecmp_loop :: "string \<Rightarrow> string \<Rightarrow> int" where
  "Pstrcasecmp_loop [] e = (if in_component e then 1 else 0)"
| "Pstrcasecmp_loop (a # as) e =
     (if a = NUL \<or> \<not> in_component e then (if in_component e \<noteq> (a \<noteq> NUL) then 1 else 0)
      else if peek e = CHR ''~''
      then (if \<not> (peek (tl e) = CHR ''0'' \<and> a = CHR ''~'') \<and> \<not> (peek (tl e) = CHR ''1'' \<and> a = CHR ''/'')
            then 1 else Pstrcasecmp_loop as (drop 2 e))
      else if tolower a \<noteq> tolower (peek e) then 1 else Pstrcasecmp_loop as (tl e))"

definition Pstrcasecmp :: "string option \<Rightarrow> string option \<Rightarrow> int" where
  "Pstrcasecmp a e =
     (case a of
        None \<Rightarrow> (if e = None then 0 else 1)
      | Some s \<Rightarrow> (case e of None \<Rightarrow> 1 | Some t \<Rightarrow> Pstrcasecmp_loop s t))"

text \<open>
  \<open>cJSONUtils_InplaceDecodePointerString\<close>: after a tilde at the end of the string the loop steps over
  the terminating NUL.
\<close>

fun InplaceDecodePointerString :: "string \<Rightarrow> string c" where
  "InplaceDecodePointerString [] = Inr []"
| "InplaceDecodePointerString (c # s) =
     (if c \<noteq> CHR ''~'' then bind_c (InplaceDecodePointerString s) (\<lambda>d. Inr (c # d))
      else case s of
        [] \<Rightarrow> Inl OutOfBounds
      | x # s' \<Rightarrow> bind_c (InplaceDecodePointerString s') (\<lambda>d.
                   Inr ((if x = CHR ''0'' then CHR ''~'' else CHR ''/'') # d)))"

section \<open>The pointer to an item\<close>

text \<open>
  \<open>object\<close> stands at the position \<open>here\<close>; its children are visited in order, and the first one below
  which the target is found decides.
\<close>

function (sequential) FindPointerFromObjectTo ::
    "cJSON \<Rightarrow> nat list \<Rightarrow> nat list \<Rightarrow> string option c"
  and find_in_children ::
    "u32 \<Rightarrow> cJSON list \<Rightarrow> nat \<Rightarrow> nat list \<Rightarrow> nat list \<Rightarrow> string option c" where
  "FindPointerFromObjectTo obj here target =
     (if here = target then Inr (Some '''')
      else find_in_children (ctype obj) (child obj) 0 here target)"
| "find_in_children type [] c here target = Inr None"
| "find_in_children type (obj # objs) c here target =
     bind_c (FindPointerFromObjectTo obj (here @ [c]) target) (\<lambda>found.
       case found of
         None \<Rightarrow> find_in_children type objs (Suc c) here target
       | Some f \<Rightarrow>
           if type = cJSON_Array then Inr (Some (''/'' @ show_int (int c) @ f))
           else if type = cJSON_Object
           then bind_c (deref (cstring obj)) (\<lambda>name. Inr (Some (''/'' @ PointerEncodedstrcpy name @ f)))
           else Inr None)"
  by pat_completeness auto
termination
  by (relation "measure (case_sum (\<lambda>(ob, _). 2 * size ob + 1) (\<lambda>(_, obs, _). 2 * size_list size obs))")
    (auto simp: less_Suc_eq_le less_imp_le size_child)


section \<open>The item a pointer leads to\<close>

text \<open>The digits of an array index, read into an \<open>int\<close>.\<close>

fun array_index :: "int \<Rightarrow> string \<Rightarrow> (int \<times> string) c" where
  "array_index which [] = Inr (which, [])"
| "array_index which (c # s) =
     (if is_digit c
      then bind_c (int_result (10 * which)) (\<lambda>x.
             bind_c (int_result (x + int (byte c))) (\<lambda>y. array_index (y - 48) s))
      else Inr (which, c # s))"

lemma array_index_length: "array_index k s = Inr (j, t) \<Longrightarrow> length t \<le> length s"
  by (induction k s rule: array_index.induct) (auto simp: bind_c_eq_Inr split: if_splits dest: le_SucI)

definition component_end :: "string \<Rightarrow> bool" where
  "component_end s \<longleftrightarrow> peek s = NUL \<or> peek s = CHR ''/''"

text \<open>The scan over the chain of an object's members: the first one whose name matches.\<close>

fun find_member :: "cJSON list \<Rightarrow> string \<Rightarrow> nat \<Rightarrow> nat option" where
  "find_member [] pointer i = None"
| "find_member (c # cs) pointer i =
     (if Pstrcasecmp (cstring c) (Some pointer) = 0 then Some i else find_member cs pointer (Suc i))"

text \<open>
  \<open>cJSONUtils_GetPointer\<close>, from the item \<open>obj\<close> on, for the rest of the pointer. The result is the
  position of the item it leads to, relative to \<open>obj\<close>; \<open>None\<close> is the NULL it returns. The loop ends
  with the item it has reached as soon as the pointer has no slash to offer.
\<close>

function GetPointer :: "cJSON \<Rightarrow> string \<Rightarrow> nat list option c" where
  "GetPointer obj pointer =
     (if peek pointer \<noteq> CHR ''/'' then Inr (Some [])
      else if ctype obj = cJSON_Array
      then bind_c (array_index 0 (tl pointer)) (\<lambda>(which, rest).
             if \<not> component_end rest then Inr None
             else if nat which < length (child obj)
             then bind_c (GetPointer (child obj ! nat which) rest) (\<lambda>p. Inr (map_option ((#) (nat which)) p))
             else Inr None)
      else if ctype obj = cJSON_Object
      then (case find_member (child obj) (tl pointer) 0 of
              None \<Rightarrow> Inr None
            | Some i \<Rightarrow>
                bind_c (GetPointer (child obj ! i) (dropWhile (\<lambda>c. c \<noteq> NUL \<and> c \<noteq> CHR ''/'') (tl pointer)))
                  (\<lambda>p. Inr (map_option ((#) i) p)))
      else Inr None)"
  by pat_completeness auto
termination
proof (relation "measure (\<lambda>(_, pointer). length pointer)")
  fix pointer :: string and x which rest
  assume "\<not> peek pointer \<noteq> CHR ''/''" "array_index 0 (tl pointer) = Inr x" "(which, rest) = x"
  then show "((ob, rest), (ob', pointer)) \<in> measure (\<lambda>(_, pointer). length pointer)" for ob ob' :: cJSON
    by (cases pointer) (auto dest!: array_index_length)
next
  fix pointer :: string
  assume "\<not> peek pointer \<noteq> CHR ''/''"
  then show "((ob, dropWhile (\<lambda>c. c \<noteq> NUL \<and> c \<noteq> CHR ''/'') (tl pointer)), (ob', pointer))
      \<in> measure (\<lambda>(_, pointer). length pointer)" for ob ob' :: cJSON
    by (cases pointer) (auto intro: le_imp_less_Suc length_dropWhile_le)
qed simp

declare GetPointer.simps [simp del]


section \<open>Encoded names\<close>

lemma PointerEncoded_length: "length (PointerEncodedstrcpy s) = PointerEncodedstrlen s"
  by (induction s) auto

lemma decode_encode: "InplaceDecodePointerString (PointerEncodedstrcpy s) = Inr s"
  by (induction s) auto

lemma tolower_fixed: "\<not> (97 \<le> byte d \<and> byte d \<le> 122) \<Longrightarrow> tolower c = d \<Longrightarrow> c = d"
proof -
  assume d: "\<not> (97 \<le> byte d \<and> byte d \<le> 122)" and c: "tolower c = d"
  have "byte (char_of (byte c + 32)) = byte c + 32" if "byte c \<le> 90"
    by (rule byte_char_of) (use that in simp)
  with c d show "c = d" by (auto simp: tolower_def split: if_splits)
qed

lemma tolower_self: "tolower (CHR ''~'') = CHR ''~''" "tolower (CHR ''/'') = CHR ''/''"
  by (simp_all add: tolower_def)

lemma tolower_special:
  "tolower c = CHR ''~'' \<longleftrightarrow> c = CHR ''~''" "tolower c = CHR ''/'' \<longleftrightarrow> c = CHR ''/''"
proof -
  show "tolower c = CHR ''~'' \<longleftrightarrow> c = CHR ''~''" "tolower c = CHR ''/'' \<longleftrightarrow> c = CHR ''/''"
    using tolower_fixed [of "CHR ''~''" c] tolower_fixed [of "CHR ''/''" c] tolower_self by auto
qed

lemma tolower_special_sym:
  "tolower c = tolower (CHR ''~'') \<longleftrightarrow> c = CHR ''~''" "tolower c = tolower (CHR ''/'') \<longleftrightarrow> c = CHR ''/''"
  by (simp_all only: tolower_self tolower_special)

lemma component_end_not_in: "component_end r \<longleftrightarrow> \<not> in_component r"
  by (simp add: component_end_def in_component_def)

lemma Pstrcasecmp_encoded:
  "nul_free a \<Longrightarrow> nul_free b \<Longrightarrow> component_end r \<Longrightarrow>
   Pstrcasecmp_loop a (PointerEncodedstrcpy b @ r) = 0 \<longleftrightarrow> map tolower a = map tolower b"
proof (induction b arbitrary: a)
  case Nil
  then show ?case by (cases a) (auto simp: component_end_not_in)
next
  case (Cons y b)
  then have y: "y \<noteq> NUL" "nul_free b" by simp_all
  show ?case
  proof (cases a)
    case Nil
    then show ?thesis using y by (simp add: in_component_def)
  next
    case (Cons x a')
    then have x: "x \<noteq> NUL" "nul_free a'" using \<open>nul_free a\<close> by simp_all
    note ih = Cons.IH [OF x(2) y(2) \<open>component_end r\<close>]
    consider "y = CHR ''/''" | "y = CHR ''~''" | "y \<noteq> CHR ''/''" "y \<noteq> CHR ''~''" by blast
    then show ?thesis
      using x(1) y(1) ih Cons by cases (simp_all add: in_component_def tolower_special_sym)
  qed
qed

lemma dropWhile_encoded:
  "nul_free b \<Longrightarrow> component_end r \<Longrightarrow>
   dropWhile (\<lambda>c. c \<noteq> NUL \<and> c \<noteq> CHR ''/'') (PointerEncodedstrcpy b @ r) = r"
proof (induction b)
  case Nil
  then show ?case by (cases r) (auto simp: component_end_def)
qed auto

section \<open>Array indexes\<close>

lemma array_index_end: "\<not> is_digit (peek r) \<Longrightarrow> array_index k r = Inr (k, r)"
  by (cases r) auto

lemma array_index_append:
  "(m * 10 ^ length (nat_digits n) + n) + 48 < 2 ^ 31 \<Longrightarrow>
   array_index (int m) (nat_digits n @ s) = array_index (int (m * 10 ^ length (nat_digits n) + n)) s"
proof (induction n arbitrary: m s rule: nat_digits.induct)
  case (1 n)
  show ?case
  proof (cases "n < 10")
    case True
    then have "nat_digits n = [digit_char n]" by (simp add: nat_digits.simps)
    then show ?thesis using 1(2) True
      by (simp add: byte_digit_char int_result_def in_int_def algebra_simps)
  next
    case False
    let ?l = "length (nat_digits (n div 10))"
    have d: "nat_digits n = nat_digits (n div 10) @ [digit_char (n mod 10)]"
      using False by (simp add: nat_digits.simps)
    have v: "m * 10 ^ length (nat_digits n) + n = (m * 10 ^ ?l + n div 10) * 10 + n mod 10"
      by (simp add: d algebra_simps)
    have b: "(m * 10 ^ ?l + n div 10) * 10 + n mod 10 + 48 < 2 ^ 31" using 1(2) by (simp only: v)
    then have "array_index (int m) (nat_digits n @ s)
        = array_index (int (m * 10 ^ ?l + n div 10)) (digit_char (n mod 10) # s)"
      using 1(1) [OF False, of m "digit_char (n mod 10) # s"] by (simp add: d)
    also have "\<dots> = array_index (int ((m * 10 ^ ?l + n div 10) * 10 + n mod 10)) s"
    proof -
      define w where "w = m * 10 ^ ?l + n div 10"
      have "w * 10 + n mod 10 + 48 < 2 ^ 31" using b by (simp add: w_def)
      then show ?thesis unfolding w_def [symmetric]
        by (simp add: byte_digit_char int_result_def in_int_def algebra_simps)
    qed
    finally show ?thesis by (simp only: v)
  qed
qed

lemma array_index_show:
  assumes "int c + 48 \<le> INT_MAX" and "\<not> is_digit (peek r)"
  shows "array_index 0 (show_int (int c) @ r) = Inr (int c, r)"
  using array_index_append [of 0 c r] assms by (simp add: show_int_def array_index_end)


section \<open>The pointer found leads to the item\<close>

text \<open>
  A tree in which pointers are unambiguous: only arrays and objects have children, arrays have fewer
  items than an \<open>int\<close> index can count, and the names of an object's members differ up to case.
\<close>

definition named :: "cJSON \<Rightarrow> bool" where
  "named c \<longleftrightarrow> (case cstring c of None \<Rightarrow> False | Some s \<Rightarrow> nul_free s)"

lemma named_iff: "named c \<longleftrightarrow> (\<exists>s. cstring c = Some s \<and> nul_free s)"
  by (simp add: named_def split: option.split)

definition names_distinct :: "cJSON list \<Rightarrow> bool" where
  "names_distinct ch \<longleftrightarrow>
     list_all named ch
     \<and> distinct (map (map tolower \<circ> text_of \<circ> cstring) ch)"

fun pointable :: "cJSON \<Rightarrow> bool" where
  "pointable (CJSON t vs u8 u16 vi vd s ch) \<longleftrightarrow>
     (ch = [] \<or> t = cJSON_Array \<and> int (length ch) + 48 \<le> INT_MAX \<or> t = cJSON_Object \<and> names_distinct ch)
     \<and> list_all pointable ch"

lemma pointable_child: "pointable it \<Longrightarrow> c \<in> set (child it) \<Longrightarrow> pointable c"
  by (cases it) (auto simp: list_all_iff)

lemma pointable_cases:
  assumes "pointable it" and "i < length (child it)"
  obtains (array) "ctype it = cJSON_Array" "int (length (child it)) + 48 \<le> INT_MAX"
    | (object) "ctype it = cJSON_Object" "names_distinct (child it)"
  using assms by (cases it) auto

lemma find_member_nth:
  assumes "names_distinct cs" and "i < length cs" and "cstring (cs ! i) = Some b" and "component_end r"
  shows "find_member cs (PointerEncodedstrcpy b @ r) k = Some (k + i)"
  using assms
proof (induction cs arbitrary: i k)
  case (Cons c cs)
  obtain a where a: "cstring c = Some a" "nul_free a" using Cons.prems(1) by (auto simp: names_distinct_def named_iff)
  have b: "nul_free b" using Cons.prems(1-3) by (fastforce simp: names_distinct_def named_iff list_all_length)
  have p: "Pstrcasecmp (cstring c) (Some (PointerEncodedstrcpy b @ r)) = 0 \<longleftrightarrow> map tolower a = map tolower b"
    by (simp add: Pstrcasecmp_def a Pstrcasecmp_encoded [OF a(2) b Cons.prems(4)])
  show ?case
  proof (cases i)
    case 0
    then show ?thesis using Cons.prems(3) a p by simp
  next
    case (Suc j)
    then have j: "j < length cs" "cstring (cs ! j) = Some b" using Cons.prems by simp_all
    have "cs ! j \<in> set cs" using j(1) by simp
    then have "map tolower b \<in> (map tolower \<circ> text_of \<circ> cstring) ` set cs" using j(2) by force
    then have "map tolower a \<noteq> map tolower b" using Cons.prems(1) a by (auto simp: names_distinct_def named_iff)
    moreover have "names_distinct cs" using Cons.prems(1) by (simp add: names_distinct_def named_iff)
    ultimately show ?thesis using Cons.IH [of j "Suc k"] j p Cons.prems(4) Suc by simp
  qed
qed simp

text \<open>Nothing is found below an item the target is not below.\<close>

lemma not_found:
  "(\<forall>rest. target \<noteq> here @ rest) \<Longrightarrow> FindPointerFromObjectTo ob here target = Inr None"
  "(\<forall>i rest. c \<le> i \<longrightarrow> target \<noteq> here @ i # rest) \<Longrightarrow> find_in_children ty obs c here target = Inr None"
proof (induction ob here target and ty obs c here target
    rule: FindPointerFromObjectTo_find_in_children.induct)
  case (1 ob here target)
  then have "here \<noteq> target" by force
  then show ?case using 1 by simp
next
  case (3 ty ob obs c here target)
  have "FindPointerFromObjectTo ob (here @ [c]) target = Inr None"
    using 3(1) 3(3) by simp
  then show ?case using 3(2) 3(3) by simp
qed simp

lemma find_in_children_skip:
  "i < length obs \<Longrightarrow> find_in_children ty obs c here (here @ (c + i) # rest)
     = find_in_children ty (drop i obs) (c + i) here (here @ (c + i) # rest)"
proof (induction i arbitrary: obs c)
  case (Suc i)
  then obtain ob obs' where obs: "obs = ob # obs'" by (cases obs) auto
  have "FindPointerFromObjectTo ob (here @ [c]) (here @ (c + Suc i) # rest) = Inr None"
    by (rule not_found) simp
  then show ?case using Suc.IH [of obs' "Suc c"] Suc.prems by (simp add: obs)
qed simp

lemma find_get_pointer:
  assumes "pointable it" and "item_at it rest = Some x"
  shows "\<exists>ptr. FindPointerFromObjectTo it here (here @ rest) = Inr (Some ptr) \<and> GetPointer it ptr = Inr (Some rest)
    \<and> (peek ptr = NUL \<or> peek ptr = CHR ''/'')"
  using assms
proof (induction rest arbitrary: it here)
  case Nil
  then show ?case by (simp add: GetPointer.simps)
next
  case (Cons i rest)
  then have i: "i < length (child it)" and x: "item_at (child it ! i) rest = Some x"
    by (simp_all split: if_splits)
  have ch: "pointable (child it ! i)" using pointable_child [OF Cons.prems(1)] i by simp
  obtain ptr where ptr: "FindPointerFromObjectTo (child it ! i) (here @ [i]) ((here @ [i]) @ rest) = Inr (Some ptr)"
    "GetPointer (child it ! i) ptr = Inr (Some rest)" "peek ptr = NUL \<or> peek ptr = CHR ''/''"
    using Cons.IH [OF ch x] by blast
  have find: "FindPointerFromObjectTo it here (here @ i # rest)
      = find_in_children (ctype it) ((child it ! i) # drop (Suc i) (child it)) i here (here @ i # rest)"
    using find_in_children_skip [of i "child it" "ctype it" 0 here rest] i
    by (simp add: Cons_nth_drop_Suc)
  have ptr1: "FindPointerFromObjectTo (child it ! i) (here @ [i]) (here @ i # rest) = Inr (Some ptr)"
    using ptr(1) by simp
  have cend: "component_end ptr" "\<not> is_digit (peek ptr)"
    using ptr(3) by (auto simp: component_end_def is_digit_def)
  from Cons.prems(1) i show ?case
  proof (cases rule: pointable_cases)
    case array
    have idx: "int i + 48 \<le> INT_MAX" using array(2) i by simp
    have "GetPointer it (''/'' @ show_int (int i) @ ptr) = Inr (Some (i # rest))"
      using array_index_show [OF idx cend(2)] cend(1) ptr(2) i array(1)
      by (simp add: GetPointer.simps [of it])
    moreover have "FindPointerFromObjectTo it here (here @ i # rest) = Inr (Some (''/'' @ show_int (int i) @ ptr))"
      unfolding find find_in_children.simps ptr1 by (simp add: array(1))
    ultimately show ?thesis by (intro exI [of _ "''/'' @ show_int (int i) @ ptr"]) simp
  next
    case object
    obtain b where b: "cstring (child it ! i) = Some b" "nul_free b"
      using object(2) i by (auto simp: names_distinct_def named_iff list_all_length)
    have "GetPointer it (''/'' @ PointerEncodedstrcpy b @ ptr) = Inr (Some (i # rest))"
      using find_member_nth [OF object(2) i b(1) cend(1), of 0] dropWhile_encoded [OF b(2) cend(1)] ptr(2) object(1)
      by (simp add: GetPointer.simps [of it])
    moreover have "FindPointerFromObjectTo it here (here @ i # rest)
        = Inr (Some (''/'' @ PointerEncodedstrcpy b @ ptr))"
      unfolding find find_in_children.simps ptr1 by (simp add: object(1) b(1))
    ultimately show ?thesis by (intro exI [of _ "''/'' @ PointerEncodedstrcpy b @ ptr"]) simp
  qed
qed

section \<open>Properties\<close>

text \<open>C22: The pointer \<open>cJSONUtils_FindPointerFromObjectTo\<close> builds for an item of a tree - array indexes
  and escaped member names - leads \<open>cJSONUtils_GetPointer\<close> to exactly this item, in every tree whose
  member names are unambiguous.\<close>

theorem pointer_roundtrip:
  assumes "pointable doc" and "item_at doc target = Some x"
  shows "\<exists>ptr. FindPointerFromObjectTo doc [] target = Inr (Some ptr) \<and> GetPointer doc ptr = Inr (Some target)"
  using find_get_pointer [OF assms, of "[]"] by auto

theorem pointer_roundtrip_witness:
  "\<exists>ptr. FindPointerFromObjectTo (cJSON_AddItemToObject cJSON_CreateObject ''a/b''
        (Some (cJSON_AddItemToArray cJSON_CreateArray (Some cJSON_CreateNull)))) [] [0, 0] = Inr (Some ptr)
    \<and> GetPointer (cJSON_AddItemToObject cJSON_CreateObject ''a/b''
        (Some (cJSON_AddItemToArray cJSON_CreateArray (Some cJSON_CreateNull)))) ptr = Inr (Some [0, 0])"
  by (rule pointer_roundtrip [where x = cJSON_CreateNull])
    (simp_all add: cJSON_AddItemToObject_def cJSON_AddItemToArray_def cJSON_CreateObject_def
      cJSON_CreateArray_def cJSON_CreateNull_def cJSON_New_Item_def names_distinct_def named_def)

text \<open>The encoding of a name in a pointer is undone by the decoding, has the length that was
  allocated for it, and compares equal to exactly the names that differ from it in case only.\<close>

lemma pointer_encoding:
  assumes "nul_free a" "nul_free b" "component_end r"
  shows "InplaceDecodePointerString (PointerEncodedstrcpy b) = Inr b
    \<and> length (PointerEncodedstrcpy b) = PointerEncodedstrlen b
    \<and> (Pstrcasecmp (Some a) (Some (PointerEncodedstrcpy b @ r)) = 0 \<longleftrightarrow> map tolower a = map tolower b)"
  by (simp add: decode_encode PointerEncoded_length Pstrcasecmp_def Pstrcasecmp_encoded [OF assms])

end
