(* ===== verification/Dict.thy ===== *)
theory Dict imports Main begin

text \<open>
  The interface of a JSON object to the code that edits it by name: what the patches and merge patches
  rely on when they delete a member and add it again. Names that differ in case only are one key.
\<close>

locale dictionary =
  fixes inv :: "'s \<Rightarrow> bool" and valid :: "'n \<Rightarrow> bool" and key :: "'n \<Rightarrow> 'k" and tag :: "'n \<Rightarrow> 'v \<Rightarrow> 'v"
    and look :: "'s \<Rightarrow> 'k \<Rightarrow> 'v option" and put :: "'s \<Rightarrow> 'n \<Rightarrow> 'v \<Rightarrow> 's" and del :: "'s \<Rightarrow> 'n \<Rightarrow> 's"
  assumes inv_put: "inv s \<Longrightarrow> valid n \<Longrightarrow> look s (key n) = None \<Longrightarrow> inv (put s n v)"
    and look_put: "inv s \<Longrightarrow> valid n \<Longrightarrow> look s (key n) = None
      \<Longrightarrow> look (put s n v) = (look s)(key n \<mapsto> tag n v)"
    and inv_del: "inv s \<Longrightarrow> valid n \<Longrightarrow> inv (del s n)"
    and look_del: "inv s \<Longrightarrow> valid n \<Longrightarrow> look (del s n) = (look s)(key n := None)"
begin

lemma free_del: "inv s \<Longrightarrow> valid n \<Longrightarrow> look (del s n) (key n) = None"
  by (simp add: look_del)

text \<open>Setting a member: delete it, then add it.\<close>

lemma inv_set: "inv s \<Longrightarrow> valid n \<Longrightarrow> inv (put (del s n) n v)"
  by (simp add: inv_put inv_del free_del)

lemma look_set: "inv s \<Longrightarrow> valid n \<Longrightarrow> look (put (del s n) n v) = (look s)(key n \<mapsto> tag n v)"
  by (simp add: look_put inv_del free_del) (simp add: look_del)

text \<open>Edits of different members do not see each other.\<close>

lemma look_set_other:
  "inv s \<Longrightarrow> valid n \<Longrightarrow> k \<noteq> key n \<Longrightarrow> look (put (del s n) n v) k = look s k"
  by (simp add: look_set)

lemma look_del_other: "inv s \<Longrightarrow> valid n \<Longrightarrow> k \<noteq> key n \<Longrightarrow> look (del s n) k = look s k"
  by (simp add: look_del)

lemma set_commute:
  assumes "inv s" "valid n" "valid m" "key n \<noteq> key m"
  shows "look (put (del (put (del s n) n v) m) m w) = look (put (del (put (del s m) m w) n) n v)"
  using assms by (simp add: look_set inv_set fun_upd_twist)

end

end
