(* ===== verification/CJsonNames.thy ===== *)
theory CJsonNames imports CJsonPointer Dict begin

text \<open>
  An object whose member names differ up to case is a finite map from names, folded to lower case, to
  its members: the abstraction \<open>members\<close> under which looking up, adding and deleting by name
  (\<open>json/cJSON.c\<close>) are the operations of a map.
\<close>

definition fold_name :: "cJSON \<Rightarrow> string" where
  "fold_name c = map tolower (text_of (cstring c))"

definition members :: "cJSON \<Rightarrow> string \<Rightarrow> cJSON option" where
  "members ob = map_of (map (\<lambda>c. (fold_name c, c)) (child ob))"

definition object_ok :: "cJSON \<Rightarrow> bool" where
  "object_ok ob \<longleftrightarrow> names_distinct (child ob)"

lemma object_okD:
  "object_ok ob \<Longrightarrow> c \<in> set (child ob) \<Longrightarrow> \<exists>s. cstring c = Some s \<and> nul_free s"
  by (simp add: object_ok_def names_distinct_def list_all_iff named_iff)

lemma object_ok_iff:
  "object_ok ob \<longleftrightarrow> (\<forall>c\<in>set (child ob). \<exists>s. cstring c = Some s \<and> nul_free s) \<and> distinct (map fold_name (child ob))"
  by (simp add: object_ok_def names_distinct_def list_all_iff named_iff fold_name_def [abs_def] o_def)

lemma matches_fold:
  "object_ok ob \<Longrightarrow> nul_free k \<Longrightarrow> c \<in> set (child ob) \<Longrightarrow>
   cJSON_strcasecmp (cstring c) (Some k) = 0 \<longleftrightarrow> fold_name c = map tolower k"
  using object_okD [of ob c] by (auto simp: fold_name_def strcasecmp_iff)

lemma find_map_of:
  "(\<And>c. c \<in> set cs \<Longrightarrow> P c \<longleftrightarrow> f c = k) \<Longrightarrow> find P cs = map_of (map (\<lambda>c. (f c, c)) cs) k"
  by (induction cs) auto

lemma get_members: "object_ok ob \<Longrightarrow> nul_free k \<Longrightarrow> cJSON_GetObjectItem (Some ob) k = members ob (map tolower k)"
  unfolding get_object_find members_def by (rule find_map_of) (rule matches_fold)

lemma members_fold: "members ob k = Some c \<Longrightarrow> c \<in> set (child ob) \<and> fold_name c = k"
  unfolding members_def by (drule map_of_SomeD) auto

lemma members_Some_iff:
  "object_ok ob \<Longrightarrow> members ob k = Some c \<longleftrightarrow> c \<in> set (child ob) \<and> fold_name c = k"
  by (auto simp: object_ok_iff members_def map_of_eq_Some_iff o_def)

section \<open>Adding and deleting\<close>

lemma child_add [simp]: "child (cJSON_AddItemToObject ob k (Some it)) = child ob @ [set_cstring (Some k) it]"
  by (simp add: cJSON_AddItemToObject_def)

lemma fold_name_set [simp]: "fold_name (set_cstring (Some k) it) = map tolower k"
  by (simp add: fold_name_def)

lemma members_None: "members ob k = None \<longleftrightarrow> k \<notin> fold_name ` set (child ob)"
  by (simp add: members_def map_of_eq_None_iff image_image)

lemma object_ok_add:
  "object_ok ob \<Longrightarrow> nul_free k \<Longrightarrow> members ob (map tolower k) = None \<Longrightarrow>
   object_ok (cJSON_AddItemToObject ob k (Some it))"
  by (auto simp: object_ok_iff members_None)

lemma members_add:
  "members ob (map tolower k) = None \<Longrightarrow>
   members (cJSON_AddItemToObject ob k (Some it)) = (members ob)(map tolower k \<mapsto> set_cstring (Some k) it)"
  by (auto simp: members_def map_add_def fun_eq_iff split: option.split)

lemma filter_absent: "k \<notin> f ` set xs \<Longrightarrow> filter (\<lambda>c. f c \<noteq> k) xs = xs"
  by (induction xs) auto

lemma map_of_absent:
  "map_of (map (\<lambda>c. (f c, c)) (filter (\<lambda>c. f c \<noteq> k) xs)) = (map_of (map (\<lambda>c. (f c, c)) xs))(k := None)"
  by (induction xs) auto

text \<open>Detaching takes out the member that is found, and nothing else.\<close>

lemma detach_members:
  assumes "object_ok ob" and "nul_free k"
  shows "\<exists>rest. cJSON_DetachItemFromObject ob k = (members ob (map tolower k), rest)
    \<and> rest = set_child (filter (\<lambda>c. fold_name c \<noteq> map tolower k) (child ob)) ob"
proof (cases "find_index k (child ob) 0")
  case None
  then have "members ob (map tolower k) = None"
    using find_index_find(1) [of k "child ob" 0] get_members [OF assms] by (simp add: get_object_find)
  then have "filter (\<lambda>c. fold_name c \<noteq> map tolower k) (child ob) = child ob"
    by (intro filter_absent) (simp add: members_None)
  then show ?thesis using None \<open>members ob (map tolower k) = None\<close>
    by (simp add: cJSON_DetachItemFromObject_def)
next
  case (Some i)
  from find_index_find(2) [OF Some]
  have i: "i < length (child ob)" "members ob (map tolower k) = Some (child ob ! i)"
    using get_members [OF assms] by (auto simp: get_object_find)
  define xs ys where "xs = take i (child ob)" "ys = drop (Suc i) (child ob)"
  have ob: "child ob = xs @ child ob ! i # ys" using i(1) by (simp add: xs_ys_def id_take_nth_drop)
  have n: "fold_name (child ob ! i) = map tolower k" using members_fold [OF i(2)] by simp
  have "distinct (map fold_name (xs @ child ob ! i # ys))" using assms(1) ob by (simp add: object_ok_iff)
  then have "filter (\<lambda>c. fold_name c \<noteq> map tolower k) (xs @ child ob ! i # ys) = xs @ ys"
    using n by (simp add: filter_absent)
  then have "filter (\<lambda>c. fold_name c \<noteq> map tolower k) (child ob) = xs @ ys" using ob by simp
  then show ?thesis using Some i
    by (simp add: cJSON_DetachItemFromObject_def cJSON_DetachItemFromArray_def Let_def xs_ys_def)
qed

lemma delete_filter:
  "object_ok ob \<Longrightarrow> nul_free k \<Longrightarrow>
   cJSON_DeleteItemFromObject ob k = set_child (filter (\<lambda>c. fold_name c \<noteq> map tolower k) (child ob)) ob"
  using detach_members [of ob k] by (auto simp: cJSON_DeleteItemFromObject_def)

lemma object_ok_delete: "object_ok ob \<Longrightarrow> nul_free k \<Longrightarrow> object_ok (cJSON_DeleteItemFromObject ob k)"
  by (auto simp: delete_filter object_ok_iff intro: distinct_map_filter)

lemma members_delete:
  assumes "object_ok ob" and "nul_free k"
  shows "members (cJSON_DeleteItemFromObject ob k) = (members ob)(map tolower k := None)"
  unfolding delete_filter [OF assms] members_def set_sel by (rule map_of_absent)

interpretation json: dictionary object_ok nul_free "map tolower" "\<lambda>n. set_cstring (Some n)"
    members "\<lambda>ob n v. cJSON_AddItemToObject ob n (Some v)" cJSON_DeleteItemFromObject
  by unfold_locales (simp_all add: object_ok_add members_add object_ok_delete members_delete)

end
