(* ===== verification/CJsonSort.thy ===== *)
theory CJsonSort imports CJsonPointer "HOL-Library.Multiset" "HOL-Library.List_Lexorder" begin

text \<open>
  \<open>cJSONUtils_SortList\<close> and \<open>cJSONUtils_SortObject\<close> of \<open>json/cJSON_Utils.c\<close>: the merge sort of an
  object's members by their names, on the chain of \<open>next\<close> pointers. (What it does to the \<open>prev\<close> pointers
  is the subject of \<open>CJsonChain\<close>.) The order is the one \<open>strcasecmp\<close> gives: bytes, after folding
  ASCII letters to lower case.
\<close>

section \<open>The sort\<close>

definition name_cmp :: "cJSON \<Rightarrow> cJSON \<Rightarrow> int" where
  "name_cmp a b = cJSON_strcasecmp (cstring a) (cstring b)"

text \<open>The test that leaves sorted lists alone.\<close>

fun ascending :: "cJSON list \<Rightarrow> bool" where
  "ascending [] \<longleftrightarrow> True"
| "ascending [a] \<longleftrightarrow> True"
| "ascending (a # b # r) \<longleftrightarrow> name_cmp a b < 0 \<and> ascending (b # r)"

text \<open>Two pointers walk the list, one twice as fast: the length of the first half.\<close>

fun midpoint :: "cJSON list \<Rightarrow> nat" where
  "midpoint [] = 0"
| "midpoint [a] = 1"
| "midpoint (a # b # r) = Suc (midpoint r)"

fun merge_lists :: "cJSON list \<Rightarrow> cJSON list \<Rightarrow> cJSON list" where
  "merge_lists [] second = second"
| "merge_lists first [] = first"
| "merge_lists (a # first) (b # second) =
     (if name_cmp a b < 0 then a # merge_lists first (b # second)
      else b # merge_lists (a # first) second)"

lemma midpoint_bounds: "2 \<le> length xs \<Longrightarrow> 0 < midpoint xs \<and> midpoint xs < length xs"
proof -
  have "midpoint xs = (length xs + 1) div 2" by (induction xs rule: midpoint.induct) auto
  then show "2 \<le> length xs \<Longrightarrow> 0 < midpoint xs \<and> midpoint xs < length xs" by linarith
qed

function SortList :: "cJSON list \<Rightarrow> cJSON list" where
  "SortList list =
     (if length list < 2 \<or> ascending list then list
      else let k = midpoint list
           in merge_lists (SortList (take k list)) (SortList (drop k list)))"
  by pat_completeness auto
termination
  by (relation "measure length") (auto simp: not_less dest!: midpoint_bounds)

declare SortList.simps [simp del]

definition SortObject :: "cJSON \<Rightarrow> cJSON" where
  "SortObject obj = set_child (SortList (child obj)) obj"

section \<open>It permutes\<close>

lemma mset_merge_lists: "mset (merge_lists xs ys) = mset xs + mset ys"
  by (induction xs ys rule: merge_lists.induct) auto

lemma mset_SortList: "mset (SortList xs) = mset xs"
proof (induction xs rule: SortList.induct)
  case (1 xs)
  show ?case
  proof (cases "length xs < 2 \<or> ascending xs")
    case False
    have "mset (SortList xs) = mset (take (midpoint xs) xs) + mset (drop (midpoint xs) xs)"
      using 1 [OF False refl] False by (simp add: SortList.simps [of xs] mset_merge_lists Let_def)
    then show ?thesis by (simp flip: mset_append)
  qed (simp add: SortList.simps)
qed

lemma set_SortList [simp]: "set (SortList xs) = set xs"
  by (rule mset_eq_setD [OF mset_SortList])

lemma length_SortList [simp]: "length (SortList xs) = length xs"
  by (rule mset_eq_length [OF mset_SortList])

lemma size_SortList: "size_list f (SortList xs) = size_list f xs"
  by (simp add: size_list_conv_sum_list flip: sum_mset_sum_list mset_map)
    (simp add: mset_SortList)

section \<open>It sorts\<close>

text \<open>The key \<open>strcasecmp\<close> compares.\<close>

definition name_key :: "cJSON \<Rightarrow> nat list" where
  "name_key c = map (byte \<circ> tolower) (text_of (cstring c))"

lemma byte_tolower_pos: "c \<noteq> NUL \<Longrightarrow> 0 < byte (tolower c)"
  using byte_eq_0_iff [of "tolower c"] by (auto simp: tolower_NUL simp del: byte_eq_0_iff)

lemma strcasecmp_less:
  "nul_free a \<Longrightarrow> nul_free b \<Longrightarrow>
   strcasecmp_loop a b < 0 \<longleftrightarrow> map (byte \<circ> tolower) a < map (byte \<circ> tolower) b"
  by (induction a b rule: strcasecmp_loop.induct)
    (auto simp: byte_tolower_pos Cons_less_Cons)

lemma name_cmp_less: "named a \<Longrightarrow> named b \<Longrightarrow> name_cmp a b < 0 \<longleftrightarrow> name_key a < name_key b"
  by (auto simp: named_iff name_cmp_def name_key_def cJSON_strcasecmp_def strcasecmp_less)

lemma ascending_sorted:
  "\<forall>c\<in>set xs. named c \<Longrightarrow> ascending xs \<Longrightarrow> sorted (map name_key xs)"
  by (induction xs rule: ascending.induct) (auto simp: name_cmp_less intro: order_trans less_imp_le)

lemma merge_lists_sorted:
  "\<forall>c\<in>set xs \<union> set ys. named c \<Longrightarrow> sorted (map name_key xs) \<Longrightarrow> sorted (map name_key ys) \<Longrightarrow>
   sorted (map name_key (merge_lists xs ys))"
proof (induction xs ys rule: merge_lists.induct)
  case (3 a xs b ys)
  have set: "set (merge_lists us vs) = set us \<union> set vs" for us vs
    using mset_eq_setD [of "merge_lists us vs" "us @ vs"] by (simp add: mset_merge_lists)
  have "name_cmp a b < 0 \<longleftrightarrow> name_key a < name_key b" using 3(3) by (simp add: name_cmp_less)
  then show ?case using 3 by (auto simp: set)
qed auto

lemma sorted_SortList: "\<forall>c\<in>set xs. named c \<Longrightarrow> sorted (map name_key (SortList xs))"
proof (induction xs rule: SortList.induct)
  case (1 xs)
  show ?case
  proof (cases "length xs < 2 \<or> ascending xs")
    case True
    have "sorted (map name_key xs)" if "length xs < 2" using that by (cases xs) auto
    then show ?thesis using True ascending_sorted [OF 1(3)] by (auto simp: SortList.simps)
  next
    case False
    have sub: "\<forall>c\<in>set (take k xs). named c" "\<forall>c\<in>set (drop k xs). named c" for k
      using 1(3) by (auto dest: in_set_takeD in_set_dropD)
    have "\<forall>c\<in>set (SortList (take k xs)) \<union> set (SortList (drop k xs)). named c" for k
      using sub [of k] by auto
    from merge_lists_sorted [OF this 1(1) [OF False refl sub(1)] 1(2) [OF False refl sub(2)]]
    show ?thesis using False by (simp add: SortList.simps [of xs] Let_def)
  qed
qed

section \<open>Properties\<close>

text \<open>C26: Sorting an object's members loses and invents none and leaves them in ascending order of
  their names, ignoring case; an object whose names ascend strictly is left as it is.\<close>

theorem sort_object:
  assumes "\<forall>c\<in>set (child ob). named c"
  shows "mset (child (SortObject ob)) = mset (child ob) \<and> sorted (map name_key (child (SortObject ob)))
    \<and> (if ascending (child ob) then SortObject ob = ob else True)"
proof -
  have "SortList (child ob) = child ob" if "ascending (child ob)"
    using that by (simp add: SortList.simps [of "child ob"])
  then show ?thesis using sorted_SortList [OF assms] by (simp add: SortObject_def mset_SortList)
qed

theorem sort_object_witness:
  "sorted (map name_key (child (SortObject (cJSON_AddItemToObject
     (cJSON_AddItemToObject cJSON_CreateObject ''b'' (Some cJSON_CreateNull)) ''A'' (Some cJSON_CreateTrue)))))"
  by (rule sort_object [THEN conjunct2, THEN conjunct1])
    (simp add: named_def cJSON_AddItemToObject_def cJSON_CreateObject_def cJSON_CreateNull_def
      cJSON_CreateTrue_def cJSON_New_Item_def)

end
