(* ===== verification/CJsonPatch.thy ===== *)
theory CJsonPatch imports CJsonNames CJsonSort begin

text \<open>
  The JSON patches of \<open>json/cJSON_Utils.c\<close> (RFC 6902): comparing, applying and generating. A function
  that edits a tree in place returns the new tree; comparing sorts the members of the objects it
  compares, so it returns both trees as well. Members are lists here. A \<open>test\<close> that sorts an object and a
  later patch that detaches its first member fall outside of this model: \<open>CJsonChain\<close> shows how the
  chain of the members then becomes a cycle.
\<close>

section \<open>Comparing\<close>

function (sequential) Compare :: "cJSON \<Rightarrow> cJSON \<Rightarrow> (int \<times> cJSON \<times> cJSON) c"
  and compare_items :: "cJSON list \<Rightarrow> cJSON list \<Rightarrow> (int \<times> cJSON list \<times> cJSON list) c"
  and compare_members :: "cJSON list \<Rightarrow> cJSON list \<Rightarrow> (int \<times> cJSON list \<times> cJSON list) c" where
  "Compare a b =
     (if ctype a \<noteq> ctype b then Inr (- 1, a, b)
      else if ctype a = cJSON_Number
      then Inr (if valueint a \<noteq> valueint b \<or> \<not> deq (valuedouble a) (valuedouble b) then - 2 else 0, a, b)
      else if ctype a = cJSON_String
      then bind_c (deref (valuestring a)) (\<lambda>s. bind_c (deref (valuestring b)) (\<lambda>t.
             Inr (if strcmp s t \<noteq> 0 then - 3 else 0, a, b)))
      else if ctype a = cJSON_Array
      then bind_c (compare_items (child a) (child b)) (\<lambda>(err, as, bs).
             Inr (err, set_child as a, set_child bs b))
      else if ctype a = cJSON_Object
      then bind_c (compare_members (SortList (child a)) (SortList (child b))) (\<lambda>(err, as, bs).
             Inr (err, set_child as a, set_child bs b))
      else Inr (0, a, b))"
| "compare_items (a # as) (b # bs) =
     bind_c (Compare a b) (\<lambda>(err, a, b).
       if err \<noteq> 0 then Inr (err, a # as, b # bs)
       else bind_c (compare_items as bs) (\<lambda>(err, as, bs). Inr (err, a # as, b # bs)))"
| "compare_items [] [] = Inr (0, [], [])"
| "compare_items as bs = Inr (- 4, as, bs)"
| "compare_members (a # as) (b # bs) =
     (if name_cmp a b \<noteq> 0 then Inr (- 6, a # as, b # bs)
      else bind_c (Compare a b) (\<lambda>(err, a, b).
        if err \<noteq> 0 then Inr (err, a # as, b # bs)
        else bind_c (compare_members as bs) (\<lambda>(err, as, bs). Inr (err, a # as, b # bs))))"
| "compare_members [] [] = Inr (0, [], [])"
| "compare_members as bs = Inr (- 5, as, bs)"
  by pat_completeness auto
termination
  by (relation "measure (case_sum (\<lambda>(a, b). 2 * size a + 1)
       (case_sum (\<lambda>(as, bs). 2 * size_list size as) (\<lambda>(as, bs). 2 * size_list size as)))")
    (auto simp: less_Suc_eq_le less_imp_le size_child size_SortList)

declare Compare.simps [simp del]

definition Compare_ptr :: "cJSON option \<Rightarrow> cJSON option \<Rightarrow> (int \<times> cJSON \<times> cJSON) c" where
  "Compare_ptr a b = bind_c (deref a) (\<lambda>a. bind_c (deref b) (\<lambda>b. Compare a b))"

section \<open>Detaching what a path leads to\<close>

text \<open>\<open>strrchr\<close>: the text before the last slash, and the text behind it if there is one.\<close>

definition split_path :: "string \<Rightarrow> string \<times> string option" where
  "split_path path =
     (if CHR ''/'' \<in> set path
      then (rev (tl (dropWhile (\<lambda>c. c \<noteq> CHR ''/'') (rev path))),
            Some (rev (takeWhile (\<lambda>c. c \<noteq> CHR ''/'') (rev path))))
      else (path, None))"

text \<open>\<open>atoi\<close>: white space, a sign, digits; undefined when the value is no \<open>int\<close>.\<close>

fun digits_value :: "int \<Rightarrow> string \<Rightarrow> int" where
  "digits_value k [] = k"
| "digits_value k (c # s) = (if is_digit c then digits_value (10 * k + digit_val c) s else k)"

definition atoi :: "string \<Rightarrow> int c" where
  "atoi s =
     (let s = dropWhile (\<lambda>c. c = CHR '' '' \<or> 9 \<le> byte c \<and> byte c \<le> 13) s
      in int_result (if peek s = CHR ''-'' then - digits_value 0 (tl s)
                     else if peek s = CHR ''+'' then digits_value 0 (tl s) else digits_value 0 s))"

text \<open>
  The parent item a path leads to, and the decoded last component; the decoding dereferences the
  NULL that \<open>strrchr\<close> returns for a path without a slash.
\<close>

definition find_parent :: "cJSON \<Rightarrow> string \<Rightarrow> (nat list option \<times> string) c" where
  "find_parent obj path =
     (let (parentptr, childptr) = split_path path
      in bind_c (GetPointer obj parentptr) (\<lambda>parent.
         bind_c (deref childptr) (\<lambda>enc.
         bind_c (InplaceDecodePointerString enc) (\<lambda>name. Inr (parent, name)))))"

definition PatchDetach :: "cJSON \<Rightarrow> string \<Rightarrow> (cJSON option \<times> cJSON) c" where
  "PatchDetach obj path =
     bind_c (find_parent obj path) (\<lambda>(parent, name).
       case Option.bind parent (item_at obj) of
         None \<Rightarrow> Inr (None, obj)
       | Some par \<Rightarrow>
           if ctype par = cJSON_Array
           then bind_c (atoi name) (\<lambda>which.
                  let (ret, par) = cJSON_DetachItemFromArray par which
                  in Inr (ret, update_at (the parent) (\<lambda>_. par) obj))
           else if ctype par = cJSON_Object
           then let (ret, par) = cJSON_DetachItemFromObject par name
                in Inr (ret, update_at (the parent) (\<lambda>_. par) obj)
           else Inr (None, obj))"

section \<open>Applying\<close>

text \<open>The last part of \<open>cJSONUtils_ApplyPatch\<close>: putting \<open>value\<close> where the path says.\<close>

definition place_value :: "cJSON \<Rightarrow> string option \<Rightarrow> cJSON \<Rightarrow> (int \<times> cJSON) c" where
  "place_value obj path value =
     bind_c (deref path) (\<lambda>path.
     bind_c (find_parent obj path) (\<lambda>(parent, name).
       case Option.bind parent (item_at obj) of
         None \<Rightarrow> Inr (9, obj)
       | Some par \<Rightarrow>
           if ctype par = cJSON_Array
           then if strcmp name ''-'' = 0
                then Inr (0, update_at (the parent) (\<lambda>_. cJSON_AddItemToArray par (Some value)) obj)
                else bind_c (atoi name) (\<lambda>which.
                  Inr (0, update_at (the parent) (\<lambda>_. cJSON_InsertItemInArray par which value) obj))
           else if ctype par = cJSON_Object
           then Inr (0, update_at (the parent)
                  (\<lambda>_. cJSON_AddItemToObject (cJSON_DeleteItemFromObject par name) name (Some value)) obj)
           else Inr (0, obj)))"

text \<open>\<open>test\<close> compares (and so sorts) the item at the path with the patch's own value.\<close>

definition apply_test :: "cJSON \<Rightarrow> cJSON \<Rightarrow> string option \<Rightarrow> (int \<times> cJSON \<times> cJSON) c" where
  "apply_test obj patch path =
     bind_c (deref path) (\<lambda>path.
     bind_c (GetPointer obj path) (\<lambda>pos.
     bind_c (Compare_ptr (Option.bind pos (item_at obj)) (cJSON_GetObjectItem (Some patch) ''value''))
       (\<lambda>(err, a, b).
         Inr (err, update_at (the pos) (\<lambda>_. a) obj,
              cJSON_ReplaceItemInArray patch (int (the (find_index ''value'' (child patch) 0))) b))))"

text \<open>
  The result code, the document and the patch (whose value a \<open>test\<close> sorts). The texts of \<open>op\<close>,
  \<open>path\<close> and \<open>from\<close> are dereferenced where the code does.
\<close>

definition ApplyPatch :: "cJSON \<Rightarrow> cJSON \<Rightarrow> (int \<times> cJSON \<times> cJSON) c" where
  "ApplyPatch obj patch =
     (case (cJSON_GetObjectItem (Some patch) ''op'', cJSON_GetObjectItem (Some patch) ''path'') of
        (Some opi, Some path) \<Rightarrow>
          bind_c (deref (valuestring opi)) (\<lambda>op.
            let value = map_option (\<lambda>v. cJSON_Duplicate_item v True) (cJSON_GetObjectItem (Some patch) ''value'');
                from = cJSON_GetObjectItem (Some patch) ''from'';
                path = valuestring path;
                place = (\<lambda>obj v. bind_c (place_value obj path v) (\<lambda>(err, obj). Inr (err, obj, patch)))
            in if strcmp op ''add'' = 0
               then (case value of None \<Rightarrow> Inr (7, obj, patch) | Some v \<Rightarrow> place obj v)
               else if strcmp op ''remove'' = 0
               then bind_c (deref path) (\<lambda>p. bind_c (PatchDetach obj p) (\<lambda>(_, obj). Inr (0, obj, patch)))
               else if strcmp op ''replace'' = 0
               then bind_c (deref path) (\<lambda>p. bind_c (PatchDetach obj p) (\<lambda>(_, obj).
                      case value of None \<Rightarrow> Inr (7, obj, patch) | Some v \<Rightarrow> place obj v))
               else if strcmp op ''move'' = 0
               then (case from of
                       None \<Rightarrow> Inr (4, obj, patch)
                     | Some f \<Rightarrow> bind_c (deref (valuestring f)) (\<lambda>f. bind_c (PatchDetach obj f) (\<lambda>(v, obj).
                         case v of None \<Rightarrow> Inr (5, obj, patch) | Some v \<Rightarrow> place obj v)))
               else if strcmp op ''copy'' = 0
               then (case from of
                       None \<Rightarrow> Inr (4, obj, patch)
                     | Some f \<Rightarrow> bind_c (deref (valuestring f)) (\<lambda>f. bind_c (GetPointer obj f) (\<lambda>pos.
                         case Option.bind pos (item_at obj) of
                           None \<Rightarrow> Inr (5, obj, patch)
                         | Some v \<Rightarrow> place obj (cJSON_Duplicate_item v True))))
               else if strcmp op ''test'' = 0 then apply_test obj patch path
               else Inr (3, obj, patch))
      | _ \<Rightarrow> Inr (2, obj, patch))"

fun apply_all :: "cJSON \<Rightarrow> cJSON list \<Rightarrow> (int \<times> cJSON \<times> cJSON list) c" where
  "apply_all obj [] = Inr (0, obj, [])"
| "apply_all obj (p # ps) =
     bind_c (ApplyPatch obj p) (\<lambda>(err, obj, p).
       if err \<noteq> 0 then Inr (err, obj, p # ps)
       else bind_c (apply_all obj ps) (\<lambda>(err, obj, ps). Inr (err, obj, p # ps)))"

definition ApplyPatches :: "cJSON \<Rightarrow> cJSON option \<Rightarrow> (int \<times> cJSON \<times> cJSON) c" where
  "ApplyPatches obj patches =
     bind_c (deref patches) (\<lambda>patches.
       if ctype patches \<noteq> cJSON_Array then Inr (1, obj, patches)
       else bind_c (apply_all obj (child patches)) (\<lambda>(err, obj, ps).
              Inr (err, obj, set_child ps patches)))"

section \<open>Generating\<close>

definition patch_of :: "string \<Rightarrow> string \<Rightarrow> string option \<Rightarrow> cJSON option \<Rightarrow> cJSON" where
  "patch_of op path suffix val =
     (let patch = cJSON_AddItemToObject cJSON_CreateObject ''op'' (Some (cJSON_CreateString op));
          patch = cJSON_AddItemToObject patch ''path'' (Some (cJSON_CreateString
                    (case suffix of None \<Rightarrow> path | Some s \<Rightarrow> path @ ''/'' @ PointerEncodedstrcpy s)))
      in case val of None \<Rightarrow> patch
         | Some v \<Rightarrow> cJSON_AddItemToObject patch ''value'' (cJSON_Duplicate (Some v) True))"

definition GeneratePatch :: "cJSON \<Rightarrow> string \<Rightarrow> string \<Rightarrow> string option \<Rightarrow> cJSON option \<Rightarrow> cJSON" where
  "GeneratePatch patches op path suffix val =
     cJSON_AddItemToArray patches (Some (patch_of op path suffix val))"

definition AddPatchToArray :: "cJSON \<Rightarrow> string \<Rightarrow> string \<Rightarrow> cJSON option \<Rightarrow> cJSON" where
  "AddPatchToArray array op path val = GeneratePatch array op path None val"

fun remove_items :: "cJSON \<Rightarrow> string \<Rightarrow> nat \<Rightarrow> cJSON list \<Rightarrow> cJSON" where
  "remove_items patches path c [] = patches"
| "remove_items patches path c (from # froms) =
     remove_items (GeneratePatch patches ''remove'' path (Some (show_int (int c))) None) path (Suc c) froms"

fun add_items :: "cJSON \<Rightarrow> string \<Rightarrow> cJSON list \<Rightarrow> cJSON" where
  "add_items patches path [] = patches"
| "add_items patches path (to # tos) =
     add_items (GeneratePatch patches ''add'' path (Some ''-'') (Some to)) path tos"

function (sequential) CompareToPatch ::
    "cJSON \<Rightarrow> string \<Rightarrow> cJSON \<Rightarrow> cJSON \<Rightarrow> (cJSON \<times> cJSON \<times> cJSON) c"
  and patch_items ::
    "cJSON \<Rightarrow> string \<Rightarrow> nat \<Rightarrow> cJSON list \<Rightarrow> cJSON list \<Rightarrow> (cJSON \<times> cJSON list \<times> cJSON list) c"
  and patch_members ::
    "cJSON \<Rightarrow> string \<Rightarrow> cJSON list \<Rightarrow> cJSON list \<Rightarrow> (cJSON \<times> cJSON list \<times> cJSON list) c" where
  "CompareToPatch patches path from to =
     (let replaced = Inr (GeneratePatch patches ''replace'' path None (Some to), from, to)
      in if ctype from \<noteq> ctype to then replaced
         else if ctype from = cJSON_Number
         then if valueint from \<noteq> valueint to \<or> \<not> deq (valuedouble from) (valuedouble to) then replaced
              else Inr (patches, from, to)
         else if ctype from = cJSON_String
         then bind_c (deref (valuestring from)) (\<lambda>s. bind_c (deref (valuestring to)) (\<lambda>t.
                if strcmp s t \<noteq> 0 then replaced else Inr (patches, from, to)))
         else if ctype from = cJSON_Array
         then bind_c (patch_items patches path 0 (child from) (child to)) (\<lambda>(patches, froms, tos).
                Inr (patches, set_child froms from, set_child tos to))
         else if ctype from = cJSON_Object
         then bind_c (patch_members patches path (SortList (child from)) (SortList (child to)))
                (\<lambda>(patches, froms, tos). Inr (patches, set_child froms from, set_child tos to))
         else Inr (patches, from, to))"
| "patch_items patches path c (from # froms) (to # tos) =
     bind_c (CompareToPatch patches (path @ ''/'' @ show_int (int c)) from to) (\<lambda>(patches, from, to).
     bind_c (patch_items patches path (Suc c) froms tos) (\<lambda>(patches, froms, tos).
       Inr (patches, from # froms, to # tos)))"
| "patch_items patches path c [] tos = Inr (add_items patches path tos, [], tos)"
| "patch_items patches path c (from # froms) [] =
     Inr (remove_items patches path c (from # froms), from # froms, [])"
| "patch_members patches path [] [] = Inr (patches, [], [])"
| "patch_members patches path [] (b # bs) =
     bind_c (patch_members (GeneratePatch patches ''add'' path (cstring b) (Some b)) path [] bs)
       (\<lambda>(patches, as, bs). Inr (patches, as, b # bs))"
| "patch_members patches path (a # as) [] =
     bind_c (patch_members (GeneratePatch patches ''remove'' path (cstring a) None) path as [])
       (\<lambda>(patches, as, bs). Inr (patches, a # as, bs))"
| "patch_members patches path (a # as) (b # bs) =
     (let diff = name_cmp a b
      in if diff = 0
         then bind_c (deref (cstring a)) (\<lambda>name.
              bind_c (CompareToPatch patches (path @ ''/'' @ PointerEncodedstrcpy name) a b) (\<lambda>(patches, a, b).
              bind_c (patch_members patches path as bs) (\<lambda>(patches, as, bs).
                Inr (patches, a # as, b # bs))))
         else if diff < 0
         then bind_c (patch_members (GeneratePatch patches ''remove'' path (cstring a) None) path as (b # bs))
                (\<lambda>(patches, as, bs). Inr (patches, a # as, bs))
         else bind_c (patch_members (GeneratePatch patches ''add'' path (cstring b) (Some b)) path (a # as) bs)
                (\<lambda>(patches, as, bs). Inr (patches, as, b # bs)))"
  by pat_completeness auto
termination
  by (relation "measure (case_sum (\<lambda>(ps, p, a, b). 2 * (size a + size b) + 1)
       (case_sum (\<lambda>(ps, p, c, as, bs). 2 * (size_list size as + size_list size bs))
         (\<lambda>(ps, p, as, bs). 2 * (size_list size as + size_list size bs))))")
    (auto simp: less_Suc_eq_le size_SortList intro!: add_mono mult_le_mono2 less_imp_le [OF size_child])

declare CompareToPatch.simps [simp del]

definition GeneratePatches :: "cJSON \<Rightarrow> cJSON \<Rightarrow> (cJSON \<times> cJSON \<times> cJSON) c" where
  "GeneratePatches from to = CompareToPatch cJSON_CreateArray '''' from to"


section \<open>Comparing changes the order of members only\<close>

lemma size_set_child: "size_list size xs = size_list size (child it) \<Longrightarrow> size (set_child xs it) = size it"
  by (cases it) simp

text \<open>One round of the loops of \<open>Compare\<close>.\<close>

lemma compare_roundE:
  assumes "bind_c m (\<lambda>(err, a, b). if err \<noteq> 0 then Inr (err, a # as, b # bs)
      else bind_c r (\<lambda>(err, as, bs). Inr (err, a # as, b # bs))) = Inr (err, as', bs')"
  obtains (stop) a b where "m = Inr (err, a, b)" "err \<noteq> 0" "as' = a # as" "bs' = b # bs"
    | (go) a b as1 bs1 where "m = Inr (0, a, b)" "r = Inr (err, as1, bs1)" "as' = a # as1" "bs' = b # bs1"
proof -
  obtain e a b where m: "m = Inr (e, a, b)" using assms by (auto simp: bind_c_eq_Inr)
  show ?thesis
  proof (cases "e = 0")
    case True
    with assms m obtain x where r: "r = Inr x" by (auto simp: bind_c_eq_Inr)
    obtain e' as1 bs1 where "x = (e', as1, bs1)" by (cases x)
    with assms m True r go show ?thesis by simp
  next
    case False
    with assms m stop show ?thesis by simp
  qed
qed

lemma Compare_size:
  "Compare a b = Inr (err, a', b') \<Longrightarrow> size a' = size a \<and> size b' = size b"
  "compare_items as bs = Inr (err, as', bs') \<Longrightarrow> size_list size as' = size_list size as \<and> size_list size bs' = size_list size bs"
  "compare_members as bs = Inr (err, as', bs') \<Longrightarrow> size_list size as' = size_list size as \<and> size_list size bs' = size_list size bs"
proof (induction a b and as bs and as bs arbitrary: err a' b' and err as' bs' and err as' bs'
    rule: Compare_compare_items_compare_members.induct)
  case (1 a b)
  from 1(3) consider "a' = a" "b' = b"
    | as bs where "ctype a = cJSON_Array" "ctype b = cJSON_Array" "compare_items (child a) (child b) = Inr (err, as, bs)"
        "a' = set_child as a" "b' = set_child bs b"
    | as bs where "ctype a = cJSON_Object" "ctype b = cJSON_Object"
        "compare_members (SortList (child a)) (SortList (child b)) = Inr (err, as, bs)"
        "a' = set_child as a" "b' = set_child bs b"
    by (auto simp add: Compare.simps [of a b] bind_c_eq_Inr split: if_splits)
  then show ?case
    by cases (use 1(1,2) in \<open>simp_all add: size_set_child size_SortList\<close>)
next
  case (2 a as b bs)
  from 2(3) [unfolded compare_items.simps] show ?case
    by (cases rule: compare_roundE) (use 2(1,2) in force)+
next
  case (5 a as b bs)
  show ?case
  proof (cases "name_cmp a b = 0")
    case True
    from 5(3) have "bind_c (Compare a b) (\<lambda>(err, a, b). if err \<noteq> 0 then Inr (err, a # as, b # bs)
      else bind_c (compare_members as bs) (\<lambda>(err, as, bs). Inr (err, a # as, b # bs))) = Inr (err, as', bs')"
      using True by simp
    then show ?thesis by (cases rule: compare_roundE) (use 5(1,2) True in force)+
  qed (use 5(3) in auto)
qed auto


section \<open>Generating and comparing agree\<close>

lemma GeneratePatch_child:
  "\<exists>p. child (GeneratePatch patches op path suffix val) = child patches @ [p]"
  by (simp add: GeneratePatch_def)

text \<open>\<open>emits ps ps'\<close>: \<open>ps'\<close> is \<open>ps\<close> with patches added behind.\<close>

definition emitted :: "cJSON \<Rightarrow> cJSON \<Rightarrow> cJSON list \<Rightarrow> bool" where
  "emitted ps ps' new \<longleftrightarrow> child ps' = child ps @ new"

lemma emitted_refl [simp]: "emitted ps ps []"
  by (simp add: emitted_def)

lemma emitted_trans: "emitted ps ps' xs \<Longrightarrow> emitted ps' ps'' ys \<Longrightarrow> emitted ps ps'' (xs @ ys)"
  by (simp add: emitted_def)

lemma emitted_generate:
  obtains p where "emitted ps (GeneratePatch ps op path suffix val) [p]"
  using GeneratePatch_child [of ps op path suffix val] by (auto simp: emitted_def)

lemma emitted_step:
  assumes "emitted (GeneratePatch ps op path suffix val) ps' new"
  shows "\<exists>new. emitted ps ps' new \<and> new \<noteq> []"
proof -
  obtain p where "emitted ps (GeneratePatch ps op path suffix val) [p]" by (rule emitted_generate)
  from emitted_trans [OF this assms] show ?thesis by (intro exI [of _ "[p] @ new"]) simp
qed

lemma emitted_remove: "\<exists>new. emitted ps (remove_items ps path c xs) new \<and> (new = [] \<longleftrightarrow> xs = [])"
proof (induction ps path c xs rule: remove_items.induct)
  case (2 ps path c x xs)
  then obtain new where "emitted (GeneratePatch ps ''remove'' path (Some (show_int (int c))) None)
      (remove_items ps path c (x # xs)) new" by auto
  from emitted_step [OF this] show ?case by simp
qed auto

lemma emitted_add: "\<exists>new. emitted ps (add_items ps path xs) new \<and> (new = [] \<longleftrightarrow> xs = [])"
proof (induction ps path xs rule: add_items.induct)
  case (2 ps path x xs)
  then obtain new where "emitted (GeneratePatch ps ''add'' path (Some ''-'') (Some x))
      (add_items ps path (x # xs)) new" by auto
  from emitted_step [OF this] show ?case by simp
qed auto

text \<open>
  Generating patches for two trees runs through them as comparing does: when neither faults, nothing
  is emitted exactly if the comparison finds no difference.
\<close>

text \<open>The rounds of the generating loops.\<close>

lemma patch_items_roundE:
  assumes "patch_items ps path c (a # as) (b # bs) = Inr (ps', as', bs')"
  obtains ps1 a1 b1 as1 bs1 where "CompareToPatch ps (path @ ''/'' @ show_int (int c)) a b = Inr (ps1, a1, b1)"
    "patch_items ps1 path (Suc c) as bs = Inr (ps', as1, bs1)"
  using assms by (auto simp: bind_c_eq_Inr)

lemma patch_members_roundE:
  assumes "patch_members ps path (a # as) (b # bs) = Inr (ps', as', bs')"
  obtains (same) n ps1 a1 b1 as1 bs1 where "name_cmp a b = 0" "cstring a = Some n"
      "CompareToPatch ps (path @ ''/'' @ PointerEncodedstrcpy n) a b = Inr (ps1, a1, b1)"
      "patch_members ps1 path as bs = Inr (ps', as1, bs1)"
    | (gone) as1 bs1 where "name_cmp a b < 0"
      "patch_members (GeneratePatch ps ''remove'' path (cstring a) None) path as (b # bs) = Inr (ps', as1, bs1)"
    | (new) as1 bs1 where "0 < name_cmp a b"
      "patch_members (GeneratePatch ps ''add'' path (cstring b) (Some b)) path (a # as) bs = Inr (ps', as1, bs1)"
proof -
  consider "name_cmp a b = 0" | "name_cmp a b < 0" | "0 < name_cmp a b" by linarith
  then show ?thesis
  proof cases
    case 1
    with assms show ?thesis by (auto simp: bind_c_eq_Inr Let_def intro: same)
  next
    case 2
    with assms show ?thesis by (auto simp: bind_c_eq_Inr Let_def intro: gone)
  next
    case 3
    with assms show ?thesis by (auto simp: bind_c_eq_Inr Let_def intro: new)
  qed
qed

lemma CompareToPatch_cases:
  assumes "CompareToPatch ps path a b = Inr (ps', a', b')"
  obtains (same) "ps' = ps"
    | (replaced) "ps' = GeneratePatch ps ''replace'' path None (Some b)"
    | (items) as bs where "ctype a = cJSON_Array" "ctype b = cJSON_Array"
      "patch_items ps path 0 (child a) (child b) = Inr (ps', as, bs)"
    | (members) as bs where "ctype a = cJSON_Object" "ctype b = cJSON_Object"
      "patch_members ps path (SortList (child a)) (SortList (child b)) = Inr (ps', as, bs)"
  using assms
  by (auto simp add: CompareToPatch.simps [of ps path a b] Let_def bind_c_eq_Inr split: if_splits)

lemma emits_mono:
  "CompareToPatch ps path a b = Inr (ps', a', b') \<Longrightarrow> \<exists>new. emitted ps ps' new"
  "patch_items ps path c as bs = Inr (ps', as', bs') \<Longrightarrow> \<exists>new. emitted ps ps' new"
  "patch_members ps path as bs = Inr (ps', as', bs') \<Longrightarrow> \<exists>new. emitted ps ps' new"
proof (induction ps path a b and ps path c as bs and ps path as bs
    arbitrary: ps' a' b' and ps' as' bs' and ps' as' bs'
    rule: CompareToPatch_patch_items_patch_members.induct)
  case (1 ps path a b)
  from 1(3) show ?case
  proof (cases rule: CompareToPatch_cases)
    case same
    then show ?thesis by (intro exI [of _ "[]"]) simp
  next
    case replaced
    then show ?thesis using emitted_generate by metis
  next
    case (items as bs)
    then show ?thesis using 1(1) by simp
  next
    case (members as bs)
    then show ?thesis using 1(2) by simp
  qed
next
  case (2 ps path c a as b bs)
  from 2(3) obtain ps1 a1 b1 as1 bs1 where r: "CompareToPatch ps (path @ ''/'' @ show_int (int c)) a b = Inr (ps1, a1, b1)"
    "patch_items ps1 path (Suc c) as bs = Inr (ps', as1, bs1)" by (rule patch_items_roundE)
  obtain n1 where n1: "emitted ps ps1 n1" using 2(1) [OF r(1)] by auto
  obtain n2 where n2: "emitted ps1 ps' n2" using 2(2) [OF r(1) refl refl r(2)] by auto
  show ?case using emitted_trans [OF n1 n2] by auto
next
  case (8 ps path a as b bs)
  from 8(5) show ?case
  proof (cases rule: patch_members_roundE)
    case (same n ps1 a1 b1 as1 bs1)
    have name: "deref (cstring a) = Inr n" using same(2) by simp
    obtain n1 where n1: "emitted ps ps1 n1" using 8(1) [OF refl same(1) name same(3)] by auto
    obtain n2 where n2: "emitted ps1 ps' n2"
      using 8(2) [OF refl same(1) name same(3) refl refl same(4)] by auto
    show ?thesis using emitted_trans [OF n1 n2] by auto
  next
    case (gone as1 bs1)
    then show ?thesis using 8(3) [OF refl _ _ gone(2)] emitted_step by fastforce
  next
    case (new as1 bs1)
    then show ?thesis using 8(4) [OF refl _ _ new(2)] emitted_step by fastforce
  qed
next
  case (6 ps path b bs)
  from 6(2) obtain bs1 where "patch_members (GeneratePatch ps ''add'' path (cstring b) (Some b)) path [] bs
      = Inr (ps', as', bs1)" by (auto simp: bind_c_eq_Inr)
  then show ?case using 6(1) emitted_step by blast
next
  case (7 ps path a as)
  from 7(2) obtain as1 where "patch_members (GeneratePatch ps ''remove'' path (cstring a) None) path as []
      = Inr (ps', as1, bs')" by (auto simp: bind_c_eq_Inr)
  then show ?case using 7(1) emitted_step by blast
next
  case (5 ps path)
  then show ?case by (intro exI [of _ "[]"]) simp
next
  case (3 ps path c bs)
  then show ?case using emitted_add [of ps path bs] by auto
next
  case (4 ps path c a as)
  then show ?case using emitted_remove [of ps path c "a # as"] by auto
qed


lemma emitted_unique: "emitted ps ps' xs \<Longrightarrow> emitted ps ps' ys \<Longrightarrow> xs = ys"
  by (simp add: emitted_def)

lemma emitted_two:
  "emitted ps ps1 xs \<Longrightarrow> emitted ps1 ps' ys \<Longrightarrow> emitted ps ps' [] \<longleftrightarrow> xs = [] \<and> ys = []"
  by (auto simp: emitted_def)

text \<open>Two rounds of a generating loop add nothing if neither of them does.\<close>

lemma two_rounds:
  assumes "CompareToPatch ps path a b = Inr (ps1, a1, b1)" "\<exists>new. emitted ps1 ps' new"
  shows "emitted ps ps' [] \<longleftrightarrow> emitted ps ps1 [] \<and> emitted ps1 ps' []"
proof -
  obtain xs ys where x: "emitted ps ps1 xs" and y: "emitted ps1 ps' ys"
    using assms emits_mono(1) by metis
  show ?thesis using emitted_two [OF x y] emitted_unique [OF x] emitted_unique [OF y] x y by metis
qed

lemma emitted_step_not:
  assumes "\<exists>new. emitted (GeneratePatch ps op path suffix val) ps' new"
  shows "\<not> emitted ps ps' []"
proof -
  obtain new where "emitted ps ps' new" "new \<noteq> []" using assms emitted_step by blast
  then show ?thesis using emitted_unique by blast
qed

lemma patches_iff_different_all:
  "CompareToPatch ps path a b = Inr (ps', a', b') \<Longrightarrow> Compare a b = Inr (err, x, y) \<Longrightarrow>
     emitted ps ps' [] \<longleftrightarrow> err = 0"
  "patch_items ps path c as bs = Inr (ps', as', bs') \<Longrightarrow> compare_items as bs = Inr (err, xs, ys) \<Longrightarrow>
     emitted ps ps' [] \<longleftrightarrow> err = 0"
  "patch_members ps path as bs = Inr (ps', as', bs') \<Longrightarrow> compare_members as bs = Inr (err, xs, ys) \<Longrightarrow>
     emitted ps ps' [] \<longleftrightarrow> err = 0"
proof (induction ps path a b and ps path c as bs and ps path as bs
    arbitrary: ps' a' b' err x y and ps' as' bs' err xs ys and ps' as' bs' err xs ys
    rule: CompareToPatch_patch_items_patch_members.induct)
  case (1 ps path a b)
  have no: "\<not> emitted ps (GeneratePatch ps op path suffix val) []" for op suffix val
    using GeneratePatch_child [of ps op path suffix val] by (auto simp: emitted_def)
  show ?case
    using 1(3,4) 1(1) [of _ ps' _ _ err] 1(2) [of _ ps' _ _ err]
    by (auto simp add: CompareToPatch.simps [of ps path a b] Compare.simps [of a b] Let_def bind_c_eq_Inr no
        split: if_splits)
next
  case (2 ps path c a as b bs)
  from 2(3) obtain ps1 a1 b1 as1 bs1 where r: "CompareToPatch ps (path @ ''/'' @ show_int (int c)) a b = Inr (ps1, a1, b1)"
    "patch_items ps1 path (Suc c) as bs = Inr (ps', as1, bs1)" by (rule patch_items_roundE)
  have split: "emitted ps ps' [] \<longleftrightarrow> emitted ps ps1 [] \<and> emitted ps1 ps' []"
    by (rule two_rounds [OF r(1) emits_mono(2) [OF r(2)]])
  from 2(4) [unfolded compare_items.simps] show ?case
  proof (cases rule: compare_roundE)
    case (stop a b)
    then show ?thesis using 2(1) [OF r(1)] split by simp
  next
    case (go a b as1 bs1)
    then show ?thesis using 2(1) [OF r(1)] 2(2) [OF r(1) refl refl r(2)] split by simp
  qed
next
  case (8 ps path a as b bs)
  from 8(5) show ?case
  proof (cases rule: patch_members_roundE)
    case (same n ps1 a1 b1 as1 bs1)
    have name: "deref (cstring a) = Inr n" using same(2) by simp
    have split: "emitted ps ps' [] \<longleftrightarrow> emitted ps ps1 [] \<and> emitted ps1 ps' []"
      by (rule two_rounds [OF same(3) emits_mono(3) [OF same(4)]])
    note ih = 8(1) [OF refl same(1) name same(3)] 8(2) [OF refl same(1) name same(3) refl refl same(4)]
    from 8(6) same(1) have "bind_c (Compare a b) (\<lambda>(err, a, b). if err \<noteq> 0 then Inr (err, a # as, b # bs)
      else bind_c (compare_members as bs) (\<lambda>(err, as, bs). Inr (err, a # as, b # bs))) = Inr (err, xs, ys)" by simp
    then show ?thesis
    proof (cases rule: compare_roundE)
      case (stop a b)
      then show ?thesis using ih(1) split by simp
    next
      case (go a b as1 bs1)
      then show ?thesis using ih split by simp
    qed
  next
    case (gone as1 bs1)
    then show ?thesis using 8(6) emitted_step_not [OF emits_mono(3) [OF gone(2)]] by auto
  next
    case (new as1 bs1)
    then show ?thesis using 8(6) emitted_step_not [OF emits_mono(3) [OF new(2)]] by auto
  qed
next
  case (5 ps path)
  then show ?case by simp
next
  case (6 ps path b bs)
  from 6(2) obtain bs1 where "patch_members (GeneratePatch ps ''add'' path (cstring b) (Some b)) path [] bs
      = Inr (ps', as', bs1)" by (auto simp: bind_c_eq_Inr)
  from emitted_step_not [OF emits_mono(3) [OF this]] show ?case using 6(3) by simp
next
  case (7 ps path a as)
  from 7(2) obtain as1 where "patch_members (GeneratePatch ps ''remove'' path (cstring a) None) path as []
      = Inr (ps', as1, bs')" by (auto simp: bind_c_eq_Inr)
  from emitted_step_not [OF emits_mono(3) [OF this]] show ?case using 7(3) by simp
next
  case (3 ps path c bs)
  obtain new where n: "emitted ps ps' new" "new = [] \<longleftrightarrow> bs = []"
    using emitted_add [of ps path bs] 3(1) by auto
  have "err = 0 \<longleftrightarrow> bs = []" using 3(2) by (cases bs) auto
  then show ?case using n emitted_unique [OF n(1)] by metis
next
  case (4 ps path c a as)
  obtain new where n: "emitted ps ps' new" "new \<noteq> []"
    using emitted_remove [of ps path c "a # as"] 4(1) by auto
  have "\<not> emitted ps ps' []" using emitted_unique [OF n(1)] n(2) by blast
  then show ?case using 4(2) by auto
qed


text \<open>C24: When neither faults, \<open>cJSONUtils_GeneratePatches\<close> produces no patch exactly for the
  trees in which \<open>cJSONUtils_Compare\<close> finds no difference, although it runs on past the first one
  and walks objects by another case analysis.\<close>

theorem patches_iff_different:
  assumes "GeneratePatches from to = Inr (ps, from1, to1)" and "Compare from to = Inr (err, a, b)"
  shows "child ps = [] \<longleftrightarrow> err = 0"
  using patches_iff_different_all(1) [OF assms(1) [unfolded GeneratePatches_def] assms(2)]
  by (simp add: emitted_def cJSON_CreateArray_def cJSON_New_Item_def)

theorem patches_iff_different_witness:
  "child (GeneratePatch cJSON_CreateArray ''replace'' ''/0'' None (Some cJSON_CreateFalse)) \<noteq> []"
proof -
  let ?from = "set_child [cJSON_CreateTrue] cJSON_CreateArray"
  let ?to = "set_child [cJSON_CreateFalse] cJSON_CreateArray"
  have "GeneratePatches ?from ?to
      = Inr (GeneratePatch cJSON_CreateArray ''replace'' ''/0'' None (Some cJSON_CreateFalse), ?from, ?to)"
    "Compare ?from ?to = Inr (- 1, ?from, ?to)" by code_simp+
  from patches_iff_different [OF this] show ?thesis by simp
qed

end
