(* ===== verification/CJsonPatchEffect.thy ===== *)
theory CJsonPatchEffect imports CJsonPatch begin

text \<open>
  What applying patches does: an \<open>add\<close> to an object is an update of the map of its members, a path
  without a slash faults, and the removals generated for an array take away every other item only.
\<close>

section \<open>Paths\<close>

lemma split_path_none: "CHR ''/'' \<notin> set path \<Longrightarrow> split_path path = (path, None)"
  by (simp add: split_path_def)

lemma split_path_slash: "CHR ''/'' \<notin> set name \<Longrightarrow> split_path (path @ ''/'' @ name) = (path, Some name)"
proof -
  assume "CHR ''/'' \<notin> set name"
  then have "takeWhile (\<lambda>c. c \<noteq> CHR ''/'') (rev name @ ''/'' @ rev path) = rev name"
    "dropWhile (\<lambda>c. c \<noteq> CHR ''/'') (rev name @ ''/'' @ rev path) = ''/'' @ rev path"
    by (subst takeWhile_append2 dropWhile_append2; auto)+
  then show "split_path (path @ ''/'' @ name) = (path, Some name)" by (simp add: split_path_def)
qed


lemma patch_names_differ:
  "cJSON_strcasecmp (Some ''op'') (Some ''path'') \<noteq> 0" "cJSON_strcasecmp (Some ''op'') (Some ''value'') \<noteq> 0"
  "cJSON_strcasecmp (Some ''path'') (Some ''value'') \<noteq> 0" "cJSON_strcasecmp (Some ''value'') (Some ''op'') \<noteq> 0"
  "cJSON_strcasecmp (Some ''value'') (Some ''path'') \<noteq> 0" "cJSON_strcasecmp (Some ''path'') (Some ''op'') \<noteq> 0"
  by code_simp+

lemma get_empty_object: "cJSON_GetObjectItem (Some cJSON_CreateObject) k = None"
  by (simp add: get_object_find cJSON_CreateObject_def cJSON_New_Item_def)

lemmas patch_of_simps = patch_of_def Let_def get_add_object cJSON_CreateString_def cJSON_Duplicate_def
  patch_names_differ get_empty_object

lemma patch_of_op:
  "\<exists>x. cJSON_GetObjectItem (Some (patch_of op path suffix val)) ''op'' = Some x \<and> valuestring x = Some op"
  by (cases val) (auto simp: patch_of_simps)

lemma patch_of_path:
  "\<exists>x. cJSON_GetObjectItem (Some (patch_of op path suffix val)) ''path'' = Some x \<and>
     valuestring x = Some (case suffix of None \<Rightarrow> path | Some s \<Rightarrow> path @ ''/'' @ PointerEncodedstrcpy s)"
  by (cases val) (auto simp: patch_of_simps)

lemma patch_of_value:
  "cJSON_GetObjectItem (Some (patch_of op path suffix val)) ''value''
     = map_option (\<lambda>v. set_cstring (Some ''value'') (cJSON_Duplicate_item v True)) val"
  by (cases val) (auto simp: patch_of_simps)

section \<open>Placing a member\<close>

lemma encoded_no_slash: "CHR ''/'' \<notin> set (PointerEncodedstrcpy s)"
  by (induction s) auto

lemma find_parent_encoded:
  assumes "GetPointer doc path = Inr parent"
  shows "find_parent doc (path @ ''/'' @ PointerEncodedstrcpy name) = Inr (parent, name)"
  using split_path_slash [OF encoded_no_slash, of path name] assms
  by (simp add: find_parent_def decode_encode)

lemma place_member:
  assumes "GetPointer doc path = Inr (Some pos)" "item_at doc pos = Some ob"
    "ctype ob = cJSON_Object"
  shows "place_value doc (Some (path @ ''/'' @ PointerEncodedstrcpy name)) v
    = Inr (0, update_at pos (\<lambda>_. cJSON_AddItemToObject (cJSON_DeleteItemFromObject ob name) name (Some v)) doc)"
  using find_parent_encoded [OF assms(1), of name] assms
  by (simp add: place_value_def)

text \<open>A patch \<open>add\<close> whose path leads to an object, with the escaped name of a member behind the
  last slash, succeeds; the object is then, as a map from names to members, the one before with this
  name leading to a duplicate of the patch's value, whether or not it was there.\<close>

lemma patch_add_member:
  assumes "cJSON_GetObjectItem (Some patch) ''op'' = Some opi" "valuestring opi = Some ''add''"
    and "cJSON_GetObjectItem (Some patch) ''path'' = Some pathi"
    and "valuestring pathi = Some (path @ ''/'' @ PointerEncodedstrcpy name)"
    and "cJSON_GetObjectItem (Some patch) ''value'' = Some v"
    and "GetPointer doc path = Inr (Some pos)" "item_at doc pos = Some ob"
    and "ctype ob = cJSON_Object" "object_ok ob" "nul_free name"
  shows "\<exists>doc' ob'. ApplyPatch doc patch = Inr (0, doc', patch) \<and> item_at doc' pos = Some ob'
    \<and> object_ok ob'
    \<and> members ob' = (members ob)(map tolower name \<mapsto> set_cstring (Some name) (cJSON_Duplicate_item v True))"
proof -
  let ?dup = "cJSON_Duplicate_item v True"
  let ?ob = "cJSON_AddItemToObject (cJSON_DeleteItemFromObject ob name) name (Some ?dup)"
  have "ApplyPatch doc patch = Inr (0, update_at pos (\<lambda>_. ?ob) doc, patch)"
    using assms(1-5) place_member [OF assms(6-8), of name ?dup]
    by (simp add: ApplyPatch_def Let_def)
  moreover have "item_at (update_at pos (\<lambda>_. ?ob) doc) pos = Some ?ob"
    using item_at_update [OF assms(7), of "\<lambda>_. ?ob"] by simp
  ultimately show ?thesis
    using json.inv_set [OF assms(9,10), of ?dup] json.look_set [OF assms(9,10), of ?dup]
    by (intro exI [of _ "update_at pos (\<lambda>_. ?ob) doc"] exI [of _ ?ob]) simp
qed

section \<open>Paths without a slash\<close>

lemma find_parent_fault:
  assumes "CHR ''/'' \<notin> set path" "peek path \<noteq> CHR ''/''"
  shows "find_parent doc path = Inl NullDeref"
  using assms by (simp add: find_parent_def split_path_none GetPointer.simps [of doc path])

lemma detach_fault:
  assumes "CHR ''/'' \<notin> set path"
  shows "PatchDetach doc path = Inl NullDeref"
proof -
  have "peek path \<noteq> CHR ''/''" using assms by (cases path) auto
  then show ?thesis using assms by (simp add: PatchDetach_def find_parent_fault)
qed

lemma op_names_differ:
  "strcmp ''remove'' ''add'' \<noteq> 0" "strcmp ''replace'' ''add'' \<noteq> 0" "strcmp ''replace'' ''remove'' \<noteq> 0"
  by code_simp+

lemma ApplyPatch_detaches:
  assumes "cJSON_GetObjectItem (Some patch) ''op'' = Some opi" "valuestring opi = Some op"
    and "op = ''remove'' \<or> op = ''replace''"
    and "cJSON_GetObjectItem (Some patch) ''path'' = Some pathi" "valuestring pathi = Some path"
  shows "PatchDetach doc path = Inl e \<Longrightarrow> ApplyPatch doc patch = Inl e"
    and "op = ''remove'' \<Longrightarrow> PatchDetach doc path = Inr (x, doc') \<Longrightarrow> ApplyPatch doc patch = Inr (0, doc', patch)"
  using assms by (auto simp: ApplyPatch_def Let_def op_names_differ)

lemma ApplyPatches_array:
  "ctype ps = cJSON_Array \<Longrightarrow> apply_all doc (child ps) = Inr (err, doc', ps') \<Longrightarrow>
     ApplyPatches doc (Some ps) = Inr (err, doc', set_child ps' ps)"
  "ctype ps = cJSON_Array \<Longrightarrow> apply_all doc (child ps) = Inl e \<Longrightarrow> ApplyPatches doc (Some ps) = Inl e"
  by (simp_all add: ApplyPatches_def)

text \<open>For two trees of different types \<open>cJSONUtils_GeneratePatches\<close> produces a patch that
  replaces the path \<open>""\<close>, the whole document, and \<open>cJSONUtils_ApplyPatches\<close> crashes on it: it decodes
  the NULL that \<open>strrchr\<close> returned.\<close>

lemma root_replacement_faults:
  assumes "ctype from \<noteq> ctype to"
  shows "\<exists>ps. GeneratePatches from to = Inr (ps, from, to) \<and> ApplyPatches from (Some ps) = Inl NullDeref"
proof -
  let ?p = "patch_of ''replace'' '''' None (Some to)"
  let ?ps = "GeneratePatch cJSON_CreateArray ''replace'' '''' None (Some to)"
  obtain x y where p: "cJSON_GetObjectItem (Some ?p) ''op'' = Some x" "valuestring x = Some ''replace''"
    "cJSON_GetObjectItem (Some ?p) ''path'' = Some y" "valuestring y = Some ''''"
    using patch_of_op [of "''replace''" "''''" None] patch_of_path [of "''replace''" "''''" None] by fastforce
  have "ApplyPatch from ?p = Inl NullDeref"
    by (rule ApplyPatch_detaches(1) [OF p(1,2) _ p(3,4) detach_fault]) simp_all
  then have "ApplyPatches from (Some ?ps) = Inl NullDeref"
    by (intro ApplyPatches_array(2))
      (simp_all add: GeneratePatch_def cJSON_AddItemToArray_def cJSON_CreateArray_def cJSON_New_Item_def)
  moreover have "GeneratePatches from to = Inr (?ps, from, to)"
    using assms by (simp add: GeneratePatches_def CompareToPatch.simps)
  ultimately show ?thesis by blast
qed

section \<open>Removing the items of an array\<close>

lemma digits_value_append:
  "digits_value (int m) (nat_digits n @ s) = digits_value (int (m * 10 ^ length (nat_digits n) + n)) s"
proof (induction n arbitrary: m s rule: nat_digits.induct)
  case (1 n)
  show ?case
  proof (cases "n < 10")
    case True
    then have "nat_digits n = [digit_char n]" by (simp add: nat_digits.simps)
    then show ?thesis using True by (simp add: algebra_simps)
  next
    case False
    let ?l = "length (nat_digits (n div 10))"
    have d: "nat_digits n = nat_digits (n div 10) @ [digit_char (n mod 10)]"
      using False by (simp add: nat_digits.simps)
    have v: "m * 10 ^ length (nat_digits n) + n = (m * 10 ^ ?l + n div 10) * 10 + n mod 10"
      by (simp add: d algebra_simps)
    have "digits_value (int m) (nat_digits n @ s)
        = digits_value (int (m * 10 ^ ?l + n div 10)) (digit_char (n mod 10) # s)"
      using 1(1) [OF False, of m "digit_char (n mod 10) # s"] by (simp add: d)
    also have "\<dots> = digits_value (int ((m * 10 ^ ?l + n div 10) * 10 + n mod 10)) s"
    proof -
      define w where "w = m * 10 ^ ?l + n div 10"
      show ?thesis unfolding w_def [symmetric] by (simp add: mult.commute)
    qed
    finally show ?thesis by (simp only: v)
  qed
qed

lemma atoi_show:
  assumes "int c \<le> INT_MAX"
  shows "atoi (show_int (int c)) = Inr (int c)"
proof -
  obtain a s where s: "nat_digits c = a # s" "is_digit a"
    using nat_digits_head [of c "[]"] by (cases "nat_digits c") auto
  have a: "a \<noteq> CHR '' ''" "\<not> (9 \<le> byte a \<and> byte a \<le> 13)" "a \<noteq> CHR ''-''" "a \<noteq> CHR ''+''"
    using s(2) by (auto simp: is_digit_def)
  have "digits_value 0 (nat_digits c) = int c" using digits_value_append [of 0 c "[]"] by simp
  moreover have "dropWhile (\<lambda>c. c = CHR '' '' \<or> 9 \<le> byte c \<and> byte c \<le> 13) (nat_digits c) = nat_digits c"
    using a(1,2) s(1) by auto
  moreover have "peek (nat_digits c) = a" using s(1) by simp
  ultimately show ?thesis using a(3,4) assms by (simp add: atoi_def show_int_def in_int_def Let_def del: digits_value.simps)
qed

text \<open>What is left of a list when position \<open>c\<close>, then \<open>c + 1\<close>, and so on \<open>n\<close> times is taken out, each
  time of what the step before has left.\<close>

fun thin :: "nat \<Rightarrow> nat \<Rightarrow> 'a list \<Rightarrow> 'a list" where
  "thin c 0 xs = xs"
| "thin c (Suc n) xs = thin (Suc c) n (take c xs @ drop (Suc c) xs)"

lemma length_thin: "c \<le> length xs \<Longrightarrow> length (thin c n xs) = length xs - min n ((length xs - c + 1) div 2)"
proof (induction c n xs rule: thin.induct)
  case (2 c n xs)
  show ?case
  proof (cases "Suc c < length xs")
    case True
    then show ?thesis using 2 by (simp add: min_def) linarith
  next
    case False
    have stay: "thin d m ys = ys" if "length ys \<le> d" for d m and ys :: "'a list"
      using that by (induction d m ys rule: thin.induct) auto
    have "length (take c xs @ drop (Suc c) xs) \<le> Suc c" using False 2(2) by simp
    then show ?thesis using False 2(2) stay by (cases "c = length xs") auto
  qed
qed simp

lemma remove_items_child:
  "child (remove_items ps path c xs)
     = child ps @ map (\<lambda>i. patch_of ''remove'' path (Some (show_int (int i))) None) [c..<c + length xs]"
  by (induction ps path c xs rule: remove_items.induct)
    (simp_all add: GeneratePatch_def upt_conv_Cons del: upt_Suc)

lemma remove_items_type: "ctype (remove_items ps path c xs) = ctype ps"
  by (induction ps path c xs rule: remove_items.induct)
    (simp_all add: GeneratePatch_def cJSON_AddItemToArray_def)

lemma PatchDetach_array:
  assumes "ctype doc = cJSON_Array" "int c \<le> INT_MAX"
  shows "\<exists>x. PatchDetach doc (''/'' @ PointerEncodedstrcpy (show_int (int c)))
    = Inr (x, set_child (take c (child doc) @ drop (Suc c) (child doc)) doc)"
proof -
  have "GetPointer doc '''' = Inr (Some [])" by (simp add: GetPointer.simps [of doc "[]"])
  from find_parent_encoded [OF this] assms show ?thesis
    by (simp add: PatchDetach_def atoi_show cJSON_DetachItemFromArray_def Let_def)
qed

lemma apply_removals:
  "ctype doc = cJSON_Array \<Longrightarrow> int (c + n) \<le> INT_MAX + 1 \<Longrightarrow>
   apply_all doc (map (\<lambda>i. patch_of ''remove'' '''' (Some (show_int (int i))) None) [c..<c + n])
     = Inr (0, set_child (thin c n (child doc)) doc,
         map (\<lambda>i. patch_of ''remove'' '''' (Some (show_int (int i))) None) [c..<c + n])"
proof (induction n arbitrary: c doc)
  case (Suc n)
  let ?p = "patch_of ''remove'' '''' (Some (show_int (int c))) None"
  let ?doc = "set_child (take c (child doc) @ drop (Suc c) (child doc)) doc"
  obtain x y where p: "cJSON_GetObjectItem (Some ?p) ''op'' = Some x" "valuestring x = Some ''remove''"
    "cJSON_GetObjectItem (Some ?p) ''path'' = Some y"
    "valuestring y = Some (''/'' @ PointerEncodedstrcpy (show_int (int c)))"
    using patch_of_op [of "''remove''" "''''" "Some (show_int (int c))"]
      patch_of_path [of "''remove''" "''''" "Some (show_int (int c))"] by fastforce
  obtain d where d: "PatchDetach doc (''/'' @ PointerEncodedstrcpy (show_int (int c))) = Inr (d, ?doc)"
    using PatchDetach_array [OF Suc.prems(1), of c] Suc.prems(2) by auto
  have "ApplyPatch doc ?p = Inr (0, ?doc, ?p)"
    by (rule ApplyPatch_detaches(2) [OF p(1,2) _ p(3,4) _ d]) simp_all
  moreover have "[c..<c + Suc n] = c # [Suc c..<Suc c + n]" by (simp add: upt_conv_Cons del: upt_Suc)
  ultimately show ?case using Suc.IH [of ?doc "Suc c"] Suc.prems by simp
qed simp

text \<open>Removing at \<open>c\<close>, \<open>c + 1\<close>, ... from an array keeps the second one of each two items from \<open>c\<close> on.\<close>

lemma nths_odd_Cons2: "nths (x # y # ys) {i. odd i} = y # nths ys {i. odd i}"
  by (simp add: nths_Cons)

lemma thin_keeps: "length xs \<le> c + n \<Longrightarrow> thin c n xs = take c xs @ nths (drop c xs) {i. odd i}"
proof (induction n arbitrary: c xs)
  case (Suc n)
  show ?case
  proof (cases "length xs \<le> c + 1")
    case True
    then have "length (drop c xs) \<le> 1" by simp
    then have none: "nths (drop c xs) {i. odd i} = []" by (cases "drop c xs") (simp_all add: nths_Cons)
    have "thin (Suc c) n (take c xs @ drop (Suc c) xs)
        = take (Suc c) (take c xs @ drop (Suc c) xs) @ nths (drop (Suc c) (take c xs @ drop (Suc c) xs)) {i. odd i}"
      by (rule Suc.IH) (use True in simp)
    then show ?thesis using True none by simp
  next
    case False
    then obtain x y ys where d: "drop c xs = x # y # ys"
      by (metis Suc_eq_plus1 Cons_nth_drop_Suc add_leD2 not_less_eq_eq leI le_add1 le_trans)
    have len: "length (take c xs) = c" "min (length xs) c = c" using False by simp_all
    have d1: "drop (Suc c) xs = y # ys" using d by (metis drop_Suc list.sel(3) tl_drop)
    have "thin (Suc c) n (take c xs @ y # ys)
        = take (Suc c) (take c xs @ y # ys) @ nths (drop (Suc c) (take c xs @ y # ys)) {i. odd i}"
      by (rule Suc.IH) (use Suc.prems len arg_cong [OF d, of length] in simp)
    then show ?thesis by (simp add: d d1 len nths_odd_Cons2 Suc_diff_le)
  qed
qed simp

text \<open>C25: The patches \<open>cJSONUtils_GeneratePatches\<close> produces to empty an array are applied without an
  error by \<open>cJSONUtils_ApplyPatches\<close>, but every second item - the second, the fourth, and so on - is still there
  afterwards, in its order: the positions are those in the array before the first removal.\<close>

theorem array_removals_shift:
  assumes "ctype from = cJSON_Array" "ctype to = cJSON_Array" "child to = []"
    and "int (length (child from)) \<le> INT_MAX"
  shows "\<exists>ps doc. GeneratePatches from to = Inr (ps, from, to) \<and> ApplyPatches from (Some ps) = Inr (0, doc, ps)
    \<and> doc = set_child (nths (child from) {i. odd i}) from"
proof -
  let ?ps = "remove_items cJSON_CreateArray '''' 0 (child from)"
  let ?doc = "set_child (thin 0 (length (child from)) (child from)) from"
  have ty: "ctype ?ps = cJSON_Array"
    by (simp add: remove_items_type cJSON_CreateArray_def cJSON_New_Item_def)
  have ch: "child ?ps = map (\<lambda>i. patch_of ''remove'' '''' (Some (show_int (int i))) None) [0..<0 + length (child from)]"
    by (simp add: remove_items_child cJSON_CreateArray_def cJSON_New_Item_def)
  have "apply_all from (child ?ps) = Inr (0, ?doc, child ?ps)"
    using apply_removals [OF assms(1), of 0 "length (child from)"] assms(4) unfolding ch by simp
  from ApplyPatches_array(1) [OF ty this] have "ApplyPatches from (Some ?ps) = Inr (0, ?doc, ?ps)" by simp
  moreover have "GeneratePatches from to = Inr (?ps, from, to)"
  proof -
    have "patch_items ps path c froms [] = Inr (remove_items ps path c froms, froms, [])" for ps path c froms
      by (cases froms) simp_all
    then show ?thesis using assms(1-3) set_same(1) [of to]
      by (simp add: GeneratePatches_def CompareToPatch.simps)
  qed
  moreover have "thin 0 (length (child from)) (child from) = nths (child from) {i. odd i}"
    using thin_keeps [of "child from" 0 "length (child from)"] by simp
  ultimately show ?thesis by auto
qed

theorem array_removals_shift_witness:
  "\<exists>ps doc. GeneratePatches (set_child [cJSON_CreateTrue, cJSON_CreateNull] cJSON_CreateArray) cJSON_CreateArray
      = Inr (ps, set_child [cJSON_CreateTrue, cJSON_CreateNull] cJSON_CreateArray, cJSON_CreateArray)
    \<and> ApplyPatches (set_child [cJSON_CreateTrue, cJSON_CreateNull] cJSON_CreateArray) (Some ps) = Inr (0, doc, ps)
    \<and> child doc = [cJSON_CreateNull]"
  using array_removals_shift [of "set_child [cJSON_CreateTrue, cJSON_CreateNull] cJSON_CreateArray" cJSON_CreateArray]
  by (fastforce simp: cJSON_CreateArray_def cJSON_New_Item_def nths_Cons)

end
