(* ===== verification/CJsonMerge.thy ===== *)
theory CJsonMerge imports CJsonPatch begin

text \<open>
  The merge patches of \<open>json/cJSON_Utils.c\<close> (RFC 7386): applying and generating.
\<close>

section \<open>Applying\<close>

text \<open>Detaching the member with a name that may be NULL; only a NULL name equals a NULL name.\<close>

fun unnamed_index :: "cJSON list \<Rightarrow> nat \<Rightarrow> nat option" where
  "unnamed_index [] i = None"
| "unnamed_index (c # cs) i = (if cstring c = None then Some i else unnamed_index cs (Suc i))"

definition detach_member :: "cJSON \<Rightarrow> string option \<Rightarrow> cJSON option \<times> cJSON" where
  "detach_member obj name =
     (case name of
        Some s \<Rightarrow> cJSON_DetachItemFromObject obj s
      | None \<Rightarrow> (case unnamed_index (child obj) 0 of
                  Some i \<Rightarrow> cJSON_DetachItemFromArray obj (int i)
                | None \<Rightarrow> (None, obj)))"

function (sequential) MergePatch :: "cJSON option \<Rightarrow> cJSON \<Rightarrow> cJSON c"
  and merge_members :: "cJSON \<Rightarrow> cJSON list \<Rightarrow> cJSON c" where
  "MergePatch target patch =
     (if ctype patch \<noteq> cJSON_Object then Inr (cJSON_Duplicate_item patch True)
      else merge_members
             (case target of
                Some t \<Rightarrow> if ctype t \<noteq> cJSON_Object then cJSON_CreateObject else t
              | None \<Rightarrow> cJSON_CreateObject)
             (child patch))"
| "merge_members target [] = Inr target"
| "merge_members target (patch # patches) =
     (let (replaceme, rest) = detach_member target (cstring patch)
      in if ctype patch = cJSON_NULL then merge_members rest patches
         else bind_c (MergePatch replaceme patch) (\<lambda>merged.
              bind_c (deref (cstring patch)) (\<lambda>name.
                merge_members (cJSON_AddItemToObject rest name (Some merged)) patches)))"
  by pat_completeness auto
termination
  by (relation "measure (case_sum (\<lambda>(_, p). 2 * size p + 1) (\<lambda>(_, ps). 2 * size_list size ps))")
    (auto simp: less_Suc_eq_le less_imp_le size_child)

declare MergePatch.simps [simp del]

definition MergePatch_ptr :: "cJSON option \<Rightarrow> cJSON option \<Rightarrow> cJSON option c" where
  "MergePatch_ptr target patch =
     (case patch of None \<Rightarrow> Inr None | Some p \<Rightarrow> bind_c (MergePatch target p) (\<lambda>t. Inr (Some t)))"

section \<open>Generating\<close>

text \<open>
  The result is the patch, NULL if there is nothing to change; \<open>from\<close> and \<open>to\<close> come back with the
  objects in them sorted. The members are merged by \<open>strcmp\<close> although they were sorted by
  \<open>strcasecmp\<close>.
\<close>

function (sequential) GenerateMergePatch :: "cJSON \<Rightarrow> cJSON \<Rightarrow> (cJSON option \<times> cJSON \<times> cJSON) c"
  and merge_diff ::
    "cJSON \<Rightarrow> cJSON list \<Rightarrow> cJSON list \<Rightarrow> (cJSON \<times> cJSON list \<times> cJSON list) c" where
  "GenerateMergePatch from to =
     (if ctype to \<noteq> cJSON_Object \<or> ctype from \<noteq> cJSON_Object
      then Inr (Some (cJSON_Duplicate_item to True), from, to)
      else bind_c (merge_diff cJSON_CreateObject (SortList (child from)) (SortList (child to)))
             (\<lambda>(patch, froms, tos).
               Inr (if child patch = [] then None else Some patch, set_child froms from, set_child tos to)))"
| "merge_diff patch [] [] = Inr (patch, [], [])"
| "merge_diff patch [] (b # bs) =
     bind_c (deref (cstring b)) (\<lambda>name.
     bind_c (merge_diff (cJSON_AddItemToObject patch name (Some (cJSON_Duplicate_item b True))) [] bs)
       (\<lambda>(patch, as, bs). Inr (patch, as, b # bs)))"
| "merge_diff patch (a # as) [] =
     bind_c (deref (cstring a)) (\<lambda>name.
     bind_c (merge_diff (cJSON_AddItemToObject patch name (Some cJSON_CreateNull)) as [])
       (\<lambda>(patch, as, bs). Inr (patch, a # as, bs)))"
| "merge_diff patch (a # as) (b # bs) =
     bind_c (deref (cstring a)) (\<lambda>na.
     bind_c (deref (cstring b)) (\<lambda>nb.
       let compare = strcmp na nb
       in if compare < 0
          then bind_c (merge_diff (cJSON_AddItemToObject patch na (Some cJSON_CreateNull)) as (b # bs))
                 (\<lambda>(patch, as, bs). Inr (patch, a # as, bs))
          else if 0 < compare
          then bind_c (merge_diff (cJSON_AddItemToObject patch nb (Some (cJSON_Duplicate_item b True))) (a # as) bs)
                 (\<lambda>(patch, as, bs). Inr (patch, as, b # bs))
          else bind_c (Compare a b) (\<lambda>(err, a', b').
               bind_c (if err \<noteq> 0
                       then bind_c (GenerateMergePatch a' b') (\<lambda>(p, a', b').
                              Inr (cJSON_AddItemToObject patch nb p, a', b'))
                       else Inr (patch, a', b')) (\<lambda>(patch, a', b').
               bind_c (merge_diff patch as bs) (\<lambda>(patch, as, bs). Inr (patch, a' # as, b' # bs))))))"
  by pat_completeness auto

termination
  by (relation "measure (case_sum (\<lambda>(a, b). 2 * (size a + size b) + 1)
       (\<lambda>(ps, as, bs). 2 * (size_list size as + size_list size bs)))")
    (auto simp: less_Suc_eq_le size_SortList dest!: Compare_size(1)
      intro!: add_mono mult_le_mono2 less_imp_le [OF size_child])

declare GenerateMergePatch.simps [simp del]

text \<open>The tests for NULL arguments.\<close>

definition GenerateMergePatch_ptr :: "cJSON option \<Rightarrow> cJSON option \<Rightarrow> cJSON option c" where
  "GenerateMergePatch_ptr from to =
     (case to of
        None \<Rightarrow> Inr (Some cJSON_CreateNull)
      | Some t \<Rightarrow> (case from of
          None \<Rightarrow> Inr (Some (cJSON_Duplicate_item t True))
        | Some f \<Rightarrow> bind_c (GenerateMergePatch f t) (\<lambda>(patch, _). Inr patch)))"

section \<open>What merging does to the map of the members\<close>

text \<open>A patch in which the members of every object have different names, ignoring case.\<close>

fun mergeable :: "cJSON \<Rightarrow> bool" where
  "mergeable (CJSON t vs u8 u16 vi vd s ch) \<longleftrightarrow>
     (t = cJSON_Object \<longrightarrow> names_distinct ch \<and> list_all mergeable ch)"

lemma mergeable_object:
  "mergeable p \<Longrightarrow> ctype p = cJSON_Object \<Longrightarrow> object_ok p \<and> (\<forall>c\<in>set (child p). named c \<and> mergeable c)"
  by (cases p) (auto simp: object_ok_def names_distinct_def list_all_iff)

lemma MergePatch_total:
  "mergeable p \<Longrightarrow> \<exists>t'. MergePatch target p = Inr t'"
  "\<forall>c\<in>set ps. named c \<and> mergeable c \<Longrightarrow> \<exists>t'. merge_members t ps = Inr t'"
proof (induction target p and t ps rule: MergePatch_merge_members.induct)
  case (1 target p)
  show ?case
  proof (cases "ctype p = cJSON_Object")
    case True
    then show ?thesis using 1 mergeable_object [of p] by (simp add: MergePatch.simps [of target p])
  qed (simp add: MergePatch.simps [of target p])
next
  case (3 t c ps)
  obtain s where s: "cstring c = Some s" using 3(4) by (auto simp: named_iff)
  obtain old rest where d: "detach_member t (cstring c) = (old, rest)" by force
  show ?case
  proof (cases "ctype c = cJSON_NULL")
    case True
    then show ?thesis using 3(1) [OF d [symmetric] refl True] 3(4) d by simp
  next
    case False
    obtain m where m: "MergePatch old c = Inr m" using 3(2) [OF d [symmetric] refl False] 3(4) by auto
    show ?thesis using 3(3) [OF d [symmetric] refl False m, of s] 3(4) d False m s by simp
  qed
qed simp

text \<open>What a member of the patch makes of the member with its name, if there is one.\<close>

definition merged_member :: "cJSON option \<Rightarrow> cJSON \<Rightarrow> cJSON option" where
  "merged_member old p =
     (if ctype p = cJSON_NULL then None
      else case MergePatch old p of Inr m \<Rightarrow> Some (set_cstring (cstring p) m) | Inl _ \<Rightarrow> None)"

definition merged :: "(string \<Rightarrow> cJSON option) \<Rightarrow> (string \<Rightarrow> cJSON option) \<Rightarrow> string \<Rightarrow> cJSON option" where
  "merged ps ms k = (case ps k of None \<Rightarrow> ms k | Some p \<Rightarrow> merged_member (ms k) p)"

lemma merge_step:
  assumes "object_ok t" "cstring c = Some s" "nul_free s"
    "merge_members t (c # ps) = Inr t'"
  obtains t1 where "object_ok t1" "ctype t1 = ctype t" "merge_members t1 ps = Inr t'"
    "members t1 = (members t)(fold_name c := merged_member (members t (fold_name c)) c)"
proof -
  have key: "fold_name c = map tolower s" using assms(2) by (simp add: fold_name_def)
  obtain rest where d: "cJSON_DetachItemFromObject t s = (members t (fold_name c), rest)" "ctype rest = ctype t"
    using detach_members [OF assms(1,3)] key by auto
  have rest: "rest = cJSON_DeleteItemFromObject t s" using d(1) by (simp add: cJSON_DeleteItemFromObject_def)
  show ?thesis
  proof (cases "ctype c = cJSON_NULL")
    case True
    then show ?thesis using assms d rest key json.inv_del [OF assms(1,3)] json.look_del [OF assms(1,3)]
      by (intro that [of rest]) (simp_all add: detach_member_def merged_member_def)
  next
    case False
    obtain m where m: "MergePatch (members t (fold_name c)) c = Inr m"
      using assms(4) d False assms(2) by (auto simp: detach_member_def bind_c_eq_Inr)
    let ?t = "cJSON_AddItemToObject rest s (Some m)"
    have "merge_members ?t ps = Inr t'" using assms d False m by (simp add: detach_member_def)
    moreover have "ctype ?t = ctype t"
      using d(2) by (simp add: cJSON_AddItemToObject_def cJSON_AddItemToArray_def)
    ultimately show ?thesis
      using json.inv_set [OF assms(1,3), of m] json.look_set [OF assms(1,3), of m] rest key assms(2) False m
      by (intro that [of ?t]) (simp_all add: merged_member_def)
  qed
qed

lemma merge_members_effect:
  "object_ok t \<Longrightarrow> \<forall>c\<in>set ps. named c \<Longrightarrow> distinct (map fold_name ps) \<Longrightarrow> merge_members t ps = Inr t' \<Longrightarrow>
   object_ok t' \<and> ctype t' = ctype t
   \<and> members t' = merged (map_of (map (\<lambda>c. (fold_name c, c)) ps)) (members t)"
proof (induction ps arbitrary: t)
  case (Cons c ps)
  obtain s where s: "cstring c = Some s" "nul_free s" using Cons.prems(2) by (auto simp: named_iff)
  obtain t1 where t1: "object_ok t1" "ctype t1 = ctype t" "merge_members t1 ps = Inr t'"
    "members t1 = (members t)(fold_name c := merged_member (members t (fold_name c)) c)"
    using merge_step [OF Cons.prems(1) s Cons.prems(4)] by blast
  have new: "map_of (map (\<lambda>c. (fold_name c, c)) ps) (fold_name c) = None"
    using Cons.prems(3) by (simp add: map_of_eq_None_iff image_image)
  show ?case using Cons.IH [OF t1(1) _ _ t1(3)] Cons.prems(2,3) t1(2,4) new
    by (auto simp: merged_def fun_eq_iff split: option.split)
qed (simp add: merged_def fun_eq_iff)

text \<open>C23: Applying a merge patch to an object returns, whatever the patch holds at any depth, and is the
  merge of two maps: a name the patch does not have keeps its member, a null takes it away, and any
  other value is merged into what was there. This is for a target, and a patch at every level, in which no two members
  of an object have the same name up to case and every member has a name; the maps are maps of names up to
  case, so that a patch for \<open>A\<close> also changes a member \<open>a\<close>, which RFC 7386 keeps apart.\<close>

theorem merge_patch:
  assumes "mergeable p" "ctype p = cJSON_Object" "ctype t = cJSON_Object" "object_ok t"
  shows "\<exists>t'. MergePatch (Some t) p = Inr t' \<and> ctype t' = cJSON_Object \<and> object_ok t'
    \<and> members t' = merged (members p) (members t)"
proof -
  obtain t' where t': "MergePatch (Some t) p = Inr t'" using MergePatch_total(1) [OF assms(1)] by blast
  then have m: "merge_members t (child p) = Inr t'" using assms(2,3) by (simp add: MergePatch.simps)
  note ok = mergeable_object [OF assms(1,2)]
  show ?thesis using merge_members_effect [OF assms(4) _ _ m] ok t' assms(3)
    by (simp add: object_ok_iff members_def [of p])
qed

theorem merge_patch_witness:
  "\<exists>t'. MergePatch (Some (cJSON_AddItemToObject cJSON_CreateObject ''a'' (Some cJSON_CreateTrue)))
      (cJSON_AddItemToObject cJSON_CreateObject ''a'' (Some cJSON_CreateNull)) = Inr t' \<and> members t' ''a'' = None"
proof -
  let ?t = "cJSON_AddItemToObject cJSON_CreateObject ''a'' (Some cJSON_CreateTrue)"
  let ?p = "cJSON_AddItemToObject cJSON_CreateObject ''a'' (Some cJSON_CreateNull)"
  have "mergeable ?p" "ctype ?p = cJSON_Object" "ctype ?t = cJSON_Object" "object_ok ?t"
    "merged (members ?p) (members ?t) ''a'' = None" by code_simp+
  with merge_patch [OF this(1-4)] show ?thesis by auto
qed

section \<open>The case and the order of the names\<close>

text \<open>The patch \<open>{"A": null}\<close> deletes the member of \<open>{"a": true}\<close>, which has another name.\<close>

lemma merge_ignores_case:
  "MergePatch (Some (cJSON_AddItemToObject cJSON_CreateObject ''a'' (Some cJSON_CreateTrue)))
     (cJSON_AddItemToObject cJSON_CreateObject ''A'' (Some cJSON_CreateNull)) = Inr cJSON_CreateObject"
  by code_simp

definition obj_aB :: cJSON where
  "obj_aB = cJSON_AddItemToObject (cJSON_AddItemToObject cJSON_CreateObject ''a'' (Some cJSON_CreateTrue)) ''B''
     (Some cJSON_CreateTrue)"

definition obj_B :: cJSON where
  "obj_B = cJSON_AddItemToObject cJSON_CreateObject ''B'' (Some cJSON_CreateTrue)"

definition patch_aB :: cJSON where
  "patch_aB = cJSON_AddItemToObject (cJSON_AddItemToObject (cJSON_AddItemToObject cJSON_CreateObject
     ''B'' (Some cJSON_CreateTrue)) ''a'' (Some cJSON_CreateNull)) ''B'' (Some cJSON_CreateNull)"

text \<open>A generated merge patch is wrong when the order of the names depends on case: for \<open>{"a": true,
  "B": true}\<close> and \<open>{"B": true}\<close> the members, sorted without regard to case but compared with \<open>strcmp\<close>,
  miss each other, and applying the patch deletes \<open>B\<close>, which both objects have.\<close>

lemma merge_order_bug:
  "GenerateMergePatch obj_aB obj_B = Inr (Some patch_aB, obj_aB, obj_B)
    \<and> MergePatch (Some obj_aB) patch_aB = Inr cJSON_CreateObject \<and> child obj_B \<noteq> []"
  by code_simp

end
