(* ===== verification/Chains.thy ===== *)
theory Chains imports Main begin

text \<open>
  Doubly linked chains, by the addresses of their items: the siblings of \<open>json/cJSON.c\<close> (\<open>next\<close> and
  \<open>prev\<close> of an item), the application order (\<open>next\<close> and \<open>prev\<close> of a handle) and the buckets
  (\<open>hh_next\<close> and \<open>hh_prev\<close>) of \<open>uthash.h\<close>. NULL is \<open>None\<close>.
\<close>

section \<open>Chains\<close>

record chain =
  nxt :: "nat \<Rightarrow> nat option"
  prv :: "nat \<Rightarrow> nat option"

definition set_next :: "nat \<Rightarrow> nat option \<Rightarrow> chain \<Rightarrow> chain" where
  "set_next a p h = h\<lparr>nxt := (nxt h)(a := p)\<rparr>"

definition set_prev :: "nat \<Rightarrow> nat option \<Rightarrow> chain \<Rightarrow> chain" where
  "set_prev a p h = h\<lparr>prv := (prv h)(a := p)\<rparr>"

lemma chain_sel [simp]:
  "nxt (set_next a p h) = (nxt h)(a := p)" "prv (set_next a p h) = prv h"
  "nxt (set_prev a p h) = nxt h" "prv (set_prev a p h) = (prv h)(a := p)"
  by (simp_all add: set_next_def set_prev_def)

text \<open>\<open>nexts n p xs q\<close>: following \<open>next\<close> from \<open>p\<close> visits \<open>xs\<close> and arrives at \<open>q\<close>. \<open>prevs v p xs\<close>: the
  \<open>prev\<close> of each item of \<open>xs\<close> is the one before it, that of the first one \<open>p\<close>.\<close>

fun nexts :: "(nat \<Rightarrow> nat option) \<Rightarrow> nat option \<Rightarrow> nat list \<Rightarrow> nat option \<Rightarrow> bool" where
  "nexts n p [] q \<longleftrightarrow> p = q"
| "nexts n p (x # xs) q \<longleftrightarrow> p = Some x \<and> nexts n (n x) xs q"

fun prevs :: "(nat \<Rightarrow> nat option) \<Rightarrow> nat option \<Rightarrow> nat list \<Rightarrow> bool" where
  "prevs v p [] \<longleftrightarrow> True"
| "prevs v p (x # xs) \<longleftrightarrow> v x = p \<and> prevs v (Some x) xs"

definition forward :: "chain \<Rightarrow> nat option \<Rightarrow> nat list \<Rightarrow> bool" where
  "forward h p xs \<longleftrightarrow> nexts (nxt h) p xs None \<and> distinct xs"

definition linked :: "chain \<Rightarrow> nat option \<Rightarrow> nat list \<Rightarrow> bool" where
  "linked h p xs \<longleftrightarrow> forward h p xs \<and> prevs (prv h) None xs"

text \<open>All but the \<open>prev\<close> of the first item.\<close>

definition headless :: "chain \<Rightarrow> nat option \<Rightarrow> nat list \<Rightarrow> bool" where
  "headless h p xs \<longleftrightarrow> forward h p xs \<and> (case xs of [] \<Rightarrow> True | x # r \<Rightarrow> prevs (prv h) (Some x) r)"

lemma nexts_append: "nexts n p (xs @ ys) q \<longleftrightarrow> (\<exists>r. nexts n p xs r \<and> nexts n r ys q)"
  by (induction xs arbitrary: p) auto

lemma nexts_upd [simp]: "a \<notin> set xs \<Longrightarrow> nexts (n(a := b)) p xs q = nexts n p xs q"
  by (induction xs arbitrary: p) auto

lemma prevs_upd [simp]: "a \<notin> set xs \<Longrightarrow> prevs (v(a := b)) p xs = prevs v p xs"
  by (induction xs arbitrary: p) auto

lemma prevs_append: "prevs v p (xs @ ys) \<longleftrightarrow> prevs v p xs \<and> prevs v (if xs = [] then p else Some (last xs)) ys"
  by (induction xs arbitrary: p) auto

lemma nexts_start: "nexts n p xs q \<Longrightarrow> p = (case xs of [] \<Rightarrow> q | x # _ \<Rightarrow> Some x)"
  by (cases xs) auto

lemma nexts_cong: "(\<And>a. a \<in> set xs \<Longrightarrow> n a = n' a) \<Longrightarrow> nexts n p xs q = nexts n' p xs q"
  by (induction xs arbitrary: p) auto

lemma prevs_cong: "(\<And>a. a \<in> set xs \<Longrightarrow> v a = v' a) \<Longrightarrow> prevs v p xs = prevs v' p xs"
  by (induction xs arbitrary: p) auto

lemma linked_headless: "linked h p xs \<Longrightarrow> headless h p xs"
  by (auto simp: linked_def headless_def split: list.split)

lemma headless_linked: "headless h p xs \<Longrightarrow> (\<And>x. p = Some x \<Longrightarrow> prv h x = None) \<Longrightarrow> linked h p xs"
  by (cases xs) (auto simp: linked_def headless_def forward_def)

lemma nexts_middle:
  "nexts n p (as @ c # bs) q \<longleftrightarrow> nexts n p as (Some c) \<and> nexts n (n c) bs q"
  by (auto simp: nexts_append)

lemma nexts_snoc: "nexts n p (as @ [a]) q \<longleftrightarrow> nexts n p as (Some a) \<and> n a = q"
  by (simp add: nexts_middle)

text \<open>Only the items of a chain matter for it.\<close>

lemma forward_frame: "(\<And>a. a \<in> set xs \<Longrightarrow> nxt h' a = nxt h a) \<Longrightarrow> forward h' p xs = forward h p xs"
  unfolding forward_def by (metis nexts_cong)

lemma linked_frame:
  "(\<And>a. a \<in> set xs \<Longrightarrow> nxt h' a = nxt h a) \<Longrightarrow> (\<And>a. a \<in> set xs \<Longrightarrow> prv h' a = prv h a) \<Longrightarrow>
   linked h' p xs = linked h p xs"
  unfolding linked_def by (metis forward_frame prevs_cong)

text \<open>Taking an item out of the middle: its neighbours are linked to each other.\<close>

definition unlink :: "nat \<Rightarrow> chain \<Rightarrow> chain" where
  "unlink c h =
     (let h = (case prv h c of None \<Rightarrow> h | Some p \<Rightarrow> set_next p (nxt h c) h)
      in case nxt h c of None \<Rightarrow> h | Some n \<Rightarrow> set_prev n (prv h c) h)"

lemma unlink_linked:
  assumes "linked h p (as @ c # bs)"
  shows "linked (unlink c h) (if p = Some c then nxt h c else p) (as @ bs)"
    and "a \<notin> set (as @ bs) \<Longrightarrow> nxt (unlink c h) a = nxt h a \<and> prv (unlink c h) a = prv h a"
    and "prv h c = (if as = [] then None else Some (last as))" "nxt h c = (if bs = [] then None else Some (hd bs))"
    and "p = Some c \<longleftrightarrow> as = []"
proof -
  have f: "nexts (nxt h) p (as @ c # bs) None" "distinct (as @ c # bs)" "prevs (prv h) None (as @ c # bs)"
    using assms by (auto simp: linked_def forward_def)
  show prv: "prv h c = (if as = [] then None else Some (last as))" using f(3) by (simp add: prevs_append)
  show nxt: "nxt h c = (if bs = [] then None else Some (hd bs))"
    using f(1) nexts_start [of "nxt h" "nxt h c" bs None] by (auto simp: nexts_middle split: list.splits)
  show first: "p = Some c \<longleftrightarrow> as = []" using f(1,2) by (cases as) auto
  show "linked (unlink c h) (if p = Some c then nxt h c else p) (as @ bs)"
    and "a \<notin> set (as @ bs) \<Longrightarrow> nxt (unlink c h) a = nxt h a \<and> prv (unlink c h) a = prv h a"
    using f first prv nxt by (cases as rule: rev_cases; cases bs;
      auto simp: unlink_def Let_def linked_def forward_def nexts_middle nexts_snoc prevs_append)+
qed

end
