(* ===== verification/CJsonChain.thy ===== *)
theory CJsonChain imports CJsonSort Chains begin

text \<open>
  The chains of siblings of \<open>json/cJSON.c\<close> with their pointers: the items of an array or object are
  linked by \<open>next\<close> and \<open>prev\<close>. The other theories take such a chain for a list; here the operations
  run on the pointers and are shown to be the operations on the list, as long as the chain is linked
  in both directions. \<open>cJSONUtils_SortList\<close> does not keep that: it leaves a \<open>prev\<close> in the first item.
  An operation is undefined (\<open>None\<close>) where the code would dereference NULL or run forever.
\<close>

definition suffix_object :: "nat \<Rightarrow> nat \<Rightarrow> chain \<Rightarrow> chain" where
  "suffix_object prev item h = set_prev item (Some prev) (set_next prev (Some item) h)"

lemma suffix_object_sel [simp]:
  "nxt (suffix_object a b h) = (nxt h)(a := Some b)" "prv (suffix_object a b h) = (prv h)(b := Some a)"
  by (simp_all add: suffix_object_def)

section \<open>The operations of arrays on their chain\<close>

text \<open>Each takes the \<open>child\<close> pointer of the array and returns it with the pointers.\<close>

partial_function (option) last_node :: "(nat \<Rightarrow> nat option) \<Rightarrow> nat \<Rightarrow> nat option" where
  "last_node n c = (case n c of None \<Rightarrow> Some c | Some d \<Rightarrow> last_node n d)"

definition chain_add :: "chain \<Rightarrow> nat option \<Rightarrow> nat \<Rightarrow> (chain \<times> nat option) option" where
  "chain_add h ch item =
     (case ch of
        None \<Rightarrow> Some (h, Some item)
      | Some c \<Rightarrow> map_option (\<lambda>l. (suffix_object l item h, ch)) (last_node (nxt h) c))"

fun nth_node :: "(nat \<Rightarrow> nat option) \<Rightarrow> nat option \<Rightarrow> nat \<Rightarrow> nat option" where
  "nth_node n None which = None"
| "nth_node n (Some c) 0 = Some c"
| "nth_node n (Some c) (Suc which) = nth_node n (n c) which"

definition chain_detach :: "chain \<Rightarrow> nat option \<Rightarrow> int \<Rightarrow> chain \<times> nat option \<times> nat option" where
  "chain_detach h ch which =
     (case nth_node (nxt h) ch (nat which) of
        None \<Rightarrow> (h, ch, None)
      | Some c \<Rightarrow>
          let h = (case prv h c of None \<Rightarrow> h | Some p \<Rightarrow> set_next p (nxt h c) h);
              h = (case nxt h c of None \<Rightarrow> h | Some n \<Rightarrow> set_prev n (prv h c) h);
              ch = (if Some c = ch then nxt h c else ch)
          in (set_next c None (set_prev c None h), ch, Some c))"

definition chain_insert :: "chain \<Rightarrow> nat option \<Rightarrow> int \<Rightarrow> nat \<Rightarrow> (chain \<times> nat option) option" where
  "chain_insert h ch which newitem =
     (case nth_node (nxt h) ch (nat which) of
        None \<Rightarrow> chain_add h ch newitem
      | Some c \<Rightarrow>
          let h = set_prev newitem (prv h c) (set_next newitem (Some c) h);
              h = set_prev c (Some newitem) h
          in if Some c = ch then Some (h, Some newitem)
             else map_option (\<lambda>p. (set_next p (Some newitem) h, ch)) (prv h newitem))"

definition chain_replace :: "chain \<Rightarrow> nat option \<Rightarrow> int \<Rightarrow> nat \<Rightarrow> (chain \<times> nat option) option" where
  "chain_replace h ch which newitem =
     (case nth_node (nxt h) ch (nat which) of
        None \<Rightarrow> Some (h, ch)
      | Some c \<Rightarrow>
          let h = set_prev newitem (prv h c) (set_next newitem (nxt h c) h);
              h = (case nxt h newitem of None \<Rightarrow> h | Some n \<Rightarrow> set_prev n (Some newitem) h)
          in if Some c = ch then Some (set_next c None (set_prev c None h), Some newitem)
             else map_option (\<lambda>p. (set_next c None (set_prev c None (set_next p (Some newitem) h)), ch))
                    (prv h newitem))"

section \<open>They are the operations on lists\<close>

lemma last_node_last: "nexts n (Some c) xs None \<Longrightarrow> last_node n c = Some (last xs)"
proof (induction xs arbitrary: c)
  case (Cons x xs)
  then show ?case by (cases xs) (auto simp: last_node.simps [of n x])
qed simp

lemma nth_node_nth: "nexts n p xs None \<Longrightarrow> nth_node n p k = (if k < length xs then Some (xs ! k) else None)"
proof (induction xs arbitrary: p k)
  case (Cons x xs)
  then show ?case by (cases k) auto
qed simp

lemma add_headless:
  assumes "headless h ch xs" "item \<notin> set xs" "nxt h item = None"
  shows "\<exists>h' ch'. chain_add h ch item = Some (h', ch') \<and> headless h' ch' (xs @ [item])
    \<and> prv h' = (if xs = [] then prv h else (prv h)(item := Some (last xs)))"
proof (cases xs rule: rev_cases)
  case Nil
  then show ?thesis using assms by (auto simp: chain_add_def headless_def forward_def)
next
  case (snoc as l)
  then obtain c where c: "ch = Some c" using assms(1) by (cases as) (auto simp: headless_def forward_def)
  have l: "last_node (nxt h) c = Some l"
    using last_node_last [of "nxt h" c xs] assms(1) snoc c by (auto simp: headless_def forward_def)
  let ?h = "suffix_object l item h"
  have "forward ?h ch (xs @ [item])"
    using assms snoc by (auto simp: headless_def forward_def nexts_middle nexts_snoc)
  moreover have "case xs @ [item] of [] \<Rightarrow> True | x # r \<Rightarrow> prevs (prv ?h) (Some x) r"
    using assms snoc by (cases as) (auto simp: headless_def prevs_append split: if_splits)
  ultimately show ?thesis using l c snoc
    by (intro exI [of _ ?h] exI [of _ ch]) (simp add: chain_add_def headless_def)
qed

lemma add_linked:
  assumes "linked h ch xs" "item \<notin> set xs" "nxt h item = None" "prv h item = None"
  shows "\<exists>h' ch'. chain_add h ch item = Some (h', ch') \<and> linked h' ch' (xs @ [item])"
proof -
  obtain h' ch' where h': "chain_add h ch item = Some (h', ch')" "headless h' ch' (xs @ [item])"
    "prv h' = (if xs = [] then prv h else (prv h)(item := Some (last xs)))"
    using add_headless [OF linked_headless [OF assms(1)] assms(2,3)] by blast
  have "linked h' ch' (xs @ [item])" using assms h'(2,3)
    by (intro headless_linked [OF h'(2)]) (cases xs; auto simp: linked_def headless_def forward_def)
  then show ?thesis using h'(1) by blast
qed

lemma detach_linked:
  assumes "linked h ch (as @ c # bs)"
  shows "\<exists>h' ch'. chain_detach h ch (int (length as)) = (h', ch', Some c) \<and> linked h' ch' (as @ bs)"
proof -
  have f: "nexts (nxt h) ch (as @ c # bs) None" "c \<notin> set (as @ bs)"
    using assms by (auto simp: linked_def forward_def)
  have same: "nxt (unlink c h) c = nxt h c" using unlink_linked(2) [OF assms f(2)] by simp
  have "prv h c = Some p \<Longrightarrow> nxt (set_next p (nxt h c) h) c = nxt h c" for p by simp
  then have d: "chain_detach h ch (int (length as)) =
     (set_next c None (set_prev c None (unlink c h)), if ch = Some c then nxt h c else ch, Some c)"
    using nth_node_nth [OF f(1), of "length as"] same
    by (auto simp: chain_detach_def unlink_def Let_def split: option.splits)
  have "linked (set_next c None (set_prev c None (unlink c h))) (if ch = Some c then nxt h c else ch) (as @ bs)"
    using unlink_linked(1) [OF assms] f(2) by (subst linked_frame [of _ _ "unlink c h"]) auto
  then show ?thesis unfolding d by blast
qed

lemma insert_linked:
  assumes "linked h ch (as @ c # bs)" "item \<notin> set (as @ c # bs)"
  shows "\<exists>h' ch'. chain_insert h ch (int (length as)) item = Some (h', ch') \<and> linked h' ch' (as @ item # c # bs)"
proof -
  have f: "nexts (nxt h) ch (as @ c # bs) None" "distinct (as @ c # bs)" "prevs (prv h) None (as @ c # bs)"
    using assms(1) by (auto simp: linked_def forward_def)
  have d: "chain_insert h ch (int (length as)) item =
     (let h = set_prev item (prv h c) (set_next item (Some c) h);
          h = set_prev c (Some item) h
      in if Some c = ch then Some (h, Some item)
         else map_option (\<lambda>p. (set_next p (Some item) h, ch)) (prv h item))"
    using nth_node_nth [OF f(1), of "length as"] by (simp add: chain_insert_def)
  show ?thesis
  proof (cases as rule: rev_cases)
    case Nil
    then show ?thesis using f assms(2) unfolding d by (auto simp: linked_def forward_def)
  next
    case (snoc as' p)
    have "ch \<noteq> Some c" using f snoc by (cases as') auto
    then show ?thesis using f assms(2) snoc unfolding d
      by (auto simp: linked_def forward_def nexts_middle nexts_snoc prevs_append)
  qed
qed

lemma insert_linked_end:
  assumes "linked h ch xs" "item \<notin> set xs" "nxt h item = None" "prv h item = None" "length xs \<le> nat which"
  shows "\<exists>h' ch'. chain_insert h ch which item = Some (h', ch') \<and> linked h' ch' (xs @ [item])"
  using add_linked [OF assms(1-4)] nth_node_nth [of "nxt h" ch xs "nat which"] assms(1,5)
  by (simp add: chain_insert_def linked_def forward_def)

lemma replace_linked:
  assumes "linked h ch (as @ c # bs)" "item \<notin> set (as @ c # bs)"
  shows "\<exists>h' ch'. chain_replace h ch (int (length as)) item = Some (h', ch') \<and> linked h' ch' (as @ item # bs)"
proof -
  have f: "nexts (nxt h) ch (as @ c # bs) None" "distinct (as @ c # bs)" "prevs (prv h) None (as @ c # bs)"
    using assms(1) by (auto simp: linked_def forward_def)
  have d: "chain_replace h ch (int (length as)) item =
     (let h = set_prev item (prv h c) (set_next item (nxt h c) h);
          h = (case nxt h item of None \<Rightarrow> h | Some n \<Rightarrow> set_prev n (Some item) h)
      in if Some c = ch then Some (set_next c None (set_prev c None h), Some item)
         else map_option (\<lambda>p. (set_next c None (set_prev c None (set_next p (Some item) h)), ch)) (prv h item))"
    using nth_node_nth [OF f(1), of "length as"] by (simp add: chain_replace_def)
  show ?thesis
  proof (cases as rule: rev_cases)
    case Nil
    then show ?thesis using f assms(2) unfolding d by (cases bs) (auto simp: linked_def forward_def)
  next
    case (snoc as' p)
    have "ch \<noteq> Some c" using f snoc by (cases as') auto
    then show ?thesis using f assms(2) snoc unfolding d
      by (cases bs) (auto simp: linked_def forward_def nexts_middle nexts_snoc prevs_append)
  qed
qed

section \<open>The sort on the chain\<close>

text \<open>\<open>cmp a b\<close> compares the names of two items. The walks of \<open>cJSONUtils_SortList\<close>: the test for a
  sorted list, and the two pointers that find the middle.\<close>

partial_function (option) sorted_walk :: "(nat \<Rightarrow> nat \<Rightarrow> int) \<Rightarrow> (nat \<Rightarrow> nat option) \<Rightarrow> nat \<Rightarrow> bool option" where
  "sorted_walk cmp n p =
     (case n p of None \<Rightarrow> Some True | Some q \<Rightarrow> if cmp p q < 0 then sorted_walk cmp n q else Some False)"

partial_function (option) middle_walk :: "(nat \<Rightarrow> nat option) \<Rightarrow> nat option \<Rightarrow> nat option \<Rightarrow> nat option option" where
  "middle_walk n second ptr =
     (case ptr of
        None \<Rightarrow> Some second
      | Some p \<Rightarrow> (case second of
          None \<Rightarrow> None
        | Some s \<Rightarrow> middle_walk n (n s) (case n p of None \<Rightarrow> None | Some q \<Rightarrow> n q)))"

text \<open>The merging loop and the tails behind it.\<close>

partial_function (option) merge_walk ::
    "(nat \<Rightarrow> nat \<Rightarrow> int) \<Rightarrow> chain \<Rightarrow> nat option \<Rightarrow> nat \<Rightarrow> nat option \<Rightarrow> nat option \<Rightarrow> (chain \<times> nat option) option" where
  "merge_walk cmp h list ptr first second =
     (case first of
        Some f \<Rightarrow> (case second of
            Some s \<Rightarrow>
              if cmp f s < 0
              then (if list = None then merge_walk cmp h (Some f) f (nxt h f) second
                    else let h = suffix_object ptr f h in merge_walk cmp h list f (nxt h f) second)
              else (if list = None then merge_walk cmp h (Some s) s first (nxt h s)
                    else let h = suffix_object ptr s h in merge_walk cmp h list s first (nxt h s))
          | None \<Rightarrow> if list = None then Some (h, first) else Some (suffix_object ptr f h, list))
      | None \<Rightarrow> (case second of
            Some s \<Rightarrow> if list = None then Some (h, second) else Some (suffix_object ptr s h, list)
          | None \<Rightarrow> Some (h, list)))"

partial_function (option) sort_chain ::
    "(nat \<Rightarrow> nat \<Rightarrow> int) \<Rightarrow> chain \<Rightarrow> nat option \<Rightarrow> (chain \<times> nat option) option" where
  "sort_chain cmp h list =
     (case list of
        None \<Rightarrow> Some (h, list)
      | Some l \<Rightarrow>
          if nxt h l = None then Some (h, list)
          else Option.bind (sorted_walk cmp (nxt h) l) (\<lambda>sorted.
            if sorted then Some (h, list)
            else Option.bind (middle_walk (nxt h) list list) (\<lambda>second.
              let h = (case second of
                         None \<Rightarrow> h
                       | Some s \<Rightarrow> (case prv h s of None \<Rightarrow> h | Some p \<Rightarrow> set_next p None h))
              in Option.bind (sort_chain cmp h list) (\<lambda>(h, first).
                 Option.bind (sort_chain cmp h second) (\<lambda>(h, second).
                   merge_walk cmp h None l first second)))))"

section \<open>It sorts the list\<close>

abbreviation names_cmp :: "(nat \<Rightarrow> cJSON) \<Rightarrow> nat \<Rightarrow> nat \<Rightarrow> int" where
  "names_cmp item a b \<equiv> name_cmp (item a) (item b)"

fun inner :: "(nat \<Rightarrow> nat option) \<Rightarrow> nat list \<Rightarrow> bool" where
  "inner v [] \<longleftrightarrow> True"
| "inner v (x # xs) \<longleftrightarrow> prevs v (Some x) xs"

lemma headless_inner: "headless h p xs \<longleftrightarrow> forward h p xs \<and> inner (prv h) xs"
  by (cases xs) (auto simp: headless_def)

lemma prevs_inner: "prevs v p xs \<Longrightarrow> inner v xs"
  by (cases xs) auto

lemma inner_append:
  "inner v (xs @ ys) \<longleftrightarrow> inner v xs \<and> (if xs = [] then inner v ys else prevs v (Some (last xs)) ys)"
  by (cases xs) (auto simp: prevs_append)

lemma inner_cong: "(\<And>a. a \<in> set xs \<Longrightarrow> v a = v' a) \<Longrightarrow> inner v xs = inner v' xs"
  by (cases xs) (auto intro: prevs_cong [THEN iffD1])

lemma inner_upd [simp]: "a \<notin> set xs \<Longrightarrow> inner (v(a := b)) xs = inner v xs"
  by (cases xs) auto

lemma sorted_walk_ascending:
  "nexts n (Some a) xs None \<Longrightarrow> sorted_walk (names_cmp item) n a = Some (ascending (map item xs))"
proof (induction xs arbitrary: a)
  case (Cons x xs)
  then show ?case by (cases xs) (auto simp: sorted_walk.simps [of "names_cmp item" n x])
qed simp

lemma middle_walk_drop:
  "nexts n p xs None \<Longrightarrow> nexts n second ys None \<Longrightarrow> length xs \<le> length ys \<Longrightarrow>
   \<exists>r. middle_walk n second p = Some r \<and> nexts n r (drop (midpoint (map item xs)) ys) None"
proof (induction xs arbitrary: p second ys rule: induct_list012)
  case 1
  then show ?case by (simp add: middle_walk.simps [of n second])
next
  case (2 x)
  then show ?case by (cases ys) (auto simp: middle_walk.simps [of n "Some _"] middle_walk.simps [of n _ None])
next
  case (3 x y zs)
  obtain s ys' where ys: "ys = s # ys'" using 3(5) by (cases ys) auto
  have "\<exists>r. middle_walk n (n s) (n y) = Some r \<and> nexts n r (drop (midpoint (map item zs)) ys') None"
    using 3 ys by (intro 3(1)) auto
  then show ?case using 3(3,4) ys by (auto simp: middle_walk.simps [of n "Some s" "Some x"])
qed

text \<open>The merging loop, with \<open>rs\<close> and \<open>ptr\<close> merged so far: it ends with a chain of \<open>rs\<close>, \<open>ptr\<close> and the
  items of \<open>zs\<close> with the contents \<open>cs\<close>, and has changed no other item.\<close>

definition outcome :: "(nat \<Rightarrow> cJSON) \<Rightarrow> (chain \<times> nat option) option \<Rightarrow> chain \<Rightarrow> nat \<Rightarrow> nat list \<Rightarrow> nat
    \<Rightarrow> nat list \<Rightarrow> cJSON list \<Rightarrow> bool" where
  "outcome item run h l rs ptr zs cs \<longleftrightarrow>
     (\<exists>h' ys. run = Some (h', Some l)
       \<and> nexts (nxt h') (Some l) (rs @ ptr # ys) None \<and> inner (prv h') (rs @ ptr # ys)
       \<and> map item ys = cs \<and> mset ys = mset zs
       \<and> (\<forall>a. a \<notin> set (ptr # zs) \<longrightarrow> nxt h' a = nxt h a \<and> prv h' a = prv h a))"

lemma outcome_step:
  assumes "outcome item run (suffix_object ptr f h) l (rs @ [ptr]) f zs cs" "mset zs' = add_mset f (mset zs)"
  shows "outcome item run h l rs ptr zs' (item f # cs)"
proof -
  obtain h' ys where "run = Some (h', Some l)" "nexts (nxt h') (Some l) (rs @ ptr # f # ys) None"
    "inner (prv h') (rs @ ptr # f # ys)" "map item (f # ys) = item f # cs" "mset (f # ys) = mset zs'"
    "\<And>a. a \<notin> set (f # zs) \<Longrightarrow> a \<noteq> ptr \<Longrightarrow> nxt h' a = nxt h a \<and> prv h' a = prv h a"
    using assms by (auto simp: outcome_def)
  moreover have "set zs' = insert f (set zs)" using mset_eq_setD [of zs' "f # zs"] assms(2) by simp
  ultimately show ?thesis unfolding outcome_def by (intro exI [of _ h'] exI [of _ "f # ys"]) auto
qed

lemma outcome_tail:
  assumes "nexts (nxt h) (Some f) (f # fs) None" "nexts (nxt h) (Some l) rs (Some ptr)"
    "distinct (rs @ ptr # f # fs)" "inner (prv h) (rs @ [ptr])" "inner (prv h) (f # fs)"
  shows "outcome item (Some (suffix_object ptr f h, Some l)) h l rs ptr (f # fs) (map item (f # fs))"
  unfolding outcome_def using assms
  by (intro exI [of _ "suffix_object ptr f h"] exI [of _ "f # fs"]) (auto simp: nexts_middle inner_append)

lemma merge_walk_run:
  assumes "nexts (nxt h) first fs None" "nexts (nxt h) second ss None"
    "nexts (nxt h) (Some l) rs (Some ptr)" "distinct (rs @ ptr # fs @ ss)" "fs \<noteq> [] \<or> ss \<noteq> []"
    "inner (prv h) (rs @ [ptr])" "inner (prv h) fs" "inner (prv h) ss"
  shows "outcome item (merge_walk (names_cmp item) h (Some l) ptr first second) h l rs ptr (fs @ ss)
    (merge_lists (map item fs) (map item ss))"
  using assms
proof (induction "length fs + length ss" arbitrary: h rs ptr first second fs ss rule: less_induct)
  case less
  note p = less.prems
  note simps = merge_walk.simps [of "names_cmp item" h "Some l"] Let_def
  consider s ss' where "fs = []" "ss = s # ss'" | f fs' where "fs = f # fs'" "ss = []"
    | f fs' s ss' where "fs = f # fs'" "ss = s # ss'"
    using p(5) by (cases fs; cases ss) auto
  then show ?case
  proof cases
    case 1
    with p outcome_tail [of h s ss' l rs ptr item] show ?thesis by (simp add: simps)
  next
    case 2
    with p outcome_tail [of h f fs' l rs ptr item] show ?thesis by (simp add: simps)
  next
    case 3
    have ne: "ptr \<noteq> f" "ptr \<noteq> s" and start: "first = Some f" "second = Some s" using p 3 by auto
    show ?thesis
    proof (cases "names_cmp item f s < 0")
      case True
      have "outcome item (merge_walk (names_cmp item) (suffix_object ptr f h) (Some l) f (nxt h f) second)
          (suffix_object ptr f h) l (rs @ [ptr]) f (fs' @ ss) (merge_lists (map item fs') (map item ss))"
        by (rule less.hyps)
          (use p 3 in \<open>auto simp: nexts_snoc inner_append prevs_append intro: prevs_inner\<close>)
      from outcome_step [OF this, of "fs @ ss"] True 3 start ne show ?thesis by (simp add: simps)
    next
      case False
      have "outcome item (merge_walk (names_cmp item) (suffix_object ptr s h) (Some l) s first (nxt h s))
          (suffix_object ptr s h) l (rs @ [ptr]) s (fs @ ss') (merge_lists (map item fs) (map item ss'))"
        by (rule less.hyps)
          (use p 3 in \<open>auto simp: nexts_snoc inner_append prevs_append intro: prevs_inner\<close>)
      from outcome_step [OF this, of "fs @ ss"] False 3 start ne show ?thesis by (simp add: simps)
    qed
  qed
qed

text \<open>\<open>sorts h q h' xs cs\<close>: a chain of the items of \<open>xs\<close>, with the contents \<open>cs\<close>, starts at \<open>q\<close>.\<close>

definition sorts :: "(nat \<Rightarrow> cJSON) \<Rightarrow> (chain \<times> nat option) option \<Rightarrow> chain \<Rightarrow> nat list \<Rightarrow> cJSON list \<Rightarrow> bool" where
  "sorts item run h xs cs \<longleftrightarrow>
     (\<exists>h' q ys. run = Some (h', q) \<and> headless h' q ys \<and> map item ys = cs \<and> mset ys = mset xs
       \<and> (\<forall>a. a \<notin> set xs \<longrightarrow> nxt h' a = nxt h a \<and> prv h' a = prv h a))"

lemma sortsI:
  "run = Some (h', q) \<Longrightarrow> headless h' q ys \<Longrightarrow> map item ys = cs \<Longrightarrow> mset ys = mset xs \<Longrightarrow>
   (\<And>a. a \<notin> set xs \<Longrightarrow> nxt h' a = nxt h a \<and> prv h' a = prv h a) \<Longrightarrow> sorts item run h xs cs"
  unfolding sorts_def by blast

lemma sortsE:
  assumes "sorts item run h xs cs"
  obtains h' q ys where "run = Some (h', q)" "headless h' q ys" "map item ys = cs" "mset ys = mset xs"
    "\<And>a. a \<notin> set xs \<Longrightarrow> nxt h' a = nxt h a \<and> prv h' a = prv h a"
  using assms unfolding sorts_def by blast

lemma outcome_sorts:
  assumes "outcome item run h f [] f zs cs" "distinct (f # zs)" "mset xs = add_mset f (mset zs)"
  shows "sorts item run h xs (item f # cs)"
proof -
  obtain h' ys where o: "run = Some (h', Some f)" "nexts (nxt h') (Some f) (f # ys) None" "inner (prv h') (f # ys)"
    "map item ys = cs" "mset ys = mset zs" "\<And>a. a \<notin> set (f # zs) \<Longrightarrow> nxt h' a = nxt h a \<and> prv h' a = prv h a"
    using assms(1) by (auto simp: outcome_def)
  have "distinct (f # ys)" using assms(2) o(5) by (metis distinct.simps(2) mset_eq_imp_distinct_iff mset_eq_setD)
  moreover have "set xs = set (f # zs)" using mset_eq_setD [of xs "f # zs"] assms(3) by simp
  ultimately show ?thesis using o assms(3)
    by (intro sortsI [OF o(1), of "f # ys"]) (simp_all add: headless_inner forward_def)
qed

lemma merge_walk_sorts:
  assumes "headless h first fs" "headless h second ss" "distinct (fs @ ss)" "fs \<noteq> []" "ss \<noteq> []"
  shows "sorts item (merge_walk (names_cmp item) h None l first second) h (fs @ ss)
    (merge_lists (map item fs) (map item ss))"
proof -
  obtain f fs' s ss' where e: "fs = f # fs'" "ss = s # ss'" using assms(4,5) by (cases fs; cases ss) auto
  have p: "nexts (nxt h) (nxt h f) fs' None" "nexts (nxt h) (nxt h s) ss' None" "first = Some f" "second = Some s"
    "nexts (nxt h) first fs None" "nexts (nxt h) second ss None"
    "inner (prv h) fs'" "inner (prv h) ss'" "inner (prv h) fs" "inner (prv h) ss"
    using assms(1,2) e by (auto simp: headless_inner forward_def intro: prevs_inner)
  note simps = merge_walk.simps [of "names_cmp item" h None]
  show ?thesis
  proof (cases "names_cmp item f s < 0")
    case True
    have "outcome item (merge_walk (names_cmp item) h (Some f) f (nxt h f) second) h f [] f (fs' @ ss)
        (merge_lists (map item fs') (map item ss))"
      by (rule merge_walk_run) (use p e assms(3) in auto)
    from outcome_sorts [OF this, of "fs @ ss"] show ?thesis using True e p(3,4) assms(3) by (simp add: simps)
  next
    case False
    have "outcome item (merge_walk (names_cmp item) h (Some s) s first (nxt h s)) h s [] s (fs @ ss')
        (merge_lists (map item fs) (map item ss'))"
      by (rule merge_walk_run) (use p e assms(3) in auto)
    from outcome_sorts [OF this, of "fs @ ss"] show ?thesis using False e p(3,4) assms(3) by (simp add: simps)
  qed
qed

text \<open>The chain is cut in two in front of the middle.\<close>

lemma cut_chain:
  assumes "headless h p xs" "0 < k" "k < length xs" "nexts (nxt h) r (drop k xs) None"
  obtains s q where "r = Some s" "prv h s = Some q" "headless (set_next q None h) p (take k xs)"
    "headless (set_next q None h) r (drop k xs)" "q \<in> set (take k xs)"
proof -
  obtain as q where as: "take k xs = as @ [q]" using assms(2,3) by (cases "take k xs" rule: rev_cases) auto
  obtain s bs where bs: "drop k xs = s # bs" using assms(3) by (cases "drop k xs") auto
  have xs: "xs = (as @ [q]) @ s # bs" using as bs append_take_drop_id [of k xs] by simp
  have "r = Some s" using assms(4) bs by simp
  moreover have "prv h s = Some q" using assms(1) unfolding xs headless_inner inner_append by simp
  moreover have "headless (set_next q None h) p (as @ [q])" "headless (set_next q None h) r (s # bs)" "q \<in> set (as @ [q])"
    using assms(1,4) bs xs
    by (auto simp: headless_inner forward_def nexts_middle nexts_snoc inner_append prevs_append split: if_splits)
  ultimately show ?thesis using that [of s q] as bs by simp
qed

lemma headless_frame:
  assumes "headless h p xs" "\<And>a. a \<in> set xs \<Longrightarrow> nxt h' a = nxt h a \<and> prv h' a = prv h a"
  shows "headless h' p xs"
  using assms nexts_cong [of xs "nxt h" "nxt h'"] inner_cong [of xs "prv h" "prv h'"]
  by (simp add: headless_inner forward_def)

text \<open>Sorting the two halves of a chain and merging them sorts the chain.\<close>

lemma sort_halves:
  assumes cut: "headless (set_next q None h) p as" "headless (set_next q None h) r bs" "q \<in> set as"
    and ne: "as \<noteq> []" "bs \<noteq> []" and dj: "set as \<inter> set bs = {}"
    and ih: "\<And>h p. headless h p as \<Longrightarrow> sorts item (srt h p) h as cs"
      "\<And>h p. headless h p bs \<Longrightarrow> sorts item (srt h p) h bs ds"
  shows "sorts item (Option.bind (srt (set_next q None h) p) (\<lambda>(h, first). Option.bind (srt h r) (\<lambda>(h, second).
      merge_walk (names_cmp item) h None x first second))) h (as @ bs) (merge_lists cs ds)"
proof -
  let ?h = "set_next q None h"
  obtain h2 q1 as' where h2: "srt ?h p = Some (h2, q1)" "headless h2 q1 as'" "map item as' = cs" "mset as' = mset as"
    "\<And>a. a \<notin> set as \<Longrightarrow> nxt h2 a = nxt ?h a \<and> prv h2 a = prv ?h a"
    using ih(1) [OF cut(1)] by (rule sortsE) (rule that)
  have "headless h2 r bs" by (rule headless_frame [OF cut(2)]) (use dj h2(5) in blast)
  from ih(2) [OF this] obtain h3 q2 bs' where h3: "srt h2 r = Some (h3, q2)" "headless h3 q2 bs'"
    "map item bs' = ds" "mset bs' = mset bs"
    "\<And>a. a \<notin> set bs \<Longrightarrow> nxt h3 a = nxt h2 a \<and> prv h3 a = prv h2 a"
    by (rule sortsE) (rule that)
  have sets: "set as' = set as" "set bs' = set bs" by (rule mset_eq_setD [OF h2(4)], rule mset_eq_setD [OF h3(4)])
  have "headless h3 q1 as'" by (rule headless_frame [OF h2(2)]) (use dj sets h3(5) in blast)
  moreover have "distinct (as' @ bs')" "as' \<noteq> []" "bs' \<noteq> []"
    using dj sets ne h2(2) h3(2) by (auto simp: headless_def forward_def)
  ultimately obtain h4 p' ys where h4: "merge_walk (names_cmp item) h3 None x q1 q2 = Some (h4, p')"
    "headless h4 p' ys" "map item ys = merge_lists (map item as') (map item bs')" "mset ys = mset (as' @ bs')"
    "\<And>a. a \<notin> set (as' @ bs') \<Longrightarrow> nxt h4 a = nxt h3 a \<and> prv h4 a = prv h3 a"
    by (rule sortsE [OF merge_walk_sorts [OF _ h3(2), of q1 as' item x]]) (rule that)
  show ?thesis
  proof (rule sortsI [OF _ h4(2)])
    fix a assume "a \<notin> set (as @ bs)"
    then show "nxt h4 a = nxt h a \<and> prv h4 a = prv h a"
      using h2(5) [of a] h3(5) [of a] h4(5) [of a] sets cut(3) by auto
  qed (use h2 h3 h4 in simp_all)
qed

lemma sort_chain_sorts:
  "headless h p xs \<Longrightarrow> sorts item (sort_chain (names_cmp item) h p) h xs (SortList (map item xs))"
proof (induction "length xs" arbitrary: h p xs rule: less_induct)
  case less
  note simps = sort_chain.simps [of "names_cmp item" h p] SortList.simps [of "map item xs"]
  have n: "nexts (nxt h) p xs None" using less.prems by (simp add: headless_def forward_def)
  consider (short) "length xs < 2" | (sorted) x y ys where "xs = x # y # ys" "ascending (map item xs)"
    | (unsorted) x y ys where "xs = x # y # ys" "\<not> ascending (map item xs)"
    by (cases xs; cases "tl xs") auto
  then show ?case
  proof cases
    case short
    then have "sort_chain (names_cmp item) h p = Some (h, p)" using n by (cases xs) (subst simps(1), simp)+
    then show ?thesis using less.prems short by (intro sortsI) (auto simp: simps(2))
  next
    case (sorted x y ys)
    then have "sort_chain (names_cmp item) h p = Some (h, p)"
      using sorted_walk_ascending [of "nxt h" x xs item] n by (subst simps(1)) simp
    moreover have "SortList (map item xs) = map item xs" using sorted(2) by (simp add: simps(2))
    ultimately show ?thesis using less.prems by (intro sortsI) simp_all
  next
    case (unsorted x y ys)
    let ?k = "midpoint (map item xs)"
    have k: "0 < ?k" "?k < length xs" using midpoint_bounds [of "map item xs"] unsorted(1) by simp_all
    have px: "p = Some x" "nxt h x = Some y" using n unsorted(1) by auto
    obtain r where r: "middle_walk (nxt h) p p = Some r" "nexts (nxt h) r (drop ?k xs) None"
      using middle_walk_drop [OF n n order_refl, of item] by blast
    obtain s q where cut: "r = Some s" "prv h s = Some q" "headless (set_next q None h) p (take ?k xs)"
      "headless (set_next q None h) r (drop ?k xs)" "q \<in> set (take ?k xs)" using cut_chain [OF less.prems k r(2)] by blast
    have run: "sort_chain (names_cmp item) h p = Option.bind (sort_chain (names_cmp item) (set_next q None h) p)
      (\<lambda>(h, first). Option.bind (sort_chain (names_cmp item) h r) (\<lambda>(h, second).
         merge_walk (names_cmp item) h None x first second))"
      using sorted_walk_ascending [of "nxt h" x xs item] n unsorted(2) px r(1) cut(1,2)
      by (subst simps(1)) (simp add: Let_def)
    have "sorts item (sort_chain (names_cmp item) h p) h (take ?k xs @ drop ?k xs)
      (merge_lists (SortList (map item (take ?k xs))) (SortList (map item (drop ?k xs))))"
      unfolding run
    proof (rule sort_halves [OF cut(3-5)])
      show "take ?k xs \<noteq> []" using k by auto
      show "set (take ?k xs) \<inter> set (drop ?k xs) = {}"
        using less.prems by (simp add: headless_def forward_def set_take_disj_set_drop_if_distinct)
    qed (use less.hyps k in simp_all)
    moreover have "\<not> length xs < 2" using unsorted(1) by simp
    then have "SortList (map item xs) = merge_lists (SortList (map item (take ?k xs))) (SortList (map item (drop ?k xs)))"
      using unsorted(2) by (subst simps(2)) (simp add: Let_def take_map drop_map)
    ultimately show ?thesis by simp
  qed
qed

section \<open>Properties\<close>

text \<open>Two items, with names in descending order.\<close>

definition two_items :: chain where
  "two_items = \<lparr>nxt = (\<lambda>a. if a = 1 then Some 2 else None), prv = (\<lambda>a. if a = 2 then Some 1 else None)\<rparr>"

definition two_names :: "nat \<Rightarrow> cJSON" where
  "two_names a = set_cstring (Some (if a = 1 then ''b'' else ''a'')) cJSON_CreateNull"

lemma two_items: "linked two_items (Some 1) [1, 2]"
  by (simp add: linked_def forward_def two_items_def)

lemma two_names: "name_cmp (two_names 1) (two_names 2) \<ge> 0"
  by code_simp

text \<open>C27: On a chain linked in both directions the pointer operations that add, insert, replace and
  detach an item run without dereferencing NULL, leave a chain linked in both directions, and do to it
  what the operations of the list model do to the children of an array.\<close>

theorem chain_edits_refine:
  assumes "linked h ch xs" "child a = map item xs" "it \<notin> set xs" "nxt h it = None" "prv h it = None"
  shows "(\<exists>h' ch' ys. chain_add h ch it = Some (h', ch') \<and> linked h' ch' ys
      \<and> cJSON_AddItemToArray a (Some (item it)) = set_child (map item ys) a)
    \<and> (\<exists>h' ch' ys. chain_insert h ch which it = Some (h', ch') \<and> linked h' ch' ys
      \<and> cJSON_InsertItemInArray a which (item it) = set_child (map item ys) a)
    \<and> (\<exists>h' ch' ys. chain_replace h ch which it = Some (h', ch') \<and> linked h' ch' ys
      \<and> cJSON_ReplaceItemInArray a which (item it) = set_child (map item ys) a)
    \<and> (\<exists>h' ch' d ys. chain_detach h ch which = (h', ch', d) \<and> linked h' ch' ys
      \<and> cJSON_DetachItemFromArray a which = (map_option item d, set_child (map item ys) a))"
proof -
  note list_ops = cJSON_AddItemToArray_def cJSON_InsertItemInArray_def cJSON_ReplaceItemInArray_def
    cJSON_DetachItemFromArray_def Let_def assms(2)
  have add: "\<exists>h' ch' ys. chain_add h ch it = Some (h', ch') \<and> linked h' ch' ys
      \<and> cJSON_AddItemToArray a (Some (item it)) = set_child (map item ys) a"
    using add_linked [OF assms(1,3-5)] by (force simp: list_ops)
  show ?thesis
  proof (cases "nat which < length xs")
    case False
    then have "nth_node (nxt h) ch (nat which) = None"
      using nth_node_nth [of "nxt h" ch xs "nat which"] assms(1) by (simp add: linked_def forward_def)
    then show ?thesis using add False assms(1) set_same(1) [of a]
      by (auto simp: list_ops chain_insert_def chain_replace_def chain_detach_def)
  next
    case True
    define as c bs where "as = take (nat which) xs" "c = xs ! nat which" "bs = drop (Suc (nat which)) xs"
    have xs: "xs = as @ c # bs" using True by (simp add: as_c_bs_def id_take_nth_drop)
    have "length as = nat which" using True by (simp add: as_c_bs_def)
    then have w: "chain_insert h ch which it = chain_insert h ch (int (length as)) it"
      "chain_replace h ch which it = chain_replace h ch (int (length as)) it"
      "chain_detach h ch which = chain_detach h ch (int (length as))" "nat which = length as"
      by (simp_all add: chain_insert_def chain_replace_def chain_detach_def)
    note l = assms(1,3) [unfolded xs]
    obtain h' ch' where "chain_detach h ch which = (h', ch', Some c)" "linked h' ch' (as @ bs)"
      using detach_linked [OF l(1)] w(3) by auto
    moreover have "cJSON_DetachItemFromArray a which = (map_option item (Some c), set_child (map item (as @ bs)) a)"
      by (simp add: list_ops xs w(4) nth_append)
    ultimately have "\<exists>h' ch' d ys. chain_detach h ch which = (h', ch', d) \<and> linked h' ch' ys
      \<and> cJSON_DetachItemFromArray a which = (map_option item d, set_child (map item ys) a)" by blast
    then show ?thesis using add insert_linked [OF l] replace_linked [OF l]
      by (intro conjI) (force simp: list_ops xs w)+
  qed
qed

theorem chain_edits_refine_witness:
  "\<exists>h' ch' ys. chain_insert two_items (Some 1) 1 3 = Some (h', ch') \<and> linked h' ch' ys
    \<and> cJSON_InsertItemInArray (set_child (map two_names [1, 2]) cJSON_CreateArray) 1 (two_names 3)
        = set_child (map two_names ys) (set_child (map two_names [1, 2]) cJSON_CreateArray)"
  using chain_edits_refine [OF two_items, of "set_child (map two_names [1, 2]) cJSON_CreateArray" two_names 3 1]
  by (simp add: two_items_def)

text \<open>\<open>cJSONUtils_SortList\<close> on the pointers always ends and sorts the chain as the list model does;
  only the \<open>prev\<close> of its new first item is not promised.\<close>

lemma sort_chain_refines:
  assumes "headless h p xs"
  shows "\<exists>h' q ys. sort_chain (names_cmp item) h p = Some (h', q) \<and> headless h' q ys
    \<and> map item ys = SortList (map item xs) \<and> mset ys = mset xs"
  using sort_chain_sorts [OF assms, of item] unfolding sorts_def by blast

text \<open>Sorting an object with two members in descending order and then detaching its first member
  leaves the other one linked to itself: every later walk over the members runs forever.\<close>

lemma detach_after_sort_cycles:
  assumes "linked h (Some b) [b, a]" "name_cmp (item b) (item a) \<ge> 0"
  shows "\<exists>h1 h2. sort_chain (names_cmp item) h (Some b) = Some (h1, Some a)
    \<and> chain_detach h1 (Some a) 0 = (h2, Some b, Some a) \<and> nxt h2 b = Some b"
proof -
  have n: "a \<noteq> b" "nxt h b = Some a" "nxt h a = None" "prv h a = Some b"
    using assms(1) by (auto simp: linked_def forward_def)
  let ?h = "set_next b None h"
  have walk: "sorted_walk (names_cmp item) (nxt h) b = Some False"
    using n assms(2) by (simp add: sorted_walk.simps)
  have mid: "middle_walk (nxt h) (Some b) (Some b) = Some (Some a)"
    using n by (simp add: middle_walk.simps)
  have single: "sort_chain (names_cmp item) ?h (Some b) = Some (?h, Some b)"
    "sort_chain (names_cmp item) ?h (Some a) = Some (?h, Some a)"
    using n by (simp_all add: sort_chain.simps)
  have "merge_walk (names_cmp item) ?h None b (Some b) (Some a) = Some (suffix_object a b ?h, Some a)"
    using n assms(2) by (simp add: merge_walk.simps)
  then have "sort_chain (names_cmp item) h (Some b) = Some (suffix_object a b ?h, Some a)"
    using n walk mid single by (simp add: sort_chain.simps [of _ h] Let_def)
  then show ?thesis using n by (auto simp: chain_detach_def Let_def)
qed

end
