(* ===== verification/KeyMap.thy ===== *)
theory KeyMap imports Main begin

text \<open>
  The interface between the daemon and its hash table: what the daemon relies on when it looks a
  handle up by its key and adds one that is not there. \<open>registry\<close> is the contract of the table
  alone, \<open>registry_del\<close> adds removal. The lemmas are about a table of addresses together with the
  heap of the objects at these addresses.
\<close>

text \<open>Every entry leads to an object with the key it is filed under.\<close>

definition filed :: "('k \<Rightarrow> 'e option) \<Rightarrow> ('x \<Rightarrow> 'k) \<Rightarrow> ('e \<Rightarrow> 'x option) \<Rightarrow> bool" where
  "filed look key heap \<longleftrightarrow> (\<forall>k e. look k = Some e \<longrightarrow> (\<exists>x. heap e = Some x \<and> key x = k))"

locale registry =
  fixes inv :: "'s \<Rightarrow> bool" and room :: "'s \<Rightarrow> bool" and empty :: 's
    and look :: "'s \<Rightarrow> 'k \<Rightarrow> 'e option" and add :: "'s \<Rightarrow> 'k \<Rightarrow> 'e \<Rightarrow> 's" and elems :: "'s \<Rightarrow> 'e list"
  assumes inv_empty: "inv empty" and look_empty: "look empty k = None" and elems_empty: "elems empty = []"
    and inv_add: "inv s \<Longrightarrow> room s \<Longrightarrow> look s k = None \<Longrightarrow> e \<notin> set (elems s) \<Longrightarrow> inv (add s k e)"
    and look_add: "inv s \<Longrightarrow> room s \<Longrightarrow> look s k = None \<Longrightarrow> e \<notin> set (elems s)
      \<Longrightarrow> look (add s k e) = (look s)(k \<mapsto> e)"
    and elems_add: "inv s \<Longrightarrow> room s \<Longrightarrow> look s k = None \<Longrightarrow> e \<notin> set (elems s)
      \<Longrightarrow> elems (add s k e) = elems s @ [e]"
    and look_elems: "inv s \<Longrightarrow> look s k = Some e \<Longrightarrow> e \<in> set (elems s)"
begin

lemma filed_empty: "filed (look empty) key heap"
  by (simp add: filed_def look_empty)

text \<open>Adding a fresh object keeps the filing, and finds the object again under its key only.\<close>

lemma filed_add:
  assumes "inv s" "room s" "look s (key x) = None" "e \<notin> set (elems s)" "filed (look s) key heap"
  shows "filed (look (add s (key x) e)) key (heap(e \<mapsto> x))"
  using assms look_elems [of s] by (auto simp: filed_def look_add)

lemma look_add_same:
  assumes "inv s" "room s" "look s k = None" "e \<notin> set (elems s)"
  shows "look (add s k e) k = Some e"
  using assms by (simp add: look_add)

lemma look_add_other:
  assumes "inv s" "room s" "look s k = None" "e \<notin> set (elems s)" "k' \<noteq> k"
  shows "look (add s k e) k' = look s k'"
  using assms by (simp add: look_add)

text \<open>An update of an object that keeps its key keeps the filing.\<close>

lemma filed_update:
  assumes "filed (look s) key heap" "heap e = Some x" "key x' = key x"
  shows "filed (look s) key (heap(e \<mapsto> x'))"
  using assms unfolding filed_def by (metis fun_upd_apply option.inject)

text \<open>Two keys never lead to one object.\<close>

lemma filed_inj:
  assumes "filed (look s) key heap" "look s k = Some e" "look s k' = Some e"
  shows "k = k'"
  using assms unfolding filed_def by (metis option.inject)

end

locale registry_del = registry +
  fixes del :: "'s \<Rightarrow> 'k \<Rightarrow> 's"
  assumes inv_del: "inv s \<Longrightarrow> look s k = Some e \<Longrightarrow> inv (del s k)"
    and look_del: "inv s \<Longrightarrow> look s k = Some e \<Longrightarrow> look (del s k) = (look s)(k := None)"
    and elems_del: "inv s \<Longrightarrow> look s k = Some e \<Longrightarrow> elems (del s k) = filter (\<lambda>x. x \<noteq> e) (elems s)"
begin

lemma filed_del:
  assumes "inv s" "look s k = Some e" "filed (look s) key heap"
  shows "filed (look (del s k)) key heap"
  using assms by (auto simp: filed_def look_del)

text \<open>The key is free again, so the entry can be replaced.\<close>

lemma replace:
  assumes "inv s" "look s k = Some e" "room (del s k)" "e' \<notin> set (elems s)"
  shows "inv (add (del s k) k e')" "look (add (del s k) k e') = (look s)(k \<mapsto> e')"
proof -
  have d: "inv (del s k)" "look (del s k) k = None" "e' \<notin> set (elems (del s k))"
    using assms by (simp_all add: inv_del look_del elems_del)
  show "inv (add (del s k) k e')" using d assms(3) by (intro inv_add)
  show "look (add (del s k) k e') = (look s)(k \<mapsto> e')"
    using d assms by (simp add: look_add look_del)
qed

end

end
