(* ===== verification/UtHash.thy ===== *)
theory UtHash imports Prelude KeyMap "HOL-Library.Multiset" begin

text \<open>
  The hash table of \<open>uthash.h\<close>, in the configuration the daemon compiles (no bloom filter, no key
  emission; \<open>UtHashBloom\<close> and \<open>UtHashForms\<close> have these). The element chain of a bucket (\<open>hh_head\<close>, \<open>hh_next\<close>, \<open>hh_prev\<close>) is the list of its
  handles, the application order (\<open>next\<close>, \<open>prev\<close>, \<open>tail\<close>) another list of the same handles, oldest
  first. A handle names its element by address; the key is the \<open>keylen\<close> bytes its key pointer
  points to. The head pointer of a table is an option: NULL is \<open>None\<close>.

  \<open>HASH_FCN\<close> is a parameter of the macros (a compile-time choice, \<open>HASH_JEN\<close> by default), so it is
  an argument here and the lemmas hold for every choice.
\<close>

section \<open>Data\<close>

record UT_hash_handle =
  hh_elt :: nat
  hh_key :: string
  hh_keylen :: u32
  hh_hashv :: u32

record UT_hash_bucket =
  hh_chain :: "UT_hash_handle list"
  bkt_count :: u32
  expand_mult :: u32

record UT_hash_table =
  buckets :: "UT_hash_bucket list"
  num_buckets :: u32
  log2_num_buckets :: u32
  num_items :: u32
  app_order :: "UT_hash_handle list"
  ideal_chain_maxlen :: u32
  nonideal_items :: u32
  ineff_expands :: u32
  noexpand :: u32

definition HASH_BKT_CAPACITY_THRESH :: u32 where
  "HASH_BKT_CAPACITY_THRESH = 10"

definition empty_bucket :: UT_hash_bucket where
  "empty_bucket = \<lparr>hh_chain = [], bkt_count = 0, expand_mult = 0\<rparr>"

text \<open>\<open>HASH_MAKE_TABLE\<close>, for the element that becomes the head.\<close>

definition HASH_MAKE_TABLE :: "UT_hash_handle \<Rightarrow> UT_hash_table" where
  "HASH_MAKE_TABLE head =
     \<lparr>buckets = replicate 32 empty_bucket, num_buckets = 32, log2_num_buckets = 5, num_items = 0,
      app_order = [head], ideal_chain_maxlen = 0, nonideal_items = 0, ineff_expands = 0,
      noexpand = 0\<rparr>"

section \<open>The Jenkins hash\<close>

definition HASH_JEN_MIX :: "u32 \<times> u32 \<times> u32 \<Rightarrow> u32 \<times> u32 \<times> u32" where
  "HASH_JEN_MIX abc =
     (let (a, b, c) = abc;
          a = a - b; a = a - c; a = xor a (drop_bit 13 c);
          b = b - c; b = b - a; b = xor b (push_bit 8 a);
          c = c - a; c = c - b; c = xor c (drop_bit 13 b);
          a = a - b; a = a - c; a = xor a (drop_bit 12 c);
          b = b - c; b = b - a; b = xor b (push_bit 16 a);
          c = c - a; c = c - b; c = xor c (drop_bit 5 b);
          a = a - b; a = a - c; a = xor a (drop_bit 3 c);
          b = b - c; b = b - a; b = xor b (push_bit 10 a);
          c = c - a; c = c - b; c = xor c (drop_bit 15 b)
      in (a, b, c))"

definition jen_byte :: "string \<Rightarrow> nat \<Rightarrow> u32" where
  "jen_byte key i = of_nat (byte (key ! i))"

text \<open>Four bytes from position \<open>i\<close>, the first one least significant.\<close>

definition jen_word :: "string \<Rightarrow> nat \<Rightarrow> u32" where
  "jen_word key i =
     jen_byte key i + push_bit 8 (jen_byte key (i + 1)) + push_bit 16 (jen_byte key (i + 2))
       + push_bit 24 (jen_byte key (i + 3))"

fun jen_loop :: "u32 \<times> u32 \<times> u32 \<Rightarrow> string \<Rightarrow> (u32 \<times> u32 \<times> u32) \<times> string" where
  "jen_loop (i, j, hashv) key =
     (if length key < 12 then ((i, j, hashv), key)
      else jen_loop
             (HASH_JEN_MIX (i + jen_word key 0, j + jen_word key 4, hashv + jen_word key 8))
             (drop 12 key))"

declare jen_loop.simps [simp del]

text \<open>The fall-through \<open>switch\<close> over the bytes left.\<close>

definition jen_tail :: "u32 \<times> u32 \<times> u32 \<Rightarrow> string \<Rightarrow> u32 \<times> u32 \<times> u32" where
  "jen_tail ijh key =
     (let (i, j, hashv) = ijh; k = length key;
          part = (\<lambda>n s acc. if n < k then acc + push_bit s (jen_byte key n) else acc);
          hashv = part 8 8 (part 9 16 (part 10 24 hashv));
          j = part 4 0 (part 5 8 (part 6 16 (part 7 24 j)));
          i = part 0 0 (part 1 8 (part 2 16 (part 3 24 i)))
      in (i, j, hashv))"

definition HASH_JEN :: "string \<Rightarrow> u32" where
  "HASH_JEN key =
     (let ((i, j, hashv), rest) = jen_loop (0x9e3779b9, 0x9e3779b9, 0xfeedbeef) key
      in snd (snd (HASH_JEN_MIX (jen_tail (i, j, hashv + of_nat (length key)) rest))))"

section \<open>Buckets\<close>

definition HASH_TO_BKT :: "u32 \<Rightarrow> u32 \<Rightarrow> nat" where
  "HASH_TO_BKT hashv num_bkts = unat (and hashv (num_bkts - 1))"

definition HASH_KEYCMP :: "string \<Rightarrow> string \<Rightarrow> bool" where
  "HASH_KEYCMP a b \<longleftrightarrow> a = b"

fun HASH_FIND_IN_BKT :: "UT_hash_handle list \<Rightarrow> string \<Rightarrow> u32 \<Rightarrow> UT_hash_handle option" where
  "HASH_FIND_IN_BKT [] key keylen = None"
| "HASH_FIND_IN_BKT (out # hh_next) key keylen =
     (if hh_keylen out = keylen \<and> HASH_KEYCMP (hh_key out) key then Some out
      else HASH_FIND_IN_BKT hh_next key keylen)"

text \<open>
  One step of the redistribution: the item \<open>thh\<close> goes to the front of its new bucket. The state is
  the array of new buckets and \<open>nonideal_items\<close>.
\<close>

definition expand_item ::
  "u32 \<Rightarrow> u32 \<Rightarrow> UT_hash_handle \<Rightarrow> UT_hash_bucket list \<times> u32 \<Rightarrow> UT_hash_bucket list \<times> u32" where
  "expand_item num_bkts ideal thh st =
     (let (new_buckets, nonideal) = st;
          bkt = HASH_TO_BKT (hh_hashv thh) num_bkts;
          newbkt = new_buckets ! bkt;
          newbkt = newbkt\<lparr>bkt_count := bkt_count newbkt + 1\<rparr>;
          (newbkt, nonideal) =
            (if ideal < bkt_count newbkt
             then (newbkt\<lparr>expand_mult := bkt_count newbkt div ideal\<rparr>, nonideal + 1)
             else (newbkt, nonideal));
          newbkt = newbkt\<lparr>hh_chain := thh # hh_chain newbkt\<rparr>
      in (new_buckets[bkt := newbkt], nonideal))"

definition HASH_EXPAND_BUCKETS :: "UT_hash_table \<Rightarrow> UT_hash_table" where
  "HASH_EXPAND_BUCKETS tbl =
     (let ideal = drop_bit (unat (log2_num_buckets tbl) + 1) (num_items tbl)
            + (if and (num_items tbl) (num_buckets tbl * 2 - 1) \<noteq> 0 then 1 else 0);
          (new_buckets, nonideal) =
            fold (expand_item (num_buckets tbl * 2) ideal)
              (concat (map hh_chain (buckets tbl)))
              (replicate (2 * unat (num_buckets tbl)) empty_bucket, 0);
          ineff = (if drop_bit 1 (num_items tbl) < nonideal then ineff_expands tbl + 1 else 0)
      in tbl\<lparr>ideal_chain_maxlen := ideal, nonideal_items := nonideal,
             num_buckets := num_buckets tbl * 2, log2_num_buckets := log2_num_buckets tbl + 1,
             buckets := new_buckets, ineff_expands := ineff,
             noexpand := (if 1 < ineff then 1 else noexpand tbl)\<rparr>)"

definition HASH_ADD_TO_BKT :: "nat \<Rightarrow> UT_hash_handle \<Rightarrow> UT_hash_table \<Rightarrow> UT_hash_table" where
  "HASH_ADD_TO_BKT bkt addhh tbl =
     (let head = buckets tbl ! bkt;
          head = head\<lparr>bkt_count := bkt_count head + 1, hh_chain := addhh # hh_chain head\<rparr>;
          tbl = tbl\<lparr>buckets := (buckets tbl)[bkt := head]\<rparr>
      in if (expand_mult head + 1) * HASH_BKT_CAPACITY_THRESH \<le> bkt_count head \<and> noexpand tbl \<noteq> 1
         then HASH_EXPAND_BUCKETS tbl
         else tbl)"

definition HASH_DEL_IN_BKT :: "UT_hash_bucket \<Rightarrow> nat \<Rightarrow> UT_hash_bucket" where
  "HASH_DEL_IN_BKT head del =
     head\<lparr>bkt_count := bkt_count head - 1,
          hh_chain := filter (\<lambda>h. hh_elt h \<noteq> del) (hh_chain head)\<rparr>"

section \<open>The operations\<close>

definition HASH_FIND ::
  "(string \<Rightarrow> u32) \<Rightarrow> UT_hash_table option \<Rightarrow> string \<Rightarrow> UT_hash_handle option" where
  "HASH_FIND fcn head key =
     (case head of
        None \<Rightarrow> None
      | Some tbl \<Rightarrow>
          HASH_FIND_IN_BKT (hh_chain (buckets tbl ! HASH_TO_BKT (fcn key) (num_buckets tbl)))
            key (of_nat (length key)))"

definition HASH_ADD_KEYPTR ::
  "(string \<Rightarrow> u32) \<Rightarrow> UT_hash_table option \<Rightarrow> string \<Rightarrow> nat \<Rightarrow> UT_hash_table option" where
  "HASH_ADD_KEYPTR fcn head key add =
     (let hh = \<lparr>hh_elt = add, hh_key = key, hh_keylen = of_nat (length key), hh_hashv = fcn key\<rparr>;
          tbl = (case head of
                   None \<Rightarrow> HASH_MAKE_TABLE hh
                 | Some tbl \<Rightarrow> tbl\<lparr>app_order := app_order tbl @ [hh]\<rparr>);
          tbl = tbl\<lparr>num_items := num_items tbl + 1\<rparr>;
          bkt = HASH_TO_BKT (hh_hashv hh) (num_buckets tbl)
      in Some (HASH_ADD_TO_BKT bkt hh tbl))"

text \<open>\<open>HASH_DELETE\<close> of the element with the handle \<open>hh\<close>, which is in the table.\<close>

definition HASH_DELETE :: "UT_hash_table option \<Rightarrow> UT_hash_handle \<Rightarrow> UT_hash_table option" where
  "HASH_DELETE head hh =
     (case head of
        None \<Rightarrow> None
      | Some tbl \<Rightarrow>
          (if length (app_order tbl) = 1 then None
           else
             let bkt = HASH_TO_BKT (hh_hashv hh) (num_buckets tbl)
             in Some (tbl\<lparr>app_order := filter (\<lambda>h. hh_elt h \<noteq> hh_elt hh) (app_order tbl),
                          buckets := (buckets tbl)[bkt := HASH_DEL_IN_BKT (buckets tbl ! bkt) (hh_elt hh)],
                          num_items := num_items tbl - 1\<rparr>)))"

definition HASH_REPLACE ::
  "(string \<Rightarrow> u32) \<Rightarrow> UT_hash_table option \<Rightarrow> string \<Rightarrow> nat
     \<Rightarrow> UT_hash_table option \<times> UT_hash_handle option" where
  "HASH_REPLACE fcn head key add =
     (let replaced = HASH_FIND fcn head key;
          head = (case replaced of None \<Rightarrow> head | Some hh \<Rightarrow> HASH_DELETE head hh)
      in (HASH_ADD_KEYPTR fcn head key add, replaced))"

definition HASH_COUNT :: "UT_hash_table option \<Rightarrow> u32" where
  "HASH_COUNT head = (case head of None \<Rightarrow> 0 | Some tbl \<Rightarrow> num_items tbl)"

text \<open>The elements a loop over \<open>hh.next\<close> (or \<open>HASH_ITER\<close>) visits.\<close>

definition HASH_ITER :: "UT_hash_table option \<Rightarrow> nat list" where
  "HASH_ITER head = (case head of None \<Rightarrow> [] | Some tbl \<Rightarrow> map hh_elt (app_order tbl))"

text \<open>
  \<open>HASH_FSCK\<close>, the integrity check of \<open>HASH_DEBUG\<close> builds: the counters of the buckets, their sum
  and the length of the application order. (Its tests of the back pointers concern the
  representation of the lists.)
\<close>

definition HASH_FSCK :: "UT_hash_table option \<Rightarrow> bool" where
  "HASH_FSCK head =
     (case head of
        None \<Rightarrow> True
      | Some tbl \<Rightarrow>
          list_all (\<lambda>b. bkt_count b = of_nat (length (hh_chain b))) (buckets tbl)
          \<and> sum_list (map (\<lambda>b. of_nat (length (hh_chain b))) (buckets tbl)) = num_items tbl
          \<and> of_nat (length (app_order tbl)) = num_items tbl)"

section \<open>The invariant\<close>

text \<open>
  A bucket array indexed by the low bits of the hash, with the counters in step. \<open>items\<close> is
  what the chains hold together.
\<close>

definition bucket_ok :: "u32 \<Rightarrow> nat \<Rightarrow> UT_hash_bucket \<Rightarrow> bool" where
  "bucket_ok num i b \<longleftrightarrow>
     bkt_count b = of_nat (length (hh_chain b))
     \<and> (\<forall>h\<in>set (hh_chain b). HASH_TO_BKT (hh_hashv h) num = i)"

definition buckets_ok :: "u32 \<Rightarrow> UT_hash_bucket list \<Rightarrow> bool" where
  "buckets_ok num bs \<longleftrightarrow> (\<forall>i<length bs. bucket_ok num i (bs ! i))"

definition chained :: "UT_hash_bucket list \<Rightarrow> UT_hash_handle multiset" where
  "chained bs = mset (concat (map hh_chain bs))"

definition size_ok :: "UT_hash_table \<Rightarrow> bool" where
  "size_ok t \<longleftrightarrow> unat (log2_num_buckets t) < 32
     \<and> length (buckets t) = 2 ^ unat (log2_num_buckets t)
     \<and> num_buckets t = of_nat (length (buckets t))"

definition handle_ok :: "(string \<Rightarrow> u32) \<Rightarrow> UT_hash_handle \<Rightarrow> bool" where
  "handle_ok fcn h \<longleftrightarrow>
     hh_hashv h = fcn (hh_key h) \<and> hh_keylen h = of_nat (length (hh_key h))"

definition table_ok :: "(string \<Rightarrow> u32) \<Rightarrow> UT_hash_table \<Rightarrow> bool" where
  "table_ok fcn t \<longleftrightarrow>
     size_ok t \<and> buckets_ok (num_buckets t) (buckets t)
     \<and> chained (buckets t) = mset (app_order t)
     \<and> num_items t = of_nat (length (app_order t)) \<and> length (app_order t) < 2 ^ 32
     \<and> (\<forall>h\<in>set (app_order t). handle_ok fcn h)
     \<and> distinct (map hh_elt (app_order t)) \<and> distinct (map hh_key (app_order t))
     \<and> app_order t \<noteq> []"

definition hash_ok :: "(string \<Rightarrow> u32) \<Rightarrow> UT_hash_table option \<Rightarrow> bool" where
  "hash_ok fcn head = pred_option (table_ok fcn) head"

text \<open>What the table means: a finite map from keys to elements.\<close>

definition hash_map :: "UT_hash_table option \<Rightarrow> string \<Rightarrow> nat option" where
  "hash_map head = (case head of None \<Rightarrow> Map.empty
     | Some t \<Rightarrow> map_of (map (\<lambda>h. (hh_key h, hh_elt h)) (app_order t)))"

text \<open>There is room for one more item and, should it be needed, one more expansion.\<close>

definition hash_room :: "UT_hash_table option \<Rightarrow> bool" where
  "hash_room head = pred_option
     (\<lambda>t. length (app_order t) < 2 ^ 31 \<and> unat (log2_num_buckets t) < 31) head"

section \<open>Lemmas on buckets\<close>

lemma HASH_TO_BKT_less: "n < 32 \<Longrightarrow> HASH_TO_BKT h (of_nat (2 ^ n)) < 2 ^ n"
proof -
  assume "n < 32"
  have "HASH_TO_BKT h (of_nat (2 ^ n)) = unat (take_bit n h)"
    by (simp add: HASH_TO_BKT_def take_bit_eq_mask mask_eq_exp_minus_1)
  then show ?thesis by (simp add: unsigned_take_bit_eq)
qed

lemma size_ok_bucket: "size_ok t \<Longrightarrow> HASH_TO_BKT h (num_buckets t) < length (buckets t)"
  using HASH_TO_BKT_less by (auto simp: size_ok_def)

lemma chained_simps [simp]:
  "chained [] = {#}" "chained (b # bs) = mset (hh_chain b) + chained bs"
  by (simp_all add: chained_def)

lemma chained_update:
  "i < length bs \<Longrightarrow> hh_chain b = h # hh_chain (bs ! i) \<Longrightarrow>
   chained (bs[i := b]) = add_mset h (chained bs)"
proof (induction bs arbitrary: i)
  case (Cons a bs)
  then show ?case by (cases i) auto
qed simp

lemma chained_filter:
  "i < length bs \<Longrightarrow> hh_chain b = filter P (hh_chain (bs ! i)) \<Longrightarrow>
   (\<And>j h. j < length bs \<Longrightarrow> j \<noteq> i \<Longrightarrow> h \<in> set (hh_chain (bs ! j)) \<Longrightarrow> P h) \<Longrightarrow>
   chained (bs[i := b]) = filter_mset P (chained bs)"
proof (induction bs arbitrary: i)
  case (Cons a bs)
  have rest: "filter_mset P (chained bs') = chained bs'"
    if "\<And>j h. j < length bs' \<Longrightarrow> h \<in> set (hh_chain (bs' ! j)) \<Longrightarrow> P h" for bs'
    using that by (auto simp: chained_def in_set_conv_nth filter_mset_eq_conv) (metis in_set_conv_nth)
  show ?case
  proof (cases i)
    case 0
    have "filter_mset P (chained bs) = chained bs"
      using Cons.prems(3) [of "Suc _"] 0 by (intro rest) fastforce
    then show ?thesis using Cons.prems 0 by simp
  next
    case (Suc k)
    have "filter P (hh_chain a) = hh_chain a"
      using Cons.prems(3) [of 0] Suc by (auto intro: filter_True)
    then have "filter_mset P (mset (hh_chain a)) = mset (hh_chain a)"
      by (metis mset_filter)
    moreover have "chained (bs[k := b]) = filter_mset P (chained bs)"
      using Cons.prems(1,2) Cons.prems(3) [of "Suc _"] Suc by (intro Cons.IH) fastforce+
    ultimately show ?thesis using Suc by simp
  qed
qed simp

lemma buckets_ok_update:
  "buckets_ok num bs \<Longrightarrow> bucket_ok num i b \<Longrightarrow> buckets_ok num (bs[i := b])"
  unfolding buckets_ok_def by (metis length_list_update nth_list_update_eq nth_list_update_neq)

lemma bucket_ok_push:
  "bucket_ok num i b \<Longrightarrow> HASH_TO_BKT (hh_hashv h) num = i \<Longrightarrow>
   hh_chain b' = h # hh_chain b \<Longrightarrow> bkt_count b' = bkt_count b + 1 \<Longrightarrow> bucket_ok num i b'"
  by (auto simp: bucket_ok_def)

lemma empty_buckets: "buckets_ok num (replicate n empty_bucket)" "chained (replicate n empty_bucket) = {#}"
  by (auto simp: buckets_ok_def bucket_ok_def empty_bucket_def chained_def)

section \<open>Expansion\<close>

lemma expand_item_ok:
  assumes "buckets_ok num bs" and "HASH_TO_BKT (hh_hashv h) num < length bs"
    and "expand_item num ideal h (bs, k) = (bs', k')"
  shows "buckets_ok num bs' \<and> length bs' = length bs \<and> chained bs' = add_mset h (chained bs)"
proof -
  let ?i = "HASH_TO_BKT (hh_hashv h) num"
  obtain b where b: "bs' = bs[?i := b]" "hh_chain b = h # hh_chain (bs ! ?i)"
    "bkt_count b = bkt_count (bs ! ?i) + 1"
    using assms(3) by (auto simp: expand_item_def Let_def split: if_splits)
  have "bucket_ok num ?i (bs ! ?i)" using assms(1,2) by (simp add: buckets_ok_def)
  then have "bucket_ok num ?i b" by (rule bucket_ok_push) (simp_all add: b)
  then show ?thesis
    using assms(1,2) b by (simp add: buckets_ok_update chained_update)
qed

lemma expand_items_ok:
  assumes "fold (expand_item num ideal) hs (bs, k) = (bs', k')" and "buckets_ok num bs"
    and "\<And>h. h \<in> set hs \<Longrightarrow> HASH_TO_BKT (hh_hashv h) num < length bs"
  shows "buckets_ok num bs' \<and> length bs' = length bs \<and> chained bs' = mset hs + chained bs"
  using assms
proof (induction hs arbitrary: bs k)
  case (Cons h hs)
  obtain bs1 k1 where one: "expand_item num ideal h (bs, k) = (bs1, k1)" by fastforce
  then have "buckets_ok num bs1 \<and> length bs1 = length bs \<and> chained bs1 = add_mset h (chained bs)"
    using Cons.prems by (intro expand_item_ok) auto
  with Cons.IH [of bs1 k1] Cons.prems one show ?case by simp
qed simp

lemma double_word: "(of_nat (2 ^ n) :: u32) * 2 = of_nat (2 ^ Suc n)"
  by simp

lemma unat_pow2: "n < 32 \<Longrightarrow> unat (of_nat (2 ^ n) :: u32) = 2 ^ n"
  by (simp add: unsigned_of_nat take_bit_nat_eq_self_iff power_strict_increasing del: of_nat_power)

lemma expand_buckets_ok:
  assumes "size_ok t" and "unat (log2_num_buckets t) < 31" and "t' = HASH_EXPAND_BUCKETS t"
  shows "size_ok t' \<and> buckets_ok (num_buckets t') (buckets t')
    \<and> chained (buckets t') = chained (buckets t) \<and> app_order t' = app_order t
    \<and> num_items t' = num_items t
    \<and> unat (log2_num_buckets t') = Suc (unat (log2_num_buckets t))"
proof -
  let ?l = "unat (log2_num_buckets t)"
  define ideal where "ideal = drop_bit (?l + 1) (num_items t)
            + (if and (num_items t) (num_buckets t * 2 - 1) \<noteq> 0 then 1 else 0)"
  obtain bs k where f: "fold (expand_item (num_buckets t * 2) ideal)
      (concat (map hh_chain (buckets t))) (replicate (2 * unat (num_buckets t)) empty_bucket, 0) = (bs, k)"
    by fastforce
  have n: "num_buckets t = of_nat (2 ^ ?l)" and bl: "length (buckets t) = 2 ^ ?l"
    using assms(1) by (auto simp: size_ok_def)
  have un: "unat (num_buckets t) = 2 ^ ?l" unfolding n by (rule unat_pow2) (use assms in simp)
  have n2: "num_buckets t * 2 = of_nat (2 ^ Suc ?l)" unfolding n by (rule double_word)
  have ok: "buckets_ok (num_buckets t * 2) bs \<and> length bs = length (replicate (2 * unat (num_buckets t)) empty_bucket)
      \<and> chained bs = mset (concat (map hh_chain (buckets t))) + chained (replicate (2 * unat (num_buckets t)) empty_bucket)"
  proof (rule expand_items_ok [OF f])
    show "HASH_TO_BKT (hh_hashv h) (num_buckets t * 2)
        < length (replicate (2 * unat (num_buckets t)) empty_bucket)" for h
      using HASH_TO_BKT_less [of "Suc ?l" "hh_hashv h"] assms(2) by (simp only: n2 un) simp
  qed (rule empty_buckets)
  have l1: "unat (log2_num_buckets t + 1) = Suc ?l"
    using assms(2) by (subst unat_add_lem [THEN iffD1]) simp_all
  have fields: "buckets t' = bs" "num_buckets t' = num_buckets t * 2"
    "log2_num_buckets t' = log2_num_buckets t + 1" "app_order t' = app_order t"
    "num_items t' = num_items t"
    unfolding assms(3) HASH_EXPAND_BUCKETS_def Let_def ideal_def [symmetric] f by simp_all
  have "length bs = 2 ^ Suc ?l" using ok by (simp add: un)
  then have "size_ok t'" unfolding size_ok_def fields l1 using assms(2) n2 by simp
  then show ?thesis unfolding fields using ok l1
    by (simp only: chained_def [symmetric]) (simp add: empty_buckets)
qed

section \<open>Adding\<close>

lemma add_to_bkt_ok:
  assumes "size_ok t" and "buckets_ok (num_buckets t) (buckets t)"
    and "unat (log2_num_buckets t) < 31"
    and "t' = HASH_ADD_TO_BKT (HASH_TO_BKT (hh_hashv h) (num_buckets t)) h t"
  shows "size_ok t' \<and> buckets_ok (num_buckets t') (buckets t')
    \<and> chained (buckets t') = add_mset h (chained (buckets t)) \<and> app_order t' = app_order t
    \<and> num_items t' = num_items t"
proof -
  let ?i = "HASH_TO_BKT (hh_hashv h) (num_buckets t)"
  define b where "b = (buckets t ! ?i)\<lparr>bkt_count := bkt_count (buckets t ! ?i) + 1,
      hh_chain := h # hh_chain (buckets t ! ?i)\<rparr>"
  define u where "u = t\<lparr>buckets := (buckets t)[?i := b]\<rparr>"
  have i: "?i < length (buckets t)" using assms(1) by (rule size_ok_bucket)
  have "bucket_ok (num_buckets t) ?i (buckets t ! ?i)" using assms(2) i by (simp add: buckets_ok_def)
  then have "bucket_ok (num_buckets t) ?i b" by (rule bucket_ok_push) (simp_all add: b_def)
  then have u: "buckets_ok (num_buckets u) (buckets u)" "size_ok u"
    "chained (buckets u) = add_mset h (chained (buckets t))" "unat (log2_num_buckets u) < 31"
    "app_order u = app_order t" "num_items u = num_items t"
    using assms(1-3) i by (simp_all add: u_def buckets_ok_update size_ok_def chained_update b_def)
  have "t' = u \<or> t' = HASH_EXPAND_BUCKETS u"
    unfolding assms(4) HASH_ADD_TO_BKT_def Let_def b_def [symmetric] u_def [symmetric] by simp
  then show ?thesis using u expand_buckets_ok [OF u(2,4)] by auto
qed

lemma make_table_ok: "size_ok (HASH_MAKE_TABLE h) \<and> buckets_ok (num_buckets (HASH_MAKE_TABLE h)) (buckets (HASH_MAKE_TABLE h))
    \<and> chained (buckets (HASH_MAKE_TABLE h)) = {#}"
  by (simp add: HASH_MAKE_TABLE_def size_ok_def empty_buckets)

lemma hash_map_None_iff: "hash_map (Some t) k = None \<longleftrightarrow> k \<notin> hh_key ` set (app_order t)"
  by (force simp: hash_map_def map_of_eq_None_iff)

definition new_handle :: "(string \<Rightarrow> u32) \<Rightarrow> string \<Rightarrow> nat \<Rightarrow> UT_hash_handle" where
  "new_handle fcn key e =
     \<lparr>hh_elt = e, hh_key = key, hh_keylen = of_nat (length key), hh_hashv = fcn key\<rparr>"

definition order_of :: "UT_hash_table option \<Rightarrow> UT_hash_handle list" where
  "order_of head = (case head of None \<Rightarrow> [] | Some t \<Rightarrow> app_order t)"

lemma HASH_ITER_order: "HASH_ITER head = map hh_elt (order_of head)"
  by (cases head) (simp_all add: HASH_ITER_def order_of_def)

lemma hash_map_order: "hash_map head = map_of (map (\<lambda>h. (hh_key h, hh_elt h)) (order_of head))"
  by (cases head) (simp_all add: hash_map_def order_of_def)

lemma dom_hash_map: "hash_map head k = None \<longleftrightarrow> k \<notin> hh_key ` set (order_of head)"
  by (force simp: hash_map_order map_of_eq_None_iff)

lemma size_ok_items: "size_ok (t\<lparr>num_items := n\<rparr>) \<longleftrightarrow> size_ok t"
  by (simp add: size_ok_def)

lemma add_order:
  assumes "hash_ok fcn head" and "hash_room head" and "hash_map head key = None"
    and "e \<notin> set (HASH_ITER head)"
  obtains t where "HASH_ADD_KEYPTR fcn head key e = Some t" "table_ok fcn t"
    "app_order t = order_of head @ [new_handle fcn key e]"
proof -
  let ?h = "new_handle fcn key e"
  define t0 where "t0 = (case head of None \<Rightarrow> HASH_MAKE_TABLE ?h
      | Some tbl \<Rightarrow> tbl\<lparr>app_order := app_order tbl @ [?h]\<rparr>)"
  define t1 where "t1 = t0\<lparr>num_items := num_items t0 + 1\<rparr>"
  define t2 where "t2 = HASH_ADD_TO_BKT (HASH_TO_BKT (hh_hashv ?h) (num_buckets t1)) ?h t1"
  have add: "HASH_ADD_KEYPTR fcn head key e = Some t2"
    unfolding HASH_ADD_KEYPTR_def new_handle_def [symmetric] t0_def [symmetric] t1_def [symmetric]
      t2_def Let_def by simp
  have "size_ok t0 \<and> buckets_ok (num_buckets t0) (buckets t0) \<and> unat (log2_num_buckets t0) < 31
      \<and> chained (buckets t0) = mset (order_of head) \<and> num_items t0 = of_nat (length (order_of head))
      \<and> app_order t0 = order_of head @ [?h]"
    using assms(1,2) make_table_ok [of ?h]
    by (cases head) (auto simp: t0_def order_of_def hash_ok_def hash_room_def table_ok_def size_ok_def
        HASH_MAKE_TABLE_def)
  then have t1: "size_ok t1" "buckets_ok (num_buckets t1) (buckets t1)"
    "unat (log2_num_buckets t1) < 31" "chained (buckets t1) = mset (order_of head)"
    "num_items t1 = of_nat (length (order_of head @ [?h]))" "app_order t1 = order_of head @ [?h]"
    unfolding t1_def by (simp_all add: size_ok_items)
  note t2 = add_to_bkt_ok [OF t1(1-3) t2_def]
  have order: "app_order t2 = order_of head @ [?h]" using t2 t1(6) by simp
  have "(\<forall>h\<in>set (order_of head). handle_ok fcn h) \<and> distinct (map hh_elt (order_of head))
      \<and> distinct (map hh_key (order_of head)) \<and> length (order_of head) + 1 < 2 ^ 32"
    using assms(1,2) by (cases head) (simp_all add: hash_ok_def table_ok_def order_of_def hash_room_def)
  moreover have "handle_ok fcn ?h" "hh_key ?h = key" "hh_elt ?h = e"
    by (simp_all add: handle_ok_def new_handle_def)
  ultimately have "table_ok fcn t2"
    unfolding table_ok_def order using t2 t1(4,5) assms(3,4)
    by (auto simp: dom_hash_map HASH_ITER_order)
  then show ?thesis using that add order by blast
qed

section \<open>Finding\<close>

lemma FIND_IN_BKT_find:
  "HASH_FIND_IN_BKT hs key len = find (\<lambda>h. hh_keylen h = len \<and> hh_key h = key) hs"
  by (induction hs) (simp_all add: HASH_KEYCMP_def)

lemma in_bucket_iff:
  assumes "table_ok fcn t"
  shows "h \<in> set (app_order t) \<longleftrightarrow>
    h \<in> set (hh_chain (buckets t ! HASH_TO_BKT (hh_hashv h) (num_buckets t)))"
proof -
  have size: "size_ok t" and ok: "buckets_ok (num_buckets t) (buckets t)"
    and ch: "chained (buckets t) = mset (app_order t)"
    using assms by (auto simp: table_ok_def)
  have set: "set (app_order t) = (\<Union>b\<in>set (buckets t). set (hh_chain b))"
    using arg_cong [OF ch, of set_mset] by (simp add: chained_def)
  show ?thesis
  proof
    assume "h \<in> set (app_order t)"
    then obtain i where i: "i < length (buckets t)" "h \<in> set (hh_chain (buckets t ! i))"
      using set by (metis UN_E in_set_conv_nth)
    then have "HASH_TO_BKT (hh_hashv h) (num_buckets t) = i"
      using ok by (auto simp: buckets_ok_def bucket_ok_def)
    with i show "h \<in> set (hh_chain (buckets t ! HASH_TO_BKT (hh_hashv h) (num_buckets t)))" by simp
  next
    assume "h \<in> set (hh_chain (buckets t ! HASH_TO_BKT (hh_hashv h) (num_buckets t)))"
    then show "h \<in> set (app_order t)" using set size_ok_bucket [OF size] by auto
  qed
qed

lemma find_iff:
  assumes ok: "hash_ok fcn head"
  shows "HASH_FIND fcn head key = Some h \<longleftrightarrow> h \<in> set (order_of head) \<and> hh_key h = key"
proof (cases head)
  case None
  then show ?thesis by (simp add: HASH_FIND_def order_of_def)
next
  case (Some t)
  then have t: "table_ok fcn t" using ok by (simp add: hash_ok_def)
  let ?hs = "hh_chain (buckets t ! HASH_TO_BKT (fcn key) (num_buckets t))"
  let ?P = "\<lambda>h. hh_keylen h = of_nat (length key) \<and> hh_key h = key"
  have F: "HASH_FIND fcn head key = find ?P ?hs"
    by (simp add: Some HASH_FIND_def FIND_IN_BKT_find)
  have hok: "handle_ok fcn g" if "g \<in> set (app_order t)" for g
    using t that by (auto simp: table_ok_def)
  have inj: "g = h" if "g \<in> set (app_order t)" "h \<in> set (app_order t)" "hh_key g = hh_key h" for g h
    using t that by (auto simp: table_ok_def distinct_map dest: inj_onD)
  have sub: "set ?hs \<subseteq> set (app_order t)"
  proof -
    have "HASH_TO_BKT (fcn key) (num_buckets t) < length (buckets t)"
      using t by (intro size_ok_bucket) (simp add: table_ok_def)
    then have "set ?hs \<subseteq> set_mset (chained (buckets t))"
      using nth_mem by (fastforce simp: chained_def)
    then show ?thesis using t by (simp add: table_ok_def)
  qed
  show ?thesis
  proof
    assume "HASH_FIND fcn head key = Some h"
    then have "h \<in> set ?hs" "hh_key h = key"
      unfolding F by (auto simp: find_Some_iff in_set_conv_nth)
    then show "h \<in> set (order_of head) \<and> hh_key h = key" using sub by (auto simp: Some order_of_def)
  next
    assume h: "h \<in> set (order_of head) \<and> hh_key h = key"
    then have "h \<in> set ?hs" "?P h"
      using in_bucket_iff [OF t, of h] hok [of h] by (auto simp: Some order_of_def handle_ok_def)
    then have "find ?P ?hs \<noteq> None" by (auto simp: find_None_iff)
    then obtain g where g: "find ?P ?hs = Some g" by auto
    then have "g \<in> set ?hs" "hh_key g = key" by (auto simp: find_Some_iff in_set_conv_nth)
    then have "g = h" using inj [of g h] sub h by (auto simp: Some order_of_def)
    then show "HASH_FIND fcn head key = Some h" using g F by simp
  qed
qed

lemma find_map:
  assumes "hash_ok fcn head"
  shows "map_option hh_elt (HASH_FIND fcn head key) = hash_map head key"
proof (cases "HASH_FIND fcn head key")
  case None
  then have "key \<notin> hh_key ` set (order_of head)"
    using find_iff [OF assms] by (metis imageE option.distinct(1))
  then show ?thesis using None dom_hash_map [of head key] by simp
next
  case (Some h)
  then have h: "h \<in> set (order_of head)" "hh_key h = key" using find_iff [OF assms] by auto
  have "distinct (map hh_key (order_of head))"
    using assms by (cases head) (simp_all add: hash_ok_def table_ok_def order_of_def)
  then have "hash_map head key = Some (hh_elt h)"
    unfolding hash_map_order using h by (intro map_of_is_SomeI) (auto simp: o_def)
  then show ?thesis using Some by simp
qed

lemma add_map:
  assumes "hash_ok fcn head" and "hash_room head" and "hash_map head key = None"
    and "e \<notin> set (HASH_ITER head)"
  shows "hash_ok fcn (HASH_ADD_KEYPTR fcn head key e)"
    and "hash_map (HASH_ADD_KEYPTR fcn head key e) = (hash_map head)(key \<mapsto> e)"
    and "HASH_ITER (HASH_ADD_KEYPTR fcn head key e) = HASH_ITER head @ [e]"
proof -
  obtain t where t: "HASH_ADD_KEYPTR fcn head key e = Some t" "table_ok fcn t"
    "app_order t = order_of head @ [new_handle fcn key e]"
    using assms by (rule add_order)
  show "hash_ok fcn (HASH_ADD_KEYPTR fcn head key e)" using t by (simp add: hash_ok_def)
  show "HASH_ITER (HASH_ADD_KEYPTR fcn head key e) = HASH_ITER head @ [e]"
    unfolding HASH_ITER_order t(1) by (simp add: order_of_def t(3) new_handle_def)
  have "order_of (HASH_ADD_KEYPTR fcn head key e) = order_of head @ [new_handle fcn key e]"
    using t by (simp add: order_of_def)
  then show "hash_map (HASH_ADD_KEYPTR fcn head key e) = (hash_map head)(key \<mapsto> e)"
    using assms(3) unfolding hash_map_order
    by (auto simp: fun_eq_iff new_handle_def map_add_def split: option.split)
qed

section \<open>Deleting\<close>

lemma bucket_ok_filter:
  assumes "bucket_ok num i b" and "count_list (map hh_elt (hh_chain b)) e = 1"
  shows "bucket_ok num i (HASH_DEL_IN_BKT b e)"
proof -
  have "length (filter (\<lambda>h. hh_elt h \<noteq> e) hs) + count_list (map hh_elt hs) e = length hs" for hs
    by (induction hs) auto
  from this [of "hh_chain b"]
  have len: "length (hh_chain b) = Suc (length (filter (\<lambda>h. hh_elt h \<noteq> e) (hh_chain b)))"
    using assms(2) by simp
  show ?thesis using assms(1) len
    by (auto simp: bucket_ok_def HASH_DEL_IN_BKT_def)
qed

lemma count_distinct: "distinct xs \<Longrightarrow> x \<in> set xs \<Longrightarrow> count_list xs x = 1"
  by (induction xs) auto

lemma chained_sub: "i < length bs \<Longrightarrow> mset (hh_chain (bs ! i)) \<subseteq># chained bs"
proof (induction bs arbitrary: i)
  case (Cons a bs)
  then show ?case by (cases i) (auto intro: subset_mset.add_increasing)
qed simp

lemma count_list_mset: "count_list xs x = count (mset xs) x"
  by (simp add: count_mset)

lemma count_list_filter: "count_list (map f xs) e = length (filter (\<lambda>g. f g = e) xs)"
  by (induction xs) auto

lemma delete_order:
  assumes ok: "table_ok fcn t" and h: "h \<in> set (app_order t)" and len: "length (app_order t) \<noteq> 1"
  obtains t' where "HASH_DELETE (Some t) h = Some t'" "table_ok fcn t'"
    "app_order t' = filter (\<lambda>g. hh_elt g \<noteq> hh_elt h) (app_order t)"
proof -
  let ?i = "HASH_TO_BKT (hh_hashv h) (num_buckets t)" and ?P = "\<lambda>g. hh_elt g \<noteq> hh_elt h"
  let ?b = "HASH_DEL_IN_BKT (buckets t ! ?i) (hh_elt h)"
  define t' where "t' = t\<lparr>app_order := filter ?P (app_order t), buckets := (buckets t)[?i := ?b],
      num_items := num_items t - 1\<rparr>"
  have size: "size_ok t" and bok: "buckets_ok (num_buckets t) (buckets t)"
    and ch: "chained (buckets t) = mset (app_order t)"
    and dist: "distinct (map hh_elt (app_order t))"
    using ok by (auto simp: table_ok_def)
  have i: "?i < length (buckets t)" using size by (rule size_ok_bucket)
  have inb: "h \<in> set (hh_chain (buckets t ! ?i))" using in_bucket_iff [OF ok] h by blast
  have same: "g = h" if "g \<in> set (app_order t)" "hh_elt g = hh_elt h" for g
    using dist h that by (auto simp: distinct_map dest: inj_onD)
  have "length (filter (\<lambda>g. \<not> ?P g) (app_order t)) = 1"
    using count_list_filter [of hh_elt "app_order t" "hh_elt h"]
      count_distinct [OF dist, of "hh_elt h"] h by simp
  then have flen: "Suc (length (filter ?P (app_order t))) = length (app_order t)"
    using sum_length_filter_compl [of ?P "app_order t"] by simp
  have "image_mset hh_elt (mset (hh_chain (buckets t ! ?i))) \<subseteq># image_mset hh_elt (chained (buckets t))"
    by (rule image_mset_subseteq_mono [OF chained_sub [OF i]])
  then have "count (mset (map hh_elt (hh_chain (buckets t ! ?i)))) (hh_elt h)
      \<le> count (mset (map hh_elt (app_order t))) (hh_elt h)"
    unfolding ch mset_map by (rule mset_subset_eq_count)
  moreover have "count (mset (map hh_elt (app_order t))) (hh_elt h) \<le> 1"
    using dist distinct_count_atmost_1 by (metis nle_le le_zero_eq zero_neq_one)
  moreover have "0 < count (mset (map hh_elt (hh_chain (buckets t ! ?i)))) (hh_elt h)"
    using inb by (simp only: count_greater_zero_iff set_mset_mset set_map) simp
  ultimately have "count_list (map hh_elt (hh_chain (buckets t ! ?i))) (hh_elt h) = 1"
    unfolding count_list_mset by linarith
  moreover have "bucket_ok (num_buckets t) ?i (buckets t ! ?i)" using bok i by (simp add: buckets_ok_def)
  ultimately have "buckets_ok (num_buckets t') (buckets t')"
    using bok by (simp add: t'_def buckets_ok_update bucket_ok_filter)
  moreover have "chained (buckets t') = filter_mset ?P (chained (buckets t))"
  proof -
    have other: "?P g" if "j < length (buckets t)" "j \<noteq> ?i" "g \<in> set (hh_chain (buckets t ! j))" for j g
    proof
      assume eq: "hh_elt g = hh_elt h"
      have "g \<in># chained (buckets t)" using chained_sub [OF that(1)] that(3) by (auto dest: mset_subset_eqD)
      then have "g = h" using same eq by (simp add: ch)
      then show False using bok that by (auto simp: buckets_ok_def bucket_ok_def)
    qed
    show ?thesis unfolding t'_def
      by (simp, rule chained_filter [OF i _ other]) (simp_all add: HASH_DEL_IN_BKT_def)
  qed
  moreover have "num_items t' = of_nat (length (app_order t'))"
    using ok flen [symmetric] by (simp add: t'_def table_ok_def)
  moreover have "app_order t' \<noteq> []" using flen len h by (auto simp: t'_def)
  ultimately have "table_ok fcn t'"
    using ok ch flen unfolding table_ok_def
    by (auto simp: t'_def size_ok_def distinct_map_filter)
  moreover have "HASH_DELETE (Some t) h = Some t'"
    using len by (simp add: HASH_DELETE_def t'_def Let_def)
  ultimately show ?thesis using that by (simp add: t'_def)
qed

lemma delete_map:
  assumes ok: "hash_ok fcn head" and key: "hash_map head key = Some e"
    and h: "HASH_FIND fcn head key = Some h"
  shows "hash_ok fcn (HASH_DELETE head h)"
    and "hash_map (HASH_DELETE head h) = (hash_map head)(key := None)"
    and "HASH_ITER (HASH_DELETE head h) = filter (\<lambda>x. x \<noteq> e) (HASH_ITER head)"
proof -
  from h obtain t where t: "head = Some t" by (cases head) (auto simp: HASH_FIND_def)
  have tok: "table_ok fcn t" using ok t by (simp add: hash_ok_def)
  have hin: "h \<in> set (app_order t)" and hk: "hh_key h = key"
    using find_iff [OF ok, of key h] h t by (auto simp: order_of_def)
  have he: "hh_elt h = e" using find_map [OF ok, of key] key h by simp
  have dist: "distinct (map hh_elt (app_order t))" "distinct (map hh_key (app_order t))"
    using tok by (auto simp: table_ok_def)
  have ord: "order_of (HASH_DELETE head h) = filter (\<lambda>g. hh_elt g \<noteq> e) (app_order t)
      \<and> hash_ok fcn (HASH_DELETE head h)"
  proof (cases "length (app_order t) = 1")
    case True
    then have "app_order t = [h]" using hin by (auto simp: length_Suc_conv)
    then show ?thesis using he t by (simp add: HASH_DELETE_def order_of_def hash_ok_def)
  next
    case False
    obtain t' where "HASH_DELETE (Some t) h = Some t'" "table_ok fcn t'"
      "app_order t' = filter (\<lambda>g. hh_elt g \<noteq> hh_elt h) (app_order t)"
      using delete_order [OF tok hin False] .
    then show ?thesis using t he by (simp add: order_of_def hash_ok_def)
  qed
  then show "hash_ok fcn (HASH_DELETE head h)" by blast
  show "HASH_ITER (HASH_DELETE head h) = filter (\<lambda>x. x \<noteq> e) (HASH_ITER head)"
    unfolding HASH_ITER_order using ord t by (simp add: filter_map o_def order_of_def)
  have same: "hh_elt g = e \<longleftrightarrow> hh_key g = key" if "g \<in> set (app_order t)" for g
    using dist hin hk he that by (auto simp: distinct_map dest: inj_onD)
  have "filter (\<lambda>g. hh_elt g \<noteq> e) (app_order t) = filter (\<lambda>g. hh_key g \<noteq> key) (app_order t)"
    using same by (intro filter_cong) auto
  moreover have "map_of (map (\<lambda>h. (hh_key h, hh_elt h)) (filter (\<lambda>g. hh_key g \<noteq> key) hs))
      = (map_of (map (\<lambda>h. (hh_key h, hh_elt h)) hs))(key := None)" for hs
    by (induction hs) (auto simp: fun_eq_iff)
  ultimately show "hash_map (HASH_DELETE head h) = (hash_map head)(key := None)"
    unfolding hash_map_order using ord t by (simp add: order_of_def)
qed

section \<open>The integrity check passes\<close>

lemma sum_of_nat: "(\<Sum>b\<leftarrow>bs. of_nat (f b) :: u32) = of_nat (\<Sum>b\<leftarrow>bs. f b)"
  by (induction bs) simp_all

lemma hash_ok_FSCK: "hash_ok fcn head \<Longrightarrow> HASH_FSCK head"
proof (cases head)
  case (Some t)
  assume "hash_ok fcn head"
  then have t: "table_ok fcn t" by (simp add: Some hash_ok_def)
  then have "size (chained (buckets t)) = length (app_order t)" by (simp add: table_ok_def)
  moreover have "size (chained bs) = (\<Sum>b\<leftarrow>bs. length (hh_chain b))" for bs
    by (induction bs) simp_all
  ultimately have "(\<Sum>b\<leftarrow>buckets t. of_nat (length (hh_chain b))) = num_items t"
    using t by (simp add: sum_of_nat table_ok_def)
  then show ?thesis using t
    by (auto simp: HASH_FSCK_def Some table_ok_def buckets_ok_def bucket_ok_def list_all_length)
qed (simp add: HASH_FSCK_def)

lemma hash_count: "hash_ok fcn head \<Longrightarrow> unat (HASH_COUNT head) = length (HASH_ITER head)"
  by (cases head) (simp_all add: hash_ok_def HASH_COUNT_def HASH_ITER_def table_ok_def unsigned_of_nat
      take_bit_nat_eq_self_iff)

lemma hash_map_elem: "hash_map head k = Some e \<Longrightarrow> e \<in> set (HASH_ITER head)"
  by (auto simp: hash_map_order HASH_ITER_order dest!: map_of_SomeD)

lemma hash_ok_None: "hash_ok fcn None" "hash_map None = Map.empty" "HASH_ITER None = []"
  by (simp_all add: hash_ok_def hash_map_def HASH_ITER_def)

section \<open>The table implements the interface of its clients\<close>

definition hash_delete_key ::
  "(string \<Rightarrow> u32) \<Rightarrow> UT_hash_table option \<Rightarrow> string \<Rightarrow> UT_hash_table option" where
  "hash_delete_key fcn head key =
     (case HASH_FIND fcn head key of None \<Rightarrow> head | Some h \<Rightarrow> HASH_DELETE head h)"

lemma find_Some_of_map:
  "hash_ok fcn head \<Longrightarrow> hash_map head k = Some e \<Longrightarrow> \<exists>h. HASH_FIND fcn head k = Some h"
  using find_map [of fcn head k] by (cases "HASH_FIND fcn head k") auto

lemma hash_delete_key:
  assumes "hash_ok fcn head" "hash_map head k = Some e"
  shows "hash_ok fcn (hash_delete_key fcn head k)"
    and "hash_map (hash_delete_key fcn head k) = (hash_map head)(k := None)"
    and "HASH_ITER (hash_delete_key fcn head k) = filter (\<lambda>x. x \<noteq> e) (HASH_ITER head)"
proof -
  obtain h where h: "HASH_FIND fcn head k = Some h" using find_Some_of_map [OF assms] by blast
  show "hash_ok fcn (hash_delete_key fcn head k)"
    and "hash_map (hash_delete_key fcn head k) = (hash_map head)(k := None)"
    and "HASH_ITER (hash_delete_key fcn head k) = filter (\<lambda>x. x \<noteq> e) (HASH_ITER head)"
    using delete_map [OF assms h] by (simp_all add: hash_delete_key_def h)
qed

text \<open>\<open>mbtcp_htable\<close> is hashed with \<open>HASH_JEN\<close>, but any hash function would do.\<close>

interpretation ut: registry_del "hash_ok fcn" hash_room None hash_map "HASH_ADD_KEYPTR fcn" HASH_ITER
  "hash_delete_key fcn" for fcn
  by unfold_locales
    (auto simp: hash_ok_None add_map hash_delete_key intro: hash_map_elem add_map(1) hash_delete_key(1))

section \<open>Room shrinks\<close>

lemma expand_fields:
  "log2_num_buckets (HASH_EXPAND_BUCKETS t) = log2_num_buckets t + 1"
  "app_order (HASH_EXPAND_BUCKETS t) = app_order t"
  by (simp_all add: HASH_EXPAND_BUCKETS_def Let_def split_beta)

lemma unat_Suc_le: "unat (w + 1) \<le> Suc (unat w)" for w :: u32
  by (simp only: unat_word_ariths unat_1) (simp add: mod_less_eq_dividend)

text \<open>The number of doublings is bounded by the number of items, whatever the table looks like.\<close>

definition hash_grow :: "UT_hash_table option \<Rightarrow> bool" where
  "hash_grow head = pred_option (\<lambda>t. unat (log2_num_buckets t) \<le> 5 + length (app_order t)) head"

lemma add_fields:
  obtains t where "HASH_ADD_KEYPTR fcn head k e = Some t"
    "app_order t = order_of head @ [new_handle fcn k e]"
    "head = None \<longrightarrow> log2_num_buckets t \<in> {5, 5 + 1}"
    "\<forall>t0. head = Some t0 \<longrightarrow> log2_num_buckets t \<in> {log2_num_buckets t0, log2_num_buckets t0 + 1}"
proof -
  define h where "h = new_handle fcn k e"
  define t0 where "t0 = (case head of None \<Rightarrow> HASH_MAKE_TABLE h
      | Some tbl \<Rightarrow> tbl\<lparr>app_order := app_order tbl @ [h]\<rparr>)"
  define t1 where "t1 = t0\<lparr>num_items := num_items t0 + 1\<rparr>"
  define t2 where "t2 = HASH_ADD_TO_BKT (HASH_TO_BKT (hh_hashv h) (num_buckets t1)) h t1"
  have "HASH_ADD_KEYPTR fcn head k e = Some t2"
    unfolding HASH_ADD_KEYPTR_def new_handle_def [symmetric] h_def [symmetric] t0_def [symmetric]
      t1_def [symmetric] t2_def Let_def by (simp add: h_def t2_def)
  moreover have "app_order t2 = app_order t0
      \<and> log2_num_buckets t2 \<in> {log2_num_buckets t0, log2_num_buckets t0 + 1}"
    by (simp add: t2_def HASH_ADD_TO_BKT_def Let_def expand_fields t1_def)
  ultimately show ?thesis
    by (intro that) (auto simp: t0_def h_def order_of_def HASH_MAKE_TABLE_def split: option.splits)
qed

lemma hash_grow_add:
  assumes "hash_grow head"
  shows "hash_grow (HASH_ADD_KEYPTR fcn head k e)"
    and "hash_room (HASH_ADD_KEYPTR fcn head k e) \<Longrightarrow> hash_room head"
proof -
  obtain t where t: "HASH_ADD_KEYPTR fcn head k e = Some t"
    "app_order t = order_of head @ [new_handle fcn k e]"
    "head = None \<longrightarrow> log2_num_buckets t \<in> {5, 5 + 1}"
    "\<forall>t0. head = Some t0 \<longrightarrow> log2_num_buckets t \<in> {log2_num_buckets t0, log2_num_buckets t0 + 1}"
    by (rule add_fields)
  show "hash_grow (HASH_ADD_KEYPTR fcn head k e)"
  proof (cases head)
    case (Some t0)
    then show ?thesis using assms t unat_Suc_le [of "log2_num_buckets t0"]
      by (auto simp: hash_grow_def order_of_def)
  qed (use t in \<open>auto simp: hash_grow_def order_of_def\<close>)
  show "hash_room head" if room: "hash_room (HASH_ADD_KEYPTR fcn head k e)"
  proof (cases head)
    case (Some t0)
    have len: "Suc (length (app_order t0)) < 2 ^ 31" and l: "unat (log2_num_buckets t) < 31"
      using room t by (simp_all add: hash_room_def Some order_of_def)
    then have "unat (log2_num_buckets t0) < 2 ^ 32 - 1"
      using assms by (simp add: hash_grow_def Some)
    then have "unat (log2_num_buckets t0 + 1) = Suc (unat (log2_num_buckets t0))"
      by (subst unat_add_lem [THEN iffD1]) simp_all
    then show ?thesis using l len t(4) Some by (auto simp: hash_room_def)
  qed (simp add: hash_room_def)
qed

section \<open>The table refines a finite map\<close>

text \<open>C8: Finding is looking up: in a table that satisfies the invariant, \<open>HASH_FIND\<close> returns the
  element the abstract map has for the key, filed under exactly this key, or nothing when the map has
  nothing - for every hash function.\<close>

theorem hash_find_refines:
  assumes "hash_ok fcn head"
  shows "map_option hh_elt (HASH_FIND fcn head k) = hash_map head k
    \<and> pred_option (\<lambda>h. hh_key h = k) (HASH_FIND fcn head k)"
  using find_map [OF assms] find_iff [OF assms] by (auto simp: pred_option_def)

lemma one_item:
  "hash_ok fcn (HASH_ADD_KEYPTR fcn None k e)" "hash_map (HASH_ADD_KEYPTR fcn None k e) = [k \<mapsto> e]"
  "HASH_ITER (HASH_ADD_KEYPTR fcn None k e) = [e]"
  using add_map [of fcn None k e] by (simp_all add: hash_ok_None hash_room_def)

theorem hash_find_refines_witness:
  "map_option hh_elt (HASH_FIND HASH_JEN (HASH_ADD_KEYPTR HASH_JEN None ''a'' 5) ''a'') = Some 5"
  using hash_find_refines [OF one_item(1) [of HASH_JEN "''a''" 5], of "''a''"] by (simp add: one_item)

text \<open>C9: Adding under a new key is a map update: the invariant is kept, whether or not the table has
  to be created or its buckets to be doubled, the new element is found under its key and every other
  key finds what it found before, and the element is last in the order of a traversal.\<close>

theorem hash_add_refines:
  assumes "hash_ok fcn head" "hash_room head" "hash_map head k = None" "e \<notin> set (HASH_ITER head)"
  shows "hash_ok fcn (HASH_ADD_KEYPTR fcn head k e)
    \<and> hash_map (HASH_ADD_KEYPTR fcn head k e) = (hash_map head)(k \<mapsto> e)
    \<and> HASH_ITER (HASH_ADD_KEYPTR fcn head k e) = HASH_ITER head @ [e]"
  using ut.inv_add ut.look_add ut.elems_add assms by blast

theorem hash_add_refines_witness:
  "HASH_ITER (HASH_ADD_KEYPTR HASH_JEN None ''a'' 5) = [5]"
  using hash_add_refines [of HASH_JEN None "''a''" 5] by (simp add: hash_ok_None hash_room_def)

text \<open>C10: Deleting what a key finds takes the key, and no other, out of the map, keeps the invariant
  (the table is freed with its last element), and a traversal visits the other elements in the same
  order.\<close>

theorem hash_delete_refines:
  assumes "hash_ok fcn head" and "HASH_FIND fcn head k = Some h"
  shows "hash_ok fcn (HASH_DELETE head h)
    \<and> hash_map (HASH_DELETE head h) = (hash_map head)(k := None)
    \<and> HASH_ITER (HASH_DELETE head h) = filter (\<lambda>x. x \<noteq> hh_elt h) (HASH_ITER head)"
proof -
  have "hash_map head k = Some (hh_elt h)" using find_map [OF assms(1), of k] assms(2) by simp
  from delete_map [OF assms(1) this assms(2)] show ?thesis by blast
qed

theorem hash_delete_refines_witness:
  "\<exists>h. HASH_FIND HASH_JEN (HASH_ADD_KEYPTR HASH_JEN None ''a'' 5) ''a'' = Some h
    \<and> hash_map (HASH_DELETE (HASH_ADD_KEYPTR HASH_JEN None ''a'' 5) h) ''a'' = None"
proof -
  obtain h where h: "HASH_FIND HASH_JEN (HASH_ADD_KEYPTR HASH_JEN None ''a'' 5) ''a'' = Some h"
    using find_Some_of_map [OF one_item(1)] one_item(2) by (metis map_upd_Some_unfold)
  from hash_delete_refines [OF one_item(1) h] h show ?thesis by simp
qed

lemma delete_room: "hash_room head \<Longrightarrow> hash_room (HASH_DELETE head h)"
  by (auto simp: hash_room_def HASH_DELETE_def Let_def intro: le_less_trans [OF length_filter_le]
      split: option.split)

text \<open>Replacing an element returns the one that was filed under the key and files the new one
  instead, leaving all other keys alone.\<close>

lemma hash_replace_refines:
  assumes "hash_ok fcn head" "hash_room head" "e \<notin> set (HASH_ITER head)"
  shows "hash_ok fcn (fst (HASH_REPLACE fcn head k e))
    \<and> hash_map (fst (HASH_REPLACE fcn head k e)) = (hash_map head)(k \<mapsto> e)
    \<and> map_option hh_elt (snd (HASH_REPLACE fcn head k e)) = hash_map head k"
proof (cases "HASH_FIND fcn head k")
  case None
  then have "hash_map head k = None" using find_map [OF assms(1), of k] by simp
  then show ?thesis using ut.inv_add [OF assms(1,2)] ut.look_add [OF assms(1,2)] assms(3) None
    by (simp add: HASH_REPLACE_def)
next
  case (Some h)
  then have m: "hash_map head k = Some (hh_elt h)" using find_map [OF assms(1), of k] by simp
  have del: "hash_delete_key fcn head k = HASH_DELETE head h" by (simp add: hash_delete_key_def Some)
  from delete_room [OF assms(2)] have "hash_room (hash_delete_key fcn head k)" by (simp add: del)
  from ut.replace [OF assms(1) m this assms(3)] show ?thesis
    using m by (simp add: HASH_REPLACE_def Some del)
qed

text \<open>The invariant implies what \<open>HASH_FSCK\<close> checks in debugging builds - the counter of every
  bucket, the total, the length of the application order - and \<open>HASH_COUNT\<close> is the number of
  elements a traversal visits.\<close>

lemma hash_integrity:
  assumes "hash_ok fcn head"
  shows "HASH_FSCK head \<and> unat (HASH_COUNT head) = length (HASH_ITER head)"
  using hash_ok_FSCK hash_count assms by blast

text \<open>Doubling the bucket array loses, duplicates and reorders nothing: the same handles are in the
  chains, each in the bucket its hash value selects among twice as many, with the counters in step.\<close>

lemma hash_expansion:
  assumes "size_ok t" and "unat (log2_num_buckets t) < 31"
  shows "size_ok (HASH_EXPAND_BUCKETS t)
    \<and> buckets_ok (num_buckets (HASH_EXPAND_BUCKETS t)) (buckets (HASH_EXPAND_BUCKETS t))
    \<and> chained (buckets (HASH_EXPAND_BUCKETS t)) = chained (buckets t)
    \<and> length (buckets (HASH_EXPAND_BUCKETS t)) = 2 * length (buckets t)
    \<and> app_order (HASH_EXPAND_BUCKETS t) = app_order t"
proof -
  note ok = expand_buckets_ok [OF assms refl]
  have "length (buckets t') = 2 ^ unat (log2_num_buckets t')" if "size_ok t'" for t'
    using that by (simp add: size_ok_def)
  with assms(1) ok have "length (buckets (HASH_EXPAND_BUCKETS t)) = 2 * length (buckets t)" by simp
  with ok show ?thesis by blast
qed

end
