(* ===== verification/UtHashFns.thy ===== *)
theory UtHashFns imports UtHash begin

text \<open>
  The hash functions \<open>uthash.h\<close> offers besides the default \<open>HASH_JEN\<close>: Bernstein, SAX, FNV-1a, one at
  a time, Paul Hsieh, and Murmur as it is compiled for x86. All of them are total functions of the key
  bytes, so that the lemmas of \<open>UtHash\<close> hold for each; the bucket is \<open>HASH_TO_BKT\<close> of the value.
\<close>

definition key_byte :: "char \<Rightarrow> u32" where
  "key_byte c = of_nat (byte c)"

fun HASH_BER_loop :: "u32 \<Rightarrow> string \<Rightarrow> u32" where
  "HASH_BER_loop hashv [] = hashv"
| "HASH_BER_loop hashv (c # key) = HASH_BER_loop ((push_bit 5 hashv + hashv) + key_byte c) key"

definition HASH_BER :: "string \<Rightarrow> u32" where
  "HASH_BER key = HASH_BER_loop 0 key"

fun HASH_SAX_loop :: "u32 \<Rightarrow> string \<Rightarrow> u32" where
  "HASH_SAX_loop hashv [] = hashv"
| "HASH_SAX_loop hashv (c # key) =
     HASH_SAX_loop (xor hashv (push_bit 5 hashv + drop_bit 2 hashv + key_byte c)) key"

definition HASH_SAX :: "string \<Rightarrow> u32" where
  "HASH_SAX key = HASH_SAX_loop 0 key"

fun HASH_FNV_loop :: "u32 \<Rightarrow> string \<Rightarrow> u32" where
  "HASH_FNV_loop hashv [] = hashv"
| "HASH_FNV_loop hashv (c # key) = HASH_FNV_loop (xor hashv (key_byte c) * 16777619) key"

definition HASH_FNV :: "string \<Rightarrow> u32" where
  "HASH_FNV key = HASH_FNV_loop 2166136261 key"

fun HASH_OAT_loop :: "u32 \<Rightarrow> string \<Rightarrow> u32" where
  "HASH_OAT_loop hashv [] = hashv"
| "HASH_OAT_loop hashv (c # key) =
     (let hashv = hashv + key_byte c;
          hashv = hashv + push_bit 10 hashv;
          hashv = xor hashv (drop_bit 6 hashv)
      in HASH_OAT_loop hashv key)"

definition HASH_OAT :: "string \<Rightarrow> u32" where
  "HASH_OAT key =
     (let hashv = HASH_OAT_loop 0 key;
          hashv = hashv + push_bit 3 hashv;
          hashv = xor hashv (drop_bit 11 hashv)
      in hashv + push_bit 15 hashv)"

section \<open>Paul Hsieh\<close>

definition get16bits :: "char \<Rightarrow> char \<Rightarrow> u32" where
  "get16bits c d = push_bit 8 (key_byte d) + key_byte c"

text \<open>The main loop; the one to three bytes left are the end case.\<close>

fun HASH_SFH_loop :: "u32 \<Rightarrow> string \<Rightarrow> u32" where
  "HASH_SFH_loop hashv (a # b # c # d # key) =
     (let hashv = hashv + get16bits a b;
          tmp = xor (push_bit 11 (get16bits c d)) hashv;
          hashv = xor (push_bit 16 hashv) tmp
      in HASH_SFH_loop (hashv + drop_bit 11 hashv) key)"
| "HASH_SFH_loop hashv [a, b, c] =
     (let hashv = hashv + get16bits a b;
          hashv = xor hashv (push_bit 16 hashv);
          hashv = xor hashv (push_bit 18 (key_byte c))
      in hashv + drop_bit 11 hashv)"
| "HASH_SFH_loop hashv [a, b] =
     (let hashv = hashv + get16bits a b;
          hashv = xor hashv (push_bit 11 hashv)
      in hashv + drop_bit 17 hashv)"
| "HASH_SFH_loop hashv [a] =
     (let hashv = hashv + key_byte a;
          hashv = xor hashv (push_bit 10 hashv)
      in hashv + drop_bit 1 hashv)"
| "HASH_SFH_loop hashv [] = hashv"

definition HASH_SFH :: "string \<Rightarrow> u32" where
  "HASH_SFH key =
     (let hashv = HASH_SFH_loop 0xcafebabe key;
          hashv = xor hashv (push_bit 3 hashv);
          hashv = hashv + drop_bit 5 hashv;
          hashv = xor hashv (push_bit 4 hashv);
          hashv = hashv + drop_bit 17 hashv;
          hashv = xor hashv (push_bit 25 hashv)
      in hashv + drop_bit 6 hashv)"

section \<open>Murmur\<close>

definition MUR_ROTL32 :: "u32 \<Rightarrow> nat \<Rightarrow> u32" where
  "MUR_ROTL32 x r = or (push_bit r x) (drop_bit (32 - r) x)"

definition MUR_FMIX :: "u32 \<Rightarrow> u32" where
  "MUR_FMIX h =
     (let h = xor h (drop_bit 16 h);
          h = h * 0x85ebca6b;
          h = xor h (drop_bit 13 h);
          h = h * 0xc2b2ae35
      in xor h (drop_bit 16 h))"

text \<open>\<open>MUR_GETBLOCK\<close> on a little-endian machine.\<close>

definition MUR_GETBLOCK :: "char \<Rightarrow> char \<Rightarrow> char \<Rightarrow> char \<Rightarrow> u32" where
  "MUR_GETBLOCK a b c d =
     or (key_byte a) (or (push_bit 8 (key_byte b)) (or (push_bit 16 (key_byte c)) (push_bit 24 (key_byte d))))"

definition MUR_scramble :: "u32 \<Rightarrow> u32" where
  "MUR_scramble k = MUR_ROTL32 (k * 0xcc9e2d51) 15 * 0x1b873593"

fun HASH_MUR_loop :: "u32 \<Rightarrow> string \<Rightarrow> u32" where
  "HASH_MUR_loop h1 (a # b # c # d # key) =
     (let h1 = xor h1 (MUR_scramble (MUR_GETBLOCK a b c d));
          h1 = MUR_ROTL32 h1 13
      in HASH_MUR_loop (h1 * 5 + 0xe6546b64) key)"
| "HASH_MUR_loop h1 [a, b, c] =
     xor h1 (MUR_scramble (xor (xor (push_bit 16 (key_byte c)) (push_bit 8 (key_byte b))) (key_byte a)))"
| "HASH_MUR_loop h1 [a, b] = xor h1 (MUR_scramble (xor (push_bit 8 (key_byte b)) (key_byte a)))"
| "HASH_MUR_loop h1 [a] = xor h1 (MUR_scramble (key_byte a))"
| "HASH_MUR_loop h1 [] = h1"

definition HASH_MUR :: "string \<Rightarrow> u32" where
  "HASH_MUR key = MUR_FMIX (xor (HASH_MUR_loop 0xf88d5353 key) (of_nat (length key)))"

section \<open>Facts\<close>

text \<open>The shift and the addition are the multiplication by 33 the comment names, and the hash is the
  value of the bytes in base 33, modulo the width.\<close>

lemma BER_step: "push_bit 5 h + h = 33 * (h :: u32)"
  by (simp add: push_bit_eq_mult)

lemma HASH_BER_loop_value:
  "HASH_BER_loop (of_nat n) key = of_nat (foldl (\<lambda>n c. 33 * n + byte c) n key)"
proof (induction key arbitrary: n)
  case (Cons c key)
  have "push_bit 5 (of_nat n) + of_nat n + key_byte c = (of_nat (33 * n + byte c) :: u32)"
    unfolding BER_step by (simp add: key_byte_def)
  then show ?case using Cons.IH [of "33 * n + byte c"] by (simp only: HASH_BER_loop.simps foldl.simps)
qed simp

lemma HASH_BER_value: "HASH_BER key = of_nat (foldl (\<lambda>n c. 33 * n + byte c) 0 key)"
  using HASH_BER_loop_value [of 0 key] by (simp add: HASH_BER_def)

text \<open>\<open>MUR_ROTL32\<close> is the rotation, on the distances it is used for.\<close>

lemma MUR_ROTL32_rotl:
  assumes "0 < r" "r < 32"
  shows "MUR_ROTL32 x r = word_rotl r x"
proof (rule bit_eqI)
  fix n assume "possible_bit TYPE(u32) n"
  then have n: "n < 32" by simp
  have "(n + (32 - r)) mod 32 = (if n < r then n + (32 - r) else n - r)"
  proof (cases "n < r")
    case False
    then have "n + (32 - r) = (n - r) + 32" using assms n by simp
    moreover have "(n - r + 32) mod 32 = n - r" using n by (simp add: mod_add_self2)
    ultimately show ?thesis using False by metis
  qed (use assms n in simp)
  then have rotl: "bit (word_rotl r x) n \<longleftrightarrow> bit x (if n < r then n + (32 - r) else n - r)"
    using assms n by (simp only: bit_word_rotl_iff) simp
  have "bit (MUR_ROTL32 x r) n \<longleftrightarrow> r \<le> n \<and> bit x (n - r) \<or> bit x (n + (32 - r))"
    using n by (simp add: MUR_ROTL32_def bit_or_iff bit_push_bit_iff bit_drop_bit_eq add.commute)
  moreover have "r \<le> n \<Longrightarrow> \<not> bit x (n + (32 - r))"
    using assms bit_imp_le_length [of x "n + (32 - r)"] by auto
  ultimately show "bit (MUR_ROTL32 x r) n \<longleftrightarrow> bit (word_rotl r x) n"
    unfolding rotl by auto
qed

end
