(* ===== verification/UtHashMur.thy ===== *)
theory UtHashMur imports UtHashFns begin

unbundle bit_operations_syntax

text \<open>
  \<open>HASH_MUR\<close> of \<open>uthash.h\<close> on machines that are not x86, where the key is read as 32 bit words and an
  unaligned word is put together from two aligned ones. Memory is a map from addresses to bytes, the
  key an address and a length; \<open>big\<close> is the byte order. For an aligned key on a little-endian machine
  this is \<open>HASH_MUR\<close> of \<open>UtHashFns\<close>; for an unaligned key \<open>MUR_GETBLOCK\<close> ignores its index.
\<close>

section \<open>Reading words\<close>

type_synonym memory = "int \<Rightarrow> u8"

definition load_word :: "bool \<Rightarrow> memory \<Rightarrow> int \<Rightarrow> u32" where
  "load_word big m p =
     (let b = (\<lambda>i. ucast (m (p + i)) :: u32)
      in if big then push_bit 24 (b 0) OR push_bit 16 (b 1) OR push_bit 8 (b 2) OR b 3
         else b 0 OR push_bit 8 (b 1) OR push_bit 16 (b 2) OR push_bit 24 (b 3))"

definition WP :: "int \<Rightarrow> int" where
  "WP p = p - p mod 4"

definition MUR_THREE_ONE :: "bool \<Rightarrow> memory \<Rightarrow> int \<Rightarrow> u32" where
  "MUR_THREE_ONE big m p =
     (if big then push_bit 8 (load_word big m (WP p) AND 0x00ffffff)
               OR drop_bit 24 (load_word big m (WP p + 4) AND 0xff000000)
      else drop_bit 8 (load_word big m (WP p) AND 0xffffff00)
             OR push_bit 24 (load_word big m (WP p + 4) AND 0x000000ff))"

definition MUR_TWO_TWO :: "bool \<Rightarrow> memory \<Rightarrow> int \<Rightarrow> u32" where
  "MUR_TWO_TWO big m p =
     (if big then push_bit 16 (load_word big m (WP p) AND 0x0000ffff)
               OR drop_bit 16 (load_word big m (WP p + 4) AND 0xffff0000)
      else drop_bit 16 (load_word big m (WP p) AND 0xffff0000)
             OR push_bit 16 (load_word big m (WP p + 4) AND 0x0000ffff))"

definition MUR_ONE_THREE :: "bool \<Rightarrow> memory \<Rightarrow> int \<Rightarrow> u32" where
  "MUR_ONE_THREE big m p =
     (if big then push_bit 24 (load_word big m (WP p) AND 0x000000ff)
               OR drop_bit 8 (load_word big m (WP p + 4) AND 0xffffff00)
      else drop_bit 24 (load_word big m (WP p) AND 0xff000000)
             OR push_bit 8 (load_word big m (WP p + 4) AND 0x00ffffff))"

text \<open>\<open>p\<close> is a pointer to words, so that \<open>p[i]\<close> is four bytes times \<open>i\<close> away.\<close>

definition MUR_GETBLOCK_any :: "bool \<Rightarrow> memory \<Rightarrow> int \<Rightarrow> int \<Rightarrow> u32" where
  "MUR_GETBLOCK_any big m p i =
     (if p mod 4 = 0 then load_word big m (p + 4 * i)
      else if p mod 4 = 1 then MUR_THREE_ONE big m p
      else if p mod 4 = 2 then MUR_TWO_TWO big m p
      else MUR_ONE_THREE big m p)"

section \<open>The hash\<close>

text \<open>The loop over the blocks, \<open>n\<close> of them still to read: \<open>i\<close> is \<open>-n\<close>.\<close>

fun mur_blocks :: "bool \<Rightarrow> memory \<Rightarrow> int \<Rightarrow> nat \<Rightarrow> u32 \<Rightarrow> u32" where
  "mur_blocks big m blocks 0 h1 = h1"
| "mur_blocks big m blocks (Suc n) h1 =
     (let h1 = h1 XOR MUR_scramble (MUR_GETBLOCK_any big m blocks (- int (Suc n)));
          h1 = MUR_ROTL32 h1 13
      in mur_blocks big m blocks n (h1 * 5 + 0xe6546b64))"

definition mur_tail :: "memory \<Rightarrow> int \<Rightarrow> nat \<Rightarrow> u32 \<Rightarrow> u32" where
  "mur_tail m tail keylen h1 =
     (let b = (\<lambda>i. ucast (m (tail + i)) :: u32);
          rem = keylen mod 4;
          k1 = (if rem = 3 then push_bit 16 (b 2) else 0);
          k1 = (if rem \<ge> 2 then k1 XOR push_bit 8 (b 1) else k1)
      in if rem \<ge> 1 then h1 XOR MUR_scramble (k1 XOR b 0) else h1)"

definition HASH_MUR_any :: "bool \<Rightarrow> memory \<Rightarrow> int \<Rightarrow> nat \<Rightarrow> u32" where
  "HASH_MUR_any big m data keylen =
     (let nblocks = keylen div 4;
          blocks = data + 4 * int nblocks;
          h1 = mur_blocks big m blocks nblocks 0xf88d5353;
          h1 = mur_tail m blocks keylen h1
      in MUR_FMIX (h1 XOR of_nat keylen))"

section \<open>An unaligned word is put together correctly\<close>

lemma bit_ucast8: "bit (ucast (a :: u8) :: u32) n \<longleftrightarrow> n < 8 \<and> bit a n"
  using bit_imp_le_length [of a n] by (auto simp: bit_ucast_iff)

lemma masks:
  "(0x000000ff :: u32) = mask 8" "(0x0000ffff :: u32) = mask 16" "(0x00ffffff :: u32) = mask 24"
  "(0xff000000 :: u32) = push_bit 24 (mask 8)" "(0xffff0000 :: u32) = push_bit 16 (mask 16)"
  "(0xffffff00 :: u32) = push_bit 8 (mask 24)"
  by (simp_all add: mask_eq_exp_minus_1 push_bit_eq_mult)

text \<open>Two words in the byte order of the machine, cut and put together.\<close>

definition word_of :: "bool \<Rightarrow> u8 \<Rightarrow> u8 \<Rightarrow> u8 \<Rightarrow> u8 \<Rightarrow> u32" where
  "word_of big a b c d =
     (if big then push_bit 24 (ucast a) OR push_bit 16 (ucast b) OR push_bit 8 (ucast c) OR ucast d
      else ucast a OR push_bit 8 (ucast b) OR push_bit 16 (ucast c) OR push_bit 24 (ucast d))"

lemma load_word_of: "load_word big m p = word_of big (m p) (m (p + 1)) (m (p + 2)) (m (p + 3))"
  by (simp add: load_word_def word_of_def Let_def)

lemma bit_word_of:
  "bit (word_of False a b c d) n \<longleftrightarrow>
     (if n < 8 then bit a n else if n < 16 then bit b (n - 8) else if n < 24 then bit c (n - 16)
      else n < 32 \<and> bit d (n - 24))"
  unfolding word_of_def by (auto simp: bit_or_iff bit_push_bit_iff bit_ucast8)

lemma word_of_big: "word_of True a b c d = word_of False d c b a"
  by (simp add: word_of_def or.commute or.left_commute)

text \<open>The masks take away what the shifts take away.\<close>

lemma drop_masked: "k \<le> 32 \<Longrightarrow> drop_bit k (w AND push_bit k (mask (32 - k))) = drop_bit k (w :: u32)"
  by (rule bit_word_eqI)
    (auto simp: bit_drop_bit_eq bit_and_iff bit_push_bit_iff bit_mask_iff dest: bit_imp_le_length)

lemma push_masked: "k \<le> 32 \<Longrightarrow> push_bit k (w AND mask (32 - k)) = push_bit k (w :: u32)"
  by (rule bit_word_eqI) (auto simp: bit_and_iff bit_push_bit_iff bit_mask_iff)

lemma shift_masked:
  fixes w :: u32
  shows "drop_bit 8 (w AND push_bit 8 (mask 24)) = drop_bit 8 w" "push_bit 24 (w AND mask 8) = push_bit 24 w"
    "drop_bit 16 (w AND push_bit 16 (mask 16)) = drop_bit 16 w" "push_bit 16 (w AND mask 16) = push_bit 16 w"
    "drop_bit 24 (w AND push_bit 24 (mask 8)) = drop_bit 24 w" "push_bit 8 (w AND mask 24) = push_bit 8 w"
  using drop_masked [of 8 w] drop_masked [of 16 w] drop_masked [of 24 w]
    push_masked [of 8 w] push_masked [of 16 w] push_masked [of 24 w] by simp_all

lemma cut_words:
  "drop_bit 8 (word_of False a b c d) OR push_bit 24 (word_of False e f g h) = word_of False b c d e"
  "drop_bit 16 (word_of False a b c d) OR push_bit 16 (word_of False e f g h) = word_of False c d e f"
  "drop_bit 24 (word_of False a b c d) OR push_bit 8 (word_of False e f g h) = word_of False d e f g"
  by (rule bit_word_eqI; auto simp: bit_or_iff bit_drop_bit_eq bit_push_bit_iff bit_word_of)+

lemmas cuts = cut_words trans [OF or.commute cut_words(1)] trans [OF or.commute cut_words(2)]
  trans [OF or.commute cut_words(3)]

lemma MUR_cuts:
  assumes "q mod 4 = 0"
  shows "MUR_THREE_ONE big m (q + 1) = load_word big m (q + 1)"
    and "MUR_TWO_TWO big m (q + 2) = load_word big m (q + 2)"
    and "MUR_ONE_THREE big m (q + 3) = load_word big m (q + 3)"
proof -
  have WP: "WP (q + 1) = q" "WP (q + 2) = q" "WP (q + 3) = q"
    using assms unfolding WP_def by presburger+
  note defs = MUR_THREE_ONE_def MUR_TWO_TWO_def MUR_ONE_THREE_def WP masks shift_masked load_word_of
  show "MUR_THREE_ONE big m (q + 1) = load_word big m (q + 1)"
    unfolding defs by (cases big) (simp_all add: word_of_big cuts add.assoc)
  show "MUR_TWO_TWO big m (q + 2) = load_word big m (q + 2)"
    unfolding defs by (cases big) (simp_all add: word_of_big cuts add.assoc)
  show "MUR_ONE_THREE big m (q + 3) = load_word big m (q + 3)"
    unfolding defs by (cases big) (simp_all add: word_of_big cuts add.assoc)
qed

lemma getblock_any: "MUR_GETBLOCK_any big m p i = load_word big m (if p mod 4 = 0 then p + 4 * i else p)"
proof -
  have q: "(p - p mod 4) mod 4 = 0" by presburger
  have "p mod 4 = 0 \<or> p mod 4 = 1 \<or> p mod 4 = 2 \<or> p mod 4 = 3" by presburger
  then consider "p mod 4 = 0" | "p mod 4 = 1" | "p mod 4 = 2" | "p mod 4 = 3" by blast
  then show ?thesis
    using MUR_cuts [OF q, of big m] by cases (simp_all add: MUR_GETBLOCK_any_def)
qed

section \<open>Aligned and unaligned keys\<close>

text \<open>The key as a list of characters.\<close>

definition key_at :: "memory \<Rightarrow> int \<Rightarrow> nat \<Rightarrow> string" where
  "key_at m data keylen = map (\<lambda>i. char_of (unat (m (data + int i)))) [0..<keylen]"

lemma key_byte_at: "key_byte (char_of (unat (b :: u8))) = ucast b"
  using unsigned_less [of b, where 'a = nat] by (simp add: key_byte_def byte_def)

lemma key_at_word:
  "MUR_GETBLOCK (char_of (unat a)) (char_of (unat b)) (char_of (unat c)) (char_of (unat d)) = word_of False a b c d"
  by (simp add: MUR_GETBLOCK_def word_of_def key_byte_at or.assoc)

lemma key_at_Suc: "key_at m p (Suc k) = char_of (unat (m p)) # key_at m (p + 1) k"
  unfolding key_at_def upt_conv_Cons [OF zero_less_Suc] map_Suc_upt [symmetric] by (simp add: algebra_simps o_def)

lemma key_at_0 [simp]: "key_at m p 0 = []"
  by (simp add: key_at_def)

lemma key_at_block:
  "key_at m p (4 * Suc n + r) = char_of (unat (m p)) # char_of (unat (m (p + 1))) # char_of (unat (m (p + 2)))
     # char_of (unat (m (p + 3))) # key_at m (p + 4) (4 * n + r)"
proof -
  have "4 * Suc n + r = Suc (Suc (Suc (Suc (4 * n + r))))" by simp
  then show ?thesis by (simp only: key_at_Suc add.assoc) simp
qed

lemma mur_tail_loop:
  "r < 4 \<Longrightarrow> mur_tail m p (4 * n + r) h1 = HASH_MUR_loop h1 (key_at m p r)"
proof -
  assume "r < 4"
  then have "r = 0 \<or> r = Suc 0 \<or> r = Suc (Suc 0) \<or> r = Suc (Suc (Suc 0))" by auto
  moreover have "(4 * n + r) mod 4 = r" using \<open>r < 4\<close> by simp
  ultimately show ?thesis unfolding mur_tail_def
    by (elim disjE) (simp_all add: key_at_Suc key_byte_at Let_def add.assoc del: mod_mult_self4)
qed

lemma mur_blocks_loop:
  assumes "r < 4" "(p + 4 * int n) mod 4 = 0"
  shows "mur_tail m (p + 4 * int n) (4 * k + r) (mur_blocks False m (p + 4 * int n) n h1)
    = HASH_MUR_loop h1 (key_at m p (4 * n + r))"
  using assms(2)
proof (induction n arbitrary: p h1)
  case 0
  then show ?case using mur_tail_loop [OF assms(1), of m p k h1] by simp
next
  case (Suc n)
  let ?w = "word_of False (m p) (m (p + 1)) (m (p + 2)) (m (p + 3))"
  have block: "MUR_GETBLOCK_any False m (p + 4 * int (Suc n)) (- int (Suc n)) = ?w"
    using Suc.prems unfolding getblock_any load_word_of by (simp add: algebra_simps)
  have pos: "p + 4 * int (Suc n) = (p + 4) + 4 * int n" by simp
  note block = block [unfolded pos]
  have "(p + 4 + 4 * int n) mod 4 = 0" using Suc.prems unfolding pos .
  from Suc.IH [OF this] show ?case
    unfolding key_at_block mur_blocks.simps pos block Let_def by (simp only: HASH_MUR_loop.simps key_at_word Let_def)
qed

text \<open>On an aligned key of a little-endian machine the words are those of the key.\<close>

lemma mur_aligned:
  assumes "data mod 4 = 0"
  shows "HASH_MUR_any False m data keylen = HASH_MUR (key_at m data keylen)"
proof -
  have "(data + 4 * int (keylen div 4)) mod 4 = 0" using assms by presburger
  from mur_blocks_loop [OF _ this, of "keylen mod 4" m "keylen div 4"] show ?thesis
    by (simp add: HASH_MUR_any_def HASH_MUR_def Let_def) (simp add: key_at_def)
qed

text \<open>On machines that are not x86, \<open>HASH_MUR\<close> of an unaligned key does not look at the key:
  \<open>MUR_GETBLOCK\<close> reads the word at \<open>_mur_blocks\<close> instead of the one at its index, so that all rounds
  read the same four bytes, which begin where the whole blocks of the key end. Whatever the blocks
  hold, keys of one length with the same four bytes there have the same hash.\<close>

lemma mur_unaligned_ignores_key:
  assumes "data mod 4 \<noteq> 0"
    and "\<forall>a. data + 4 * int (keylen div 4) \<le> a \<and> a < data + 4 * int (keylen div 4) + 4 \<longrightarrow> m' a = m a"
  shows "HASH_MUR_any big m' data keylen = HASH_MUR_any big m data keylen"
proof -
  let ?p = "data + 4 * int (keylen div 4)"
  have un: "?p mod 4 \<noteq> 0" using assms(1) by presburger
  have eq: "m' ?p = m ?p" "m' (?p + 1) = m (?p + 1)" "m' (?p + 2) = m (?p + 2)" "m' (?p + 3) = m (?p + 3)"
    using assms(2) by simp_all
  then have "MUR_GETBLOCK_any big m' ?p i = MUR_GETBLOCK_any big m ?p i" for i
    unfolding getblock_any load_word_of using un by simp
  then have "mur_blocks big m' ?p n h1 = mur_blocks big m ?p n h1" for n h1
    by (induction n arbitrary: h1) (simp_all add: Let_def)
  moreover have "mur_tail m' ?p keylen h1 = mur_tail m ?p keylen h1" for h1
    using eq by (simp add: mur_tail_def Let_def)
  ultimately show ?thesis by (simp add: HASH_MUR_any_def Let_def)
qed

definition two_keys :: "u8 \<Rightarrow> memory" where
  "two_keys b a = (if a < 5 then b else 0)"

text \<open>So one key has different hashes at different addresses, and what was filed under the one is not
  found under the other.\<close>

lemma mur_depends_on_address:
  "key_at (two_keys 65) 0 4 = key_at (two_keys 65) 1 4
   \<and> HASH_MUR_any False (two_keys 65) 0 4 \<noteq> HASH_MUR_any False (two_keys 65) 1 4"
  by code_simp

end
