(* ===== verification/UtHashSort.thy ===== *)
theory UtHashSort imports UtHash begin

text \<open>
  The operations of \<open>uthash.h\<close> on a whole table: \<open>HASH_SRT\<close>, the bottom-up merge sort of the
  application order, \<open>HASH_SELECT\<close>, which files the elements with a property in a second table too, and
  \<open>HASH_CLEAR\<close>. A sort that does not end is \<open>None\<close>. (The application order is a list of handles, as in
  \<open>UtHash\<close>, whose last one is the table's \<open>tail\<close>; \<open>HASH_SELECT\<close> leaves \<open>tail\<close> at its first element, so
  \<open>HASH_ADD_KEYPTR\<close> does not describe an addition to a table that was filled by it.)
\<close>

section \<open>Sorting\<close>

text \<open>The inner loop of \<open>HASH_SRT\<close>: the run \<open>ps\<close> (\<open>p\<close> and \<open>psize\<close>) and at most \<open>qsize\<close> of the list from \<open>q\<close>
  on are merged. The result is what was taken and the list from the new \<open>q\<close> on.\<close>

fun merge_run :: "('h \<Rightarrow> 'h \<Rightarrow> int) \<Rightarrow> 'h list \<Rightarrow> 'h list \<Rightarrow> nat \<Rightarrow> 'h list \<times> 'h list" where
  "merge_run cmp [] qs 0 = ([], qs)"
| "merge_run cmp [] [] qsize = ([], [])"
| "merge_run cmp [] (q # qs) (Suc qsize) = apfst ((#) q) (merge_run cmp [] qs qsize)"
| "merge_run cmp (p # ps) qs 0 = apfst ((#) p) (merge_run cmp ps qs 0)"
| "merge_run cmp (p # ps) [] qsize = apfst ((#) p) (merge_run cmp ps [] qsize)"
| "merge_run cmp (p # ps) (q # qs) (Suc qsize) =
     (if cmp p q \<le> 0 then apfst ((#) p) (merge_run cmp ps (q # qs) (Suc qsize))
      else apfst ((#) q) (merge_run cmp (p # ps) qs qsize))"

text \<open>One pass over the list, with the number of its merges.\<close>

partial_function (option) srt_pass :: "('h \<Rightarrow> 'h \<Rightarrow> int) \<Rightarrow> nat \<Rightarrow> 'h list \<Rightarrow> ('h list \<times> nat) option" where
  "srt_pass cmp insize list =
     (if list = [] then Some ([], 0)
      else let (es, rest) = merge_run cmp (take insize list) (drop insize list) insize
           in Option.bind (srt_pass cmp insize rest) (\<lambda>(out, nmerges). Some (es @ out, nmerges + 1)))"

text \<open>The passes, with runs of twice the length each time; \<open>insize\<close> is an \<open>unsigned\<close>.\<close>

partial_function (option) srt_loop :: "('h \<Rightarrow> 'h \<Rightarrow> int) \<Rightarrow> u32 \<Rightarrow> 'h list \<Rightarrow> 'h list option" where
  "srt_loop cmp insize list =
     Option.bind (srt_pass cmp (unat insize) list) (\<lambda>(list, nmerges).
       if nmerges \<le> 1 then Some list else srt_loop cmp (insize * 2) list)"

definition HASH_SRT :: "(nat \<Rightarrow> nat \<Rightarrow> int) \<Rightarrow> UT_hash_table option \<Rightarrow> UT_hash_table option option" where
  "HASH_SRT cmpfcn head =
     (case head of
        None \<Rightarrow> Some None
      | Some tbl \<Rightarrow>
          map_option (\<lambda>list. Some (tbl\<lparr>app_order := list\<rparr>))
            (srt_loop (\<lambda>p q. cmpfcn (hh_elt p) (hh_elt q)) 1 (app_order tbl)))"

section \<open>Selecting and clearing\<close>

text \<open>One element: \<open>linked\<close> tells whether the destination was NULL when the macro was entered; otherwise
  the selected elements are chained to each other but not to the head.\<close>

definition select_item :: "bool \<Rightarrow> UT_hash_handle \<Rightarrow> UT_hash_table option \<Rightarrow> UT_hash_table option" where
  "select_item linked hh dst =
     (let tbl = (case dst of
                   None \<Rightarrow> HASH_MAKE_TABLE hh
                 | Some tbl \<Rightarrow> if linked then tbl\<lparr>app_order := app_order tbl @ [hh]\<rparr> else tbl);
          tbl = HASH_ADD_TO_BKT (HASH_TO_BKT (hh_hashv hh) (num_buckets tbl)) hh tbl
      in Some (tbl\<lparr>num_items := num_items tbl + 1\<rparr>))"

definition HASH_SELECT :: "UT_hash_table option \<Rightarrow> UT_hash_table option \<Rightarrow> (nat \<Rightarrow> bool) \<Rightarrow> UT_hash_table option" where
  "HASH_SELECT dst src cond =
     (case src of
        None \<Rightarrow> dst
      | Some s \<Rightarrow> fold (select_item (dst = None))
          (filter (\<lambda>hh. cond (hh_elt hh)) (concat (map hh_chain (buckets s)))) dst)"

definition HASH_CLEAR :: "UT_hash_table option \<Rightarrow> UT_hash_table option" where
  "HASH_CLEAR head = None"

section \<open>The sort sorts\<close>

lemma apfst_fst: "fst (apfst f x) = f (fst x)" "snd (apfst f x) = snd x"
  by (cases x; simp)+

lemma merge_run_split:
  "snd (merge_run cmp ps qs k) = drop k qs
   \<and> mset (fst (merge_run cmp ps qs k)) = mset ps + mset (take k qs)"
  by (induction cmp ps qs k rule: merge_run.induct) (auto simp: apfst_fst)

lemma merge_run_set: "set (fst (merge_run cmp ps qs k)) = set ps \<union> set (take k qs)"
  using merge_run_split [of cmp ps qs k] mset_eq_setD [of "fst (merge_run cmp ps qs k)" "ps @ take k qs"] by simp

definition total_cmp :: "('h \<Rightarrow> 'h \<Rightarrow> int) \<Rightarrow> bool" where
  "total_cmp cmp \<longleftrightarrow> (\<forall>a b. cmp a b \<le> 0 \<or> cmp b a \<le> 0) \<and> (\<forall>a b c. cmp a b \<le> 0 \<longrightarrow> cmp b c \<le> 0 \<longrightarrow> cmp a c \<le> 0)"

abbreviation in_order :: "('h \<Rightarrow> 'h \<Rightarrow> int) \<Rightarrow> 'h list \<Rightarrow> bool" where
  "in_order cmp \<equiv> sorted_wrt (\<lambda>a b. cmp a b \<le> 0)"

lemma total_cmpD:
  assumes "total_cmp cmp"
  shows "\<not> cmp a b \<le> 0 \<Longrightarrow> cmp b a \<le> 0" and "cmp a b \<le> 0 \<Longrightarrow> cmp b c \<le> 0 \<Longrightarrow> cmp a c \<le> 0"
  using assms unfolding total_cmp_def by blast+

lemma merge_run_sorted:
  "total_cmp cmp \<Longrightarrow> in_order cmp ps \<Longrightarrow> in_order cmp (take k qs) \<Longrightarrow> in_order cmp (fst (merge_run cmp ps qs k))"
proof (induction cmp ps qs k rule: merge_run.induct)
  case (6 cmp p ps q qs k)
  show ?case
  proof (cases "cmp p q \<le> 0")
    case True
    have "cmp p x \<le> 0" if "x \<in> set ps \<union> set (take (Suc k) (q # qs))" for x
      using that 6(4,5) True total_cmpD(2) [OF 6(3) True, of x] by auto
    moreover have "in_order cmp (fst (merge_run cmp ps (q # qs) (Suc k)))" using 6(1) [OF True 6(3)] 6(4,5) by simp
    ultimately show ?thesis using True by (simp add: apfst_fst merge_run_set)
  next
    case False
    note qp = total_cmpD(1) [OF 6(3) False]
    have "cmp q x \<le> 0" if "x \<in> set (p # ps) \<union> set (take k qs)" for x
      using that 6(4,5) qp total_cmpD(2) [OF 6(3) qp, of x] by auto
    moreover have "in_order cmp (fst (merge_run cmp (p # ps) qs k))" using 6(2) [OF False 6(3,4)] 6(5) by simp
    ultimately show ?thesis using False by (simp add: apfst_fst merge_run_set)
  qed
qed (auto simp: apfst_fst merge_run_set)

text \<open>The elements that compare equal to \<open>x\<close> keep their order: one of the second run is taken only when
  none of them is left in the first.\<close>

abbreviation same_as :: "('h \<Rightarrow> 'h \<Rightarrow> int) \<Rightarrow> 'h \<Rightarrow> 'h \<Rightarrow> bool" where
  "same_as cmp x y \<equiv> cmp x y \<le> 0 \<and> cmp y x \<le> 0"

lemma merge_run_stable:
  "total_cmp cmp \<Longrightarrow> in_order cmp ps \<Longrightarrow>
   filter (same_as cmp x) (fst (merge_run cmp ps qs k)) = filter (same_as cmp x) ps @ filter (same_as cmp x) (take k qs)"
proof (induction cmp ps qs k rule: merge_run.induct)
  case (6 cmp p ps q qs k)
  show ?case
  proof (cases "cmp p q \<le> 0")
    case True
    then show ?thesis using 6(1) [OF True 6(3)] 6(4) by (simp add: apfst_fst)
  next
    case False
    have "filter (same_as cmp x) (p # ps) = []" if "same_as cmp x q"
    proof -
      have "\<not> same_as cmp x y" if "y \<in> set (p # ps)" for y
      proof
        assume "same_as cmp x y"
        moreover have "cmp p y \<le> 0" using \<open>y \<in> set (p # ps)\<close> 6(4) total_cmpD(1) [OF 6(3), of p p] by auto
        ultimately show False
          using total_cmpD(2) [OF 6(3), of p y x] total_cmpD(2) [OF 6(3), of p x q] \<open>same_as cmp x q\<close> False by blast
      qed
      then show ?thesis by (intro filter_False) blast
    qed
    then show ?thesis using False 6(2) [OF False 6(3,4)] by (auto simp: apfst_fst)
  qed
qed (auto simp: apfst_fst)

text \<open>\<open>runs cmp k xs\<close>: every run of \<open>k\<close> elements is in order.\<close>

function runs :: "('h \<Rightarrow> 'h \<Rightarrow> int) \<Rightarrow> nat \<Rightarrow> 'h list \<Rightarrow> bool" where
  "runs cmp k xs \<longleftrightarrow> (if k = 0 \<or> xs = [] then True else in_order cmp (take k xs) \<and> runs cmp k (drop k xs))"
  by pat_completeness auto
termination
  by (relation "measure (\<lambda>(_, _, xs). length xs)") auto

declare runs.simps [simp del]

lemma runs_1: "runs cmp 1 xs"
proof (induction xs)
  case (Cons x xs)
  then show ?case by (subst runs.simps) simp
qed (subst runs.simps, simp)

lemma runsD: "runs cmp k xs \<Longrightarrow> 0 < k \<Longrightarrow> in_order cmp (take k xs) \<and> runs cmp k (drop k xs)"
  by (cases "xs = []") (simp_all add: runs.simps [of cmp k xs])

lemma srt_pass_0:
  assumes "srt_pass cmp k xs = Some (out, n)"
  shows "n = 0 \<longleftrightarrow> xs = []"
  using assms unfolding srt_pass.simps [of cmp k xs]
  by (auto simp: Let_def bind_eq_Some_conv split: if_splits prod.splits)

lemma srt_pass_ok:
  "total_cmp cmp \<Longrightarrow> 0 < k \<Longrightarrow> runs cmp k xs \<Longrightarrow>
   \<exists>ys n. srt_pass cmp k xs = Some (ys, n) \<and> runs cmp (2 * k) ys \<and> mset ys = mset xs
     \<and> (\<forall>x. filter (same_as cmp x) ys = filter (same_as cmp x) xs) \<and> (n \<le> 1 \<longleftrightarrow> length xs \<le> 2 * k)"
proof (induction "length xs" arbitrary: xs rule: less_induct)
  case less
  show ?case
  proof (cases "xs = []")
    case True
    then show ?thesis by (simp add: srt_pass.simps [of cmp k] runs.simps [of cmp _ "[]"])
  next
    case False
    let ?es = "fst (merge_run cmp (take k xs) (drop k xs) k)" and ?rest = "drop (2 * k) xs"
    have split: "merge_run cmp (take k xs) (drop k xs) k = (?es, ?rest)"
      using merge_run_split [of cmp "take k xs" "drop k xs" k] by (simp add: prod_eq_iff mult_2)
    have r: "in_order cmp (take k xs)" "in_order cmp (take k (drop k xs))" "runs cmp k ?rest"
      using runsD [OF less.prems(3,2)] runsD [of cmp k "drop k xs"] less.prems(2) by (auto simp: mult_2)
    have "mset ?es = mset (take k xs @ take k (drop k xs))"
      using merge_run_split [of cmp "take k xs" "drop k xs" k] by simp
    also have "take k xs @ take k (drop k xs) = take (2 * k) xs" by (simp add: mult_2 take_add)
    finally have es: "mset ?es = mset (take (2 * k) xs)" .
    have sorted: "in_order cmp ?es" by (rule merge_run_sorted [OF less.prems(1) r(1,2)])
    obtain out n where out: "srt_pass cmp k ?rest = Some (out, n)" "runs cmp (2 * k) out" "mset out = mset ?rest"
      "\<forall>x. filter (same_as cmp x) out = filter (same_as cmp x) ?rest" "n \<le> 1 \<longleftrightarrow> length ?rest \<le> 2 * k"
      using less.hyps [of ?rest] less.prems r(3) False by auto
    have run: "srt_pass cmp k xs = Some (?es @ out, n + 1)"
      using False out(1) by (subst srt_pass.simps, subst split) simp
    have "filter (same_as cmp x) (?es @ out) = filter (same_as cmp x) xs" for x
    proof -
      have "filter (same_as cmp x) (?es @ out)
          = filter (same_as cmp x) ((take k xs @ take k (drop k xs)) @ drop (2 * k) xs)"
        using merge_run_stable [OF less.prems(1) r(1), of x "drop k xs" k] out(4) by simp
      then show ?thesis unfolding \<open>take k xs @ take k (drop k xs) = take (2 * k) xs\<close> append_take_drop_id .
    qed
    moreover have len: "length ?es = min (length xs) (2 * k)" using mset_eq_length [OF es] by simp
    moreover have "runs cmp (2 * k) (?es @ out)"
    proof (cases "length xs \<le> 2 * k")
      case True
      then have "out = []" using out(3) by simp
      then show ?thesis using sorted len True by (simp add: runs.simps [of cmp _ ?es] runs.simps [of cmp _ "[]"])
    next
      case False
      then show ?thesis using sorted len out(2) by (simp add: runs.simps [of cmp _ "?es @ out"])
    qed
    moreover have "mset (?es @ out) = mset xs"
      using es out(3) append_take_drop_id [of "2 * k" xs] by (metis mset_append)
    moreover have "n + 1 \<le> 1 \<longleftrightarrow> length xs \<le> 2 * k" using srt_pass_0 [OF out(1)] by simp
    ultimately show ?thesis using run by blast
  qed
qed

lemma srt_loop_ok:
  assumes "total_cmp cmp" "length xs \<le> 2 ^ 31"
  shows "0 < unat k \<Longrightarrow> unat k \<le> 2 ^ 31 \<Longrightarrow> runs cmp (unat k) xs \<Longrightarrow>
    \<exists>ys. srt_loop cmp k xs = Some ys \<and> in_order cmp ys \<and> mset ys = mset xs
      \<and> (\<forall>x. filter (same_as cmp x) ys = filter (same_as cmp x) xs)"
  using assms(2)
proof (induction "2 ^ 32 - unat k" arbitrary: k xs rule: less_induct)
  case less
  obtain ys n where p: "srt_pass cmp (unat k) xs = Some (ys, n)" "runs cmp (2 * unat k) ys" "mset ys = mset xs"
    "\<forall>x. filter (same_as cmp x) ys = filter (same_as cmp x) xs" "n \<le> 1 \<longleftrightarrow> length xs \<le> 2 * unat k"
    using srt_pass_ok [OF assms(1) less.prems(1,3)] by blast
  have len: "length ys = length xs" by (rule mset_eq_length [OF p(3)])
  show ?case
  proof (cases "n \<le> 1")
    case True
    have "in_order cmp (take (2 * unat k) ys)" using runsD [OF p(2)] less.prems(1) by simp
    then show ?thesis using p True len by (simp add: srt_loop.simps [of cmp k xs])
  next
    case False
    then have k: "2 * unat k < 2 ^ 31" using p(5) less.prems(4) by simp
    have k2: "unat (k * 2) = 2 * unat k"
      using k by (simp add: unat_word_ariths)
    obtain zs where "srt_loop cmp (k * 2) ys = Some zs" "in_order cmp zs" "mset zs = mset ys"
      "\<forall>x. filter (same_as cmp x) zs = filter (same_as cmp x) ys"
    proof -
      have "2 ^ 32 - unat (k * 2) < 2 ^ 32 - unat k"
        unfolding k2 using k less.prems(1) by (intro diff_less_mono2) auto
      from less.hyps [OF this, of ys] have "\<exists>zs. srt_loop cmp (k * 2) ys = Some zs \<and> in_order cmp zs \<and> mset zs = mset ys
          \<and> (\<forall>x. filter (same_as cmp x) zs = filter (same_as cmp x) ys)"
        using less.prems(1,4) p(2) len k k2 by simp
      then show ?thesis using that by blast
    qed
    then show ?thesis using p(1,3,4) False by (simp add: srt_loop.simps [of cmp k xs])
  qed
qed

lemma order_update_ok:
  assumes "table_ok fcn t" "mset list = mset (app_order t)"
  shows "table_ok fcn (t\<lparr>app_order := list\<rparr>) \<and> hash_map (Some (t\<lparr>app_order := list\<rparr>)) = hash_map (Some t)"
proof -
  have s: "set list = set (app_order t)" "length list = length (app_order t)"
    using assms(2) by (rule mset_eq_setD, rule mset_eq_length)
  have d: "distinct (map f list) \<longleftrightarrow> distinct (map f (app_order t))" for f :: "UT_hash_handle \<Rightarrow> 'b"
    by (rule mset_eq_imp_distinct_iff) (simp add: assms(2) mset_map)
  have "table_ok fcn (t\<lparr>app_order := list\<rparr>)"
    using assms s by (auto simp: d table_ok_def size_ok_def)
  moreover have "map_of (map (\<lambda>h. (hh_key h, hh_elt h)) list) = map_of (map (\<lambda>h. (hh_key h, hh_elt h)) (app_order t))"
    using assms(1) s(1) by (subst map_of_inject_set) (auto simp: d table_ok_def o_def)
  ultimately show ?thesis by (simp add: hash_map_def)
qed

text \<open>Up to 2^31 elements, \<open>HASH_SRT\<close> ends, whatever total comparison it is given, with the
  elements in ascending order, and equal ones in
  the order they had; no element is lost, and every key still finds the element it found.\<close>

lemma hash_sort:
  assumes "hash_ok fcn head" "total_cmp cmp" "length (HASH_ITER head) \<le> 2 ^ 31"
  shows "\<exists>head'. HASH_SRT cmp head = Some head' \<and> hash_ok fcn head' \<and> in_order cmp (HASH_ITER head')
    \<and> mset (HASH_ITER head') = mset (HASH_ITER head) \<and> hash_map head' = hash_map head
    \<and> (\<forall>x. filter (same_as cmp x) (HASH_ITER head') = filter (same_as cmp x) (HASH_ITER head))"
proof (cases head)
  case None
  then show ?thesis by (simp add: HASH_SRT_def HASH_ITER_def hash_ok_def)
next
  case (Some t)
  let ?cmp = "\<lambda>p q. cmp (hh_elt p) (hh_elt q)"
  have "total_cmp ?cmp" using assms(2) unfolding total_cmp_def by blast
  then obtain list where l: "srt_loop ?cmp 1 (app_order t) = Some list" "in_order ?cmp list" "mset list = mset (app_order t)"
    "\<forall>h. filter (same_as ?cmp h) list = filter (same_as ?cmp h) (app_order t)"
    using srt_loop_ok [of ?cmp "app_order t" 1] runs_1 [of ?cmp "app_order t"] assms(3) Some
    by (auto simp: HASH_ITER_def)
  have "hash_ok fcn (Some (t\<lparr>app_order := list\<rparr>)) \<and> hash_map (Some (t\<lparr>app_order := list\<rparr>)) = hash_map head"
    using order_update_ok [OF _ l(3), of fcn] assms(1) Some by (simp add: hash_ok_def)
  moreover have "filter (same_as cmp x) (map hh_elt list) = filter (same_as cmp x) (map hh_elt (app_order t))" for x
    using spec [OF l(4), of "new_handle fcn [] x"] by (simp add: filter_map o_def new_handle_def)
  ultimately show ?thesis using l(1-3) Some
    by (simp add: HASH_SRT_def HASH_ITER_def sorted_wrt_map mset_map)
qed

section \<open>Selecting restricts the map\<close>

text \<open>What \<open>HASH_SELECT\<close> has built when it has filed \<open>ds\<close>.\<close>

definition built :: "UT_hash_table option \<Rightarrow> UT_hash_handle list \<Rightarrow> bool" where
  "built dst ds \<longleftrightarrow>
     (case dst of
        None \<Rightarrow> ds = []
      | Some t \<Rightarrow> ds \<noteq> [] \<and> app_order t = ds \<and> size_ok t \<and> buckets_ok (num_buckets t) (buckets t)
          \<and> chained (buckets t) = mset ds \<and> num_items t = of_nat (length ds))"

lemma select_item_built:
  assumes "built dst ds" "hash_room dst"
  shows "built (select_item True h dst) (ds @ [h])"
proof -
  define t0 where "t0 = (case dst of None \<Rightarrow> HASH_MAKE_TABLE h
      | Some tbl \<Rightarrow> tbl\<lparr>app_order := app_order tbl @ [h]\<rparr>)"
  define t1 where "t1 = HASH_ADD_TO_BKT (HASH_TO_BKT (hh_hashv h) (num_buckets t0)) h t0"
  have sel: "select_item True h dst = Some (t1\<lparr>num_items := num_items t1 + 1\<rparr>)"
    by (simp add: select_item_def t0_def t1_def Let_def split: option.split)
  have t0: "size_ok t0" "buckets_ok (num_buckets t0) (buckets t0)" "unat (log2_num_buckets t0) < 31"
    "chained (buckets t0) = mset ds" "num_items t0 = of_nat (length ds)" "app_order t0 = ds @ [h]"
    using assms make_table_ok [of h]
    by (cases dst; auto simp: t0_def built_def hash_room_def size_ok_def HASH_MAKE_TABLE_def)+
  from add_to_bkt_ok [OF t0(1-3) t1_def] show ?thesis
    unfolding sel built_def using t0(4-6) by (simp add: size_ok_items)
qed

lemma select_item_grow:
  assumes "hash_grow dst"
  shows "hash_grow (select_item True h dst)" and "hash_room (select_item True h dst) \<Longrightarrow> hash_room dst"
proof -
  define t0 where "t0 = (case dst of None \<Rightarrow> HASH_MAKE_TABLE h
      | Some tbl \<Rightarrow> tbl\<lparr>app_order := app_order tbl @ [h]\<rparr>)"
  define t1 where "t1 = HASH_ADD_TO_BKT (HASH_TO_BKT (hh_hashv h) (num_buckets t0)) h t0"
  have sel: "select_item True h dst = Some (t1\<lparr>num_items := num_items t1 + 1\<rparr>)"
    by (simp add: select_item_def t0_def t1_def Let_def split: option.split)
  have t1: "app_order t1 = app_order t0" "log2_num_buckets t1 \<in> {log2_num_buckets t0, log2_num_buckets t0 + 1}"
    by (simp_all add: t1_def HASH_ADD_TO_BKT_def Let_def expand_fields)
  show "hash_grow (select_item True h dst)"
    using assms t1 unat_Suc_le [of "log2_num_buckets t0"] unfolding sel
    by (cases dst) (auto simp: hash_grow_def t0_def HASH_MAKE_TABLE_def)
  show "hash_room dst" if room: "hash_room (select_item True h dst)"
  proof (cases dst)
    case (Some t)
    have l: "length (app_order t) < 2 ^ 31" "unat (log2_num_buckets t1) < 31"
      using room t1(1) unfolding sel by (auto simp: hash_room_def t0_def Some)
    then have "unat (log2_num_buckets t) < 2 ^ 32 - 1"
      using assms by (simp add: hash_grow_def Some)
    then have "unat (log2_num_buckets t + 1) = Suc (unat (log2_num_buckets t))"
      by (subst unat_add_lem [THEN iffD1]) simp_all
    then show ?thesis using l t1(2) by (auto simp: hash_room_def t0_def Some)
  qed (simp add: hash_room_def)
qed

lemma select_items_built:
  "hash_grow (fold (select_item True) hs None)
   \<and> (hash_room (fold (select_item True) hs None) \<longrightarrow> built (fold (select_item True) hs None) hs)"
proof (induction hs rule: rev_induct)
  case (snoc h hs)
  then show ?case
    using select_item_grow [of "fold (select_item True) hs None" h]
      select_item_built [of "fold (select_item True) hs None" hs h] by auto
qed (simp add: hash_grow_def built_def)

lemma built_ok:
  assumes "built dst ds" "hash_room dst" "\<forall>h\<in>set ds. handle_ok fcn h" "distinct (map hh_elt ds)"
    "distinct (map hh_key ds)"
  shows "hash_ok fcn dst \<and> order_of dst = ds"
  using assms by (cases dst) (auto simp: built_def hash_ok_def table_ok_def hash_room_def order_of_def)

lemma hash_map_Some_iff:
  "distinct (map hh_key (order_of head)) \<Longrightarrow>
   hash_map head k = Some e \<longleftrightarrow> (\<exists>h\<in>set (order_of head). hh_key h = k \<and> hh_elt h = e)"
  unfolding hash_map_order by (subst map_of_eq_Some_iff) (auto simp: o_def)

lemma restricted:
  assumes "\<And>e. x = Some e \<longleftrightarrow> y = Some e \<and> P e"
  shows "x = (case y of None \<Rightarrow> None | Some e \<Rightarrow> if P e then Some e else None)"
proof (cases x)
  case None
  then show ?thesis using assms by (cases y) auto
next
  case (Some e)
  then show ?thesis using assms [of e] by simp
qed

text \<open>\<open>HASH_SELECT\<close> into an empty table files exactly the elements with the property: the new table
  satisfies the invariant, and as a map it is the restriction of the old one.\<close>

lemma select_restricts:
  assumes "hash_ok fcn src" "hash_room (HASH_SELECT None src cond)"
  shows "hash_ok fcn (HASH_SELECT None src cond)
    \<and> hash_map (HASH_SELECT None src cond)
        = (\<lambda>k. case hash_map src k of None \<Rightarrow> None | Some e \<Rightarrow> if cond e then Some e else None)
    \<and> mset (HASH_ITER (HASH_SELECT None src cond)) = filter_mset cond (mset (HASH_ITER src))"
proof (cases src)
  case None
  then show ?thesis by (simp add: HASH_SELECT_def hash_ok_def HASH_ITER_def hash_map_def)
next
  case (Some s)
  define ds where "ds = filter (\<lambda>hh. cond (hh_elt hh)) (concat (map hh_chain (buckets s)))"
  let ?dst = "fold (select_item True) ds None"
  have dst: "HASH_SELECT None src cond = ?dst" by (simp add: HASH_SELECT_def Some ds_def)
  have t: "table_ok fcn s" using assms(1) Some by (simp add: hash_ok_def)
  then have m: "mset ds = filter_mset (\<lambda>hh. cond (hh_elt hh)) (mset (app_order s))"
    by (simp add: ds_def table_ok_def chained_def)
  then have mf: "mset ds = mset (filter (\<lambda>hh. cond (hh_elt hh)) (app_order s))" by simp
  have d: "distinct (map f ds)" if "distinct (map f (app_order s))" for f :: "UT_hash_handle \<Rightarrow> 'b"
    using that distinct_map_filter [OF that] mset_eq_imp_distinct_iff [of "map f ds"] mf by (metis mset_map)
  have s: "set ds = {h \<in> set (app_order s). cond (hh_elt h)}" using mset_eq_setD [OF mf] by auto
  have "built ?dst ds" using select_items_built [of ds] assms(2) dst by simp
  then have ok: "hash_ok fcn ?dst \<and> order_of ?dst = ds"
    using built_ok [of ?dst ds fcn] assms(2) dst t s by (auto simp: table_ok_def d)
  have "hash_map ?dst k = Some e \<longleftrightarrow> hash_map src k = Some e \<and> cond e" for k e
    using t ok s by (subst (1 2) hash_map_Some_iff) (auto simp: Some order_of_def table_ok_def d)
  then have "hash_map ?dst = (\<lambda>k. case hash_map src k of None \<Rightarrow> None | Some e \<Rightarrow> if cond e then Some e else None)"
    by (intro ext restricted) simp
  moreover have "mset (HASH_ITER ?dst) = filter_mset cond (mset (HASH_ITER src))"
    using ok m Some by (simp add: HASH_ITER_order order_of_def image_mset_filter_mset_swap)
  ultimately show ?thesis using ok dst by simp
qed

lemma select_items_order: "order_of (fold (select_item True) hs None) = hs"
proof -
  have "order_of (select_item True h dst) = order_of dst @ [h]" for h dst
    by (simp add: select_item_def HASH_ADD_TO_BKT_def Let_def order_of_def expand_fields
        HASH_MAKE_TABLE_def split: option.split)
  then show ?thesis by (induction hs rule: rev_induct) (simp_all add: order_of_def)
qed

lemma select_small_room:
  assumes "hash_ok fcn src" "length (HASH_ITER src) \<le> 20"
  shows "hash_room (HASH_SELECT None src cond)"
proof (cases src)
  case (Some t)
  define ds where "ds = filter (\<lambda>hh. cond (hh_elt hh)) (concat (map hh_chain (buckets t)))"
  have "mset (concat (map hh_chain (buckets t))) = mset (app_order t)"
    using assms(1) Some by (simp add: hash_ok_def table_ok_def chained_def)
  then have "length (concat (map hh_chain (buckets t))) = length (app_order t)" by (rule mset_eq_length)
  then have len: "length ds \<le> 20"
    using assms(2) Some unfolding ds_def HASH_ITER_def by (simp add: order.trans [OF length_filter_le])
  let ?dst = "fold (select_item True) ds None"
  have "HASH_SELECT None src cond = ?dst" by (simp add: HASH_SELECT_def Some ds_def)
  moreover have "hash_grow ?dst" using select_items_built by blast
  ultimately show ?thesis using len select_items_order [of ds]
    by (cases ?dst) (simp_all add: hash_room_def hash_grow_def order_of_def)
qed (simp add: HASH_SELECT_def hash_room_def)

lemma select_one_room: "hash_room (HASH_SELECT None (HASH_ADD_KEYPTR fcn None k e) cond)"
  using one_item by (intro select_small_room) simp_all

end
