(* ===== verification/UtHashBloom.thy ===== *)
theory UtHashBloom imports UtHashSort begin

text \<open>
  The hash table of \<open>uthash.h\<close> in the configuration with a bloom filter: \<open>HASH_BLOOM\<close> is defined as
  the number \<open>n\<close> of hash bits the filter looks at. The table is the one of \<open>UtHash\<close> (the field \<open>plain\<close>)
  with the filter beside it; \<open>HASH_FIND\<close> consults the filter first. The filter is shown to have no
  false negatives as long as elements are added by \<open>HASH_ADD\<close>, so that this configuration keeps the
  contract of the plain table; \<open>HASH_SELECT\<close> never tells the filter what it files.
\<close>

section \<open>The filter\<close>

record bloom_table =
  plain :: UT_hash_table
  bloom_sig :: u32
  bloom_bv :: "u8 list"
  bloom_nbits :: u8

text \<open>The code shifts \<open>1UL\<close> and \<open>1ULL\<close> by \<open>n\<close>, which is defined for \<open>n\<close> below 64 only; \<open>HASH_BLOOM\<close> is a constant of
  the build, and meant to be at most 32.\<close>

definition HASH_BLOOM_BITLEN :: "nat \<Rightarrow> nat" where
  "HASH_BLOOM_BITLEN n = 2 ^ n"

definition HASH_BLOOM_BYTELEN :: "nat \<Rightarrow> nat" where
  "HASH_BLOOM_BYTELEN n = HASH_BLOOM_BITLEN n div 8 + (if HASH_BLOOM_BITLEN n mod 8 \<noteq> 0 then 1 else 0)"

definition HASH_BLOOM_MAKE :: "nat \<Rightarrow> UT_hash_table \<Rightarrow> bloom_table" where
  "HASH_BLOOM_MAKE n tbl =
     \<lparr>plain = tbl, bloom_sig = 0xb12220f2, bloom_bv = replicate (HASH_BLOOM_BYTELEN n) 0,
      bloom_nbits = of_nat n\<rparr>"

definition HASH_BLOOM_BITSET :: "u8 list \<Rightarrow> nat \<Rightarrow> u8 list" where
  "HASH_BLOOM_BITSET bv idx = bv[idx div 8 := or (bv ! (idx div 8)) (push_bit (idx mod 8) 1)]"

definition HASH_BLOOM_BITTEST :: "u8 list \<Rightarrow> nat \<Rightarrow> u8" where
  "HASH_BLOOM_BITTEST bv idx = and (bv ! (idx div 8)) (push_bit (idx mod 8) 1)"

text \<open>The bits of the hash the filter looks at, with the mask computed in 64 bits and cut to 32.\<close>

definition bloom_index :: "bloom_table \<Rightarrow> u32 \<Rightarrow> nat" where
  "bloom_index tbl hashv = unat (and hashv (ucast (push_bit (unat (bloom_nbits tbl)) 1 - 1 :: 64 word)))"

definition HASH_BLOOM_ADD :: "bloom_table \<Rightarrow> u32 \<Rightarrow> bloom_table" where
  "HASH_BLOOM_ADD tbl hashv = tbl\<lparr>bloom_bv := HASH_BLOOM_BITSET (bloom_bv tbl) (bloom_index tbl hashv)\<rparr>"

definition HASH_BLOOM_TEST :: "bloom_table \<Rightarrow> u32 \<Rightarrow> u8" where
  "HASH_BLOOM_TEST tbl hashv = HASH_BLOOM_BITTEST (bloom_bv tbl) (bloom_index tbl hashv)"

section \<open>The operations in this configuration\<close>

definition HASH_FIND_bloom ::
  "(string \<Rightarrow> u32) \<Rightarrow> bloom_table option \<Rightarrow> string \<Rightarrow> UT_hash_handle option" where
  "HASH_FIND_bloom fcn head key =
     (case head of
        None \<Rightarrow> None
      | Some b \<Rightarrow>
          if HASH_BLOOM_TEST b (fcn key) \<noteq> 0
          then HASH_FIND_IN_BKT
                 (hh_chain (buckets (plain b) ! HASH_TO_BKT (fcn key) (num_buckets (plain b))))
                 key (of_nat (length key))
          else None)"

text \<open>\<open>HASH_MAKE_TABLE\<close> makes the filter of a new table; every other operation leaves it in its place.\<close>

definition with_filter :: "nat \<Rightarrow> bloom_table option \<Rightarrow> UT_hash_table \<Rightarrow> bloom_table" where
  "with_filter n head tbl = (case head of None \<Rightarrow> HASH_BLOOM_MAKE n tbl | Some b \<Rightarrow> b\<lparr>plain := tbl\<rparr>)"

definition HASH_ADD_KEYPTR_bloom ::
  "nat \<Rightarrow> (string \<Rightarrow> u32) \<Rightarrow> bloom_table option \<Rightarrow> string \<Rightarrow> nat \<Rightarrow> bloom_table option" where
  "HASH_ADD_KEYPTR_bloom n fcn head key add =
     map_option (\<lambda>tbl. HASH_BLOOM_ADD (with_filter n head tbl) (fcn key))
       (HASH_ADD_KEYPTR fcn (map_option plain head) key add)"

definition HASH_DELETE_bloom :: "nat \<Rightarrow> bloom_table option \<Rightarrow> UT_hash_handle \<Rightarrow> bloom_table option" where
  "HASH_DELETE_bloom n head hh =
     map_option (with_filter n head) (HASH_DELETE (map_option plain head) hh)"

definition HASH_REPLACE_bloom ::
  "nat \<Rightarrow> (string \<Rightarrow> u32) \<Rightarrow> bloom_table option \<Rightarrow> string \<Rightarrow> nat
     \<Rightarrow> bloom_table option \<times> UT_hash_handle option" where
  "HASH_REPLACE_bloom n fcn head key add =
     (let replaced = HASH_FIND_bloom fcn head key;
          head = (case replaced of None \<Rightarrow> head | Some hh \<Rightarrow> HASH_DELETE_bloom n head hh)
      in (HASH_ADD_KEYPTR_bloom n fcn head key add, replaced))"

definition select_item_bloom ::
  "nat \<Rightarrow> bool \<Rightarrow> UT_hash_handle \<Rightarrow> bloom_table option \<Rightarrow> bloom_table option" where
  "select_item_bloom n linked hh dst =
     map_option (with_filter n dst) (select_item linked hh (map_option plain dst))"

definition HASH_SELECT_bloom ::
  "nat \<Rightarrow> bloom_table option \<Rightarrow> bloom_table option \<Rightarrow> (nat \<Rightarrow> bool) \<Rightarrow> bloom_table option" where
  "HASH_SELECT_bloom n dst src cond =
     (case src of
        None \<Rightarrow> dst
      | Some s \<Rightarrow> fold (select_item_bloom n (dst = None))
          (filter (\<lambda>hh. cond (hh_elt hh)) (concat (map hh_chain (buckets (plain s))))) dst)"

text \<open>
  \<open>HASH_OVERHEAD\<close>, the memory beside the elements: the sizes are those of a 64 bit machine, where the
  filter adds 16 bytes to \<open>UT_hash_table\<close>; \<open>bloom\<close> is \<open>HASH_BLOOM\<close>, if it is defined.
\<close>

definition HASH_OVERHEAD :: "nat option \<Rightarrow> UT_hash_table option \<Rightarrow> 64 word" where
  "HASH_OVERHEAD bloom head =
     (case head of
        None \<Rightarrow> 0
      | Some tbl \<Rightarrow>
          ucast (num_items tbl) * 56 + ucast (num_buckets tbl) * 16
          + (case bloom of None \<Rightarrow> 64 + 0 | Some n \<Rightarrow> 80 + of_nat (HASH_BLOOM_BYTELEN n)))"

section \<open>What a client of a filter relies on\<close>

text \<open>Nothing that was added is ever missed.\<close>

locale hash_filter =
  fixes ok :: "'f \<Rightarrow> bool" and test :: "'f \<Rightarrow> u32 \<Rightarrow> bool" and add :: "'f \<Rightarrow> u32 \<Rightarrow> 'f"
  assumes ok_add: "ok f \<Longrightarrow> ok (add f h)"
    and test_same: "ok f \<Longrightarrow> test (add f h) h"
    and test_mono: "ok f \<Longrightarrow> test f g \<Longrightarrow> test (add f h) g"
begin

lemma covers_add: "ok f \<Longrightarrow> \<forall>g\<in>H. test f g \<Longrightarrow> \<forall>g\<in>insert h H. test (add f h) g"
  by (simp add: test_same test_mono)

text \<open>A lookup that asks the filter first finds what a lookup finds that does not.\<close>

lemma find_guarded:
  assumes "\<forall>g\<in>H. test f g" and "found \<noteq> None \<Longrightarrow> h \<in> H"
  shows "(if test f h then found else None) = found"
  using assms by (cases found) auto

end

definition filter_sized :: "nat \<Rightarrow> bloom_table \<Rightarrow> bool" where
  "filter_sized n b \<longleftrightarrow> bloom_nbits b = of_nat n \<and> length (bloom_bv b) = HASH_BLOOM_BYTELEN n"

lemma bloom_index_bound:
  assumes "filter_sized n b"
  shows "bloom_index b h div 8 < length (bloom_bv b)"
proof -
  have "bloom_index b h = unat (take_bit (unat (bloom_nbits b)) h)"
    unfolding bloom_index_def
    by (intro arg_cong [of _ _ unat] bit_word_eqI)
      (auto simp: bit_and_iff bit_ucast_iff bit_take_bit_iff mask_eq_exp_minus_1 [symmetric] push_bit_of_1
        bit_mask_iff)
  then have "bloom_index b h < 2 ^ unat (bloom_nbits b)" by (simp add: unsigned_take_bit_eq)
  moreover have "unat (bloom_nbits b) \<le> n"
    using assms by (simp add: filter_sized_def unat_of_nat mod_less_eq_dividend)
  ultimately have "bloom_index b h < 2 ^ n" by (meson order_less_le_trans power_increasing one_le_numeral)
  moreover have "length (bloom_bv b) = 2 ^ n div 8 + (if 2 ^ n mod 8 \<noteq> (0::nat) then 1 else 0)"
    using assms by (simp add: filter_sized_def HASH_BLOOM_BYTELEN_def HASH_BLOOM_BITLEN_def)
  ultimately show ?thesis by (auto split: if_splits)
qed

lemma bit_test_set:
  assumes "idx div 8 < length bv"
  shows "HASH_BLOOM_BITTEST (HASH_BLOOM_BITSET bv idx) idx \<noteq> 0"
    and "HASH_BLOOM_BITTEST bv j \<noteq> 0 \<Longrightarrow> HASH_BLOOM_BITTEST (HASH_BLOOM_BITSET bv idx) j \<noteq> 0"
proof -
  have test: "HASH_BLOOM_BITTEST cv k \<noteq> 0 \<longleftrightarrow> bit (cv ! (k div 8)) (k mod 8)" for cv k
    by (simp add: HASH_BLOOM_BITTEST_def push_bit_of_1 and_exp_eq_0_iff_not_bit)
  show "HASH_BLOOM_BITTEST (HASH_BLOOM_BITSET bv idx) idx \<noteq> 0"
    unfolding test using assms by (simp add: HASH_BLOOM_BITSET_def bit_or_iff bit_exp_iff)
  show "HASH_BLOOM_BITTEST (HASH_BLOOM_BITSET bv idx) j \<noteq> 0" if "HASH_BLOOM_BITTEST bv j \<noteq> 0"
    using that assms unfolding test
    by (cases "idx div 8 = j div 8") (simp_all add: HASH_BLOOM_BITSET_def bit_or_iff)
qed

lemma bloom_index_add [simp]: "bloom_index (HASH_BLOOM_ADD b h) g = bloom_index b g"
  by (simp add: bloom_index_def HASH_BLOOM_ADD_def)

interpretation bf: hash_filter "filter_sized n" "\<lambda>b h. HASH_BLOOM_TEST b h \<noteq> 0" HASH_BLOOM_ADD for n
proof
  fix b h g assume b: "filter_sized n b"
  note set = bit_test_set [OF bloom_index_bound [OF b]]
  show "filter_sized n (HASH_BLOOM_ADD b h)"
    using b by (simp add: filter_sized_def HASH_BLOOM_ADD_def HASH_BLOOM_BITSET_def)
  have add: "HASH_BLOOM_TEST (HASH_BLOOM_ADD b h) g' =
      HASH_BLOOM_BITTEST (HASH_BLOOM_BITSET (bloom_bv b) (bloom_index b h)) (bloom_index b g')" for g'
    by (simp add: HASH_BLOOM_TEST_def) (simp add: HASH_BLOOM_ADD_def)
  show "HASH_BLOOM_TEST (HASH_BLOOM_ADD b h) h \<noteq> 0" unfolding add by (rule set)
  show "HASH_BLOOM_TEST (HASH_BLOOM_ADD b h) g \<noteq> 0" if "HASH_BLOOM_TEST b g \<noteq> 0"
    using set(2) that by (simp add: add HASH_BLOOM_TEST_def [of b])
qed

section \<open>The table with the filter\<close>

text \<open>The filter knows the hash of every element in the table.\<close>

definition bloom_ok :: "nat \<Rightarrow> (string \<Rightarrow> u32) \<Rightarrow> bloom_table option \<Rightarrow> bool" where
  "bloom_ok n fcn head \<longleftrightarrow> hash_ok fcn (map_option plain head)
     \<and> pred_option (\<lambda>b. filter_sized n b
         \<and> (\<forall>g\<in>hh_hashv ` set (app_order (plain b)). HASH_BLOOM_TEST b g \<noteq> 0)) head"

lemma plain_HASH_BLOOM_ADD [simp]: "plain (HASH_BLOOM_ADD b h) = plain b"
  by (simp add: HASH_BLOOM_ADD_def)

lemma plain_with_filter [simp]: "plain (with_filter n head t) = t"
  by (simp add: with_filter_def HASH_BLOOM_MAKE_def split: option.split)

lemma plain_ops:
  "map_option plain (HASH_ADD_KEYPTR_bloom n fcn head k e) = HASH_ADD_KEYPTR fcn (map_option plain head) k e"
  "map_option plain (HASH_DELETE_bloom n head hh) = HASH_DELETE (map_option plain head) hh"
  "map_option plain (select_item_bloom n linked hh dst) = select_item linked hh (map_option plain dst)"
  by (simp_all add: HASH_ADD_KEYPTR_bloom_def HASH_DELETE_bloom_def select_item_bloom_def
      option.map_comp o_def option.map_ident)

lemma bloom_plain: "bloom_ok n fcn head \<Longrightarrow> hash_ok fcn (map_option plain head)"
  by (simp add: bloom_ok_def)

lemma bloom_None: "bloom_ok n fcn None"
  by (simp add: bloom_ok_def hash_ok_None)

lemma filter_sized_make: "filter_sized n (HASH_BLOOM_MAKE n t)"
  by (simp add: filter_sized_def HASH_BLOOM_MAKE_def)

lemma filter_with:
  "filter_sized n (b\<lparr>plain := t\<rparr>) \<longleftrightarrow> filter_sized n b"
  "HASH_BLOOM_TEST (b\<lparr>plain := t\<rparr>) h = HASH_BLOOM_TEST b h"
  by (simp_all add: filter_sized_def HASH_BLOOM_TEST_def bloom_index_def)

lemma with_filter_covers:
  assumes "bloom_ok n fcn head"
  shows "filter_sized n (with_filter n head t)"
    and "\<forall>g\<in>hh_hashv ` set (order_of (map_option plain head)). HASH_BLOOM_TEST (with_filter n head t) g \<noteq> 0"
  using assms
  by (cases head; simp add: bloom_ok_def with_filter_def filter_sized_make filter_with order_of_def)+

lemma bloom_find:
  assumes "bloom_ok n fcn head"
  shows "HASH_FIND_bloom fcn head key = HASH_FIND fcn (map_option plain head) key"
proof (cases head)
  case (Some b)
  let ?H = "hh_hashv ` set (app_order (plain b))"
  have "fcn key \<in> ?H" if "HASH_FIND fcn (Some (plain b)) key = Some h" for h
    using find_iff [of fcn "Some (plain b)" key h] that assms
    by (force simp: bloom_ok_def Some order_of_def hash_ok_def table_ok_def handle_ok_def)
  moreover have "\<forall>g\<in>?H. HASH_BLOOM_TEST b g \<noteq> 0" using assms by (simp add: bloom_ok_def Some)
  ultimately have "(if HASH_BLOOM_TEST b (fcn key) \<noteq> 0 then HASH_FIND fcn (Some (plain b)) key else None)
      = HASH_FIND fcn (Some (plain b)) key"
    by (intro bf.find_guarded [of ?H]) auto
  then show ?thesis by (simp only: HASH_FIND_bloom_def HASH_FIND_def Some option.case option.map)
qed (simp add: HASH_FIND_bloom_def HASH_FIND_def)

lemma bloom_add:
  assumes "bloom_ok n fcn head" "hash_room (map_option plain head)"
    "hash_map (map_option plain head) k = None" "e \<notin> set (HASH_ITER (map_option plain head))"
  shows "bloom_ok n fcn (HASH_ADD_KEYPTR_bloom n fcn head k e)"
proof -
  have plain_ok: "hash_ok fcn (map_option plain head)" using assms(1) by (simp add: bloom_ok_def)
  obtain t where t: "HASH_ADD_KEYPTR fcn (map_option plain head) k e = Some t" "table_ok fcn t"
    "app_order t = order_of (map_option plain head) @ [new_handle fcn k e]"
    using add_order [OF plain_ok assms(2-4)] by blast
  let ?b = "with_filter n head t"
  note cov = with_filter_covers [OF assms(1), of t]
  have "\<forall>g\<in>insert (fcn k) (hh_hashv ` set (order_of (map_option plain head))).
      HASH_BLOOM_TEST (HASH_BLOOM_ADD ?b (fcn k)) g \<noteq> 0"
    by (rule bf.covers_add [OF cov])
  then have "\<forall>g\<in>hh_hashv ` set (app_order t). HASH_BLOOM_TEST (HASH_BLOOM_ADD ?b (fcn k)) g \<noteq> 0"
    by (simp add: t(3) new_handle_def)
  then show ?thesis
    using bf.ok_add [OF cov(1)] t(1,2)
    by (simp add: bloom_ok_def HASH_ADD_KEYPTR_bloom_def hash_ok_def)
qed

lemma bloom_delete:
  assumes "bloom_ok n fcn head" "HASH_FIND fcn (map_option plain head) k = Some h"
  shows "bloom_ok n fcn (HASH_DELETE_bloom n head h)"
proof (cases head)
  case (Some b)
  have ok: "hash_ok fcn (HASH_DELETE (Some (plain b)) h)"
    using hash_delete_refines [of fcn "Some (plain b)"] delete_map(1) assms by (auto simp: bloom_ok_def Some)
  have "set (app_order t) \<subseteq> set (app_order (plain b))" if "HASH_DELETE (Some (plain b)) h = Some t" for t
    using that by (auto simp: HASH_DELETE_def Let_def split: if_splits)
  then have "\<forall>g\<in>hh_hashv ` set (app_order t). HASH_BLOOM_TEST b g \<noteq> 0"
    if "HASH_DELETE (Some (plain b)) h = Some t" for t
    using that assms(1) by (fastforce simp: bloom_ok_def Some)
  with ok assms show ?thesis
    by (cases "HASH_DELETE (Some (plain b)) h")
      (simp_all add: bloom_ok_def Some HASH_DELETE_bloom_def with_filter_def filter_with)
qed (use assms in \<open>simp add: HASH_FIND_def\<close>)

definition bloom_delete_key :: "nat \<Rightarrow> (string \<Rightarrow> u32) \<Rightarrow> bloom_table option \<Rightarrow> string \<Rightarrow> bloom_table option" where
  "bloom_delete_key n fcn head key =
     (case HASH_FIND_bloom fcn head key of None \<Rightarrow> head | Some h \<Rightarrow> HASH_DELETE_bloom n head h)"

lemma bloom_delete_key:
  assumes "bloom_ok n fcn head" "hash_map (map_option plain head) k = Some e"
  shows "bloom_ok n fcn (bloom_delete_key n fcn head k)"
    and "map_option plain (bloom_delete_key n fcn head k) = hash_delete_key fcn (map_option plain head) k"
  using assms bloom_delete [of n fcn head k] find_Some_of_map [of fcn "map_option plain head" k e]
  by (auto simp: bloom_delete_key_def hash_delete_key_def bloom_find plain_ops bloom_ok_def)

text \<open>With the filter the table keeps the contract it has without.\<close>

interpretation bloom: registry_del "bloom_ok n fcn" "\<lambda>head. hash_room (map_option plain head)" None
  "\<lambda>head. hash_map (map_option plain head)" "HASH_ADD_KEYPTR_bloom n fcn"
  "\<lambda>head. HASH_ITER (map_option plain head)" "bloom_delete_key n fcn" for n fcn
  by unfold_locales
    (auto simp: bloom_None bloom_plain plain_ops hash_ok_None add_map hash_delete_key bloom_delete_key
      intro: bloom_add bloom_delete_key(1) dest: bloom_plain hash_map_elem)

section \<open>With and without the filter\<close>

lemma bloom_replace:
  assumes "bloom_ok n fcn head" "hash_room (map_option plain head)" "e \<notin> set (HASH_ITER (map_option plain head))"
  shows "bloom_ok n fcn (fst (HASH_REPLACE_bloom n fcn head k e))"
proof (cases "HASH_FIND fcn (map_option plain head) k")
  case None
  then have "hash_map (map_option plain head) k = None"
    using find_map [OF bloom_plain [OF assms(1)], of k] by simp
  then show ?thesis using bloom.inv_add [OF assms(1,2) _ assms(3)] None
    by (simp add: HASH_REPLACE_bloom_def bloom_find [OF assms(1)])
next
  case (Some h)
  then have m: "hash_map (map_option plain head) k = Some (hh_elt h)"
    using find_map [OF bloom_plain [OF assms(1)], of k] by simp
  have del: "bloom_delete_key n fcn head k = HASH_DELETE_bloom n head h"
    by (simp add: bloom_delete_key_def bloom_find [OF assms(1)] Some)
  have "hash_room (map_option plain (bloom_delete_key n fcn head k))"
    unfolding del plain_ops by (rule delete_room [OF assms(2)])
  from bloom.replace(1) [OF assms(1) m this assms(3)] show ?thesis
    by (simp add: HASH_REPLACE_bloom_def bloom_find [OF assms(1)] Some del)
qed

text \<open>C30: The bloom filter changes nothing but the time: in a table with a filter over any number of
  hash bits (below 64, for which the code is defined), \<open>HASH_FIND\<close> finds what it finds without the filter (there are no false negatives), and
  adding or replacing an element gives the table it gives without, with a filter that still knows every
  element - whatever the hash function and however often the buckets were doubled.\<close>

theorem bloom_filter_transparent:
  assumes "bloom_ok n fcn head" "hash_room (map_option plain head)" "e \<notin> set (HASH_ITER (map_option plain head))"
  shows "HASH_FIND_bloom fcn head k = HASH_FIND fcn (map_option plain head) k
    \<and> map_option plain (fst (HASH_REPLACE_bloom n fcn head k' e))
        = fst (HASH_REPLACE fcn (map_option plain head) k' e)
    \<and> bloom_ok n fcn (fst (HASH_REPLACE_bloom n fcn head k' e))"
proof -
  have "map_option plain (fst (HASH_REPLACE_bloom n fcn head k' e))
      = fst (HASH_REPLACE fcn (map_option plain head) k' e)"
    by (cases "HASH_FIND fcn (map_option plain head) k'")
      (simp_all add: HASH_REPLACE_bloom_def HASH_REPLACE_def bloom_find [OF assms(1)] plain_ops)
  with bloom_find [OF assms(1)] bloom_replace [OF assms] show ?thesis by simp
qed

theorem bloom_filter_transparent_witness:
  "HASH_FIND_bloom HASH_JEN (HASH_ADD_KEYPTR_bloom 5 HASH_JEN None ''a'' 7) ''a'' \<noteq> None"
proof -
  let ?head = "HASH_ADD_KEYPTR_bloom 5 HASH_JEN None ''a'' 7"
  note one = one_item [of HASH_JEN "''a''" 7]
  have plain: "map_option plain ?head = HASH_ADD_KEYPTR HASH_JEN None ''a'' 7" by (simp add: plain_ops)
  have "bloom_ok 5 HASH_JEN ?head"
    using bloom_add [OF bloom_None [of 5 HASH_JEN]] by (simp add: hash_ok_None hash_room_def)
  moreover have "hash_room (map_option plain ?head)"
    using hash_grow_add(1) [of None HASH_JEN "''a''" 7] one(3) unfolding plain
    by (auto simp: hash_room_def hash_grow_def HASH_ITER_def split: option.splits)
  ultimately have "HASH_FIND_bloom HASH_JEN ?head ''a'' = HASH_FIND HASH_JEN (map_option plain ?head) ''a''"
    using bloom_filter_transparent [of 5 HASH_JEN ?head 8 "''a''"] one(3) unfolding plain by simp
  then show ?thesis using find_Some_of_map [OF one(1), of "''a''" 7] one(2) plain by simp
qed

section \<open>Selecting forgets the filter\<close>

definition filter_blank :: "nat \<Rightarrow> bloom_table option \<Rightarrow> bool" where
  "filter_blank n dst \<longleftrightarrow>
     pred_option (\<lambda>b. filter_sized n b \<and> bloom_bv b = replicate (HASH_BLOOM_BYTELEN n) 0) dst"

lemma blank_find: "filter_blank n dst \<Longrightarrow> HASH_FIND_bloom fcn dst k = None"
proof (cases dst)
  case (Some b)
  assume "filter_blank n dst"
  then have "HASH_BLOOM_TEST b (fcn k) = 0"
    using bloom_index_bound [of n b "fcn k"]
    by (simp add: filter_blank_def Some HASH_BLOOM_TEST_def HASH_BLOOM_BITTEST_def)
  then show ?thesis by (simp add: HASH_FIND_bloom_def Some)
qed (simp add: HASH_FIND_bloom_def)

lemma select_blank:
  assumes "filter_blank n dst"
  shows "filter_blank n (fold (select_item_bloom n linked) hs dst)"
    and "map_option plain (fold (select_item_bloom n linked) hs dst)
      = fold (select_item linked) hs (map_option plain dst)"
proof -
  have "filter_blank n (select_item_bloom n linked h dst)" if "filter_blank n dst" for h dst
    using that filter_sized_make [of n]
    by (cases dst; cases "select_item linked h (map_option plain dst)")
      (auto simp: filter_blank_def select_item_bloom_def with_filter_def HASH_BLOOM_MAKE_def filter_with)
  with assms show "filter_blank n (fold (select_item_bloom n linked) hs dst)"
    by (induction hs arbitrary: dst) simp_all
  show "map_option plain (fold (select_item_bloom n linked) hs dst)
      = fold (select_item linked) hs (map_option plain dst)"
    by (induction hs arbitrary: dst) (simp_all add: plain_ops)
qed

lemma select_bloom:
  "map_option plain (HASH_SELECT_bloom n None src cond) = HASH_SELECT None (map_option plain src) cond"
  "filter_blank n (HASH_SELECT_bloom n None src cond)"
  by (cases src; simp add: HASH_SELECT_bloom_def HASH_SELECT_def select_blank filter_blank_def)
    (cases src; simp add: HASH_SELECT_bloom_def select_blank(1) filter_blank_def [of n None])

text \<open>With a bloom filter, nothing that \<open>HASH_SELECT\<close> files in a new table can be found in it:
  \<open>HASH_SELECT\<close> puts the element into its bucket and counts it, but never adds its hash to the filter,
  so that \<open>HASH_FIND\<close> does not look into the bucket.\<close>

lemma select_misses_filter:
  assumes "bloom_ok n fcn src" "hash_room (map_option plain (HASH_SELECT_bloom n None src cond))"
    and "hash_map (map_option plain src) k = Some e" "cond e"
  shows "hash_map (map_option plain (HASH_SELECT_bloom n None src cond)) k = Some e
    \<and> HASH_FIND_bloom fcn (HASH_SELECT_bloom n None src cond) k = None"
proof -
  let ?src = "map_option plain src"
  have "hash_map (HASH_SELECT None ?src cond)
      = (\<lambda>k. case hash_map ?src k of None \<Rightarrow> None | Some e \<Rightarrow> if cond e then Some e else None)"
    using select_restricts [OF bloom_plain [OF assms(1)]] assms(2) by (simp add: select_bloom)
  then show ?thesis using assms(3,4) blank_find [OF select_bloom(2)] by (simp add: select_bloom)
qed

end
