(* ===== verification/UtHashChain.thy ===== *)
theory UtHashChain imports UtHashSort Chains begin

text \<open>
  The hash table of \<open>uthash.h\<close> with its pointers: the application order is linked by \<open>next\<close> and
  \<open>prev\<close> of the handles and ends at \<open>tail\<close>, every bucket is linked by \<open>hh_next\<close> and \<open>hh_prev\<close> from
  \<open>hh_head\<close>. The other theories take these chains for lists; here the operations run on the pointers
  and are shown to keep the representation. A handle and its element have one address (they lie at a
  fixed distance \<open>hho\<close>). What dereferences NULL or runs forever is \<open>None\<close>.
\<close>

section \<open>The structure\<close>

record pbucket =
  pb_head :: "nat option"
  pb_count :: u32
  pb_mult :: u32

record ptable =
  elts :: "nat \<Rightarrow> UT_hash_handle"
  thead :: "nat option"
  ord :: chain
  tail :: nat
  blinks :: chain
  pbuckets :: "pbucket list"
  p_num :: u32
  p_log2 :: u32
  p_items :: u32
  p_ideal :: u32
  p_nonideal :: u32
  p_ineff :: u32
  p_noexpand :: u32

definition empty_pbucket :: pbucket where
  "empty_pbucket = \<lparr>pb_head = None, pb_count = 0, pb_mult = 0\<rparr>"

text \<open>\<open>HASH_MAKE_TABLE\<close> for the element \<open>a\<close>.\<close>

definition make_table_ptr :: "nat \<Rightarrow> ptable \<Rightarrow> ptable" where
  "make_table_ptr a pt = pt\<lparr>thead := Some a, tail := a, pbuckets := replicate 32 empty_pbucket,
     p_num := 32, p_log2 := 5, p_items := 0, p_ideal := 0, p_nonideal := 0, p_ineff := 0, p_noexpand := 0\<rparr>"

section \<open>Buckets\<close>

text \<open>A handle is linked in front of the head of a bucket.\<close>

definition bucket_link :: "nat \<Rightarrow> nat option \<Rightarrow> chain \<Rightarrow> chain" where
  "bucket_link a first links =
     (let links = set_prev a None (set_next a first links)
      in case first of None \<Rightarrow> links | Some x \<Rightarrow> set_prev x (Some a) links)"

definition expand_item_ptr ::
  "u32 \<Rightarrow> u32 \<Rightarrow> (nat \<Rightarrow> UT_hash_handle) \<Rightarrow> nat \<Rightarrow> chain \<times> pbucket list \<times> u32 \<Rightarrow> chain \<times> pbucket list \<times> u32" where
  "expand_item_ptr num_bkts ideal es thh st =
     (let (links, new_buckets, nonideal) = st;
          bkt = HASH_TO_BKT (hh_hashv (es thh)) num_bkts;
          newbkt = new_buckets ! bkt;
          newbkt = newbkt\<lparr>pb_count := pb_count newbkt + 1\<rparr>;
          (newbkt, nonideal) =
            (if ideal < pb_count newbkt
             then (newbkt\<lparr>pb_mult := pb_count newbkt div ideal\<rparr>, nonideal + 1)
             else (newbkt, nonideal));
          links = bucket_link thh (pb_head newbkt) links;
          newbkt = newbkt\<lparr>pb_head := Some thh\<rparr>
      in (links, new_buckets[bkt := newbkt], nonideal))"

text \<open>The inner loop of \<open>HASH_EXPAND_BUCKETS\<close> reads \<open>hh_next\<close> before the handle moves.\<close>

partial_function (option) expand_walk ::
  "u32 \<Rightarrow> u32 \<Rightarrow> (nat \<Rightarrow> UT_hash_handle) \<Rightarrow> nat option \<Rightarrow> chain \<times> pbucket list \<times> u32
     \<Rightarrow> (chain \<times> pbucket list \<times> u32) option" where
  "expand_walk num_bkts ideal es thh st =
     (case thh of
        None \<Rightarrow> Some st
      | Some a \<Rightarrow>
          let hh_nxt = nxt (fst st) a
          in expand_walk num_bkts ideal es hh_nxt (expand_item_ptr num_bkts ideal es a st))"

fun expand_buckets_walk ::
  "u32 \<Rightarrow> u32 \<Rightarrow> (nat \<Rightarrow> UT_hash_handle) \<Rightarrow> pbucket list \<Rightarrow> chain \<times> pbucket list \<times> u32
     \<Rightarrow> (chain \<times> pbucket list \<times> u32) option" where
  "expand_buckets_walk num_bkts ideal es [] st = Some st"
| "expand_buckets_walk num_bkts ideal es (b # bs) st =
     Option.bind (expand_walk num_bkts ideal es (pb_head b) st) (expand_buckets_walk num_bkts ideal es bs)"

definition expand_ptr :: "ptable \<Rightarrow> ptable option" where
  "expand_ptr pt =
     (let ideal = drop_bit (unat (p_log2 pt) + 1) (p_items pt)
            + (if and (p_items pt) (p_num pt * 2 - 1) \<noteq> 0 then 1 else 0)
      in map_option (\<lambda>(links, new_buckets, nonideal).
           let ineff = (if drop_bit 1 (p_items pt) < nonideal then p_ineff pt + 1 else 0)
           in pt\<lparr>p_ideal := ideal, p_nonideal := nonideal, blinks := links, p_num := p_num pt * 2,
                 p_log2 := p_log2 pt + 1, pbuckets := new_buckets, p_ineff := ineff,
                 p_noexpand := (if 1 < ineff then 1 else p_noexpand pt)\<rparr>)
         (expand_buckets_walk (p_num pt * 2) ideal (elts pt) (pbuckets pt)
            (blinks pt, replicate (2 * unat (p_num pt)) empty_pbucket, 0)))"

definition add_to_bkt_ptr :: "nat \<Rightarrow> nat \<Rightarrow> ptable \<Rightarrow> ptable option" where
  "add_to_bkt_ptr bkt a pt =
     (let head = pbuckets pt ! bkt;
          head = head\<lparr>pb_count := pb_count head + 1\<rparr>;
          links = bucket_link a (pb_head head) (blinks pt);
          head = head\<lparr>pb_head := Some a\<rparr>;
          pt = pt\<lparr>blinks := links, pbuckets := (pbuckets pt)[bkt := head]\<rparr>
      in if (pb_mult head + 1) * HASH_BKT_CAPACITY_THRESH \<le> pb_count head \<and> p_noexpand pt \<noteq> 1
         then expand_ptr pt
         else Some pt)"

definition del_in_bkt_ptr :: "nat \<Rightarrow> pbucket \<Rightarrow> chain \<Rightarrow> pbucket \<times> chain" where
  "del_in_bkt_ptr del head links =
     (let head = head\<lparr>pb_count := pb_count head - 1\<rparr>;
          head = (if pb_head head = Some del then head\<lparr>pb_head := nxt links del\<rparr> else head);
          links = (case prv links del of None \<Rightarrow> links | Some p \<Rightarrow> set_next p (nxt links del) links);
          links = (case nxt links del of None \<Rightarrow> links | Some n \<Rightarrow> set_prev n (prv links del) links)
      in (head, links))"

partial_function (option) find_walk ::
  "(nat \<Rightarrow> UT_hash_handle) \<Rightarrow> (nat \<Rightarrow> nat option) \<Rightarrow> string \<Rightarrow> u32 \<Rightarrow> nat option \<Rightarrow> nat option option" where
  "find_walk es n key keylen out =
     (case out of
        None \<Rightarrow> Some None
      | Some a \<Rightarrow>
          if hh_keylen (es a) = keylen \<and> HASH_KEYCMP (hh_key (es a)) key then Some out
          else find_walk es n key keylen (n a))"

section \<open>The operations\<close>

definition find_ptr :: "(string \<Rightarrow> u32) \<Rightarrow> string \<Rightarrow> ptable \<Rightarrow> nat option option" where
  "find_ptr fcn key pt =
     (case thead pt of
        None \<Rightarrow> Some None
      | Some _ \<Rightarrow>
          find_walk (elts pt) (nxt (blinks pt)) key (of_nat (length key))
            (pb_head (pbuckets pt ! HASH_TO_BKT (fcn key) (p_num pt))))"

definition add_ptr :: "(string \<Rightarrow> u32) \<Rightarrow> string \<Rightarrow> nat \<Rightarrow> ptable \<Rightarrow> ptable option" where
  "add_ptr fcn key add pt =
     (let pt = pt\<lparr>ord := set_next add None (ord pt)\<rparr>;
          pt = (case thead pt of
                  None \<Rightarrow> make_table_ptr add (pt\<lparr>ord := set_prev add None (ord pt)\<rparr>)
                | Some _ \<Rightarrow>
                    pt\<lparr>ord := set_prev add (Some (tail pt)) (set_next (tail pt) (Some add) (ord pt)),
                       tail := add\<rparr>);
          pt = pt\<lparr>p_items := p_items pt + 1,
                  elts := (elts pt)(add := \<lparr>hh_elt = add, hh_key = key,
                    hh_keylen = of_nat (length key), hh_hashv = fcn key\<rparr>)\<rparr>
      in add_to_bkt_ptr (HASH_TO_BKT (fcn key) (p_num pt)) add pt)"

text \<open>\<open>HASH_DELETE\<close>. If the last element had no predecessor, \<open>tail\<close> would be computed from NULL.\<close>

definition delete_ptr :: "nat \<Rightarrow> ptable \<Rightarrow> ptable option" where
  "delete_ptr del pt =
     (if prv (ord pt) del = None \<and> nxt (ord pt) del = None then Some (pt\<lparr>thead := None\<rparr>)
      else if del = tail pt \<and> prv (ord pt) del = None then None
      else
        let pt = (if del = tail pt then pt\<lparr>tail := the (prv (ord pt) del)\<rparr> else pt);
            pt = (case prv (ord pt) del of
                    Some p \<Rightarrow> pt\<lparr>ord := set_next p (nxt (ord pt) del) (ord pt)\<rparr>
                  | None \<Rightarrow> pt\<lparr>thead := nxt (ord pt) del\<rparr>);
            pt = (case nxt (ord pt) del of
                    Some n \<Rightarrow> pt\<lparr>ord := set_prev n (prv (ord pt) del) (ord pt)\<rparr>
                  | None \<Rightarrow> pt);
            bkt = HASH_TO_BKT (hh_hashv (elts pt del)) (p_num pt);
            (head, links) = del_in_bkt_ptr del (pbuckets pt ! bkt) (blinks pt)
        in Some (pt\<lparr>blinks := links, pbuckets := (pbuckets pt)[bkt := head], p_items := p_items pt - 1\<rparr>))"

text \<open>A loop over the elements of a chain.\<close>

partial_function (option) walk :: "(nat \<Rightarrow> nat option) \<Rightarrow> nat option \<Rightarrow> nat list option" where
  "walk n el = (case el of None \<Rightarrow> Some [] | Some a \<Rightarrow> Option.bind (walk n (n a)) (\<lambda>els. Some (a # els)))"

fun walk_buckets :: "(nat \<Rightarrow> nat option) \<Rightarrow> pbucket list \<Rightarrow> nat list option" where
  "walk_buckets n [] = Some []"
| "walk_buckets n (b # bs) =
     Option.bind (walk n (pb_head b)) (\<lambda>xs. map_option (\<lambda>ys. xs @ ys) (walk_buckets n bs))"

text \<open>\<open>HASH_FSCK\<close>: a chain with its back pointers, counted; the inner option is \<open>None\<close> where
  \<open>HASH_OOPS\<close> ends the program.\<close>

partial_function (option) fsck_walk :: "chain \<Rightarrow> nat option \<Rightarrow> nat option \<Rightarrow> u32 \<Rightarrow> u32 option option" where
  "fsck_walk links prev thh counted =
     (case thh of
        None \<Rightarrow> Some (Some counted)
      | Some a \<Rightarrow>
          if prv links a \<noteq> prev then Some None
          else fsck_walk links (Some a) (nxt links a) (counted + 1))"

fun fsck_buckets :: "chain \<Rightarrow> pbucket list \<Rightarrow> u32 \<Rightarrow> u32 option option" where
  "fsck_buckets links [] counted = Some (Some counted)"
| "fsck_buckets links (b # bs) counted =
     Option.bind (fsck_walk links None (pb_head b) 0) (\<lambda>r. case r of
        None \<Rightarrow> Some None
      | Some n \<Rightarrow> if pb_count b \<noteq> n then Some None else fsck_buckets links bs (counted + n))"

definition fsck_ptr :: "ptable \<Rightarrow> bool option" where
  "fsck_ptr pt =
     (if thead pt = None then Some True
      else Option.bind (fsck_buckets (blinks pt) (take (unat (p_num pt)) (pbuckets pt)) 0) (\<lambda>counted.
        if counted \<noteq> Some (p_items pt) then Some False
        else map_option (\<lambda>counted. counted = Some (p_items pt)) (fsck_walk (ord pt) None (thead pt) 0)))"

text \<open>
  \<open>HASH_SELECT\<close>, with the handle \<open>hh_dst\<close> of an element filled from its handle in the source. The
  state is the destination and \<open>_last_elt\<close>. The tail is the one \<open>HASH_MAKE_TABLE\<close> has set.
\<close>

definition select_item_ptr :: "UT_hash_handle \<Rightarrow> ptable \<times> nat option \<Rightarrow> (ptable \<times> nat option) option" where
  "select_item_ptr src_hh st =
     (let (dst, last_elt) = st;
          elt = hh_elt src_hh;
          dst = dst\<lparr>elts := (elts dst)(elt := src_hh),
                    ord := set_next elt None (set_prev elt last_elt (ord dst))\<rparr>;
          dst = (case last_elt of
                   None \<Rightarrow> dst
                 | Some l \<Rightarrow> dst\<lparr>ord := set_next l (Some elt) (ord dst)\<rparr>);
          dst = (case thead dst of None \<Rightarrow> make_table_ptr elt dst | Some _ \<Rightarrow> dst)
      in map_option (\<lambda>dst. (dst\<lparr>p_items := p_items dst + 1\<rparr>, Some elt))
           (add_to_bkt_ptr (HASH_TO_BKT (hh_hashv src_hh) (p_num dst)) elt dst))"

fun select_items_ptr :: "UT_hash_handle list \<Rightarrow> ptable \<times> nat option \<Rightarrow> (ptable \<times> nat option) option" where
  "select_items_ptr [] st = Some st"
| "select_items_ptr (h # hs) st = Option.bind (select_item_ptr h st) (select_items_ptr hs)"

definition select_ptr :: "ptable \<Rightarrow> (nat \<Rightarrow> bool) \<Rightarrow> ptable \<Rightarrow> ptable option" where
  "select_ptr src cond dst =
     (if thead src = None then Some dst
      else Option.bind (walk_buckets (nxt (blinks src)) (take (unat (p_num src)) (pbuckets src))) (\<lambda>es.
        map_option fst (select_items_ptr (map (elts src) (filter cond es)) (dst, None))))"

section \<open>What the pointers represent\<close>

definition bkt_rep :: "chain \<Rightarrow> UT_hash_bucket \<Rightarrow> pbucket \<Rightarrow> bool" where
  "bkt_rep links b pb \<longleftrightarrow> linked links (pb_head pb) (map hh_elt (hh_chain b))
     \<and> pb_count pb = bkt_count b \<and> pb_mult pb = expand_mult b"

abbreviation bkts_rep :: "chain \<Rightarrow> UT_hash_bucket list \<Rightarrow> pbucket list \<Rightarrow> bool" where
  "bkts_rep links \<equiv> list_all2 (bkt_rep links)"

definition elts_of :: "UT_hash_bucket list \<Rightarrow> nat list" where
  "elts_of bs = map hh_elt (concat (map hh_chain bs))"

text \<open>A change elsewhere does not concern a bucket.\<close>

definition agrees :: "nat set \<Rightarrow> chain \<Rightarrow> chain \<Rightarrow> bool" where
  "agrees A h h' \<longleftrightarrow> (\<forall>a\<in>A. nxt h' a = nxt h a \<and> prv h' a = prv h a)"

lemma agrees_linked: "agrees (set xs) h h' \<Longrightarrow> linked h' p xs = linked h p xs"
  unfolding agrees_def by (intro linked_frame) auto

lemma agrees_bkts:
  "agrees (set (elts_of bs)) h h' \<Longrightarrow> bkts_rep h bs pbs \<Longrightarrow> bkts_rep h' bs pbs"
proof (induction bs arbitrary: pbs)
  case (Cons b bs)
  have "agrees (set (map hh_elt (hh_chain b))) h h'" "agrees (set (elts_of bs)) h h'"
    using Cons.prems(1) by (auto simp: agrees_def elts_of_def)
  then show ?case using Cons agrees_linked by (auto simp: list_all2_Cons1 bkt_rep_def)
qed simp

lemma elts_of_simps [simp]:
  "elts_of [] = []" "elts_of (b # bs) = map hh_elt (hh_chain b) @ elts_of bs"
  by (simp_all add: elts_of_def)

lemma elts_of_update:
  "i < length bs \<Longrightarrow> hh_chain b = h # hh_chain (bs ! i) \<Longrightarrow>
   mset (elts_of (bs[i := b])) = add_mset (hh_elt h) (mset (elts_of bs))"
  unfolding elts_of_def mset_map by (fold chained_def) (simp add: chained_update)

text \<open>One bucket changes, in a chain of its own.\<close>

lemma bkts_rep_update:
  assumes "bkts_rep h bs pbs" "i < length bs" "distinct (elts_of bs)"
    and "agrees (set (elts_of bs) - set (map hh_elt (hh_chain (bs ! i)))) h h'" "bkt_rep h' b pb"
  shows "bkts_rep h' (bs[i := b]) (pbs[i := pb])"
  using assms
proof (induction bs arbitrary: pbs i)
  case (Cons c bs)
  obtain pc pbs' where pbs: "pbs = pc # pbs'" "bkt_rep h c pc" "bkts_rep h bs pbs'"
    using Cons.prems(1) by (auto simp: list_all2_Cons1)
  show ?case
  proof (cases i)
    case 0
    have "set (elts_of bs) \<inter> set (map hh_elt (hh_chain c)) = {}" using Cons.prems(3) by auto
    then have "agrees (set (elts_of bs)) h h'" using Cons.prems(4) 0 by (auto simp: agrees_def)
    then show ?thesis using agrees_bkts pbs Cons.prems(5) 0 by simp
  next
    case (Suc k)
    have sub: "set (map hh_elt (hh_chain (bs ! k))) \<subseteq> set (elts_of bs)"
      using Cons.prems(2) Suc by (force simp: elts_of_def)
    have "agrees (set (map hh_elt (hh_chain c))) h h'"
      using Cons.prems(3,4) sub Suc unfolding agrees_def by fastforce
    then have "bkt_rep h' c pc" using pbs(2) agrees_linked by (auto simp: bkt_rep_def)
    moreover have "bkts_rep h' (bs[k := b]) (pbs'[k := pb])"
      using Cons.prems Suc pbs(3) sub by (intro Cons.IH) (auto simp: agrees_def)
    ultimately show ?thesis using Suc pbs(1) by simp
  qed
qed simp

lemma bucket_link_linked:
  assumes "linked links first xs" "a \<notin> set xs"
  shows "linked (bucket_link a first links) (Some a) (a # xs)"
    and "agrees (- insert a (set xs)) links (bucket_link a first links)"
proof -
  have first: "first = (case xs of [] \<Rightarrow> None | x # _ \<Rightarrow> Some x)"
    using assms(1) nexts_start by (auto simp: linked_def forward_def)
  show "linked (bucket_link a first links) (Some a) (a # xs)"
    using assms first by (cases xs) (auto simp: bucket_link_def Let_def linked_def forward_def)
  show "agrees (- insert a (set xs)) links (bucket_link a first links)"
    using first by (cases xs) (auto simp: agrees_def bucket_link_def Let_def)
qed

lemma bkt_push:
  assumes "bkts_rep links bs pbs" "i < length bs" "distinct (elts_of bs)" "hh_elt h \<notin> set (elts_of bs)"
    and "hh_chain b = h # hh_chain (bs ! i)" "bkt_count b = pb_count pb" "expand_mult b = pb_mult pb"
    and "pb_head pb = Some (hh_elt h)"
  defines "links' \<equiv> bucket_link (hh_elt h) (pb_head (pbs ! i)) links"
  shows "bkts_rep links' (bs[i := b]) (pbs[i := pb])"
    and "agrees (- insert (hh_elt h) (set (elts_of bs))) links links'"
    and "distinct (elts_of (bs[i := b]))" "set (elts_of (bs[i := b])) = insert (hh_elt h) (set (elts_of bs))"
proof -
  let ?xs = "map hh_elt (hh_chain (bs ! i))"
  have sub: "set ?xs \<subseteq> set (elts_of bs)" using assms(2) by (force simp: elts_of_def)
  have "linked links (pb_head (pbs ! i)) ?xs"
    using assms(1,2) by (auto simp: list_all2_conv_all_nth bkt_rep_def)
  then have l: "linked links' (Some (hh_elt h)) (hh_elt h # ?xs)"
    "agrees (- insert (hh_elt h) (set ?xs)) links links'"
    using bucket_link_linked assms(4) sub unfolding links'_def by blast+
  have "agrees (set (elts_of bs) - set ?xs) links links'" using l(2) assms(4) by (auto simp: agrees_def)
  moreover have "bkt_rep links' b pb" using l(1) assms(5-8) by (simp add: bkt_rep_def)
  ultimately show "bkts_rep links' (bs[i := b]) (pbs[i := pb])"
    using bkts_rep_update assms(1-3) by blast
  show "agrees (- insert (hh_elt h) (set (elts_of bs))) links links'"
    using l(2) sub unfolding agrees_def by blast
  have m: "mset (elts_of (bs[i := b])) = mset (hh_elt h # elts_of bs)"
    using elts_of_update [OF assms(2,5)] by simp
  show "set (elts_of (bs[i := b])) = insert (hh_elt h) (set (elts_of bs))" using mset_eq_setD [OF m] by simp
  show "distinct (elts_of (bs[i := b]))" using mset_eq_imp_distinct_iff [OF m] assms(3,4) by simp
qed

section \<open>Expansion keeps the representation\<close>

lemma expand_item_sim:
  assumes "bkts_rep links bs pbs" "distinct (elts_of bs)" "hh_elt h \<notin> set (elts_of bs)"
    and "es (hh_elt h) = h" "HASH_TO_BKT (hh_hashv h) num < length bs"
    and "expand_item num ideal h (bs, k) = (bs', k')"
  shows "\<exists>links' pbs'. expand_item_ptr num ideal es (hh_elt h) (links, pbs, k) = (links', pbs', k')
    \<and> bkts_rep links' bs' pbs' \<and> agrees (- insert (hh_elt h) (set (elts_of bs))) links links'
    \<and> distinct (elts_of bs') \<and> set (elts_of bs') = insert (hh_elt h) (set (elts_of bs)) \<and> length bs' = length bs"
proof -
  let ?i = "HASH_TO_BKT (hh_hashv h) num"
  define n where "n = bkt_count (bs ! ?i) + 1"
  define over where "over \<longleftrightarrow> ideal < n"
  define b where "b = (bs ! ?i)\<lparr>bkt_count := n, expand_mult := (if over then n div ideal else expand_mult (bs ! ?i)),
      hh_chain := h # hh_chain (bs ! ?i)\<rparr>"
  define pb where "pb = (pbs ! ?i)\<lparr>pb_count := n, pb_mult := (if over then n div ideal else pb_mult (pbs ! ?i)),
      pb_head := Some (hh_elt h)\<rparr>"
  have same: "pb_count (pbs ! ?i) = bkt_count (bs ! ?i)" "pb_mult (pbs ! ?i) = expand_mult (bs ! ?i)"
    using assms(1,5) by (auto simp: list_all2_conv_all_nth bkt_rep_def)
  have ptr: "expand_item_ptr num ideal es (hh_elt h) (links, pbs, k)
      = (bucket_link (hh_elt h) (pb_head (pbs ! ?i)) links, pbs[?i := pb], if over then k + 1 else k)"
    by (simp add: expand_item_ptr_def Let_def assms(4) pb_def over_def n_def same(1))
  have lst: "bs' = bs[?i := b] \<and> k' = (if over then k + 1 else k)"
    using assms(6) by (auto simp: expand_item_def Let_def b_def over_def n_def)
  have push: "hh_chain b = h # hh_chain (bs ! ?i)" "bkt_count b = pb_count pb" "expand_mult b = pb_mult pb"
    "pb_head pb = Some (hh_elt h)"
    by (simp_all add: b_def pb_def same)
  show ?thesis using bkt_push [OF assms(1,5,2,3) push] lst unfolding ptr by simp
qed

lemma expand_walk_sim:
  assumes "nexts (nxt links) p (map hh_elt hs) None" "bkts_rep links bs pbs"
    and "distinct (map hh_elt hs @ elts_of bs)" "\<forall>h\<in>set hs. es (hh_elt h) = h"
    and "\<forall>w. HASH_TO_BKT w num < length bs" "fold (expand_item num ideal) hs (bs, k) = (bs', k')"
  shows "\<exists>links' pbs'. expand_walk num ideal es p (links, pbs, k) = Some (links', pbs', k')
    \<and> bkts_rep links' bs' pbs' \<and> agrees (- set (map hh_elt hs @ elts_of bs)) links links'
    \<and> distinct (elts_of bs') \<and> set (elts_of bs') = set (map hh_elt hs @ elts_of bs) \<and> length bs' = length bs"
  using assms
proof (induction hs arbitrary: p links bs pbs k)
  case Nil
  then show ?case by (simp add: expand_walk.simps agrees_def)
next
  case (Cons h hs)
  obtain bs1 k1 where one: "expand_item num ideal h (bs, k) = (bs1, k1)" by fastforce
  have "\<exists>links1 pbs1. expand_item_ptr num ideal es (hh_elt h) (links, pbs, k) = (links1, pbs1, k1)
      \<and> bkts_rep links1 bs1 pbs1 \<and> agrees (- insert (hh_elt h) (set (elts_of bs))) links links1
      \<and> distinct (elts_of bs1) \<and> set (elts_of bs1) = insert (hh_elt h) (set (elts_of bs)) \<and> length bs1 = length bs"
    using Cons.prems one by (intro expand_item_sim) auto
  then obtain links1 pbs1 where s: "expand_item_ptr num ideal es (hh_elt h) (links, pbs, k) = (links1, pbs1, k1)"
    "bkts_rep links1 bs1 pbs1" "agrees (- insert (hh_elt h) (set (elts_of bs))) links links1"
    "distinct (elts_of bs1)" "set (elts_of bs1) = insert (hh_elt h) (set (elts_of bs))" "length bs1 = length bs"
    by blast
  have "nexts (nxt links) (nxt links (hh_elt h)) (map hh_elt hs) None" using Cons.prems(1) by simp
  moreover have "nxt links a = nxt links1 a" if "a \<in> set (map hh_elt hs)" for a
  proof -
    have "set (map hh_elt hs) \<inter> insert (hh_elt h) (set (elts_of bs)) = {}" using Cons.prems(3) by simp
    then have "a \<notin> insert (hh_elt h) (set (elts_of bs))" using that by blast
    then show ?thesis using s(3) by (simp add: agrees_def)
  qed
  ultimately have n: "nexts (nxt links1) (nxt links (hh_elt h)) (map hh_elt hs) None" by (metis nexts_cong)
  have "\<exists>links' pbs'. expand_walk num ideal es (nxt links (hh_elt h)) (links1, pbs1, k1) = Some (links', pbs', k')
      \<and> bkts_rep links' bs' pbs' \<and> agrees (- set (map hh_elt hs @ elts_of bs1)) links1 links'
      \<and> distinct (elts_of bs') \<and> set (elts_of bs') = set (map hh_elt hs @ elts_of bs1) \<and> length bs' = length bs1"
    using Cons.prems s one by (intro Cons.IH n) auto
  moreover have "expand_walk num ideal es p (links, pbs, k)
      = expand_walk num ideal es (nxt links (hh_elt h)) (links1, pbs1, k1)"
    using Cons.prems(1) s(1) by (simp add: expand_walk.simps [of num ideal es "Some _"])
  moreover have "set (map hh_elt hs @ elts_of bs1) = set (map hh_elt (h # hs) @ elts_of bs)" using s(5) by auto
  ultimately show ?case using s(3,6) unfolding agrees_def by fastforce
qed

lemma expand_buckets_walk_sim:
  assumes "bkts_rep links old pold" "bkts_rep links bs pbs" "distinct (elts_of old @ elts_of bs)"
    and "\<forall>h\<in>set (concat (map hh_chain old)). es (hh_elt h) = h"
    and "\<forall>w. HASH_TO_BKT w num < length bs"
    and "fold (expand_item num ideal) (concat (map hh_chain old)) (bs, k) = (bs', k')"
  shows "\<exists>links' pbs'. expand_buckets_walk num ideal es pold (links, pbs, k) = Some (links', pbs', k')
    \<and> bkts_rep links' bs' pbs'"
  using assms
proof (induction old arbitrary: links pold bs pbs k)
  case (Cons b old)
  obtain pb pold' where p: "pold = pb # pold'" "bkt_rep links b pb" "bkts_rep links old pold'"
    using Cons.prems(1) by (auto simp: list_all2_Cons1)
  obtain bs1 k1 where one: "fold (expand_item num ideal) (hh_chain b) (bs, k) = (bs1, k1)" by fastforce
  have "nexts (nxt links) (pb_head pb) (map hh_elt (hh_chain b)) None"
    using p(2) by (simp add: bkt_rep_def linked_def forward_def)
  then have "\<exists>links1 pbs1. expand_walk num ideal es (pb_head pb) (links, pbs, k) = Some (links1, pbs1, k1)
      \<and> bkts_rep links1 bs1 pbs1 \<and> agrees (- set (map hh_elt (hh_chain b) @ elts_of bs)) links links1
      \<and> distinct (elts_of bs1) \<and> set (elts_of bs1) = set (map hh_elt (hh_chain b) @ elts_of bs)
      \<and> length bs1 = length bs"
    using Cons.prems one by (intro expand_walk_sim) auto
  then obtain links1 pbs1 where s: "expand_walk num ideal es (pb_head pb) (links, pbs, k) = Some (links1, pbs1, k1)"
    "bkts_rep links1 bs1 pbs1" "agrees (- set (map hh_elt (hh_chain b) @ elts_of bs)) links links1"
    "distinct (elts_of bs1)" "set (elts_of bs1) = set (map hh_elt (hh_chain b) @ elts_of bs)"
    "length bs1 = length bs"
    by blast
  have "agrees (set (elts_of old)) links links1" using s(3) Cons.prems(3) unfolding agrees_def by auto
  then have "bkts_rep links1 old pold'" using p(3) by (rule agrees_bkts)
  moreover have "distinct (elts_of old @ elts_of bs1)" using Cons.prems(3) s(4,5) by auto
  ultimately have "\<exists>links' pbs'. expand_buckets_walk num ideal es pold' (links1, pbs1, k1) = Some (links', pbs', k')
      \<and> bkts_rep links' bs' pbs'"
    using Cons.prems(4-6) s(2,6) one by (intro Cons.IH) auto
  then show ?case using s(1) p(1) by simp
qed simp

text \<open>A table and its pointers: the buckets, the order with its tail, the handles and the counters.\<close>

definition counters_rep :: "ptable \<Rightarrow> UT_hash_table \<Rightarrow> bool" where
  "counters_rep pt t \<longleftrightarrow> p_num pt = num_buckets t \<and> p_log2 pt = log2_num_buckets t \<and> p_items pt = num_items t
     \<and> p_ideal pt = ideal_chain_maxlen t \<and> p_nonideal pt = nonideal_items t \<and> p_ineff pt = ineff_expands t
     \<and> p_noexpand pt = noexpand t"

definition order_rep :: "ptable \<Rightarrow> UT_hash_handle list \<Rightarrow> bool" where
  "order_rep pt hs \<longleftrightarrow> linked (ord pt) (thead pt) (map hh_elt hs) \<and> (hs \<noteq> [] \<longrightarrow> tail pt = hh_elt (last hs))"

definition buckets_rep :: "ptable \<Rightarrow> UT_hash_table \<Rightarrow> bool" where
  "buckets_rep pt t \<longleftrightarrow> bkts_rep (blinks pt) (buckets t) (pbuckets pt) \<and> distinct (elts_of (buckets t))
     \<and> (\<forall>h\<in>set (concat (map hh_chain (buckets t))). elts pt (hh_elt h) = h) \<and> counters_rep pt t"

lemma empty_rep: "bkts_rep links (replicate n empty_bucket) (replicate n empty_pbucket)"
    "elts_of (replicate n empty_bucket) = []"
  by (auto simp: list_all2_conv_all_nth bkt_rep_def empty_bucket_def empty_pbucket_def linked_def forward_def
      elts_of_def)

lemma expand_sim:
  assumes "buckets_rep pt t" "size_ok t" "unat (log2_num_buckets t) < 31"
  shows "\<exists>pt'. expand_ptr pt = Some pt' \<and> buckets_rep pt' (HASH_EXPAND_BUCKETS t)
    \<and> ord pt' = ord pt \<and> thead pt' = thead pt \<and> tail pt' = tail pt \<and> elts pt' = elts pt"
proof -
  let ?l = "unat (log2_num_buckets t)" and ?hs = "concat (map hh_chain (buckets t))"
  define ideal where "ideal = drop_bit (?l + 1) (num_items t)
            + (if and (num_items t) (num_buckets t * 2 - 1) \<noteq> 0 then 1 else 0)"
  define new where "new = replicate (2 * unat (num_buckets t)) empty_bucket"
  define pnew where "pnew = replicate (2 * unat (num_buckets t)) empty_pbucket"
  obtain bs k where f: "fold (expand_item (num_buckets t * 2) ideal) ?hs (new, 0) = (bs, k)" by fastforce
  have n: "num_buckets t = of_nat (2 ^ ?l)" using assms(2) by (auto simp: size_ok_def)
  have un: "unat (num_buckets t) = 2 ^ ?l" unfolding n by (rule unat_pow2) (use assms in simp)
  have n2: "num_buckets t * 2 = of_nat (2 ^ Suc ?l)" unfolding n by (rule double_word)
  have c: "p_num pt = num_buckets t" "p_log2 pt = log2_num_buckets t" "p_items pt = num_items t"
    "p_ineff pt = ineff_expands t" "p_noexpand pt = noexpand t"
    using assms(1) by (auto simp: buckets_rep_def counters_rep_def)
  have bkt: "HASH_TO_BKT h (num_buckets t * 2) < length new" for h
    using HASH_TO_BKT_less [of "Suc ?l" h] assms(3) unfolding new_def by (simp only: n2 un) simp
  have "\<exists>links' pbs'. expand_buckets_walk (num_buckets t * 2) ideal (elts pt) (pbuckets pt) (blinks pt, pnew, 0)
      = Some (links', pbs', k) \<and> bkts_rep links' bs pbs'"
    using assms(1) f bkt empty_rep unfolding new_def pnew_def
    by (intro expand_buckets_walk_sim [of _ "buckets t" _ "replicate (2 * unat (num_buckets t)) empty_bucket"])
      (auto simp: buckets_rep_def)
  then obtain links' pbs' where w: "expand_buckets_walk (num_buckets t * 2) ideal (elts pt) (pbuckets pt)
      (blinks pt, pnew, 0) = Some (links', pbs', k)" "bkts_rep links' bs pbs'" by blast
  have ch: "mset (concat (map hh_chain bs)) = mset ?hs"
    using expand_buckets_ok [OF assms(2,3) refl] f
    by (simp add: HASH_EXPAND_BUCKETS_def ideal_def new_def Let_def chained_def)
  then have "mset (elts_of bs) = mset (elts_of (buckets t))" unfolding elts_of_def by simp
  then have d: "distinct (elts_of bs)"
    using assms(1) mset_eq_imp_distinct_iff unfolding buckets_rep_def by blast
  have e: "\<forall>h\<in>set (concat (map hh_chain bs)). elts pt (hh_elt h) = h"
    using assms(1) mset_eq_setD [OF ch] unfolding buckets_rep_def by simp
  show ?thesis
    unfolding expand_ptr_def HASH_EXPAND_BUCKETS_def Let_def c ideal_def [symmetric] new_def [symmetric]
      pnew_def [symmetric] w(1) f
    using w(2) d e by (simp add: buckets_rep_def counters_rep_def c)
qed

section \<open>The operations keep the representation\<close>

definition represents :: "ptable \<Rightarrow> UT_hash_table option \<Rightarrow> bool" where
  "represents pt head \<longleftrightarrow>
     (case head of
        None \<Rightarrow> thead pt = None
      | Some t \<Rightarrow> app_order t \<noteq> [] \<and> order_rep pt (app_order t) \<and> buckets_rep pt t)"

lemma add_to_bkt_sim:
  assumes "buckets_rep pt t" "size_ok t" "unat (log2_num_buckets t) < 31"
    and "hh_elt h \<notin> set (elts_of (buckets t))" "elts pt (hh_elt h) = h"
  defines "bkt \<equiv> HASH_TO_BKT (hh_hashv h) (num_buckets t)"
  shows "\<exists>pt'. add_to_bkt_ptr bkt (hh_elt h) pt = Some pt' \<and> buckets_rep pt' (HASH_ADD_TO_BKT bkt h t)
    \<and> ord pt' = ord pt \<and> thead pt' = thead pt \<and> tail pt' = tail pt \<and> elts pt' = elts pt"
proof -
  have bkt: "bkt < length (buckets t)" unfolding bkt_def by (rule size_ok_bucket [OF assms(2)])
  define b where "b = (buckets t ! bkt)\<lparr>bkt_count := bkt_count (buckets t ! bkt) + 1,
      hh_chain := h # hh_chain (buckets t ! bkt)\<rparr>"
  define pb where "pb = (pbuckets pt ! bkt)\<lparr>pb_count := pb_count (pbuckets pt ! bkt) + 1,
      pb_head := Some (hh_elt h)\<rparr>"
  define links where "links = bucket_link (hh_elt h) (pb_head (pbuckets pt ! bkt)) (blinks pt)"
  define u where "u = t\<lparr>buckets := (buckets t)[bkt := b]\<rparr>"
  define pu where "pu = pt\<lparr>blinks := links, pbuckets := (pbuckets pt)[bkt := pb]\<rparr>"
  have r: "bkts_rep (blinks pt) (buckets t) (pbuckets pt)" "distinct (elts_of (buckets t))"
    using assms(1) by (auto simp: buckets_rep_def)
  then have same: "pb_count (pbuckets pt ! bkt) = bkt_count (buckets t ! bkt)"
    "pb_mult (pbuckets pt ! bkt) = expand_mult (buckets t ! bkt)"
    using bkt by (auto simp: list_all2_conv_all_nth bkt_rep_def)
  have push: "hh_chain b = h # hh_chain (buckets t ! bkt)" "bkt_count b = pb_count pb"
    "expand_mult b = pb_mult pb" "pb_head pb = Some (hh_elt h)"
    by (simp_all add: b_def pb_def same)
  have "set (concat (map hh_chain (buckets u))) = insert h (set (concat (map hh_chain (buckets t))))"
    using arg_cong [OF chained_update [OF bkt push(1)], of set_mset] by (simp add: u_def chained_def)
  then have rep: "buckets_rep pu u"
    using bkt_push [OF r(1) bkt r(2) assms(4) push] assms(1,5)
    by (simp add: buckets_rep_def u_def pu_def links_def counters_rep_def del: set_concat)
  have cond: "(pb_mult pb + 1) * HASH_BKT_CAPACITY_THRESH \<le> pb_count pb \<and> p_noexpand pu \<noteq> 1
      \<longleftrightarrow> (expand_mult b + 1) * HASH_BKT_CAPACITY_THRESH \<le> bkt_count b \<and> noexpand u \<noteq> 1"
    using rep push by (simp add: buckets_rep_def counters_rep_def)
  have l: "HASH_ADD_TO_BKT bkt h t = (if (expand_mult b + 1) * HASH_BKT_CAPACITY_THRESH \<le> bkt_count b
      \<and> noexpand u \<noteq> 1 then HASH_EXPAND_BUCKETS u else u)"
    unfolding HASH_ADD_TO_BKT_def Let_def b_def [symmetric] u_def [symmetric] by (rule refl)
  have p: "add_to_bkt_ptr bkt (hh_elt h) pt = (if (pb_mult pb + 1) * HASH_BKT_CAPACITY_THRESH \<le> pb_count pb
      \<and> p_noexpand pu \<noteq> 1 then expand_ptr pu else Some pu)"
    by (simp add: add_to_bkt_ptr_def Let_def pb_def pu_def links_def)
  have "\<exists>pt'. expand_ptr pu = Some pt' \<and> buckets_rep pt' (HASH_EXPAND_BUCKETS u)
    \<and> ord pt' = ord pu \<and> thead pt' = thead pu \<and> tail pt' = tail pu \<and> elts pt' = elts pu"
    using assms(2,3) by (intro expand_sim [OF rep]) (simp_all add: u_def size_ok_def)
  moreover have "ord pu = ord pt" "thead pu = thead pt" "tail pu = tail pt" "elts pu = elts pt"
    by (simp_all add: pu_def)
  ultimately show ?thesis unfolding l p cond using rep by auto
qed

lemma elts_of_order:
  assumes "chained (buckets t) = mset (app_order t)"
  shows "set (elts_of (buckets t)) = hh_elt ` set (app_order t)"
    "set (concat (map hh_chain (buckets t))) = set (app_order t)"
proof -
  show s: "set (concat (map hh_chain (buckets t))) = set (app_order t)"
    using arg_cong [OF assms, of set_mset] by (simp add: chained_def)
  show "set (elts_of (buckets t)) = hh_elt ` set (app_order t)" unfolding elts_of_def set_map s ..
qed

lemma order_append:
  assumes "linked links p (xs @ [l])" "a \<notin> set (xs @ [l])"
  shows "linked (set_prev a (Some l) (set_next l (Some a) (set_next a None links))) p (xs @ [l, a])"
  using assms by (auto simp: linked_def forward_def nexts_middle nexts_snoc prevs_append)

lemma add_sim:
  assumes "represents pt head" "hash_ok fcn head" "hash_room head" "e \<notin> set (HASH_ITER head)"
  shows "\<exists>pt'. add_ptr fcn k e pt = Some pt' \<and> represents pt' (HASH_ADD_KEYPTR fcn head k e)"
proof -
  define h where "h = new_handle fcn k e"
  have h: "hh_elt h = e" "hh_hashv h = fcn k" by (simp_all add: h_def new_handle_def)
  define t0 where "t0 = (case head of None \<Rightarrow> HASH_MAKE_TABLE h
      | Some tbl \<Rightarrow> tbl\<lparr>app_order := app_order tbl @ [h]\<rparr>)"
  define t1 where "t1 = t0\<lparr>num_items := num_items t0 + 1\<rparr>"
  define bkt where "bkt = HASH_TO_BKT (hh_hashv h) (num_buckets t1)"
  have add: "HASH_ADD_KEYPTR fcn head k e = Some (HASH_ADD_TO_BKT bkt h t1)"
    unfolding HASH_ADD_KEYPTR_def new_handle_def [symmetric] h_def [symmetric] t0_def [symmetric]
      t1_def [symmetric] Let_def bkt_def by simp
  define pl where "pl = pt\<lparr>ord := set_next e None (ord pt)\<rparr>"
  define pt0 where "pt0 = (case thead pl of
                  None \<Rightarrow> make_table_ptr e (pl\<lparr>ord := set_prev e None (ord pl)\<rparr>)
                | Some _ \<Rightarrow>
                    pl\<lparr>ord := set_prev e (Some (tail pl)) (set_next (tail pl) (Some e) (ord pl)), tail := e\<rparr>)"
  define pt1 where "pt1 = pt0\<lparr>p_items := p_items pt0 + 1, elts := (elts pt0)(e := h)\<rparr>"
  have ptr: "add_ptr fcn k e pt = add_to_bkt_ptr (HASH_TO_BKT (fcn k) (p_num pt1)) e pt1"
    unfolding add_ptr_def pl_def [symmetric] pt0_def [symmetric] new_handle_def [symmetric] h_def [symmetric]
      pt1_def [symmetric] Let_def by (rule refl)
  have t1: "size_ok t1" "unat (log2_num_buckets t1) < 31" "e \<notin> set (elts_of (buckets t1))"
    "app_order t1 = order_of head @ [h]"
    using assms(2-4) elts_of_order(1) make_table_ok [of h]
    by (cases head; auto simp: t0_def t1_def order_of_def hash_ok_def hash_room_def table_ok_def size_ok_def
        HASH_MAKE_TABLE_def empty_rep HASH_ITER_def)+
  have rep: "buckets_rep pt1 t1 \<and> order_rep pt1 (app_order t1)"
  proof (cases head)
    case None
    then show ?thesis using assms(1) h(1) empty_rep(1) [of "blinks pt" 32] empty_rep(2) [of 32]
      by (simp add: represents_def t0_def t1_def pt0_def pt1_def pl_def HASH_MAKE_TABLE_def make_table_ptr_def
          buckets_rep_def counters_rep_def order_rep_def linked_def forward_def) (simp add: empty_bucket_def)
  next
    case (Some t)
    then have r: "app_order t \<noteq> []" "order_rep pt (app_order t)" "buckets_rep pt t"
      using assms(1) by (auto simp: represents_def)
    define xs l where "xs = map hh_elt (butlast (app_order t))" and "l = hh_elt (last (app_order t))"
    have ord: "map hh_elt (app_order t) = xs @ [l]"
      unfolding xs_def l_def using r(1) by (metis append_butlast_last_id list.simps(8,9) map_append)
    have fresh: "e \<notin> set (xs @ [l])" using assms(4) Some ord by (simp add: HASH_ITER_def)
    have lk: "linked (ord pt) (thead pt) (xs @ [l])" "tail pt = l" using r(1,2) ord by (auto simp: order_rep_def l_def)
    obtain hd where hd: "thead pt = Some hd" using lk(1) by (cases xs) (auto simp: linked_def forward_def)
    have "order_rep pt1 (app_order t @ [h])"
      using order_append [OF lk(1) fresh] lk(2) ord h(1) hd
      by (simp add: order_rep_def pt1_def pt0_def pl_def)
    moreover have "chained (buckets t) = mset (app_order t)" using assms(2) Some by (simp add: hash_ok_def table_ok_def)
    then have "\<forall>g\<in>set (concat (map hh_chain (buckets t))). hh_elt g \<noteq> e"
      using fresh unfolding elts_of_order(2) [OF \<open>chained (buckets t) = mset (app_order t)\<close>] ord [symmetric] by force
    then have "buckets_rep pt1 t1"
      using r(3) h(1) hd Some by (auto simp: buckets_rep_def counters_rep_def t0_def t1_def pt1_def pt0_def pl_def)
    ultimately show ?thesis using Some t1(4) by (simp add: order_of_def)
  qed
  have num: "p_num pt1 = num_buckets t1" using rep by (simp add: buckets_rep_def counters_rep_def)
  have "\<exists>pt'. add_to_bkt_ptr bkt (hh_elt h) pt1 = Some pt' \<and> buckets_rep pt' (HASH_ADD_TO_BKT bkt h t1)
    \<and> ord pt' = ord pt1 \<and> thead pt' = thead pt1 \<and> tail pt' = tail pt1 \<and> elts pt' = elts pt1"
    using t1 h(1) rep unfolding bkt_def by (intro add_to_bkt_sim) (auto simp: pt1_def)
  moreover have "app_order (HASH_ADD_TO_BKT bkt h t1) = app_order t1"
    by (simp add: HASH_ADD_TO_BKT_def Let_def expand_fields)
  ultimately show ?thesis using rep t1(4) unfolding ptr num add bkt_def h
    by (auto simp: represents_def order_rep_def)
qed

lemma find_walk_find:
  assumes "nexts n p (map hh_elt hs) None" "\<forall>h\<in>set hs. es (hh_elt h) = h"
  shows "find_walk es n key keylen p = Some (map_option hh_elt (HASH_FIND_IN_BKT hs key keylen))"
  using assms
proof (induction hs arbitrary: p)
  case (Cons h hs)
  then show ?case by (auto simp: find_walk.simps [of es n key keylen "Some (hh_elt h)"])
qed (simp add: find_walk.simps)

lemma bucket_elts:
  assumes "buckets_rep pt t" "i < length (buckets t)"
  shows "bkt_rep (blinks pt) (buckets t ! i) (pbuckets pt ! i)" "i < length (pbuckets pt)"
    and "\<forall>h\<in>set (hh_chain (buckets t ! i)). elts pt (hh_elt h) = h"
  using assms by (auto simp: buckets_rep_def list_all2_conv_all_nth)

lemma find_sim:
  assumes "represents pt head" "hash_ok fcn head"
  shows "find_ptr fcn k pt = Some (map_option hh_elt (HASH_FIND fcn head k))"
proof (cases head)
  case (Some t)
  let ?i = "HASH_TO_BKT (fcn k) (num_buckets t)"
  have r: "app_order t \<noteq> []" "order_rep pt (app_order t)" "buckets_rep pt t"
    using assms(1) Some by (auto simp: represents_def)
  have "?i < length (buckets t)" using assms(2) Some by (simp add: hash_ok_def table_ok_def size_ok_bucket)
  note b = bucket_elts [OF r(3) this]
  obtain c where "thead pt = Some c"
    using r(1,2) by (cases "app_order t") (auto simp: order_rep_def linked_def forward_def)
  moreover have "p_num pt = num_buckets t" using r(3) by (simp add: buckets_rep_def counters_rep_def)
  moreover have "nexts (nxt (blinks pt)) (pb_head (pbuckets pt ! ?i)) (map hh_elt (hh_chain (buckets t ! ?i))) None"
    using b(1) by (simp add: bkt_rep_def linked_def forward_def)
  ultimately show ?thesis using find_walk_find b(3) Some by (simp add: find_ptr_def HASH_FIND_def)
qed (use assms in \<open>simp add: find_ptr_def HASH_FIND_def represents_def\<close>)

lemma filter_middle:
  assumes "distinct (map hh_elt hs)" "h \<in> set hs"
  obtains xs ys where "hs = xs @ h # ys" "filter (\<lambda>g. hh_elt g \<noteq> hh_elt h) hs = xs @ ys"
proof -
  obtain xs ys where hs: "hs = xs @ h # ys" using assms(2) by (auto simp: in_set_conv_decomp)
  have "filter (\<lambda>g. hh_elt g \<noteq> hh_elt h) xs = xs" "filter (\<lambda>g. hh_elt g \<noteq> hh_elt h) ys = ys"
    using assms(1) unfolding hs by (auto intro!: filter_True dest: image_eqI [OF sym])
  then show ?thesis using that hs by simp
qed

lemma del_in_bkt_unlink:
  assumes "linked links (pb_head pb) (as @ c # bs)"
  shows "del_in_bkt_ptr c pb links =
    (pb\<lparr>pb_count := pb_count pb - 1, pb_head := (if pb_head pb = Some c then nxt links c else pb_head pb)\<rparr>,
     unlink c links)"
  by (simp add: del_in_bkt_ptr_def unlink_def Let_def)

lemma del_in_bkt_sim:
  assumes "buckets_rep pt t" "i < length (buckets t)" "h \<in> set (hh_chain (buckets t ! i))"
    and "del_in_bkt_ptr (hh_elt h) (pbuckets pt ! i) (blinks pt) = (pb, links)"
  shows "bkts_rep links ((buckets t)[i := HASH_DEL_IN_BKT (buckets t ! i) (hh_elt h)]) ((pbuckets pt)[i := pb])"
proof -
  let ?hs = "hh_chain (buckets t ! i)"
  have sub: "set ?hs \<subseteq> set (concat (map hh_chain (buckets t)))" using assms(2) by force
  have dis: "distinct (elts_of (buckets t))" using assms(1) by (simp add: buckets_rep_def)
  note b = bucket_elts [OF assms(1,2)]
  have lk: "linked (blinks pt) (pb_head (pbuckets pt ! i)) (map hh_elt ?hs)"
    and cnt: "pb_count (pbuckets pt ! i) = bkt_count (buckets t ! i)"
      "pb_mult (pbuckets pt ! i) = expand_mult (buckets t ! i)"
    using b(1) by (auto simp: bkt_rep_def)
  have "distinct (map hh_elt ?hs)" using lk by (simp add: linked_def forward_def)
  then obtain xs ys where hs: "?hs = xs @ h # ys" "filter (\<lambda>g. hh_elt g \<noteq> hh_elt h) ?hs = xs @ ys"
    using filter_middle assms(3) by blast
  have lk': "linked (blinks pt) (pb_head (pbuckets pt ! i)) (map hh_elt xs @ hh_elt h # map hh_elt ys)"
    using lk hs(1) by simp
  note u = unlink_linked [OF lk']
  have links: "links = unlink (hh_elt h) (blinks pt)"
    and pb: "pb = (pbuckets pt ! i)\<lparr>pb_count := pb_count (pbuckets pt ! i) - 1,
      pb_head := (if pb_head (pbuckets pt ! i) = Some (hh_elt h) then nxt (blinks pt) (hh_elt h)
                  else pb_head (pbuckets pt ! i))\<rparr>"
    using assms(4) del_in_bkt_unlink [OF lk'] by auto
  have "bkt_rep links (HASH_DEL_IN_BKT (buckets t ! i) (hh_elt h)) pb"
    using u(1) cnt hs(2) unfolding links pb by (simp add: bkt_rep_def HASH_DEL_IN_BKT_def)
  moreover have "agrees (set (elts_of (buckets t)) - set (map hh_elt ?hs)) (blinks pt) links"
    using u(2) unfolding links agrees_def hs(1) by auto
  ultimately show ?thesis
    using bkts_rep_update [OF _ assms(2) dis] assms(1) unfolding buckets_rep_def by blast
qed

lemma delete_ptr_unlink:
  assumes "linked (ord pt) (thead pt) (as @ c # bs)" "tail pt = last (as @ c # bs)" "as @ bs \<noteq> []"
  shows "delete_ptr c pt =
    (let bkt = HASH_TO_BKT (hh_hashv (elts pt c)) (p_num pt);
         (b, links) = del_in_bkt_ptr c (pbuckets pt ! bkt) (blinks pt)
     in Some (pt\<lparr>ord := unlink c (ord pt), thead := (if thead pt = Some c then nxt (ord pt) c else thead pt),
          tail := last (as @ bs), blinks := links, pbuckets := (pbuckets pt)[bkt := b],
          p_items := p_items pt - 1\<rparr>))"
proof -
  note u = unlink_linked [OF assms(1)]
  have c: "c \<notin> set (as @ bs)" using assms(1) by (auto simp: linked_def forward_def)
  then have tail: "c = tail pt \<longleftrightarrow> bs = []" using assms(2) last_in_set [of bs] by auto
  show ?thesis
    using u(3-5) tail assms(2,3) c
    by (cases as rule: rev_cases; cases bs; force simp: delete_ptr_def unlink_def Let_def split_beta)
qed

lemma delete_sim:
  assumes "represents pt head" "hash_ok fcn head" "HASH_FIND fcn head k = Some h"
  shows "\<exists>pt'. delete_ptr (hh_elt h) pt = Some pt' \<and> represents pt' (HASH_DELETE head h)"
proof -
  obtain t where t: "head = Some t" using assms(3) by (cases head) (auto simp: HASH_FIND_def)
  have tok: "table_ok fcn t" using assms(2) t by (simp add: hash_ok_def)
  have h: "h \<in> set (app_order t)" using find_iff [OF assms(2)] assms(3) t by (auto simp: order_of_def)
  have r: "order_rep pt (app_order t)" "buckets_rep pt t" using assms(1) t by (auto simp: represents_def)
  have ch: "chained (buckets t) = mset (app_order t)" and dist: "distinct (map hh_elt (app_order t))"
    using tok by (auto simp: table_ok_def)
  obtain xs ys where hs: "app_order t = xs @ h # ys"
    "filter (\<lambda>g. hh_elt g \<noteq> hh_elt h) (app_order t) = xs @ ys"
    using filter_middle [OF dist h] by blast
  have lk: "linked (ord pt) (thead pt) (map hh_elt xs @ hh_elt h # map hh_elt ys)"
    and tail: "tail pt = last (map hh_elt xs @ hh_elt h # map hh_elt ys)"
    using r(1) hs(1) by (auto simp: order_rep_def last_map)
  note u = unlink_linked [OF lk]
  show ?thesis
  proof (cases "xs @ ys = []")
    case True
    then show ?thesis using u(3,4) hs(1) t by (simp add: delete_ptr_def HASH_DELETE_def represents_def)
  next
    case False
    let ?i = "HASH_TO_BKT (hh_hashv h) (num_buckets t)"
    have i: "?i < length (buckets t)" using tok by (intro size_ok_bucket) (simp add: table_ok_def)
    have inb: "h \<in> set (hh_chain (buckets t ! ?i))" using in_bucket_iff [OF tok] h by blast
    have es: "elts pt (hh_elt h) = h" using bucket_elts(3) [OF r(2) i] inb by blast
    have num: "p_num pt = num_buckets t" using r(2) by (simp add: buckets_rep_def counters_rep_def)
    obtain pb links where d: "del_in_bkt_ptr (hh_elt h) (pbuckets pt ! ?i) (blinks pt) = (pb, links)" by fastforce
    define pt' where "pt' = pt\<lparr>ord := unlink (hh_elt h) (ord pt),
          thead := (if thead pt = Some (hh_elt h) then nxt (ord pt) (hh_elt h) else thead pt),
          tail := last (map hh_elt (xs @ ys)), blinks := links, pbuckets := (pbuckets pt)[?i := pb],
          p_items := p_items pt - 1\<rparr>"
    have del: "delete_ptr (hh_elt h) pt = Some pt'"
      using delete_ptr_unlink [OF lk tail] False d by (simp add: es num pt'_def)
    obtain t' where t': "HASH_DELETE (Some t) h = Some t'" "table_ok fcn t'"
      "app_order t' = filter (\<lambda>g. hh_elt g \<noteq> hh_elt h) (app_order t)"
      using delete_order [OF tok h] False hs(1) by auto
    have len: "length (app_order t) \<noteq> 1" using False hs(1) by simp
    have b: "buckets t' = (buckets t)[?i := HASH_DEL_IN_BKT (buckets t ! ?i) (hh_elt h)]"
      and c: "counters_rep pt' t'"
      using t'(1) len r(2) by (auto simp: HASH_DELETE_def Let_def pt'_def buckets_rep_def counters_rep_def)
    have ch': "chained (buckets t') = mset (app_order t')" using t'(2) by (simp add: table_ok_def)
    have "mset (elts_of (buckets t')) = mset (map hh_elt (app_order t'))"
      using ch' unfolding elts_of_def mset_map by (simp add: chained_def)
    then have "distinct (elts_of (buckets t'))"
      using t'(2) mset_eq_imp_distinct_iff unfolding table_ok_def by blast
    moreover have "\<forall>g\<in>set (concat (map hh_chain (buckets t))). elts pt (hh_elt g) = g"
      using r(2) unfolding buckets_rep_def by blast
    then have "\<forall>g\<in>set (concat (map hh_chain (buckets t'))). elts pt' (hh_elt g) = g"
      unfolding elts_of_order(2) [OF ch'] elts_of_order(2) [OF ch] t'(3) by (simp add: pt'_def)
    ultimately have "buckets_rep pt' t'"
      using del_in_bkt_sim [OF r(2) i inb d] c b by (simp add: buckets_rep_def pt'_def)
    moreover have "order_rep pt' (xs @ ys)"
      using u(1) False last_map [OF False, of hh_elt] by (simp add: order_rep_def pt'_def)
    ultimately show ?thesis using del t t'(1,3) hs(2) False by (simp add: represents_def)
  qed
qed

section \<open>Traversal and integrity\<close>

lemma walk_nexts: "nexts n p xs None \<Longrightarrow> walk n p = Some xs"
  by (induction xs arbitrary: p) (auto simp: walk.simps)

lemma order_walk: "order_rep pt hs \<Longrightarrow> walk (nxt (ord pt)) (thead pt) = Some (map hh_elt hs)"
  by (intro walk_nexts) (simp add: order_rep_def linked_def forward_def)

lemma walk_buckets_elts: "bkts_rep links bs pbs \<Longrightarrow> walk_buckets (nxt links) pbs = Some (elts_of bs)"
proof (induction bs arbitrary: pbs)
  case (Cons b bs)
  then show ?case using walk_nexts
    by (auto simp: list_all2_Cons1 bkt_rep_def linked_def forward_def)
qed simp

lemma walk_represents:
  assumes "represents pt head"
  shows "walk (nxt (ord pt)) (thead pt) = Some (HASH_ITER head)"
proof (cases head)
  case None
  then show ?thesis using assms by (simp add: represents_def HASH_ITER_def walk.simps)
next
  case (Some t)
  then show ?thesis using assms order_walk by (simp add: represents_def HASH_ITER_def)
qed

lemma fsck_walk_prevs:
  "nexts (nxt links) p xs None \<Longrightarrow> prevs (prv links) q xs \<Longrightarrow>
   fsck_walk links q p c = Some (Some (c + of_nat (length xs)))"
proof (induction xs arbitrary: p q c)
  case (Cons x xs)
  then show ?case by (simp add: fsck_walk.simps [of links q "Some x"] algebra_simps)
qed (simp add: fsck_walk.simps)

lemma fsck_walk_linked:
  "linked links p xs \<Longrightarrow> fsck_walk links None p c = Some (Some (c + of_nat (length xs)))"
  by (intro fsck_walk_prevs) (auto simp: linked_def forward_def)

lemma fsck_buckets_ok:
  assumes "bkts_rep links bs pbs" "\<forall>b\<in>set bs. bkt_count b = of_nat (length (hh_chain b))"
  shows "fsck_buckets links pbs c = Some (Some (c + of_nat (length (elts_of bs))))"
  using assms
proof (induction bs arbitrary: pbs c)
  case (Cons b bs)
  then obtain pb pbs' where "pbs = pb # pbs'" "bkt_rep links b pb" "bkts_rep links bs pbs'"
    by (auto simp: list_all2_Cons1)
  moreover from this have "fsck_walk links None (pb_head pb) 0 = Some (Some (of_nat (length (hh_chain b))))
      \<and> pb_count pb = bkt_count b"
    using fsck_walk_linked [of links "pb_head pb" "map hh_elt (hh_chain b)" 0] by (simp add: bkt_rep_def)
  ultimately show ?case using Cons.IH [of pbs'] Cons.prems(2) by (simp add: algebra_simps)
qed simp

lemma size_ok_unat: "size_ok t \<Longrightarrow> unat (num_buckets t) = length (buckets t)"
  using unat_pow2 by (simp add: size_ok_def)

lemma buckets_rep_take:
  assumes "buckets_rep pt t" "size_ok t"
  shows "take (unat (p_num pt)) (pbuckets pt) = pbuckets pt"
proof -
  have "length (pbuckets pt) = length (buckets t)" "p_num pt = num_buckets t"
    using assms(1) list_all2_lengthD by (fastforce simp: buckets_rep_def counters_rep_def)+
  then show ?thesis using size_ok_unat [OF assms(2)] by simp
qed

lemma fsck_sim:
  assumes "represents pt head" "hash_ok fcn head"
  shows "fsck_ptr pt = Some True"
proof (cases head)
  case (Some t)
  have tok: "table_ok fcn t" using assms(2) Some by (simp add: hash_ok_def)
  then have t: "size_ok t" "chained (buckets t) = mset (app_order t)" "num_items t = of_nat (length (app_order t))"
    "\<forall>b\<in>set (buckets t). bkt_count b = of_nat (length (hh_chain b))"
    by (auto simp: table_ok_def buckets_ok_def bucket_ok_def in_set_conv_nth)
  have r: "order_rep pt (app_order t)" "buckets_rep pt t" using assms(1) Some by (auto simp: represents_def)
  have "length (elts_of (buckets t)) = length (app_order t)"
    using mset_eq_length [of "concat (map hh_chain (buckets t))" "app_order t"] t(2)
    by (simp add: elts_of_def chained_def)
  moreover have "p_items pt = num_items t" using r(2) by (simp add: buckets_rep_def counters_rep_def)
  moreover have "bkts_rep (blinks pt) (buckets t) (pbuckets pt)" using r(2) by (simp add: buckets_rep_def)
  ultimately show ?thesis
    using fsck_buckets_ok [of "blinks pt" "buckets t" "pbuckets pt" 0] t r(1)
      fsck_walk_linked [of "ord pt" "thead pt" "map hh_elt (app_order t)" 0] buckets_rep_take [OF r(2) t(1)]
    by (simp add: fsck_ptr_def order_rep_def)
qed (use assms in \<open>simp add: fsck_ptr_def represents_def\<close>)

section \<open>Selecting keeps everything but the tail\<close>

definition select_rep :: "ptable \<times> nat option \<Rightarrow> UT_hash_table option \<Rightarrow> bool" where
  "select_rep st head \<longleftrightarrow>
     (case head of
        None \<Rightarrow> thead (fst st) = None \<and> snd st = None
      | Some t \<Rightarrow> app_order t \<noteq> []
          \<and> linked (ord (fst st)) (thead (fst st)) (map hh_elt (app_order t))
          \<and> tail (fst st) = hh_elt (hd (app_order t)) \<and> snd st = Some (hh_elt (last (app_order t)))
          \<and> buckets_rep (fst st) t)"

lemma select_item_sim:
  assumes "select_rep st dst" "built dst ds" "hash_room dst" "hh_elt h \<notin> hh_elt ` set ds"
  shows "\<exists>st'. select_item_ptr h st = Some st' \<and> select_rep st' (select_item True h dst)"
proof -
  let ?e = "hh_elt h"
  define t0 where "t0 = (case dst of None \<Rightarrow> HASH_MAKE_TABLE h
      | Some tbl \<Rightarrow> tbl\<lparr>app_order := app_order tbl @ [h]\<rparr>)"
  define bkt where "bkt = HASH_TO_BKT (hh_hashv h) (num_buckets t0)"
  have sel: "select_item True h dst = Some ((HASH_ADD_TO_BKT bkt h t0)
      \<lparr>num_items := num_items (HASH_ADD_TO_BKT bkt h t0) + 1\<rparr>)"
    by (simp add: select_item_def t0_def bkt_def Let_def split: option.split)
  obtain pt l where st: "st = (pt, l)" by fastforce
  define p1 where "p1 = pt\<lparr>elts := (elts pt)(?e := h), ord := set_next ?e None (set_prev ?e l (ord pt))\<rparr>"
  define p2 where "p2 = (case l of None \<Rightarrow> p1 | Some l \<Rightarrow> p1\<lparr>ord := set_next l (Some ?e) (ord p1)\<rparr>)"
  define p3 where "p3 = (case thead p2 of None \<Rightarrow> make_table_ptr ?e p2 | Some _ \<Rightarrow> p2)"
  have ptr: "select_item_ptr h st = map_option (\<lambda>dst. (dst\<lparr>p_items := p_items dst + 1\<rparr>, Some ?e))
      (add_to_bkt_ptr (HASH_TO_BKT (hh_hashv h) (p_num p3)) ?e p3)"
    unfolding select_item_ptr_def st Let_def p1_def [symmetric] p2_def [symmetric] p3_def [symmetric] prod.case
    by (rule refl)
  have t0: "size_ok t0" "unat (log2_num_buckets t0) < 31" "?e \<notin> set (elts_of (buckets t0))"
    "app_order t0 = order_of dst @ [h]"
    using assms(2-4) elts_of_order(1) make_table_ok [of h]
    by (cases dst; auto simp: t0_def order_of_def built_def hash_room_def size_ok_def HASH_MAKE_TABLE_def
        empty_rep)+
  have rep: "buckets_rep p3 t0 \<and> linked (ord p3) (thead p3) (map hh_elt (app_order t0))
      \<and> tail p3 = hh_elt (hd (app_order t0))"
  proof (cases dst)
    case None
    then show ?thesis using assms(1) st empty_rep(1) [of "blinks pt" 32] empty_rep(2) [of 32]
      by (simp add: select_rep_def t0_def p1_def p2_def p3_def HASH_MAKE_TABLE_def make_table_ptr_def
          buckets_rep_def counters_rep_def linked_def forward_def) (simp add: empty_bucket_def)
  next
    case (Some t)
    then have r: "app_order t \<noteq> []" "linked (ord pt) (thead pt) (map hh_elt (app_order t))"
      "tail pt = hh_elt (hd (app_order t))" "l = Some (hh_elt (last (app_order t)))" "buckets_rep pt t"
      using assms(1) st by (auto simp: select_rep_def)
    define xs y where "xs = map hh_elt (butlast (app_order t))" and "y = hh_elt (last (app_order t))"
    have ord: "map hh_elt (app_order t) = xs @ [y]"
      unfolding xs_def y_def using r(1) by (metis append_butlast_last_id list.simps(8,9) map_append)
    have ds: "app_order t = ds" "chained (buckets t) = mset (app_order t)"
      using assms(2) Some by (auto simp: built_def)
    have fresh: "?e \<notin> set (xs @ [y])" using assms(4) ds(1) ord by (metis image_set)
    obtain c where c: "thead pt = Some c" using r(2) ord by (cases xs) (auto simp: linked_def forward_def)
    have "linked (ord p3) (thead p3) (map hh_elt (app_order t0))"
      using r(2) ord fresh c Some r(4)
      by (auto simp: p1_def p2_def p3_def t0_def linked_def forward_def nexts_middle nexts_snoc prevs_append
          y_def [symmetric])
    moreover have "\<forall>g\<in>set (concat (map hh_chain (buckets t))). hh_elt g \<noteq> ?e"
      using assms(4) unfolding elts_of_order(2) [OF ds(2)] ds(1) by (metis image_eqI)
    then have "buckets_rep p3 t0"
      using r(5) c Some r(4) by (auto simp: buckets_rep_def counters_rep_def t0_def p1_def p2_def p3_def)
    ultimately show ?thesis using r(1,3,4) c Some by (simp add: p1_def p2_def p3_def t0_def)
  qed
  have num: "p_num p3 = num_buckets t0" using rep by (simp add: buckets_rep_def counters_rep_def)
  have "elts p3 ?e = h" by (simp add: p3_def p2_def p1_def make_table_ptr_def split: option.split)
  then have "\<exists>pt'. add_to_bkt_ptr bkt ?e p3 = Some pt' \<and> buckets_rep pt' (HASH_ADD_TO_BKT bkt h t0)
    \<and> ord pt' = ord p3 \<and> thead pt' = thead p3 \<and> tail pt' = tail p3 \<and> elts pt' = elts p3"
    using t0 rep unfolding bkt_def by (intro add_to_bkt_sim) auto
  moreover have "app_order (HASH_ADD_TO_BKT bkt h t0) = app_order t0"
    by (simp add: HASH_ADD_TO_BKT_def Let_def expand_fields)
  ultimately show ?thesis using rep t0(4) unfolding ptr num sel bkt_def
    by (auto simp: select_rep_def buckets_rep_def counters_rep_def)
qed

lemma select_items_sim:
  assumes "hash_room (fold (select_item True) hs None)" "distinct (map hh_elt hs)"
    and "thead pt = None"
  shows "\<exists>st. select_items_ptr hs (pt, None) = Some st \<and> select_rep st (fold (select_item True) hs None)"
  using assms(1,2)
proof (induction hs rule: rev_induct)
  case Nil
  then show ?case using assms(3) by (simp add: select_rep_def)
next
  case (snoc h hs)
  let ?dst = "fold (select_item True) hs None"
  have app: "select_items_ptr (xs @ ys) st = Option.bind (select_items_ptr xs st) (select_items_ptr ys)"
    for xs ys st
  proof (induction xs arbitrary: st)
    case (Cons x xs)
    then show ?case by (cases "select_item_ptr x st") simp_all
  qed simp
  have "hash_grow ?dst" "hash_room ?dst \<longrightarrow> built ?dst hs" using select_items_built by blast+
  moreover from this(1) have "hash_room ?dst" using select_item_grow(2) [of ?dst h] snoc.prems(1) by simp
  ultimately show ?case using snoc select_item_sim [of _ ?dst hs h] app by fastforce
qed

text \<open>The elements a selection has linked, and the tail that was left at the first of them.\<close>

lemma select_sim:
  assumes "represents src_ptr src" "hash_ok fcn src" "hash_room (HASH_SELECT None src cond)" "thead pt = None"
    and "HASH_SELECT None src cond = Some t"
  shows "\<exists>dst l. select_ptr src_ptr cond pt = Some dst \<and> select_rep (dst, Some l) (HASH_SELECT None src cond)"
proof -
  obtain s where s: "src = Some s" using assms(5) by (cases src) (auto simp: HASH_SELECT_def)
  have r: "buckets_rep src_ptr s" "thead src_ptr \<noteq> None" and tok: "table_ok fcn s"
    using assms(1,2) s
    by (auto simp: represents_def hash_ok_def order_rep_def linked_def forward_def dest: nexts_start
        split: list.splits)
  let ?all = "concat (map hh_chain (buckets s))"
  define hs where "hs = filter (\<lambda>hh. cond (hh_elt hh)) ?all"
  have "walk_buckets (nxt (blinks src_ptr)) (take (unat (p_num src_ptr)) (pbuckets src_ptr)) = Some (map hh_elt ?all)"
    using walk_buckets_elts r(1) buckets_rep_take [OF r(1)] tok
    by (simp add: buckets_rep_def table_ok_def elts_of_def)
  moreover have "map (elts src_ptr) (filter cond (map hh_elt ?all)) = hs"
    using r(1) unfolding buckets_rep_def hs_def filter_map map_map o_def by (intro map_idI) auto
  ultimately have p: "select_ptr src_ptr cond pt = map_option fst (select_items_ptr hs (pt, None))"
    using r(2) by (auto simp: select_ptr_def)
  have sel: "HASH_SELECT None src cond = fold (select_item True) hs None"
    by (simp add: HASH_SELECT_def s hs_def)
  have "distinct (map hh_elt hs)"
    using r(1) unfolding hs_def by (intro distinct_map_filter) (simp add: buckets_rep_def elts_of_def)
  then obtain st where st: "select_items_ptr hs (pt, None) = Some st"
    "select_rep st (fold (select_item True) hs None)"
    using select_items_sim assms(3,4) unfolding sel by blast
  then have "snd st \<noteq> None" using assms(5) unfolding sel by (auto simp: select_rep_def)
  then show ?thesis using st unfolding p sel by (cases st) auto
qed

lemma add_to_selected:
  assumes "select_rep (pt, l) (Some t)" "app_order t = d # ds" "size_ok t" "unat (log2_num_buckets t) < 31"
    and "chained (buckets t) = mset (app_order t)" "e \<notin> set (map hh_elt (d # ds))"
  shows "\<exists>pt'. add_ptr fcn k e pt = Some pt' \<and> walk (nxt (ord pt')) (thead pt') = Some [hh_elt d, e]
    \<and> p_items pt' = num_items t + 1"
proof -
  define h where "h = new_handle fcn k e"
  have h: "hh_elt h = e" "hh_hashv h = fcn k" by (simp_all add: h_def new_handle_def)
  have r: "linked (ord pt) (thead pt) (hh_elt d # map hh_elt ds)" "tail pt = hh_elt d" "buckets_rep pt t"
    using assms(1,2) by (auto simp: select_rep_def)
  then have head: "thead pt = Some (hh_elt d)" by (simp add: linked_def forward_def)
  define p1 where "p1 = pt\<lparr>ord := set_prev e (Some (hh_elt d)) (set_next (hh_elt d) (Some e) (set_next e None (ord pt))),
      tail := e, p_items := p_items pt + 1, elts := (elts pt)(e := h)\<rparr>"
  define t1 where "t1 = t\<lparr>num_items := num_items t + 1\<rparr>"
  have add: "add_ptr fcn k e pt = add_to_bkt_ptr (HASH_TO_BKT (hh_hashv h) (p_num p1)) (hh_elt h) p1"
    by (simp add: add_ptr_def Let_def head r(2) p1_def h new_handle_def [symmetric] h_def [symmetric])
  have "\<forall>g\<in>set (concat (map hh_chain (buckets t))). hh_elt g \<noteq> e"
    using assms(2,6) unfolding elts_of_order(2) [OF assms(5)] by auto
  then have rep: "buckets_rep p1 t1"
    using r(3) by (auto simp: buckets_rep_def counters_rep_def p1_def t1_def)
  have num: "p_num p1 = num_buckets t1" using rep by (simp add: buckets_rep_def counters_rep_def)
  have "\<exists>pt'. add_to_bkt_ptr (HASH_TO_BKT (hh_hashv h) (num_buckets t1)) (hh_elt h) p1 = Some pt'
      \<and> buckets_rep pt' (HASH_ADD_TO_BKT (HASH_TO_BKT (hh_hashv h) (num_buckets t1)) h t1)
      \<and> ord pt' = ord p1 \<and> thead pt' = thead p1 \<and> tail pt' = tail p1 \<and> elts pt' = elts p1"
    using assms(2-6) elts_of_order(1) [OF assms(5)] h(1)
    by (intro add_to_bkt_sim [OF rep]) (auto simp: t1_def size_ok_items p1_def)
  moreover have "num_items (HASH_ADD_TO_BKT b h t1) = num_items t1" for b
    by (simp add: HASH_ADD_TO_BKT_def Let_def HASH_EXPAND_BUCKETS_def split_beta)
  moreover have "walk (nxt (ord p1)) (thead p1) = Some [hh_elt d, e]"
    using head assms(6) by (intro walk_nexts) (simp add: p1_def)
  ultimately show ?thesis unfolding add num by (auto simp: buckets_rep_def counters_rep_def t1_def)
qed

section \<open>The pointer operations refine the lists, and where they do not\<close>

text \<open>C29: The pointers are faithful to the lists: in a structure that represents a table, a lookup walks
  its bucket to what \<open>HASH_FIND\<close> of the model finds, a traversal visits the elements in the order of
  addition, and the integrity check with its back pointers passes; adding (with the redistribution of
  every bucket when they are doubled) and deleting re-link both chains so that the structure represents
  the new table. No operation dereferences NULL or runs forever.\<close>

theorem hash_pointers_refine:
  assumes "represents pt head" "hash_ok fcn head"
  shows "find_ptr fcn k pt = Some (map_option hh_elt (HASH_FIND fcn head k))
    \<and> walk (nxt (ord pt)) (thead pt) = Some (HASH_ITER head) \<and> fsck_ptr pt = Some True
    \<and> (hash_room head \<and> e \<notin> set (HASH_ITER head) \<longrightarrow>
        (\<exists>pt'. add_ptr fcn k e pt = Some pt' \<and> represents pt' (HASH_ADD_KEYPTR fcn head k e)))
    \<and> (\<forall>h. HASH_FIND fcn head k = Some h \<longrightarrow>
        (\<exists>pt'. delete_ptr (hh_elt h) pt = Some pt' \<and> represents pt' (HASH_DELETE head h)))"
  using find_sim walk_represents fsck_sim add_sim delete_sim assms by blast

definition blank_ptr :: ptable where
  "blank_ptr = \<lparr>elts = (\<lambda>_. new_handle HASH_JEN [] 0), thead = None, ord = \<lparr>nxt = Map.empty, prv = Map.empty\<rparr>,
     tail = 0, blinks = \<lparr>nxt = Map.empty, prv = Map.empty\<rparr>, pbuckets = [], p_num = 0, p_log2 = 0, p_items = 0,
     p_ideal = 0, p_nonideal = 0, p_ineff = 0, p_noexpand = 0\<rparr>"

lemma blank_represents: "represents blank_ptr None" "thead blank_ptr = None"
  by (simp_all add: represents_def blank_ptr_def)

theorem hash_pointers_refine_witness:
  "\<exists>pt'. add_ptr HASH_JEN ''a'' 7 blank_ptr = Some pt' \<and> find_ptr HASH_JEN ''a'' pt' = Some (Some 7)"
proof -
  obtain pt' where pt': "add_ptr HASH_JEN ''a'' 7 blank_ptr = Some pt'"
    "represents pt' (HASH_ADD_KEYPTR HASH_JEN None ''a'' 7)"
    using hash_pointers_refine [OF blank_represents(1) hash_ok_None(1) [of HASH_JEN], of "''a''" 7]
    by (auto simp: hash_room_def hash_ok_None)
  have "find_ptr HASH_JEN ''a'' pt' = Some (Some 7)"
    using find_sim [OF pt'(2) one_item(1)] find_map [OF one_item(1) [of HASH_JEN "''a''" 7], of "''a''"]
    by (simp add: one_item(2))
  with pt'(1) show ?thesis by blast
qed

text \<open>\<open>HASH_SELECT\<close> links the selected elements in both directions, but leaves the tail at the
  first one, where \<open>HASH_MAKE_TABLE\<close> has set it: the next \<open>HASH_ADD\<close> links the new element behind the
  first, and a traversal from then on visits these two only, although every other element is still
  counted and in its bucket.\<close>

lemma add_after_select_drops:
  assumes "represents src_ptr src" "hash_ok fcn src" "hash_room (HASH_SELECT None src cond)"
    and "thead pt = None" "HASH_ITER (HASH_SELECT None src cond) = d # ds" "e \<notin> set (d # ds)"
  shows "\<exists>dst dst'. select_ptr src_ptr cond pt = Some dst \<and> walk (nxt (ord dst)) (thead dst) = Some (d # ds)
    \<and> add_ptr fcn k e dst = Some dst' \<and> walk (nxt (ord dst')) (thead dst') = Some [d, e]
    \<and> p_items dst' = of_nat (length ds + 2)"
proof -
  obtain t where t: "HASH_SELECT None src cond = Some t"
    using assms(5) by (cases "HASH_SELECT None src cond") (auto simp: HASH_ITER_def)
  obtain dst l where dst: "select_ptr src_ptr cond pt = Some dst" "select_rep (dst, Some l) (Some t)"
    using select_sim [OF assms(1-4) t] t by auto
  have tok: "table_ok fcn t" using select_restricts [OF assms(2,3)] t by (simp add: hash_ok_def)
  obtain h hs where hs: "app_order t = h # hs" "hh_elt h = d" "map hh_elt hs = ds"
    using assms(5) t by (cases "app_order t") (auto simp: HASH_ITER_def)
  have "walk (nxt (ord dst)) (thead dst) = Some (d # ds)"
    using dst(2) hs by (intro walk_nexts) (auto simp: select_rep_def linked_def forward_def)
  moreover have "\<exists>dst'. add_ptr fcn k e dst = Some dst' \<and> walk (nxt (ord dst')) (thead dst') = Some [hh_elt h, e]
      \<and> p_items dst' = num_items t + 1"
    using tok assms(3,6) hs t
    by (intro add_to_selected [OF dst(2) hs(1)]) (auto simp: table_ok_def hash_room_def)
  moreover have "num_items t + 1 = of_nat (length ds + 2)"
    using tok hs by (auto simp: table_ok_def)
  ultimately show ?thesis using dst(1) hs(2) by auto
qed

end
