(* ===== verification/UtHashSrt.thy ===== *)
theory UtHashSrt imports UtHashChain begin

text \<open>
  \<open>HASH_SRT\<close> of \<open>uthash.h\<close> on the pointers of the application order: the merge sort of \<open>UtHashSort\<close>,
  run by run, with the list it builds (\<open>_hs_list\<close>, \<open>_hs_tail\<close>) linked in both directions. It is shown to
  return what the list version returns, on every table.
\<close>

section \<open>The sort on pointers\<close>

text \<open>The loop that counts the first run and finds the second: \<open>psize\<close> and \<open>q\<close>.\<close>

fun srt_advance :: "(nat \<Rightarrow> nat option) \<Rightarrow> nat \<Rightarrow> nat \<Rightarrow> nat \<times> nat option" where
  "srt_advance n 0 q = (0, Some q)"
| "srt_advance n (Suc i) q = (case n q of None \<Rightarrow> (1, None) | Some q' \<Rightarrow> apfst Suc (srt_advance n i q'))"

text \<open>The merged list so far is a triple: the links, \<open>_hs_list\<close> and \<open>_hs_tail\<close>. One element \<open>e\<close> is
  appended.\<close>

definition srt_emit :: "nat \<Rightarrow> chain \<times> nat option \<times> nat option \<Rightarrow> chain \<times> nat option \<times> nat option" where
  "srt_emit e st =
     (let (links, list, tp) = st;
          (links, list) = (case tp of Some t \<Rightarrow> (set_next t (Some e) links, list) | None \<Rightarrow> (links, Some e));
          links = set_prev e tp links
      in (links, list, Some e))"

text \<open>The inner loop, which ends with \<open>q\<close>. An element is taken after its \<open>next\<close> has been read; \<open>p\<close> is
  not NULL as long as \<open>psize\<close> is positive.\<close>

partial_function (option) srt_merge ::
  "(nat \<Rightarrow> nat \<Rightarrow> int) \<Rightarrow> chain \<times> nat option \<times> nat option \<Rightarrow> nat option \<Rightarrow> nat \<Rightarrow> nat option \<Rightarrow> nat
     \<Rightarrow> ((chain \<times> nat option \<times> nat option) \<times> nat option) option" where
  "srt_merge cmpfcn st p psize q qsize =
     (if 0 < psize \<or> 0 < qsize \<and> q \<noteq> None
      then let n = nxt (fst st)
           in if psize = 0 then
                Option.bind q (\<lambda>e. srt_merge cmpfcn (srt_emit e st) p psize (n e) (qsize - 1))
              else if qsize = 0 \<or> q = None then
                Option.bind p (\<lambda>e. srt_merge cmpfcn (srt_emit e st) (n e) (psize - 1) q qsize)
              else
                Option.bind p (\<lambda>a. Option.bind q (\<lambda>b.
                  if cmpfcn a b \<le> 0 then srt_merge cmpfcn (srt_emit a st) (n a) (psize - 1) q qsize
                  else srt_merge cmpfcn (srt_emit b st) p psize (n b) (qsize - 1)))
      else Some (st, q))"

text \<open>One pass, with the number of its merges.\<close>

partial_function (option) srt_pass_ptr ::
  "(nat \<Rightarrow> nat \<Rightarrow> int) \<Rightarrow> nat \<Rightarrow> chain \<times> nat option \<times> nat option \<Rightarrow> nat option \<Rightarrow> nat
     \<Rightarrow> ((chain \<times> nat option \<times> nat option) \<times> nat) option" where
  "srt_pass_ptr cmpfcn insize st p nmerges =
     (case p of
        None \<Rightarrow> Some (st, nmerges)
      | Some a \<Rightarrow>
          let (psize, q) = srt_advance (nxt (fst st)) insize a
          in Option.bind (srt_merge cmpfcn st p psize q insize) (\<lambda>(st, q).
               srt_pass_ptr cmpfcn insize st q (nmerges + 1)))"

partial_function (option) srt_loop_ptr ::
  "(nat \<Rightarrow> nat \<Rightarrow> int) \<Rightarrow> u32 \<Rightarrow> chain \<Rightarrow> nat option \<Rightarrow> (chain \<times> nat option \<times> nat option) option" where
  "srt_loop_ptr cmpfcn insize links list =
     Option.bind (srt_pass_ptr cmpfcn (unat insize) (links, None, None) list 0) (\<lambda>((links, list, tp), nmerges).
       let links = (case tp of None \<Rightarrow> links | Some t \<Rightarrow> set_next t None links)
       in if nmerges \<le> 1 then Some (links, list, tp) else srt_loop_ptr cmpfcn (insize * 2) links list)"

definition srt_ptr :: "(nat \<Rightarrow> nat \<Rightarrow> int) \<Rightarrow> ptable \<Rightarrow> ptable option" where
  "srt_ptr cmpfcn pt =
     (case thead pt of
        None \<Rightarrow> Some pt
      | Some a \<Rightarrow>
          Option.bind (srt_loop_ptr cmpfcn 1 (ord pt) (Some a)) (\<lambda>(links, list, tp).
            map_option (\<lambda>t. pt\<lparr>ord := links, thead := list, tail := t\<rparr>) tp))"

section \<open>It sorts as the list version does\<close>

text \<open>What has been merged: linked from \<open>_hs_list\<close> to \<open>_hs_tail\<close>, whose own \<open>next\<close> is still open.\<close>

definition merged :: "chain \<times> nat option \<times> nat option \<Rightarrow> nat list \<Rightarrow> bool" where
  "merged st ds \<longleftrightarrow>
     (case st of (links, list, tp) \<Rightarrow>
        if ds = [] then list = None \<and> tp = None
        else nexts (nxt links) list (butlast ds) (Some (last ds)) \<and> prevs (prv links) None ds \<and> tp = Some (last ds))"

lemma nexts_map_upd: "a \<notin> set xs \<Longrightarrow> nexts n p xs q \<Longrightarrow> nexts (n(a := b)) p xs q"
  by simp

lemma merged_emit:
  assumes "merged st ds" "e \<notin> set ds" "distinct ds"
  shows "merged (srt_emit e st) (ds @ [e])"
    and "nxt (fst (srt_emit e st)) = (if ds = [] then nxt (fst st) else (nxt (fst st))(last ds := Some e))"
proof -
  obtain links list tp where st: "st = (links, list, tp)" by (cases st)
  show "merged (srt_emit e st) (ds @ [e])"
    using assms unfolding st
    by (cases ds rule: rev_cases) (auto simp: merged_def srt_emit_def nexts_snoc prevs_append butlast_append)
  show "nxt (fst (srt_emit e st)) = (if ds = [] then nxt (fst st) else (nxt (fst st))(last ds := Some e))"
    using assms(1) unfolding st by (auto simp: merged_def srt_emit_def)
qed

lemma emit_keeps:
  assumes "merged st ds" "e \<notin> set ds" "distinct ds" "set ds \<inter> set xs = {}"
  shows "nexts (nxt (fst (srt_emit e st))) p xs q = nexts (nxt (fst st)) p xs q"
proof -
  have "ds \<noteq> [] \<Longrightarrow> last ds \<notin> set xs" using assms(4) last_in_set by blast
  then show ?thesis unfolding merged_emit(2) [OF assms(1-3)] by simp
qed

lemma srt_merge_sim:
  assumes "merged st ds" "nexts (nxt (fst st)) p ps r" "nexts (nxt (fst st)) q qs None" "distinct (ds @ ps @ qs)"
  shows "\<exists>st' q'. srt_merge cmpfcn st p (length ps) q k = Some (st', q')
    \<and> merged st' (ds @ fst (merge_run cmpfcn ps qs k)) \<and> nexts (nxt (fst st')) q' (snd (merge_run cmpfcn ps qs k)) None"
  using assms
proof (induction cmpfcn ps qs k arbitrary: st ds p q r rule: merge_run.induct)
  case (1 cmp qs)
  then show ?case by (simp add: srt_merge.simps [of _ _ _ 0 _ 0])
next
  case (2 cmp k)
  then show ?case by (simp add: srt_merge.simps [of _ _ _ 0 None])
next
  case (3 cmp b qs k)
  have q: "q = Some b" "nexts (nxt (fst st)) (nxt (fst st) b) qs None" using 3(4) by (auto simp: Int_Un_distrib)
  have "merged (srt_emit b st) (ds @ [b])" "nexts (nxt (fst (srt_emit b st))) (nxt (fst st) b) qs None"
    "nexts (nxt (fst (srt_emit b st))) p [] p"
    using merged_emit(1) [OF 3(2), of b] emit_keeps [OF 3(2), of b qs] 3(5) q(2) by (auto simp: Int_Un_distrib)
  from 3(1) [OF this(1) this(3,2)] 3(5) q(1) show ?case
    by (simp add: srt_merge.simps [of _ st p 0 "Some b" "Suc k"] apfst_fst)
next
  case (4 cmp a ps qs)
  have p: "p = Some a" "nexts (nxt (fst st)) (nxt (fst st) a) ps r" using 4(3) by (auto simp: Int_Un_distrib)
  have "merged (srt_emit a st) (ds @ [a])" "nexts (nxt (fst (srt_emit a st))) (nxt (fst st) a) ps r"
    "nexts (nxt (fst (srt_emit a st))) q qs None"
    using merged_emit(1) [OF 4(2), of a] emit_keeps [OF 4(2), of a ps] emit_keeps [OF 4(2), of a qs] 4(4,5) p(2)
    by (auto simp: Int_Un_distrib)
  from 4(1) [OF this] 4(5) p(1) show ?case
    by (simp add: srt_merge.simps [of _ st "Some a" "Suc (length ps)" q 0] apfst_fst)
next
  case (5 cmp a ps k)
  have p: "p = Some a" "nexts (nxt (fst st)) (nxt (fst st) a) ps r" and q: "q = None" using 5(3,4) by (auto simp: Int_Un_distrib)
  have "merged (srt_emit a st) (ds @ [a])" "nexts (nxt (fst (srt_emit a st))) (nxt (fst st) a) ps r"
    "nexts (nxt (fst (srt_emit a st))) q [] None"
    using merged_emit(1) [OF 5(2), of a] emit_keeps [OF 5(2), of a ps] 5(5) p(2) q by (auto simp: Int_Un_distrib)
  from 5(1) [OF this] 5(5) p(1) q show ?case
    by (simp add: srt_merge.simps [of _ st "Some a" "Suc (length ps)" None "Suc k"] apfst_fst)
next
  case (6 cmp a ps b qs k)
  have p: "p = Some a" "nexts (nxt (fst st)) (nxt (fst st) a) ps r"
    and q: "q = Some b" "nexts (nxt (fst st)) (nxt (fst st) b) qs None" using 6(4,5) by (auto simp: Int_Un_distrib)
  show ?case
  proof (cases "cmp a b \<le> 0")
    case True
    have "merged (srt_emit a st) (ds @ [a])" "nexts (nxt (fst (srt_emit a st))) (nxt (fst st) a) ps r"
      "nexts (nxt (fst (srt_emit a st))) q (b # qs) None"
      using merged_emit(1) [OF 6(3), of a] emit_keeps [OF 6(3), of a ps] emit_keeps [OF 6(3), of a "b # qs"]
        6(5,6) p(2) by (auto simp: Int_Un_distrib)
    from 6(1) [OF True this] 6(6) p(1) q(1) True show ?thesis
      by (simp add: srt_merge.simps [of _ st "Some a" "Suc (length ps)" "Some b" "Suc k"] apfst_fst)
  next
    case False
    have "merged (srt_emit b st) (ds @ [b])" "nexts (nxt (fst (srt_emit b st))) p (a # ps) r"
      "nexts (nxt (fst (srt_emit b st))) (nxt (fst st) b) qs None"
      using merged_emit(1) [OF 6(3), of b] emit_keeps [OF 6(3), of b "a # ps"] emit_keeps [OF 6(3), of b qs]
        6(4,6) q(2) by (auto simp: Int_Un_distrib)
    from 6(2) [OF False this] 6(6) p(1) q(1) False show ?thesis
      by (simp add: srt_merge.simps [of _ st "Some a" "Suc (length ps)" "Some b" "Suc k"] apfst_fst)
  qed
qed

lemma srt_advance_split:
  assumes "nexts n (Some a) xs None" "0 < k"
  shows "\<exists>q. srt_advance n k a = (length (take k xs), q) \<and> nexts n (Some a) (take k xs) q \<and> nexts n q (drop k xs) None"
  using assms
proof (induction n k a arbitrary: xs rule: srt_advance.induct)
  case (2 n i a)
  obtain ys where xs: "xs = a # ys" "nexts n (n a) ys None" using 2(2) by (cases xs) auto
  show ?case
  proof (cases "n a")
    case None
    then have "ys = []" using xs(2) nexts_start by (fastforce split: list.splits)
    then show ?thesis using None xs(1) by simp
  next
    case (Some b)
    show ?thesis
    proof (cases i)
      case (Suc j)
      then show ?thesis using 2(1) [OF Some, of ys] xs Some by (auto simp: apfst_def map_prod_def)
    qed (use Some xs in simp)
  qed
qed simp

lemma srt_pass_step:
  assumes "srt_pass cmpfcn k xs = Some (out, n)" "0 < k" "xs \<noteq> []"
  obtains es rest out' n' where "merge_run cmpfcn (take k xs) (drop k xs) k = (es, rest)"
    "srt_pass cmpfcn k rest = Some (out', n')" "out = es @ out'" "n = n' + 1" "mset (es @ rest) = mset xs"
    "length rest < length xs" "rest = drop (2 * k) xs"
proof -
  obtain es rest where run: "merge_run cmpfcn (take k xs) (drop k xs) k = (es, rest)" by fastforce
  obtain out' n' where out: "srt_pass cmpfcn k rest = Some (out', n')" "out = es @ out'" "n = n' + 1"
    using assms(1,3) run unfolding srt_pass.simps [of cmpfcn k xs] by (auto simp: bind_eq_Some_conv)
  have rest: "rest = drop (2 * k) xs" and es: "mset es = mset (take k xs @ take k (drop k xs))"
    using merge_run_split [of cmpfcn "take k xs" "drop k xs" k] run by (simp_all add: mult_2)
  have "take k xs @ take k (drop k xs) = take (2 * k) xs" by (simp add: mult_2 take_add)
  then have "mset (es @ rest) = mset (take (2 * k) xs @ drop (2 * k) xs)"
    using es rest by (simp only: mset_append)
  then have "mset (es @ rest) = mset xs" by (simp only: append_take_drop_id)
  moreover have "length rest < length xs" using rest assms(2,3) by simp
  ultimately show ?thesis using that run out rest by blast
qed

lemma srt_pass_sim:
  assumes "srt_pass cmpfcn k xs = Some (out, n)" "0 < k" "merged st ds" "nexts (nxt (fst st)) p xs None"
    "distinct (ds @ xs)"
  shows "\<exists>st'. srt_pass_ptr cmpfcn k st p m = Some (st', m + n) \<and> merged st' (ds @ out)"
  using assms
proof (induction "length xs" arbitrary: xs out n st ds p m rule: less_induct)
  case less
  show ?case
  proof (cases "xs = []")
    case True
    then show ?thesis using less.prems
      by (simp add: srt_pass.simps [of cmpfcn k "[]"] srt_pass_ptr.simps [of cmpfcn k st None m])
  next
    case False
    obtain es rest out' n' where run: "merge_run cmpfcn (take k xs) (drop k xs) k = (es, rest)"
      and out: "srt_pass cmpfcn k rest = Some (out', n')" "out = es @ out'" "n = n' + 1"
      and perm: "mset (es @ rest) = mset xs" and less: "length rest < length xs"
      using srt_pass_step [OF less.prems(1,2) False] by metis
    obtain a where p: "p = Some a" using less.prems(4) False by (cases xs) auto
    obtain q where q: "srt_advance (nxt (fst st)) k a = (length (take k xs), q)"
      "nexts (nxt (fst st)) p (take k xs) q" "nexts (nxt (fst st)) q (drop k xs) None"
      using srt_advance_split [of "nxt (fst st)" a xs k] less.prems(2,4) p by auto
    have "distinct (ds @ take k xs @ drop k xs)" using less.prems(5) by simp
    from srt_merge_sim [OF less.prems(3) q(2,3) this, of cmpfcn k] obtain st1 q1 where
      m: "srt_merge cmpfcn st p (length (take k xs)) q k = Some (st1, q1)" "merged st1 (ds @ es)"
      "nexts (nxt (fst st1)) q1 rest None"
      unfolding run by auto
    have "mset (ds @ es @ rest) = mset (ds @ xs)" using perm by simp
    then have "distinct (ds @ es @ rest)" using less.prems(5) mset_eq_imp_distinct_iff by blast
    then have "\<exists>st'. srt_pass_ptr cmpfcn k st1 q1 (m + 1) = Some (st', (m + 1) + n') \<and> merged st' ((ds @ es) @ out')"
      using less.prems(2) by (intro less.hyps [OF less out(1) _ m(2,3)]) simp_all
    then show ?thesis using p q(1) m(1) out(2,3) by (auto simp: srt_pass_ptr.simps [of cmpfcn k st "Some a" m])
  qed
qed

lemma srt_pass_perm: "0 < k \<Longrightarrow> srt_pass cmpfcn k xs = Some (out, n) \<Longrightarrow> mset out = mset xs"
proof (induction "length xs" arbitrary: xs out n rule: less_induct)
  case less
  show ?case
  proof (cases "xs = []")
    case False
    then show ?thesis using srt_pass_step [OF less.prems(2,1) False] less.hyps less.prems(1)
      by (metis mset_append)
  qed (use less.prems in \<open>simp add: srt_pass.simps [of cmpfcn k "[]"]\<close>)
qed

lemma srt_pass_count:
  assumes "srt_pass cmpfcn k xs = Some (out, n)" "0 < k" "xs \<noteq> []"
  shows "n \<le> 1 \<longleftrightarrow> length xs \<le> 2 * k"
proof -
  obtain es rest out' n' where "srt_pass cmpfcn k rest = Some (out', n')" "n = n' + 1" "rest = drop (2 * k) xs"
    using srt_pass_step [OF assms] by metis
  then show ?thesis using srt_pass_0 by fastforce
qed

text \<open>The passes end with the links of the sorted list, in both directions, and its last element.\<close>

lemma srt_loop_sim:
  assumes "srt_loop cmpfcn insize xs = Some ys" "nexts (nxt links) p xs None" "distinct xs" "xs \<noteq> []"
    "0 < unat insize" "unat insize \<le> 2 ^ 31" "length xs \<le> 2 ^ 31"
  shows "\<exists>links' list. srt_loop_ptr cmpfcn insize links p = Some (links', list, Some (last ys))
    \<and> linked links' list ys \<and> ys \<noteq> []"
  using assms
proof (induction "2 ^ 32 - unat insize" arbitrary: insize xs links p rule: less_induct)
  case less
  let ?k = "unat insize"
  obtain out n where pass: "srt_pass cmpfcn ?k xs = Some (out, n)"
    and rest: "(if n \<le> 1 then Some out else srt_loop cmpfcn (insize * 2) out) = Some ys"
    using less.prems(1) by (auto simp: srt_loop.simps [of cmpfcn insize xs] bind_eq_Some_conv)
  have perm: "mset out = mset xs" by (rule srt_pass_perm [OF less.prems(5) pass])
  then have out: "distinct out" "out \<noteq> []" "length out = length xs"
    using less.prems(3,4) mset_eq_imp_distinct_iff mset_eq_length by (blast, fastforce, blast)
  have "merged (links, None, None) []" by (simp add: merged_def)
  then obtain st where st: "srt_pass_ptr cmpfcn ?k (links, None, None) p 0 = Some (st, n)" "merged st out"
    using srt_pass_sim [OF pass less.prems(5), of "(links, None, None)" "[]" p 0] less.prems(2,3) by auto
  obtain l1 list1 where st1: "st = (l1, list1, Some (last out))" "nexts (nxt l1) list1 (butlast out) (Some (last out))"
    "prevs (prv l1) None out"
    using st(2) out(2) by (cases st) (auto simp: merged_def)
  define l2 where "l2 = set_next (last out) None l1"
  have snoc: "out = butlast out @ [last out]" using out(2) by simp
  have "last out \<notin> set (butlast out)" using out(1) snoc by (metis distinct_append distinct.simps(2) disjoint_iff list.set_intros(1))
  then have "nexts (nxt l2) list1 (butlast out @ [last out]) None"
    using st1(2) by (simp add: l2_def nexts_snoc)
  then have linked: "linked l2 list1 out"
    using st1(3) out(1) snoc by (simp add: linked_def forward_def l2_def)
  have step: "srt_loop_ptr cmpfcn insize links p =
      (if n \<le> 1 then Some (l2, list1, Some (last out)) else srt_loop_ptr cmpfcn (insize * 2) l2 list1)"
    using st(1) st1(1) by (simp add: srt_loop_ptr.simps [of cmpfcn insize links p] l2_def)
  show ?case
  proof (cases "n \<le> 1")
    case True
    then show ?thesis using step rest linked out(2) by auto
  next
    case False
    then have k: "2 * ?k < 2 ^ 31" using srt_pass_count [OF pass less.prems(5,4)] less.prems(7) by simp
    then have k2: "unat (insize * 2) = 2 * ?k" by (simp add: unat_word_ariths)
    have "2 ^ 32 - unat (insize * 2) < 2 ^ 32 - ?k"
      unfolding k2 using k less.prems(5) by (intro diff_less_mono2) auto
    from less.hyps [OF this, of out l2 list1] show ?thesis
      using False rest step linked out less.prems(5,7) k k2 by (simp add: linked_def forward_def)
  qed
qed

section \<open>The table\<close>

lemma merge_run_map:
  "merge_run cmpfcn (map f ps) (map f qs) k =
     map_prod (map f) (map f) (merge_run (\<lambda>p q. cmpfcn (f p) (f q)) ps qs k)"
  by (induction "\<lambda>p q. cmpfcn (f p) (f q)" ps qs k rule: merge_run.induct)
    (auto simp: apfst_def map_prod_def split_beta)

lemma srt_pass_map:
  assumes "srt_pass (\<lambda>p q. cmpfcn (f p) (f q)) k xs = Some (out, n)" "0 < k"
  shows "srt_pass cmpfcn k (map f xs) = Some (map f out, n)"
  using assms
proof (induction "length xs" arbitrary: xs out n rule: less_induct)
  case less
  show ?case
  proof (cases "xs = []")
    case True
    then show ?thesis using less.prems
      by (simp add: srt_pass.simps [of cmpfcn k "[]"] srt_pass.simps [of "\<lambda>p q. cmpfcn (f p) (f q)" k "[]"])
  next
    case False
    obtain es rest out' n' where s: "merge_run (\<lambda>p q. cmpfcn (f p) (f q)) (take k xs) (drop k xs) k = (es, rest)"
      "srt_pass (\<lambda>p q. cmpfcn (f p) (f q)) k rest = Some (out', n')" "out = es @ out'" "n = n' + 1"
      "length rest < length xs"
      using srt_pass_step [OF less.prems(1,2) False] by metis
    have "srt_pass cmpfcn k (map f rest) = Some (map f out', n')" by (rule less.hyps [OF s(5,2) less.prems(2)])
    then show ?thesis using False s(1,3,4) merge_run_map [of cmpfcn f "take k xs" "drop k xs" k]
      unfolding srt_pass.simps [of cmpfcn k "map f xs"] by (simp add: take_map drop_map)
  qed
qed

lemma merge_run_nothing: "merge_run cmpfcn [] xs 0 = ([], xs)"
  by (cases xs) simp_all

lemma srt_pass_positive:
  assumes "srt_pass cmpfcn k xs = Some r" "xs \<noteq> []"
  shows "0 < k"
proof -
  have "k = 0 \<longrightarrow> xs = []"
  proof (rule srt_pass.raw_induct [OF _ assms(1)], goal_cases)
    case (1 rec c k xs r)
    then show ?case by (cases "k = 0") (auto simp: bind_eq_Some_conv merge_run_nothing split: if_splits)
  qed
  then show ?thesis using assms(2) by simp
qed

lemma srt_loop_map:
  assumes "srt_loop (\<lambda>p q. cmpfcn (f p) (f q)) k xs = Some ys"
  shows "srt_loop cmpfcn k (map f xs) = Some (map f ys)"
proof -
  have "c = (\<lambda>p q. cmpfcn (f p) (f q)) \<longrightarrow> srt_loop cmpfcn k (map f xs) = Some (map f ys)"
    if "srt_loop c k xs = Some ys" for c
  proof (rule srt_loop.raw_induct [OF _ that], goal_cases)
    case (1 rec c k xs ys)
    show ?case
    proof
      assume c: "c = (\<lambda>p q. cmpfcn (f p) (f q))"
      from 1(2) obtain out n where pass: "srt_pass c (unat k) xs = Some (out, n)"
        and rest: "(if n \<le> 1 then Some out else rec c (k * 2) out) = Some ys"
        by (auto simp: bind_eq_Some_conv)
      have "srt_pass cmpfcn (unat k) (map f xs) = Some (map f out, n)"
      proof (cases "xs = []")
        case True
        then show ?thesis using pass by (simp add: srt_pass.simps [of _ _ "[]"])
      next
        case False
        then show ?thesis using srt_pass_map srt_pass_positive pass c by blast
      qed
      then show "srt_loop cmpfcn k (map f xs) = Some (map f ys)"
        using rest 1(1) [of c "k * 2" out ys] c by (auto simp: srt_loop.simps [of cmpfcn k "map f xs"] split: if_splits)
    qed
  qed
  then show ?thesis using assms by blast
qed

lemma srt_sim:
  assumes "represents pt head" "HASH_SRT cmpfcn head = Some head'" "length (HASH_ITER head) \<le> 2 ^ 31"
    and "hash_ok fcn head"
  shows "\<exists>pt'. srt_ptr cmpfcn pt = Some pt' \<and> represents pt' head'"
proof (cases head)
  case None
  then show ?thesis using assms by (simp add: HASH_SRT_def srt_ptr_def represents_def)
next
  case (Some t)
  then have r: "app_order t \<noteq> []" "linked (ord pt) (thead pt) (map hh_elt (app_order t))" "buckets_rep pt t"
    using assms(1) by (auto simp: represents_def order_rep_def)
  obtain list where l: "srt_loop (\<lambda>p q. cmpfcn (hh_elt p) (hh_elt q)) 1 (app_order t) = Some list"
    "head' = Some (t\<lparr>app_order := list\<rparr>)"
    using assms(2) Some by (auto simp: HASH_SRT_def)
  have "srt_loop cmpfcn 1 (map hh_elt (app_order t)) = Some (map hh_elt list)" by (rule srt_loop_map [where f = hh_elt, OF l(1)])
  then obtain links' p' where s: "srt_loop_ptr cmpfcn 1 (ord pt) (thead pt) = Some (links', p', Some (last (map hh_elt list)))"
    "linked links' p' (map hh_elt list)" "map hh_elt list \<noteq> []"
    using srt_loop_sim [of cmpfcn 1 "map hh_elt (app_order t)" "map hh_elt list" "ord pt" "thead pt"] r(1,2) assms(3) Some
    by (auto simp: linked_def forward_def HASH_ITER_def)
  obtain a where a: "thead pt = Some a" using r(1,2) by (cases "app_order t") (auto simp: linked_def forward_def)
  have "buckets_rep (pt\<lparr>ord := links', thead := p', tail := last (map hh_elt list)\<rparr>) (t\<lparr>app_order := list\<rparr>)"
    using r(3) by (simp add: buckets_rep_def counters_rep_def)
  then show ?thesis using s a l(2) unfolding srt_ptr_def
    by (simp add: represents_def order_rep_def last_map)
qed

text \<open>C40: \<open>HASH_SRT\<close> ends on every table of at most 2^31 elements, whatever total comparison it is
  given. Afterwards the elements are linked in both directions in ascending order, equal ones in the
  order they had, \<open>tail\<close> is the last of them, none is lost, the integrity check passes, and every key
  finds the element it found.\<close>

theorem pointer_sort_refines:
  assumes "represents pt head" "hash_ok fcn head" "total_cmp cmp" "length (HASH_ITER head) \<le> 2 ^ 31"
  shows "\<exists>pt' els. srt_ptr cmp pt = Some pt' \<and> walk (nxt (ord pt')) (thead pt') = Some els
    \<and> in_order cmp els \<and> mset els = mset (HASH_ITER head)
    \<and> (\<forall>x. filter (same_as cmp x) els = filter (same_as cmp x) (HASH_ITER head))
    \<and> (els \<noteq> [] \<longrightarrow> tail pt' = last els) \<and> fsck_ptr pt' = Some True
    \<and> (\<forall>k. find_ptr fcn k pt' = find_ptr fcn k pt)"
proof -
  obtain head' where head': "HASH_SRT cmp head = Some head'" "hash_ok fcn head'" "in_order cmp (HASH_ITER head')"
    "mset (HASH_ITER head') = mset (HASH_ITER head)" "hash_map head' = hash_map head"
    "\<forall>x. filter (same_as cmp x) (HASH_ITER head') = filter (same_as cmp x) (HASH_ITER head)"
    using hash_sort [OF assms(2-4)] by blast
  obtain pt' where pt': "srt_ptr cmp pt = Some pt'" "represents pt' head'"
    using srt_sim [OF assms(1) head'(1) assms(4,2)] by blast
  have "HASH_ITER head' \<noteq> [] \<longrightarrow> tail pt' = last (HASH_ITER head')"
    using pt'(2) by (auto simp: represents_def order_rep_def HASH_ITER_def last_map split: option.splits)
  moreover have "find_ptr fcn k pt' = find_ptr fcn k pt" for k
    using find_sim [OF pt'(2) head'(2)] find_sim [OF assms(1,2)] find_map [OF head'(2)] find_map [OF assms(2)] head'(5)
    by simp
  ultimately show ?thesis
    using pt' head'(3,4,6) walk_represents [OF pt'(2)] fsck_sim [OF pt'(2) head'(2)] by auto
qed

theorem pointer_sort_refines_witness:
  "\<exists>pt pt'. add_ptr HASH_JEN ''a'' 5 blank_ptr = Some pt \<and> srt_ptr (\<lambda>a b. int a - int b) pt = Some pt'
    \<and> walk (nxt (ord pt')) (thead pt') = Some [5] \<and> fsck_ptr pt' = Some True"
proof -
  have total: "total_cmp (\<lambda>a b. int a - int b)" by (auto simp: total_cmp_def)
  obtain pt where pt: "add_ptr HASH_JEN ''a'' 5 blank_ptr = Some pt" "represents pt (HASH_ADD_KEYPTR HASH_JEN None ''a'' 5)"
    using add_sim [OF blank_represents(1) hash_ok_None(1) [of HASH_JEN], where e = 5 and k = "''a''"]
    by (auto simp: hash_room_def hash_ok_None)
  from pointer_sort_refines [OF pt(2) one_item(1) total] show ?thesis using pt(1) by (auto simp: one_item)
qed

end
