(* ===== verification/UtHashForms.thy ===== *)
theory UtHashForms imports UtHashSort begin

text \<open>
  The convenience forms of \<open>uthash.h\<close>, for keys that are strings, integers and pointers, and the
  emission of keys for \<open>keystats\<close>. An \<open>int\<close> key is its four bytes in memory, a pointer its eight
  (little-endian, as on the machines the daemon is built for); a string key ends before its NUL.
\<close>

section \<open>Keys in memory\<close>

definition le_bytes :: "nat \<Rightarrow> 'w::len word \<Rightarrow> string" where
  "le_bytes n w = map (\<lambda>i. char_of (unat (take_bit 8 (drop_bit (8 * i) w)))) [0..<n]"

definition int_key :: "u32 \<Rightarrow> string" where
  "int_key = le_bytes 4"

definition ptr_key :: "64 word \<Rightarrow> string" where
  "ptr_key = le_bytes 8"

section \<open>The forms\<close>

definition HASH_ADD :: "(string \<Rightarrow> u32) \<Rightarrow> UT_hash_table option \<Rightarrow> string \<Rightarrow> nat \<Rightarrow> nat \<Rightarrow> UT_hash_table option" where
  "HASH_ADD fcn head field keylen_in add = HASH_ADD_KEYPTR fcn head (take keylen_in field) add"

definition HASH_FIND_STR :: "(string \<Rightarrow> u32) \<Rightarrow> UT_hash_table option \<Rightarrow> string \<Rightarrow> UT_hash_handle option" where
  "HASH_FIND_STR fcn head findstr = HASH_FIND fcn head (c_str findstr)"

definition HASH_ADD_STR :: "(string \<Rightarrow> u32) \<Rightarrow> UT_hash_table option \<Rightarrow> string \<Rightarrow> nat \<Rightarrow> UT_hash_table option" where
  "HASH_ADD_STR fcn head strfield add = HASH_ADD fcn head strfield (length (c_str strfield)) add"

definition HASH_REPLACE_STR ::
  "(string \<Rightarrow> u32) \<Rightarrow> UT_hash_table option \<Rightarrow> string \<Rightarrow> nat \<Rightarrow> UT_hash_table option \<times> UT_hash_handle option" where
  "HASH_REPLACE_STR fcn head strfield add = HASH_REPLACE fcn head (c_str strfield) add"

definition HASH_FIND_INT :: "(string \<Rightarrow> u32) \<Rightarrow> UT_hash_table option \<Rightarrow> u32 \<Rightarrow> UT_hash_handle option" where
  "HASH_FIND_INT fcn head findint = HASH_FIND fcn head (int_key findint)"

definition HASH_ADD_INT :: "(string \<Rightarrow> u32) \<Rightarrow> UT_hash_table option \<Rightarrow> u32 \<Rightarrow> nat \<Rightarrow> UT_hash_table option" where
  "HASH_ADD_INT fcn head intfield add = HASH_ADD fcn head (int_key intfield) 4 add"

definition HASH_REPLACE_INT ::
  "(string \<Rightarrow> u32) \<Rightarrow> UT_hash_table option \<Rightarrow> u32 \<Rightarrow> nat \<Rightarrow> UT_hash_table option \<times> UT_hash_handle option" where
  "HASH_REPLACE_INT fcn head intfield add = HASH_REPLACE fcn head (int_key intfield) add"

definition HASH_FIND_PTR :: "(string \<Rightarrow> u32) \<Rightarrow> UT_hash_table option \<Rightarrow> 64 word \<Rightarrow> UT_hash_handle option" where
  "HASH_FIND_PTR fcn head findptr = HASH_FIND fcn head (ptr_key findptr)"

definition HASH_ADD_PTR :: "(string \<Rightarrow> u32) \<Rightarrow> UT_hash_table option \<Rightarrow> 64 word \<Rightarrow> nat \<Rightarrow> UT_hash_table option" where
  "HASH_ADD_PTR fcn head ptrfield add = HASH_ADD fcn head (ptr_key ptrfield) 8 add"

definition HASH_REPLACE_PTR ::
  "(string \<Rightarrow> u32) \<Rightarrow> UT_hash_table option \<Rightarrow> 64 word \<Rightarrow> nat \<Rightarrow> UT_hash_table option \<times> UT_hash_handle option" where
  "HASH_REPLACE_PTR fcn head ptrfield add = HASH_REPLACE fcn head (ptr_key ptrfield) add"

definition HASH_DEL :: "UT_hash_table option \<Rightarrow> UT_hash_handle \<Rightarrow> UT_hash_table option" where
  "HASH_DEL head delptr = HASH_DELETE head delptr"

definition HASH_SORT :: "UT_hash_table option \<Rightarrow> (nat \<Rightarrow> nat \<Rightarrow> int) \<Rightarrow> UT_hash_table option option" where
  "HASH_SORT head cmpfcn = HASH_SRT cmpfcn head"

text \<open>\<open>HASH_EMIT_KEY\<close>, where it is compiled in: the length, then the key, at the end of what has been
  written to the descriptor.\<close>

definition HASH_EMIT_KEY :: "string \<Rightarrow> string \<Rightarrow> string" where
  "HASH_EMIT_KEY out key = out @ int_key (of_nat (length key)) @ key"

section \<open>Keys are told apart\<close>

lemma le_bytes_inject:
  fixes v w :: "'w::len word"
  assumes "LENGTH('w) = 8 * n"
  shows "le_bytes n v = le_bytes n w \<longleftrightarrow> v = w"
proof
  assume eq: "le_bytes n v = le_bytes n w"
  show "v = w"
  proof (rule bit_word_eqI)
    fix k assume k: "k < LENGTH('w)"
    have i: "k div 8 < n" using k assms by simp
    have small: "unat (take_bit 8 x) mod 256 = unat (take_bit 8 x)" for x :: "'w word"
    proof -
      have "unat (take_bit 8 x) = take_bit 8 (unat x)" by (rule unsigned_take_bit_eq)
      then show ?thesis by (simp add: take_bit_eq_mod)
    qed
    have "le_bytes n v ! (k div 8) = le_bytes n w ! (k div 8)" using eq by simp
    then have "(of_char (le_bytes n v ! (k div 8)) :: nat) = of_char (le_bytes n w ! (k div 8))" by simp
    then have "unat (take_bit 8 (drop_bit (8 * (k div 8)) v)) = unat (take_bit 8 (drop_bit (8 * (k div 8)) w))"
      using i by (simp add: le_bytes_def small)
    then have "take_bit 8 (drop_bit (8 * (k div 8)) v) = take_bit 8 (drop_bit (8 * (k div 8)) w)"
      by (simp only: word_unat_eq_iff)
    then have "bit (take_bit 8 (drop_bit (8 * (k div 8)) v)) (k mod 8)
        = bit (take_bit 8 (drop_bit (8 * (k div 8)) w)) (k mod 8)" by simp
    then show "bit v k = bit w k" by (simp add: bit_take_bit_iff bit_drop_bit_eq)
  qed
qed simp

lemma int_key_inject [simp]: "int_key i = int_key j \<longleftrightarrow> i = j"
  unfolding int_key_def by (rule le_bytes_inject) simp

lemma ptr_key_inject [simp]: "ptr_key p = ptr_key q \<longleftrightarrow> p = q"
  unfolding ptr_key_def by (rule le_bytes_inject) simp

lemma key_length [simp]: "length (int_key i) = 4" "length (ptr_key p) = 8"
  by (simp_all add: int_key_def ptr_key_def le_bytes_def)

lemma take_c_str [simp]: "take (length (c_str s)) s = c_str s"
  unfolding c_str_def by (rule takeWhile_eq_take [symmetric])

lemma HASH_ADD_forms:
  "HASH_ADD_INT fcn head i e = HASH_ADD_KEYPTR fcn head (int_key i) e"
  "HASH_ADD_PTR fcn head p e = HASH_ADD_KEYPTR fcn head (ptr_key p) e"
  "HASH_ADD_STR fcn head s e = HASH_ADD_KEYPTR fcn head (c_str s) e"
  by (simp_all add: HASH_ADD_INT_def HASH_ADD_PTR_def HASH_ADD_STR_def HASH_ADD_def)

text \<open>A table of integer keys is a map from integers.\<close>

interpretation ints: registry_del "hash_ok fcn" hash_room None "\<lambda>head i. hash_map head (int_key i)"
  "HASH_ADD_INT fcn" HASH_ITER "\<lambda>head i. hash_delete_key fcn head (int_key i)" for fcn
  by unfold_locales
    (auto simp: HASH_ADD_forms hash_ok_None add_map hash_delete_key fun_eq_iff
      intro: hash_map_elem hash_delete_key(1))

interpretation ptrs: registry_del "hash_ok fcn" hash_room None "\<lambda>head p. hash_map head (ptr_key p)"
  "HASH_ADD_PTR fcn" HASH_ITER "\<lambda>head p. hash_delete_key fcn head (ptr_key p)" for fcn
  by unfold_locales
    (auto simp: HASH_ADD_forms hash_ok_None add_map hash_delete_key fun_eq_iff
      intro: hash_map_elem hash_delete_key(1))

lemma find_int:
  assumes "hash_ok fcn head" "hash_room head" "hash_map head (int_key i) = None" "e \<notin> set (HASH_ITER head)"
  shows "map_option hh_elt (HASH_FIND_INT fcn (HASH_ADD_INT fcn head i e) j)
    = (if j = i then Some e else map_option hh_elt (HASH_FIND_INT fcn head j))"
  using fun_cong [OF ints.look_add [OF assms], of j] ints.inv_add [OF assms] find_map assms(1)
  by (simp add: HASH_FIND_INT_def)

text \<open>Two strings with the same text before their NUL are one key, whatever lies behind it.\<close>

lemma find_str:
  assumes "hash_ok fcn head" "hash_room head" "hash_map head (c_str s) = None" "e \<notin> set (HASH_ITER head)"
  shows "map_option hh_elt (HASH_FIND_STR fcn (HASH_ADD_STR fcn head s e) s')
    = (if c_str s' = c_str s then Some e else map_option hh_elt (HASH_FIND_STR fcn head s'))"
  using add_map [OF assms] find_map assms(1) by (simp add: HASH_FIND_STR_def HASH_ADD_forms)

section \<open>Emitted keys can be read back\<close>

definition emitted :: "string list \<Rightarrow> string" where
  "emitted keys = fold (\<lambda>key out. HASH_EMIT_KEY out key) keys []"

lemma emitted_concat: "emitted keys = concat (map (HASH_EMIT_KEY []) keys)"
proof -
  have "fold (\<lambda>key out. HASH_EMIT_KEY out key) keys out = out @ concat (map (HASH_EMIT_KEY []) keys)" for out
    by (induction keys arbitrary: out) (simp_all add: HASH_EMIT_KEY_def)
  then show ?thesis by (simp add: emitted_def)
qed

lemma emitted_inject:
  assumes "\<forall>k\<in>set ks. length k < 2 ^ 32" "\<forall>k\<in>set ks'. length k < 2 ^ 32" "emitted ks = emitted ks'"
  shows "ks = ks'"
  using assms
proof (induction ks arbitrary: ks')
  case Nil
  then show ?case by (cases ks') (simp_all add: emitted_concat HASH_EMIT_KEY_def, metis key_length(1) list.size(3) zero_neq_numeral)
next
  case (Cons k ks)
  obtain k' ks'' where ks': "ks' = k' # ks''"
    using Cons.prems(3) by (cases ks')
      (simp_all add: emitted_concat HASH_EMIT_KEY_def, metis key_length(1) list.size(3) zero_neq_numeral)
  have "int_key (of_nat (length k)) @ k @ emitted ks = int_key (of_nat (length k')) @ k' @ emitted ks''"
    using Cons.prems(3) unfolding ks' by (simp add: emitted_concat HASH_EMIT_KEY_def)
  then have eq: "int_key (of_nat (length k)) = int_key (of_nat (length k'))" "k @ emitted ks = k' @ emitted ks''"
    by (simp_all add: append_eq_append_conv)
  then have "unat (of_nat (length k) :: u32) = unat (of_nat (length k') :: u32)" by simp
  then have "length k = length k'" using Cons.prems(1,2) ks' by (simp add: unat_of_nat)
  with eq(2) have "k = k'" "emitted ks = emitted ks''" by (simp_all add: append_eq_append_conv)
  then show ?case using Cons ks' by simp
qed

end
