(* ===== verification/Logging.thy ===== *)
theory Logging imports CJsonPrint begin

text \<open>
  The logging macros of \<open>log.h\<close>: a line is formatted into the static buffer \<open>cstr\<close> of 256 bytes and,
  depending on the flag, printed and sent to the system log. The function name, the line number and the
  text of the message, with its arguments filled in, are arguments here.
\<close>

datatype log_priority = LOG_ERR | LOG_INFO | LOG_DEBUG

record log_state =
  cstr :: string
  printed :: "string list"
  logged :: "(log_priority \<times> string) list"

definition MSG_LEN :: nat where
  "MSG_LEN = 256"

text \<open>\<open>snprintf\<close> keeps the last byte for the NUL.\<close>

definition snprintf :: "nat \<Rightarrow> string \<Rightarrow> string" where
  "snprintf n text = take (n - 1) (c_str text)"

text \<open>The \<open>switch\<close> the four macros share: case 1 falls through to the default.\<close>

definition log_switch :: "int \<Rightarrow> string \<Rightarrow> log_priority \<Rightarrow> log_state \<Rightarrow> log_state" where
  "log_switch flag prefix prio st =
     (if flag = 0 then st
      else let st = (if flag = 1 then st\<lparr>printed := printed st @ [prefix @ cstr st @ [CHR 0x0a]]\<rparr> else st)
           in st\<lparr>logged := logged st @ [(prio, cstr st)]\<rparr>)"

definition ERR :: "int \<Rightarrow> string \<Rightarrow> nat \<Rightarrow> string \<Rightarrow> log_state \<Rightarrow> log_state" where
  "ERR flag func line msg st =
     log_switch flag ''[ERROR]'' LOG_ERR
       (st\<lparr>cstr := snprintf MSG_LEN (''['' @ func @ '':'' @ nat_digits line @ '']: '' @ msg)\<rparr>)"

definition LOG :: "int \<Rightarrow> string \<Rightarrow> nat \<Rightarrow> string \<Rightarrow> log_state \<Rightarrow> log_state" where
  "LOG flag func line msg st =
     log_switch flag ''[LOG]'' LOG_INFO
       (st\<lparr>cstr := snprintf MSG_LEN (''['' @ func @ '':'' @ nat_digits line @ '']: '' @ msg)\<rparr>)"

definition BEGIN :: "int \<Rightarrow> string \<Rightarrow> nat \<Rightarrow> log_state \<Rightarrow> log_state" where
  "BEGIN flag func line st =
     log_switch flag [] LOG_DEBUG
       (st\<lparr>cstr := snprintf MSG_LEN (''[BEGIN]['' @ func @ '':'' @ nat_digits line @ '']'')\<rparr>)"

definition END :: "int \<Rightarrow> string \<Rightarrow> nat \<Rightarrow> log_state \<Rightarrow> log_state" where
  "END flag func line st =
     log_switch flag [] LOG_DEBUG
       (st\<lparr>cstr := snprintf MSG_LEN (''[END]['' @ func @ '':'' @ nat_digits line @ '']'')\<rparr>)"

section \<open>What is logged\<close>

lemma snprintf_fits: "0 < n \<Longrightarrow> length (snprintf n s) < n \<and> nul_free (snprintf n s)"
  unfolding snprintf_def using nul_free_c_str [of s]
  by (auto simp: nul_free_def dest: in_set_takeD)

text \<open>The buffer holds a string that fits, every line sent to the system log is one of these, and the
  flag 0 keeps everything silent.\<close>

definition log_ok :: "log_state \<Rightarrow> bool" where
  "log_ok st \<longleftrightarrow> length (cstr st) < MSG_LEN \<and> nul_free (cstr st)
     \<and> (\<forall>(p, s)\<in>set (logged st). length s < MSG_LEN \<and> nul_free s)"

lemma log_switch_ok: "log_ok st \<Longrightarrow> log_ok (log_switch flag prefix prio st)"
  by (auto simp: log_ok_def log_switch_def Let_def)

lemma log_macros_ok:
  assumes "log_ok st"
  shows "log_ok (ERR flag func line msg st) \<and> log_ok (LOG flag func line msg st)
    \<and> log_ok (BEGIN flag func line st) \<and> log_ok (END flag func line st)"
proof -
  have "log_ok (st\<lparr>cstr := snprintf MSG_LEN s\<rparr>)" for s
    using assms snprintf_fits [of MSG_LEN s] by (simp add: log_ok_def MSG_LEN_def)
  then show ?thesis by (simp add: ERR_def LOG_def BEGIN_def END_def log_switch_ok)
qed

lemma log_levels:
  "printed (log_switch flag prefix prio st) =
     (if flag = 1 then printed st @ [prefix @ cstr st @ [CHR 0x0a]] else printed st)"
  "logged (log_switch flag prefix prio st) = (if flag = 0 then logged st else logged st @ [(prio, cstr st)])"
  by (simp_all add: log_switch_def Let_def)

text \<open>A line that does not fit is cut after 255 characters.\<close>

lemma log_line_cut:
  assumes "nul_free (''['' @ func @ '':'' @ nat_digits line @ '']: '' @ msg)"
  shows "logged (LOG 2 func line msg st) = logged st @
    [(LOG_INFO, take 255 (''['' @ func @ '':'' @ nat_digits line @ '']: '' @ msg))]"
  using assms by (simp add: LOG_def log_levels snprintf_def MSG_LEN_def c_str_id del: append.simps)

end
