(* ===== verification/CJsonBuffer.thy ===== *)
theory CJsonBuffer imports CJsonRound begin

text \<open>
  The buffered printer of \<open>json/cJSON.c\<close>: the branches with \<open>p != 0\<close>, which compose the text in one
  growing buffer, and \<open>cJSON_PrintBuffered\<close>. Allocation succeeds; \<open>fresh\<close> is what the allocated memory
  holds before it is written. A write behind the end of the buffer is \<open>OutOfBounds\<close>.
\<close>

section \<open>The buffer\<close>

text \<open>\<open>length\<close> is the length of \<open>buffer\<close>.\<close>

record printbuffer =
  buffer :: string
  offset :: nat

definition smear :: "nat \<Rightarrow> int \<Rightarrow> int" where
  "smear k x = or x (drop_bit k x)"

definition pow2gt :: "int \<Rightarrow> int c" where
  "pow2gt x = int_result (smear 16 (smear 8 (smear 4 (smear 2 (smear 1 (x - 1))))) + 1)"

definition ensure :: "(nat \<Rightarrow> char) \<Rightarrow> printbuffer \<Rightarrow> int \<Rightarrow> printbuffer c" where
  "ensure fresh p needed =
     bind_c (int_result (needed + int (offset p))) (\<lambda>needed.
       if needed \<le> int (length (buffer p)) then Inr p
       else bind_c (pow2gt needed) (\<lambda>newsize.
              Inr (p\<lparr>buffer := buffer p @ map fresh [length (buffer p)..<nat newsize]\<rparr>)))"

text \<open>Writing the characters \<open>s\<close> from the offset on.\<close>

definition put :: "printbuffer \<Rightarrow> string \<Rightarrow> printbuffer c" where
  "put p s =
     (if offset p + length s \<le> length (buffer p)
      then Inr (p\<lparr>buffer := take (offset p) (buffer p) @ s @ drop (offset p + length s) (buffer p)\<rparr>)
      else Inl OutOfBounds)"

definition update :: "printbuffer \<Rightarrow> nat c" where
  "update p =
     (let s = drop (offset p) (buffer p)
      in if NUL \<in> set s then Inr (offset p + length (c_str s)) else Inl OutOfBounds)"

text \<open>The steps the printer is made of: room for \<open>needed\<close> characters, then \<open>s\<close>; the same moving the
  offset by \<open>k\<close>; and the offset moved behind what was printed.\<close>

definition emit :: "(nat \<Rightarrow> char) \<Rightarrow> int \<Rightarrow> string \<Rightarrow> printbuffer \<Rightarrow> printbuffer c" where
  "emit fresh needed s p = bind_c (ensure fresh p needed) (\<lambda>p. put p s)"

definition emit_move :: "(nat \<Rightarrow> char) \<Rightarrow> int \<Rightarrow> string \<Rightarrow> nat \<Rightarrow> printbuffer \<Rightarrow> printbuffer c" where
  "emit_move fresh needed s k p = bind_c (emit fresh needed s p) (\<lambda>p. Inr (p\<lparr>offset := offset p + k\<rparr>))"

definition move :: "printbuffer \<Rightarrow> printbuffer c" where
  "move p = bind_c (update p) (\<lambda>n. Inr (p\<lparr>offset := n\<rparr>))"

section \<open>Printing into it\<close>

definition print_number_alloc :: "cJSON \<Rightarrow> int" where
  "print_number_alloc item =
     (let d = valuedouble item
      in if deq d (DFin 0) then 2
         else if dle (dfabs (dsub (double_of_int (valueint item)) d)) DBL_EPSILON
                 \<and> dle d (double_of_int INT_MAX) \<and> dle (double_of_int INT_MIN) d
         then 21 else 64)"

text \<open>What each function returns is the offset its result points to, and the buffer. In \<open>print_object\<close> the
  variable \<open>i\<close> that holds this offset is also the counter of the last loop: a formatted object returns its
  depth instead. Only \<open>cJSON_PrintBuffered\<close> uses the result, at depth and offset 0.\<close>

function (sequential) print_value_buf ::
    "(nat \<Rightarrow> char) \<Rightarrow> cJSON \<Rightarrow> nat \<Rightarrow> bool \<Rightarrow> printbuffer \<Rightarrow> (nat option \<times> printbuffer) c"
  and print_items_buf :: "(nat \<Rightarrow> char) \<Rightarrow> cJSON list \<Rightarrow> nat \<Rightarrow> bool \<Rightarrow> printbuffer \<Rightarrow> printbuffer c"
  and print_members_buf :: "(nat \<Rightarrow> char) \<Rightarrow> cJSON list \<Rightarrow> nat \<Rightarrow> bool \<Rightarrow> printbuffer \<Rightarrow> printbuffer c" where
  "print_value_buf fresh item depth fmt p =
     (let t = and (ctype item) 255;
          text = (\<lambda>needed s. bind_c (emit fresh needed (s @ [NUL]) p) (\<lambda>p'. Inr (Some (offset p), p')))
      in if t = cJSON_NULL then text 5 ''null''
         else if t = cJSON_False then text 6 ''false''
         else if t = cJSON_True then text 5 ''true''
         else if t = cJSON_Number then text (print_number_alloc item) (print_number item)
         else if t = cJSON_String then bind_c (print_string_alloc (valuestring item)) (\<lambda>needed. text needed (print_string item))
         else if t = cJSON_Array
         then if child item = [] then text 3 ''[]''
              else bind_c (emit_move fresh 1 ''['' 1 p) (\<lambda>p'.
                   bind_c (print_items_buf fresh (child item) (depth + 1) fmt p') (\<lambda>p'.
                   bind_c (emit fresh 2 ('']'' @ [NUL]) p') (\<lambda>p'. Inr (Some (offset p), p'))))
         else if t = cJSON_Object
         then if child item = []
              then text (if fmt then int depth + 4 else 3) (''{'' @ (if fmt then CHR 0x0A # tabs depth else '''') @ ''}'')
              else bind_c (emit_move fresh (if fmt then 3 else 2) (''{'' @ (if fmt then [CHR 0x0A] else '''') @ [NUL])
                     (if fmt then 2 else 1) p) (\<lambda>p'.
                   bind_c (print_members_buf fresh (child item) (depth + 1) fmt p') (\<lambda>p'.
                   bind_c (emit fresh (if fmt then int depth + 2 else 2)
                     ((if fmt then tabs depth else '''') @ ''}'' @ [NUL]) p') (\<lambda>p'.
                   Inr (Some (if fmt then depth else offset p), p'))))
         else Inr (None, p))"
| "print_items_buf fresh [] depth fmt p = Inr p"
| "print_items_buf fresh (c # cs) depth fmt p =
     bind_c (print_value_buf fresh c depth fmt p) (\<lambda>(_, p).
     bind_c (move p) (\<lambda>p.
     bind_c (if cs = [] then Inr p
             else emit_move fresh (if fmt then 3 else 2) ('','' @ (if fmt then '' '' else '''') @ [NUL])
                    (if fmt then 2 else 1) p) (\<lambda>p.
       print_items_buf fresh cs depth fmt p)))"
| "print_members_buf fresh [] depth fmt p = Inr p"
| "print_members_buf fresh (c # cs) depth fmt p =
     bind_c (if fmt then emit_move fresh (int depth) (tabs depth) depth p else Inr p) (\<lambda>p.
     bind_c (print_string_alloc (cstring c)) (\<lambda>needed.
     bind_c (emit fresh needed (print_string_ptr (cstring c) @ [NUL]) p) (\<lambda>p.
     bind_c (move p) (\<lambda>p.
     bind_c (emit_move fresh (if fmt then 2 else 1) ('':'' @ (if fmt then tabs 1 else ''''))
               (if fmt then 2 else 1) p) (\<lambda>p.
     bind_c (print_value_buf fresh c depth fmt p) (\<lambda>(_, p).
     bind_c (move p) (\<lambda>p.
     bind_c (emit_move fresh ((if fmt then 1 else 0) + (if cs = [] then 0 else 1) + 1)
               ((if cs = [] then '''' else '','') @ (if fmt then [CHR 0x0A] else '''') @ [NUL])
               ((if fmt then 1 else 0) + (if cs = [] then 0 else 1)) p) (\<lambda>p.
       print_members_buf fresh cs depth fmt p))))))))"
  by pat_completeness auto
termination
  by (relation "measure (case_sum (\<lambda>(_, it, _). 2 * size it + 1)
       (case_sum (\<lambda>(_, its, _). 2 * size_list size its) (\<lambda>(_, its, _). 2 * size_list size its)))")
    (auto simp: less_Suc_eq_le less_imp_le size_child)

declare print_value_buf.simps [simp del]

definition cJSON_PrintBuffered :: "(nat \<Rightarrow> char) \<Rightarrow> cJSON option \<Rightarrow> nat \<Rightarrow> bool \<Rightarrow> string option c" where
  "cJSON_PrintBuffered fresh item prebuffer fmt =
     (case item of
        None \<Rightarrow> Inr None
      | Some it \<Rightarrow>
          bind_c (print_value_buf fresh it 0 fmt \<lparr>buffer = map fresh [0..<prebuffer], offset = 0\<rparr>) (\<lambda>(out, p).
            case out of
              None \<Rightarrow> Inr None
            | Some i \<Rightarrow> if NUL \<in> set (drop i (buffer p)) then Inr (Some (c_str (drop i (buffer p)))) else Inl OutOfBounds))"

section \<open>Growing\<close>

lemma or_nonneg_le: "0 \<le> x \<Longrightarrow> 0 \<le> y \<Longrightarrow> x \<le> or x (y :: int)"
  by (simp add: or_greater_eq)

lemma smear_bounds:
  assumes "0 \<le> x" "x < 2 ^ n"
  shows "x \<le> smear k x" "smear k x < 2 ^ n"
proof -
  have "x div 2 ^ k \<le> x div 1" by (rule zdiv_mono2) (use assms(1) in simp_all)
  then have d: "0 \<le> drop_bit k x" "drop_bit k x \<le> x" using assms(1) by (simp_all add: drop_bit_eq_div pos_imp_zdiv_nonneg_iff)
  then show "x \<le> smear k x" using assms(1) by (simp add: smear_def or_nonneg_le)
  show "smear k x < 2 ^ n" using assms d unfolding smear_def by (intro OR_upper) auto
qed

lemma pow2gt_bounds:
  assumes "1 \<le> x" "x \<le> 2 ^ 30"
  obtains y where "pow2gt x = Inr y" "x \<le> y" "y \<le> 2 ^ 30"
proof -
  define a where "a = smear 1 (x - 1)"
  define b where "b = smear 2 a"
  define d where "d = smear 4 b"
  define e where "e = smear 8 d"
  define f where "f = smear 16 e"
  have a: "x - 1 \<le> a" "a < 2 ^ 30" using smear_bounds [of "x - 1" 30 1] assms by (simp_all add: a_def)
  then have b: "a \<le> b" "b < 2 ^ 30" using smear_bounds [of a 30 2] assms by (simp_all add: b_def)
  then have d: "b \<le> d" "d < 2 ^ 30" using a smear_bounds [of b 30 4] assms by (simp_all add: d_def)
  then have e: "d \<le> e" "e < 2 ^ 30" using a b smear_bounds [of d 30 8] assms by (simp_all add: e_def)
  then have f: "e \<le> f" "f < 2 ^ 30" using a b d smear_bounds [of e 30 16] assms by (simp_all add: f_def)
  have "pow2gt x = int_result (f + 1)" by (simp add: pow2gt_def a_def b_def d_def e_def f_def)
  then show ?thesis using that [of "f + 1"] a b d e f assms by (simp add: int_result_def in_int_def)
qed

lemma ensure_grows:
  assumes "offset p \<le> length (buffer p)" "int (offset p) + needed \<le> 2 ^ 30" "0 < needed"
  shows "\<exists>p'. ensure fresh p needed = Inr p' \<and> offset p' = offset p
    \<and> int (offset p) + needed \<le> int (length (buffer p')) \<and> take (offset p) (buffer p') = take (offset p) (buffer p)"
proof (cases "int (offset p) + needed \<le> int (length (buffer p))")
  case True
  then show ?thesis using assms by (simp add: ensure_def int_result_def in_int_def)
next
  case False
  obtain y where y: "pow2gt (needed + int (offset p)) = Inr y" "needed + int (offset p) \<le> y" "y \<le> 2 ^ 30"
    by (rule pow2gt_bounds [of "needed + int (offset p)"]) (use assms in auto)
  then show ?thesis using False assms
    by (simp add: ensure_def int_result_def in_int_def nat_le_iff)
qed

section \<open>Writing\<close>

text \<open>\<open>written p s\<close>: the buffer starts with \<open>s\<close>. \<open>stands p pre\<close>: it starts with \<open>pre\<close>, and the offset is behind
  it. \<open>printed p pre e\<close>: behind \<open>pre\<close> stands \<open>e\<close> with its NUL, and the offset is somewhere in it.\<close>

definition written :: "printbuffer \<Rightarrow> string \<Rightarrow> bool" where
  "written p s \<longleftrightarrow> take (length s) (buffer p) = s"

definition stands :: "printbuffer \<Rightarrow> string \<Rightarrow> bool" where
  "stands p pre \<longleftrightarrow> offset p = length pre \<and> written p pre"

definition printed :: "printbuffer \<Rightarrow> string \<Rightarrow> string \<Rightarrow> bool" where
  "printed p pre e \<longleftrightarrow> written p (pre @ e @ [NUL]) \<and> length pre \<le> offset p \<and> offset p \<le> length pre + length e"

lemma written_length: "written p s \<Longrightarrow> length s \<le> length (buffer p)"
  unfolding written_def by (metis length_take min.cobounded1)

lemma written_prefix: "written p (s @ t) \<Longrightarrow> written p s"
  unfolding written_def by (metis append_eq_conv_conj length_append take_add take_take min.absorb1 le_add1)

lemma emit_writes:
  assumes "stands p pre" "int (length s) \<le> needed" "0 < needed" "int (length pre) + needed \<le> 2 ^ 30"
  obtains p' where "emit fresh needed s p = Inr p'" "offset p' = length pre" "written p' (pre @ s)"
proof -
  have p: "offset p = length pre" "take (length pre) (buffer p) = pre" "length pre \<le> length (buffer p)"
    using assms(1) written_length [of p pre] by (simp_all add: stands_def written_def)
  obtain q where q: "ensure fresh p needed = Inr q" "offset q = offset p" "int (offset p) + needed \<le> int (length (buffer q))"
    "take (offset p) (buffer q) = take (offset p) (buffer p)"
    using ensure_grows [of p needed fresh] assms(3,4) p by auto
  have "put q s = Inr (q\<lparr>buffer := take (offset q) (buffer q) @ s @ drop (offset q + length s) (buffer q)\<rparr>)"
    using q(2,3) assms(2) by (simp add: put_def)
  moreover have "length pre \<le> length (buffer q)" using q(3) p(1) assms(3) by linarith
  ultimately show ?thesis using that q p by (simp add: emit_def written_def)
qed

lemma emit_move_writes:
  assumes "stands p pre" "int (length s) \<le> needed" "0 < needed" "int (length pre) + needed \<le> 2 ^ 30" "k \<le> length s"
  obtains p' where "emit_move fresh needed s k p = Inr p'" "stands p' (pre @ take k s)"
proof -
  obtain p' where p': "emit fresh needed s p = Inr p'" "offset p' = length pre" "written p' (pre @ s)"
    using emit_writes [OF assms(1-4)] .
  have "written p' ((pre @ take k s) @ drop k s)" using p'(3) by simp
  then have "written p' (pre @ take k s)" by (rule written_prefix)
  then show ?thesis using that [of "p'\<lparr>offset := offset p' + k\<rparr>"] p'(1,2) assms(5)
    by (simp add: emit_move_def stands_def written_def)
qed

lemma emit_prints:
  assumes "stands p pre" "int (length e) < needed" "int (length pre) + needed \<le> 2 ^ 30"
  obtains p' where "emit fresh needed (e @ [NUL]) p = Inr p'" "printed p' pre e"
proof -
  obtain p' where "emit fresh needed (e @ [NUL]) p = Inr p'" "offset p' = length pre" "written p' (pre @ e @ [NUL])"
    by (rule emit_writes [OF assms(1), of "e @ [NUL]" needed fresh]) (use assms in simp_all)
  then show ?thesis using that by (simp add: printed_def)
qed

lemma move_printed:
  assumes "printed p pre e" "nul_free e"
  obtains p' where "move p = Inr p'" "stands p' (pre @ e)"
proof -
  have o: "length pre \<le> offset p" "offset p \<le> length pre + length e" using assms(1) by (simp_all add: printed_def)
  obtain k where k: "offset p = length pre + k" "k \<le> length e" using o le_Suc_ex [OF o(1)] by auto
  define rest where "rest = drop (length pre + length e + 1) (buffer p)"
  have "take (length pre + length e + 1) (buffer p) = pre @ e @ [NUL]"
    using assms(1) by (simp add: printed_def written_def)
  then have b: "buffer p = pre @ e @ NUL # rest"
    using append_take_drop_id [of "length pre + length e + 1" "buffer p"] by (simp add: rest_def)
  have d: "drop (offset p) (buffer p) = drop k e @ NUL # rest" using k by (simp add: b)
  have "nul_free (drop k e)" using assms(2) by (auto simp: nul_free_set dest: in_set_dropD)
  then have "c_str (drop k e @ NUL # rest) = drop k e" by (simp add: c_str_append c_str_def [of "NUL # rest"])
  then have "update p = Inr (length pre + length e)" using k unfolding update_def d Let_def by simp
  moreover have "stands (p\<lparr>offset := length pre + length e\<rparr>) (pre @ e)"
    by (simp add: stands_def written_def b)
  ultimately show ?thesis using that by (simp add: move_def)
qed

section \<open>Printing a value prints its text\<close>

text \<open>\<open>room pre e\<close>: the largest request the printer makes for \<open>e\<close> behind \<open>pre\<close> is no more than 2^30.\<close>

definition room :: "string \<Rightarrow> string \<Rightarrow> bool" where
  "room pre e \<longleftrightarrow> length pre + length e + 64 \<le> 2 ^ 30"

definition prints :: "(nat \<Rightarrow> char) \<Rightarrow> bool \<Rightarrow> cJSON \<Rightarrow> nat \<Rightarrow> string \<Rightarrow> bool" where
  "prints fresh fmt c depth e \<longleftrightarrow>
     (\<forall>p pre. stands p pre \<longrightarrow> room pre e \<longrightarrow>
        (\<exists>i p'. print_value_buf fresh c depth fmt p = Inr (Some i, p') \<and> printed p' pre e
           \<and> (pre = [] \<and> depth = 0 \<longrightarrow> i = 0)))"

lemma printsE:
  assumes "prints fresh fmt c depth e" "stands p pre" "room pre e"
  obtains i p' where "print_value_buf fresh c depth fmt p = Inr (Some i, p')" "printed p' pre e"
    "pre = [] \<and> depth = 0 \<longrightarrow> i = 0"
  using assms unfolding prints_def by blast

lemma print_items:
  assumes "list_all2 (\<lambda>c e. prints fresh fmt c depth e) cs es" "list_all nul_free es" "stands p pre" "room pre (array_entries fmt es)"
  shows "\<exists>p'. print_items_buf fresh cs depth fmt p = Inr p' \<and> stands p' (pre @ array_entries fmt es)"
  using assms
proof (induction cs es arbitrary: p pre rule: list_all2_induct)
  case (Cons c cs e es)
  have le: "length e \<le> length (array_entries fmt (e # es))" by (cases es) simp_all
  obtain i p1 where p1: "print_value_buf fresh c depth fmt p = Inr (Some i, p1)" "printed p1 pre e"
    by (rule printsE [OF Cons.hyps(1) Cons.prems(2)]) (use Cons.prems(3) le in \<open>simp_all add: room_def\<close>)
  obtain p2 where p2: "move p1 = Inr p2" "stands p2 (pre @ e)"
    by (rule move_printed [OF p1(2)]) (use Cons.prems(1) in simp)
  show ?case
  proof (cases "cs = []")
    case True
    then show ?thesis using p1(1) p2 Cons.hyps(2) by simp
  next
    case False
    then obtain e2 es2 where es: "es = e2 # es2" using Cons.hyps(2) by (cases es) auto
    define sep where "sep = '','' @ (if fmt then '' '' else '''')"
    have entries: "array_entries fmt (e # es) = e @ sep @ array_entries fmt es" by (simp add: es sep_def)
    have r: "length pre + length e + length (array_entries fmt es) + 65 \<le> 2 ^ 30" "length sep \<le> 2"
      using Cons.prems(3) unfolding room_def entries by (simp_all add: sep_def)
    obtain p3 where p3: "emit_move fresh (if fmt then 3 else 2) (sep @ [NUL]) (if fmt then 2 else 1) p2 = Inr p3"
      "stands p3 ((pre @ e) @ take (if fmt then 2 else 1) (sep @ [NUL]))"
      by (rule emit_move_writes [OF p2(2), of "sep @ [NUL]" "if fmt then 3 else 2" "if fmt then 2 else 1" fresh])
        (use r in \<open>simp_all add: sep_def\<close>)
    have "stands p3 (pre @ e @ sep)" using p3(2) by (simp add: sep_def split: if_splits)
    then obtain p' where "print_items_buf fresh cs depth fmt p3 = Inr p'"
      "stands p' ((pre @ e @ sep) @ array_entries fmt es)"
      using Cons.IH [of p3 "pre @ e @ sep"] Cons.prems(1,3) unfolding room_def entries by auto
    then show ?thesis using p1(1) p2(1) p3(1) False unfolding entries by (simp add: sep_def)
  qed
qed simp

text \<open>The text of one member, up to its value.\<close>

lemma print_member_name:
  assumes "stands p pre" "nul_free (text_of nm)" "0 < depth"
    "length pre + (if fmt then depth else 0) + length (print_string_ptr nm) + 64 \<le> 2 ^ 30"
  obtains p3 where
    "bind_c (if fmt then emit_move fresh (int depth) (tabs depth) depth p else Inr p) (\<lambda>p.
       bind_c (print_string_alloc nm) (\<lambda>needed.
       bind_c (emit fresh needed (print_string_ptr nm @ [NUL]) p) (\<lambda>p.
       bind_c (move p) (\<lambda>p.
       bind_c (emit_move fresh (if fmt then 2 else 1) ('':'' @ (if fmt then tabs 1 else ''''))
               (if fmt then 2 else 1) p) f)))) = f p3"
    "stands p3 (pre @ (if fmt then tabs depth else '''') @ print_string_ptr nm @ '':'' @ (if fmt then tabs 1 else ''''))"
proof -
  define ind where "ind = (if fmt then tabs depth else '''')"
  define colon where "colon = '':'' @ (if fmt then tabs 1 else '''')"
  have len: "length ind = (if fmt then depth else 0)" "length colon = (if fmt then 2 else 1)"
    by (simp_all add: ind_def colon_def tabs_def)
  obtain p1 where p1: "(if fmt then emit_move fresh (int depth) (tabs depth) depth p else Inr p) = Inr p1" "stands p1 (pre @ ind)"
  proof (cases fmt)
    case True
    show ?thesis
      by (rule emit_move_writes [OF assms(1), of "tabs depth" "int depth" depth fresh])
        (use assms that True in \<open>simp_all add: ind_def tabs_def\<close>)
  qed (use assms(1) that in \<open>simp add: ind_def\<close>)
  let ?needed = "int (length (print_string_ptr nm)) + 1"
  have size: "print_string_alloc nm = Inr ?needed" using print_string_fits [of nm] assms(4) by simp
  obtain p2 where p2: "emit fresh ?needed (print_string_ptr nm @ [NUL]) p1 = Inr p2"
    "printed p2 (pre @ ind) (print_string_ptr nm)"
    by (rule emit_prints [OF p1(2), of "print_string_ptr nm" ?needed fresh]) (use len assms(4) in auto)
  obtain p2' where p2': "move p2 = Inr p2'" "stands p2' ((pre @ ind) @ print_string_ptr nm)"
    by (rule move_printed [OF p2(2) nul_free_print_string [OF assms(2)]])
  obtain p3 where p3: "emit_move fresh (if fmt then 2 else 1) colon (if fmt then 2 else 1) p2' = Inr p3"
    "stands p3 (((pre @ ind) @ print_string_ptr nm) @ take (if fmt then 2 else 1) colon)"
    by (rule emit_move_writes [OF p2'(2), of colon "if fmt then 2 else 1" "if fmt then 2 else 1" fresh])
      (use len assms(4) in auto)
  show ?thesis
  proof (rule that [of p3])
    show "stands p3 (pre @ (if fmt then tabs depth else '''') @ print_string_ptr nm @ '':'' @ (if fmt then tabs 1 else ''''))"
      using p3(2) len(2) by (simp add: ind_def colon_def)
  qed (use size p1(1) p2(1) p2'(1) p3(1) in \<open>simp add: colon_def\<close>)
qed

lemma print_members:
  assumes "list_all2 (\<lambda>c e. prints fresh fmt c depth e) cs es" "list_all nul_free es" "\<forall>c\<in>set cs. nul_free (text_of (cstring c))" "stands p pre" "0 < depth"
    "length pre + length (object_entries fmt depth (zip (map (\<lambda>c. print_string_ptr (cstring c)) cs) es)) + 64 \<le> 2 ^ 30"
  shows "\<exists>p'. print_members_buf fresh cs depth fmt p = Inr p'
    \<and> stands p' (pre @ object_entries fmt depth (zip (map (\<lambda>c. print_string_ptr (cstring c)) cs) es))"
  using assms
proof (induction cs es arbitrary: p pre rule: list_all2_induct)
  case (Cons c cs e es)
  let ?rest = "object_entries fmt depth (zip (map (\<lambda>c. print_string_ptr (cstring c)) cs) es)"
  define name where "name = (if fmt then tabs depth else '''') @ print_string_ptr (cstring c) @ '':'' @ (if fmt then tabs 1 else '''')"
  define sep where "sep = (if cs = [] then '''' else '','') @ (if fmt then [CHR 0x0A] else '''')"
  have ne: "es = [] \<longleftrightarrow> cs = []"
    using list_all2_lengthD [OF Cons.hyps(2)] by auto
  have entries: "object_entries fmt depth (zip (map (\<lambda>c. print_string_ptr (cstring c)) (c # cs)) (e # es))
      = name @ e @ sep @ ?rest"
    by (simp add: name_def sep_def ne)
  have r: "length pre + length name + length e + length sep + length ?rest + 64 \<le> 2 ^ 30"
    using Cons.prems(5) unfolding entries by simp
  have ln: "length (print_string_ptr (cstring c)) + (if fmt then depth else 0) \<le> length name"
    by (simp add: name_def tabs_def)
  obtain p1 where p1: "print_members_buf fresh (c # cs) depth fmt p =
      bind_c (print_value_buf fresh c depth fmt p1) (\<lambda>(_, p). bind_c (move p) (\<lambda>p.
      bind_c (emit_move fresh ((if fmt then 1 else 0) + (if cs = [] then 0 else 1) + 1) (sep @ [NUL])
        ((if fmt then 1 else 0) + (if cs = [] then 0 else 1)) p) (\<lambda>p. print_members_buf fresh cs depth fmt p)))"
    "stands p1 (pre @ name)"
    unfolding print_members_buf.simps
    by (rule print_member_name [OF Cons.prems(3), of "cstring c" depth fmt fresh])
      (use Cons.prems(2,4) r ln in \<open>simp_all add: name_def sep_def\<close>)
  obtain i p2 where p2: "print_value_buf fresh c depth fmt p1 = Inr (Some i, p2)" "printed p2 (pre @ name) e"
    by (rule printsE [OF Cons.hyps(1) p1(2)]) (use r in \<open>simp_all add: room_def\<close>)
  obtain p3 where p3: "move p2 = Inr p3" "stands p3 ((pre @ name) @ e)"
    by (rule move_printed [OF p2(2)]) (use Cons.prems(1) in simp)
  define k where "k = (if fmt then 1 else 0) + (if cs = [] then 0 else 1 :: nat)"
  have k: "k = length sep" by (simp add: k_def sep_def)
  have ki: "(if fmt then 1 else 0) + (if cs = [] then 0 else 1) + 1 = int k + 1" by (simp add: k_def)
  obtain p4 where p4: "emit_move fresh (int k + 1) (sep @ [NUL]) k p3 = Inr p4" "stands p4 (((pre @ name) @ e) @ take k (sep @ [NUL]))"
    by (rule emit_move_writes [OF p3(2), of "sep @ [NUL]" "int k + 1" k fresh]) (use k r in simp_all)
  have "stands p4 (pre @ name @ e @ sep)" using p4(2) by (simp add: k)
  then obtain p' where "print_members_buf fresh cs depth fmt p4 = Inr p'" "stands p' ((pre @ name @ e @ sep) @ ?rest)"
    using Cons.IH [of p4 "pre @ name @ e @ sep"] Cons.prems(1,2,4) r by auto
  moreover have "print_members_buf fresh (c # cs) depth fmt p = print_members_buf fresh cs depth fmt p4"
    using p2(1) p3(1) p4(1) unfolding p1(1) ki k_def [symmetric] by (simp del: print_members_buf.simps)
  ultimately show ?case unfolding entries by (simp del: print_members_buf.simps)
qed simp

text \<open>The numbers.\<close>

lemma length_nat_digits: "n < 10 ^ Suc k \<Longrightarrow> length (nat_digits n) \<le> Suc k"
proof (induction k arbitrary: n)
  case (Suc k)
  have "n div 10 < 10 ^ Suc k" using Suc.prems by (simp add: div_less_iff_less_mult)
  then show ?case using Suc.IH [of "n div 10"] by (simp add: nat_digits.simps [of n])
qed (simp add: nat_digits.simps)

lemma length_show_int:
  assumes "in_int k"
  shows "length (show_int k) \<le> 11"
proof -
  have "nat \<bar>k\<bar> < 10 ^ Suc 9" using assms by (auto simp: in_int_def)
  then have "length (nat_digits (nat \<bar>k\<bar>)) \<le> 10" using length_nat_digits [of "nat \<bar>k\<bar>" 9] by simp
  then show ?thesis by (auto simp: show_int_def)
qed

lemma print_number_fits:
  assumes "int_valued (valuedouble it)" "in_int (valueint it)"
  shows "int (length (print_number it)) < print_number_alloc it" "print_number_alloc it \<le> int (length (print_number it)) + 63"
proof -
  define k where "k = int_part (valuedouble it)"
  have p: "print_number it = show_int k" "valuedouble it = DFin (of_int k)" "in_int k"
    using print_number_printable [OF assms] by (simp_all add: k_def)
  have z: "length (show_int 0) = 1" by (simp add: show_int_def nat_digits.simps)
  have one: "1 \<le> length (show_int k)" using show_int_head [of k] by auto
  have "print_number_alloc it = (if k = 0 then 2 else print_number_alloc it)"
    by (simp add: print_number_alloc_def p(2) deq_def)
  moreover have "k \<noteq> 0 \<Longrightarrow> print_number_alloc it = 21 \<or> print_number_alloc it = 64"
    by (auto simp: print_number_alloc_def p(2) deq_def Let_def)
  ultimately show "int (length (print_number it)) < print_number_alloc it"
    "print_number_alloc it \<le> int (length (print_number it)) + 63"
    using length_show_int [OF p(3)] z one p(1) by (cases "k = 0"; auto)+
qed

text \<open>Every form of text.\<close>

lemma print_text:
  assumes "\<And>p. print_value_buf fresh c depth fmt p
      = bind_c (emit fresh needed (e @ [NUL]) p) (\<lambda>p'. Inr (Some (offset p), p'))"
    "int (length e) < needed" "needed \<le> int (length e) + 64"
  shows "prints fresh fmt c depth e"
  unfolding prints_def
proof (intro allI impI)
  fix p pre
  assume p: "stands p pre" "room pre e"
  obtain p' where "emit fresh needed (e @ [NUL]) p = Inr p'" "printed p' pre e"
    by (rule emit_prints [OF p(1) assms(2), of fresh]) (use p(2) assms(3) in \<open>simp add: room_def\<close>)
  then show "\<exists>i p'. print_value_buf fresh c depth fmt p = Inr (Some i, p') \<and> printed p' pre e
      \<and> (pre = [] \<and> depth = 0 \<longrightarrow> i = 0)"
    using assms(1) p(1) by (simp add: stands_def)
qed

text \<open>An opening bracket, the entries and a closing bracket.\<close>

lemma print_brackets:
  assumes "\<And>p. print_value_buf fresh c depth fmt p =
      bind_c (emit_move fresh n1 bra k p) (\<lambda>p'. bind_c (body p') (\<lambda>p'.
      bind_c (emit fresh n2 (ket @ [NUL]) p') (\<lambda>p'. Inr (Some (out p), p'))))"
    and out: "\<And>p. offset p = 0 \<Longrightarrow> depth = 0 \<Longrightarrow> out p = 0"
    and bra: "int (length bra) \<le> n1" "n1 \<le> int k + 1" "0 < n1" "k \<le> length bra"
    and ket: "int (length ket) < n2" "n2 \<le> int (length ket) + 1"
    and body: "\<And>p pre. stands p pre \<Longrightarrow> length pre + length entries + 64 \<le> 2 ^ 30 \<Longrightarrow>
      \<exists>p'. body p = Inr p' \<and> stands p' (pre @ entries)"
  shows "prints fresh fmt c depth (take k bra @ entries @ ket)"
  unfolding prints_def
proof (intro allI impI)
  fix p pre
  assume p: "stands p pre" "room pre (take k bra @ entries @ ket)"
  have room: "length pre + k + length entries + length ket + 64 \<le> 2 ^ 30"
    using p(2) bra(4) by (simp add: room_def)
  obtain p1 where p1: "emit_move fresh n1 bra k p = Inr p1" "stands p1 (pre @ take k bra)"
    by (rule emit_move_writes [OF p(1) bra(1,3) _ bra(4), of fresh]) (use room bra(2) in auto)
  obtain p2 where p2: "body p1 = Inr p2" "stands p2 ((pre @ take k bra) @ entries)"
    using body [OF p1(2)] room bra(4) by auto
  obtain p3 where p3: "emit fresh n2 (ket @ [NUL]) p2 = Inr p3" "printed p3 ((pre @ take k bra) @ entries) ket"
    by (rule emit_prints [OF p2(2) ket(1), of fresh]) (use room ket(2) bra(4) in auto)
  have "printed p3 pre (take k bra @ entries @ ket)" using p3(2) by (simp add: printed_def)
  then show "\<exists>i p'. print_value_buf fresh c depth fmt p = Inr (Some i, p')
      \<and> printed p' pre (take k bra @ entries @ ket) \<and> (pre = [] \<and> depth = 0 \<longrightarrow> i = 0)"
    using assms(1) out p1(1) p2(1) p3(1) p(1) by (simp add: stands_def)
qed

lemma nul_free_children:
  assumes "list_all2 (\<lambda>c e. print_value c d fmt = Some e) cs es" "\<forall>c\<in>set cs. printable c"
  shows "list_all nul_free es"
  using assms by (induction rule: list_all2_induct) (auto intro: nul_free_print_value)

lemma prints_value:
  "print_value it d fmt = Some e \<Longrightarrow> printable it \<Longrightarrow> prints fresh fmt it d e"
proof (induction rule: print_induct)
  case (literal it d e)
  then consider "and (ctype it) 255 = cJSON_NULL" "e = ''null''" | "and (ctype it) 255 = cJSON_False" "e = ''false''"
    | "and (ctype it) 255 = cJSON_True" "e = ''true''"
    by (auto split: if_splits)
  then show ?case
  proof cases
    case 1
    then show ?thesis by (intro print_text [of fresh it d fmt 5]) (simp_all add: print_value_buf.simps(1))
  next
    case 2
    then show ?thesis by (intro print_text [of fresh it d fmt 6]) (simp_all add: print_value_buf.simps(1))
  next
    case 3
    then show ?thesis by (intro print_text [of fresh it d fmt 5]) (simp_all add: print_value_buf.simps(1))
  qed
next
  case (number it d)
  show ?case
    by (rule print_text [of fresh it d fmt "print_number_alloc it"])
      (use number print_number_fits [OF number(2,3)] in \<open>simp_all add: print_value_buf.simps(1)\<close>)
next
  case (string it d)
  show ?case
  proof (cases "int (length (print_string it)) < INT_MAX")
    case True
    then have size: "print_string_alloc (valuestring it) = Inr (int (length (print_string it)) + 1)"
      unfolding print_string_def by (rule print_string_fits)
    show ?thesis
      by (rule print_text [of fresh it d fmt "int (length (print_string it)) + 1"])
        (use string size in \<open>simp_all add: print_value_buf.simps(1) print_string_def\<close>)
  next
    case False
    then show ?thesis by (auto simp: prints_def room_def print_string_def)
  qed
next
  case (array it d es)
  show ?case
  proof (cases "child it = []")
    case True
    then show ?thesis using array(1,4)
      by (intro print_text [of fresh it d fmt 3]) (simp_all add: print_value_buf.simps(1) print_array_out_def)
  next
    case False
    have nul: "list_all nul_free es" using nul_free_children [OF array(3,2)] .
    have "prints fresh fmt it d (take 1 ''['' @ array_entries fmt es @ '']'')"
      by (rule print_brackets [where out = offset and body = "print_items_buf fresh (child it) (d + 1) fmt" and ?n2.0 = 2 and ?n1.0 = 1])
        (use array(1) False print_items [OF array(4) nul] in \<open>simp_all add: print_value_buf.simps(1) room_def\<close>)
    then show ?thesis using False array(4) by (auto simp: print_array_out_def)
  qed
next
  case (object it d es)
  show ?case
  proof (cases "child it = []")
    case True
    then show ?thesis using object(1,4)
      by (intro print_text [of fresh it d fmt "if fmt then int d + 4 else 3"])
        (simp_all add: print_value_buf.simps(1) print_object_out_def tabs_def)
  next
    case False
    have nul: "list_all nul_free es" using nul_free_children [OF object(3)] object(2) by blast
    have names: "\<forall>c\<in>set (child it). nul_free (text_of (cstring c))" using object(2) by blast
    let ?entries = "object_entries fmt (d + 1) (zip (map (\<lambda>c. print_string_ptr (cstring c)) (child it)) es)"
    let ?bra = "''{'' @ (if fmt then [CHR 0x0A] else '''') @ [NUL]"
    let ?k = "if fmt then 2 else 1 :: nat"
    have "prints fresh fmt it d (take ?k ?bra @ ?entries @ (if fmt then tabs d else '''') @ ''}'')"
      by (rule print_brackets [where out = "\<lambda>p. if fmt then d else offset p"
            and body = "print_members_buf fresh (child it) (d + 1) fmt"
            and ?n2.0 = "if fmt then int d + 2 else 2" and ?n1.0 = "if fmt then 3 else 2"])
        (use object(1) False print_members [OF object(4) nul names] in
          \<open>simp_all add: print_value_buf.simps(1) tabs_def\<close>)
    then show ?thesis using False object(4) by (auto simp: print_object_out_def)
  qed
qed

section \<open>The buffered printer prints what the unbuffered one prints\<close>

text \<open>C31: For every item with printable values whose text is shorter than 2^30 - 64, \<open>cJSON_PrintBuffered\<close>
  returns the text of the unbuffered printer, formatted or not: whatever the size of the first buffer and
  whatever the memory the allocator hands out contains, every write of the printer stays inside the
  buffer, which \<open>ensure\<close> has grown before, and no size computation overflows an \<open>int\<close>.\<close>

theorem buffered_equals_unbuffered:
  assumes "printable it" "print_value it 0 fmt = Some e" "length e + 64 \<le> 2 ^ 30"
  shows "cJSON_PrintBuffered fresh (Some it) prebuffer fmt = Inr (Some e)"
proof -
  have "prints fresh fmt it 0 e" using prints_value [OF assms(2,1)] .
  then obtain p' where p': "print_value_buf fresh it 0 fmt \<lparr>buffer = map fresh [0..<prebuffer], offset = 0\<rparr> = Inr (Some 0, p')"
    "printed p' [] e"
    by (rule printsE [where pre = "[]" and p = "\<lparr>buffer = map fresh [0..<prebuffer], offset = 0\<rparr>"]) (use assms(3) in \<open>simp_all add: room_def stands_def written_def\<close>)
  have "take (length e + 1) (buffer p') = e @ [NUL]" using p'(2) by (simp add: printed_def written_def)
  then have b: "buffer p' = e @ NUL # drop (length e + 1) (buffer p')"
    by (metis append.assoc append_Cons append_Nil append_take_drop_id)
  have "c_str (buffer p') = e" "NUL \<in> set (buffer p')"
    using nul_free_print_value [OF assms(2,1)] by (subst b, simp add: c_str_append c_str_def [of "NUL # _"])+
  then show ?thesis using p'(1) by (simp add: cJSON_PrintBuffered_def)
qed

theorem buffered_equals_unbuffered_witness:
  "cJSON_PrintBuffered (\<lambda>i. CHR ''x'')
     (Some (CJSON cJSON_Array None 0 0 0 (DFin 0) None [CJSON cJSON_True None 0 0 1 (DFin 0) None []])) 1 False
   = Inr (Some ''[true]'')"
proof (rule buffered_equals_unbuffered)
qed (simp_all add: Let_def print_array_out_def)

end
