(* ===== verification/CJsonMinify.thy ===== *)
theory CJsonMinify imports CJsonRound begin

text \<open>
  \<open>cJSON_Minify\<close> of \<open>json/cJSON.c\<close>: white space and comments are removed from a text in place. The buffer
  is the whole object the argument points into, what follows the terminating NUL included; \<open>json\<close> and
  \<open>into\<close> are positions in it. \<open>minify\<close> is what the function does to the text.
\<close>

section \<open>The function on the buffer\<close>

definition rd :: "string \<Rightarrow> nat \<Rightarrow> char c" where
  "rd buf i = (if i < length buf then Inr (buf ! i) else Inl OutOfBounds)"

text \<open>\<open>*into++=*json++\<close>, but for the two increments.\<close>

definition copy_char :: "string \<Rightarrow> nat \<Rightarrow> nat \<Rightarrow> string c" where
  "copy_char buf json into =
     bind_c (rd buf json) (\<lambda>c. if into < length buf then Inr (buf[into := c]) else Inl BufferOverflow)"

lemma rd_Inr: "rd buf i = Inr c \<longleftrightarrow> i < length buf \<and> c = buf ! i"
  by (auto simp: rd_def)

lemma copy_char_length: "copy_char buf json into = Inr buf' \<Longrightarrow> length buf' = length buf"
  by (auto simp: copy_char_def bind_c_eq_Inr split: if_splits)

function skip_line :: "string \<Rightarrow> nat \<Rightarrow> nat c" where
  "skip_line buf json =
     bind_c (rd buf json) (\<lambda>c. if c \<noteq> NUL \<and> c \<noteq> CHR 0x0A then skip_line buf (json + 1) else Inr json)"
  by pat_completeness auto
termination by (relation "measure (\<lambda>(buf, json). length buf - json)") (auto simp: rd_Inr)

function skip_block :: "string \<Rightarrow> nat \<Rightarrow> nat c" where
  "skip_block buf json =
     bind_c (rd buf json) (\<lambda>c.
       if c = NUL then Inr json
       else bind_c (if c = CHR ''*'' then rd buf (json + 1) else Inr NUL) (\<lambda>d.
         if c = CHR ''*'' \<and> d = CHR ''/'' then Inr json else skip_block buf (json + 1)))"
  by pat_completeness auto
termination by (relation "measure (\<lambda>(buf, json). length buf - json)") (auto simp: rd_Inr)

function copy_string :: "string \<Rightarrow> nat \<Rightarrow> nat \<Rightarrow> (string \<times> nat \<times> nat) c" where
  "copy_string buf json into =
     bind_c (rd buf json) (\<lambda>c.
       if c = NUL \<or> c = CHR 0x22 then Inr (buf, json, into)
       else if c = CHR 0x5C
       then bind_c (copy_char buf json into) (\<lambda>buf. bind_c (copy_char buf (json + 1) (into + 1)) (\<lambda>buf.
              copy_string buf (json + 2) (into + 2)))
       else bind_c (copy_char buf json into) (\<lambda>buf. copy_string buf (json + 1) (into + 1)))"
  by pat_completeness auto
termination
  by (relation "measure (\<lambda>(buf, json, into). length buf - json)") (auto simp: rd_Inr dest!: copy_char_length)

declare skip_line.simps [simp del] skip_block.simps [simp del] copy_string.simps [simp del]

text \<open>The loops only move forward, and a line comment has at least one character.\<close>

lemma skip_line_forward: "skip_line buf json = Inr i \<Longrightarrow> json \<le> i"
  by (induction buf json rule: skip_line.induct)
    (subst (asm) (2) skip_line.simps, fastforce simp: bind_c_eq_Inr split: if_splits)

lemma skip_line_moves: "skip_line buf json = Inr i \<Longrightarrow> rd buf json = Inr CHR ''/'' \<Longrightarrow> json < i"
  by (subst (asm) skip_line.simps) (auto dest: skip_line_forward)

lemma skip_block_forward: "skip_block buf json = Inr i \<Longrightarrow> json \<le> i"
  by (induction buf json rule: skip_block.induct)
    (subst (asm) (2) skip_block.simps, fastforce simp: bind_c_eq_Inr split: if_splits)

lemma copy_string_forward:
  "copy_string buf json into = Inr (buf', i, j) \<Longrightarrow> json \<le> i \<and> length buf' = length buf"
proof (induction buf json into rule: copy_string.induct)
  case (1 buf json into)
  obtain c where c: "rd buf json = Inr c"
    and r: "(if c = NUL \<or> c = CHR 0x22 then Inr (buf, json, into)
       else if c = CHR 0x5C
       then bind_c (copy_char buf json into) (\<lambda>buf. bind_c (copy_char buf (json + 1) (into + 1)) (\<lambda>buf.
              copy_string buf (json + 2) (into + 2)))
       else bind_c (copy_char buf json into) (\<lambda>buf. copy_string buf (json + 1) (into + 1))) = Inr (buf', i, j)"
    using 1(3) by (subst (asm) copy_string.simps) (rule bind_c_InrE)
  show ?case
  proof (cases "c = NUL \<or> c = CHR 0x22")
    case outer: False
    show ?thesis
    proof (cases "c = CHR 0x5C")
      case True
      then obtain b1 b2 where b: "copy_char buf json into = Inr b1" "copy_char b1 (json + 1) (into + 1) = Inr b2"
        "copy_string b2 (json + 2) (into + 2) = Inr (buf', i, j)"
        using r outer by (auto elim!: bind_c_InrE)
      then show ?thesis using 1(1) [OF c outer True b(1,2)] copy_char_length [OF b(1)] copy_char_length [OF b(2)] by simp
    next
      case False
      then obtain b1 where b: "copy_char buf json into = Inr b1" "copy_string b1 (json + 1) (into + 1) = Inr (buf', i, j)"
        using r outer by (auto elim!: bind_c_InrE)
      then show ?thesis using 1(2) [OF c outer False b(1)] copy_char_length [OF b(1)] by simp
    qed
  qed (use r in simp)
qed

function minify_loop :: "string \<Rightarrow> nat \<Rightarrow> nat \<Rightarrow> (string \<times> nat) c" where
  "minify_loop buf json into =
     bind_c (rd buf json) (\<lambda>c.
       if c = NUL then Inr (buf, into)
       else if c = CHR '' '' \<or> c = CHR 0x09 \<or> c = CHR 0x0D \<or> c = CHR 0x0A then minify_loop buf (json + 1) into
       else bind_c (if c = CHR ''/'' then rd buf (json + 1) else Inr NUL) (\<lambda>d.
         if c = CHR ''/'' \<and> d = CHR ''/'' then bind_c (skip_line buf json) (\<lambda>json. minify_loop buf json into)
         else if c = CHR ''/'' \<and> d = CHR ''*''
         then bind_c (skip_block buf json) (\<lambda>json. minify_loop buf (json + 2) into)
         else if c = CHR 0x22
         then bind_c (copy_char buf json into) (\<lambda>buf.
              bind_c (copy_string buf (json + 1) (into + 1)) (\<lambda>(buf, json, into).
              bind_c (copy_char buf json into) (\<lambda>buf. minify_loop buf (json + 1) (into + 1))))
         else bind_c (copy_char buf json into) (\<lambda>buf. minify_loop buf (json + 1) (into + 1))))"
  by pat_completeness auto
termination
  by (relation "measure (\<lambda>(buf, json, into). length buf - json)")
    (auto simp: rd_Inr dest!: copy_char_length copy_string_forward skip_block_forward dest: skip_line_moves)

declare minify_loop.simps [simp del]

definition cJSON_Minify :: "string \<Rightarrow> string c" where
  "cJSON_Minify buf =
     bind_c (minify_loop buf 0 0) (\<lambda>(buf, into).
       if into < length buf then Inr (buf[into := NUL]) else Inl BufferOverflow)"

section \<open>What it does to the text\<close>

text \<open>The text behind the end of a block comment, looked for from \<open>s\<close> on.\<close>

fun after_block :: "string \<Rightarrow> string option" where
  "after_block [] = None"
| "after_block (c # s) = (if c = CHR ''*'' \<and> peek s = CHR ''/'' then Some (tl s) else after_block s)"

text \<open>The rest of a string literal with its closing quote, and the text behind it.\<close>

fun literal_rest :: "string \<Rightarrow> (string \<times> string) option" where
  "literal_rest [] = None"
| "literal_rest (c # s) =
     (if c = CHR 0x22 then Some ([c], s)
      else if c = CHR 0x5C
      then (case s of [] \<Rightarrow> None | d # s \<Rightarrow> map_option (\<lambda>(l, r). (c # d # l, r)) (literal_rest s))
      else map_option (\<lambda>(l, r). (c # l, r)) (literal_rest s))"

lemma after_block_shorter: "after_block s = Some r \<Longrightarrow> length r < length s"
  by (induction s) (auto split: if_splits)

lemma literal_rest_shorter: "literal_rest s = Some (l, r) \<Longrightarrow> length r < length s"
  by (induction s arbitrary: l r rule: literal_rest.induct) (fastforce split: if_splits list.splits)+

function minify :: "string \<Rightarrow> string option" where
  "minify s =
     (case s of
        [] \<Rightarrow> Some []
      | c # r \<Rightarrow>
          if c = CHR '' '' \<or> c = CHR 0x09 \<or> c = CHR 0x0D \<or> c = CHR 0x0A then minify r
          else if c = CHR ''/'' \<and> peek r = CHR ''/'' then minify (dropWhile (\<lambda>c. c \<noteq> CHR 0x0A) r)
          else if c = CHR ''/'' \<and> peek r = CHR ''*''
          then (case after_block r of None \<Rightarrow> None | Some r \<Rightarrow> minify r)
          else if c = CHR 0x22
          then (case literal_rest r of None \<Rightarrow> None | Some (l, r) \<Rightarrow> map_option (\<lambda>t. c # l @ t) (minify r))
          else map_option ((#) c) (minify r))"
  by pat_completeness auto
termination
  by (relation "measure length")
    (auto simp: less_Suc_eq_le length_dropWhile_le dest!: after_block_shorter literal_rest_shorter)

declare minify.simps [simp del]

section \<open>The buffer while the function runs\<close>

text \<open>\<open>out\<close> has been written, \<open>r\<close> is still to be read, and \<open>json\<close> is never behind \<open>into\<close>.\<close>

definition at_text :: "string \<Rightarrow> nat \<Rightarrow> nat \<Rightarrow> string \<Rightarrow> string \<Rightarrow> bool" where
  "at_text buf json into out r \<longleftrightarrow>
     (\<exists>gap. buf = out @ gap @ r \<and> into = length out \<and> json = length out + length gap)"

lemma at_text_rd:
  assumes "at_text buf json into out (c # r)"
  shows "rd buf json = Inr c" "rd buf (json + 1) = (case r of [] \<Rightarrow> Inl OutOfBounds | d # _ \<Rightarrow> Inr d)"
  using assms by (auto simp: at_text_def rd_def nth_append split: list.splits)

lemma at_text_end: "at_text buf json into out [] \<Longrightarrow> rd buf json = Inl OutOfBounds"
  by (auto simp: at_text_def rd_def)

lemma at_text_skip:
  assumes "at_text buf json into out (c # r)"
  shows "at_text buf (json + 1) into out r"
proof -
  obtain gap where "buf = out @ gap @ c # r" "into = length out" "json = length out + length gap"
    using assms by (auto simp: at_text_def)
  then show ?thesis unfolding at_text_def by (intro exI [of _ "gap @ [c]"]) simp
qed

lemma at_text_copy:
  assumes "at_text buf json into out (c # r)"
  obtains buf' where "copy_char buf json into = Inr buf'" "at_text buf' (json + 1) (into + 1) (out @ [c]) r"
proof -
  obtain gap where g: "buf = out @ gap @ c # r" "into = length out" "json = length out + length gap"
    using assms by (auto simp: at_text_def)
  have "copy_char buf json into = Inr (buf[into := c])"
    using at_text_rd(1) [OF assms] g by (simp add: copy_char_def)
  moreover have "at_text (buf[into := c]) (json + 1) (into + 1) (out @ [c]) r"
    unfolding at_text_def using g
    by (intro exI [of _ "tl (gap @ [c])"]) (cases gap; simp add: list_update_append)
  ultimately show ?thesis using that by blast
qed

section \<open>The loops on the text\<close>

lemma skip_line_text:
  "at_text buf json into out (s @ NUL # rest) \<Longrightarrow> nul_free s \<Longrightarrow>
   \<exists>i. skip_line buf json = Inr i \<and> at_text buf i into out (dropWhile (\<lambda>c. c \<noteq> CHR 0x0A) s @ NUL # rest)"
proof (induction s arbitrary: json)
  case (Cons c s)
  note c = at_text_rd(1) [of buf json into out c "s @ NUL # rest"]
  show ?case
  proof (cases "c = CHR 0x0A")
    case False
    then show ?thesis
      using Cons.IH [OF at_text_skip] Cons.prems c by (subst skip_line.simps) auto
  qed (use Cons.prems c in \<open>subst skip_line.simps, auto\<close>)
qed (auto simp: skip_line.simps at_text_rd(1))

lemma skip_block_text:
  "at_text buf json into out (s @ NUL # rest) \<Longrightarrow> nul_free s \<Longrightarrow>
   \<exists>i. skip_block buf json = Inr i
     \<and> (case after_block s of
          None \<Rightarrow> at_text buf i into out (NUL # rest)
        | Some r \<Rightarrow> at_text buf (i + 2) into out (r @ NUL # rest))"
proof (induction s arbitrary: json)
  case (Cons c s)
  have c: "rd buf json = Inr c" "c \<noteq> NUL" using at_text_rd(1) Cons.prems by auto
  have d: "rd buf (json + 1) = Inr (peek s)"
    using at_text_rd(2) [of buf json into out c "s @ NUL # rest"] Cons.prems(1) by (cases s) auto
  show ?case
  proof (cases "c = CHR ''*'' \<and> peek s = CHR ''/''")
    case True
    then obtain s' where s: "s = CHR ''/'' # s'" by (cases s) auto
    have "at_text buf (json + 1 + 1) into out (s' @ NUL # rest)"
      using at_text_skip [OF at_text_skip] Cons.prems(1) s by fastforce
    then show ?thesis using True c d s by (subst skip_block.simps) simp
  next
    case False
    then have "skip_block buf json = skip_block buf (json + 1)" using c d by (subst skip_block.simps) auto
    then show ?thesis using Cons.IH [OF at_text_skip] Cons.prems False by auto
  qed
qed (auto simp: skip_block.simps at_text_rd(1))

lemma copy_string_text:
  assumes "at_text buf json into out (s @ NUL # rest)" "nul_free s" "literal_rest s = Some (l, r)"
  obtains buf' i j m where "copy_string buf json into = Inr (buf', i, j)" "l = m @ [CHR 0x22]" "nul_free r"
    "at_text buf' i j (out @ m) (CHR 0x22 # r @ NUL # rest)"
proof -
  have "\<exists>buf' i j m. copy_string buf json into = Inr (buf', i, j) \<and> l = m @ [CHR 0x22] \<and> nul_free r
      \<and> at_text buf' i j (out @ m) (CHR 0x22 # r @ NUL # rest)"
    using assms
  proof (induction s arbitrary: buf json into out l rule: literal_rest.induct)
    case (2 c s)
    note t = 2(3) [unfolded append_Cons]
    have c: "rd buf json = Inr c" "c \<noteq> NUL" using at_text_rd(1) [OF t] 2(4) by auto
    consider "c = CHR 0x22" | "c = CHR 0x5C" | "c \<noteq> CHR 0x22" "c \<noteq> CHR 0x5C" by blast
    then show ?case
    proof cases
      case 1
      then show ?thesis using 2(3-5) c by (subst copy_string.simps) auto
    next
      case 2
      obtain d s' l' where s: "s = d # s'" "literal_rest s' = Some (l', r)" "l = c # d # l'"
        using 2 \<open>literal_rest (c # s) = Some (l, r)\<close> by (auto split: list.splits)
      obtain b1 where b1: "copy_char buf json into = Inr b1" "at_text b1 (json + 1) (into + 1) (out @ [c]) (d # s' @ NUL # rest)"
        by (rule at_text_copy [OF t]) (simp add: s)
      obtain b2 where b2: "copy_char b1 (json + 1) (into + 1) = Inr b2"
        "at_text b2 (json + 1 + 1) (into + 1 + 1) ((out @ [c]) @ [d]) (s' @ NUL # rest)"
        by (rule at_text_copy [OF b1(2)])
      have "copy_string buf json into = copy_string b2 (json + 2) (into + 2)"
        using c 2 b1(1) b2(1) by (subst copy_string.simps) simp
      moreover obtain buf' i j m where "copy_string b2 (json + 2) (into + 2) = Inr (buf', i, j)" "l' = m @ [CHR 0x22]"
        "nul_free r" "at_text buf' i j (((out @ [c]) @ [d]) @ m) (CHR 0x22 # r @ NUL # rest)"
        using "2.IH"(1) [OF _ 2 s(1), of b2 "json + 2" "into + 2" "(out @ [c]) @ [d]" l'] b2(2) s 2 "2.prems"(2) by auto
      ultimately show ?thesis using s(3) by (intro exI [of _ buf'] exI [of _ i] exI [of _ j] exI [of _ "c # d # m"]) simp
    next
      case 3
      then obtain l' where l: "literal_rest s = Some (l', r)" "l = c # l'"
        using \<open>literal_rest (c # s) = Some (l, r)\<close> by auto
      obtain b1 where b1: "copy_char buf json into = Inr b1" "at_text b1 (json + 1) (into + 1) (out @ [c]) (s @ NUL # rest)"
        by (rule at_text_copy [OF t])
      have "copy_string buf json into = copy_string b1 (json + 1) (into + 1)"
        using c 3 b1(1) by (subst copy_string.simps) simp
      moreover obtain buf' i j m where "copy_string b1 (json + 1) (into + 1) = Inr (buf', i, j)" "l' = m @ [CHR 0x22]"
        "nul_free r" "at_text buf' i j ((out @ [c]) @ m) (CHR 0x22 # r @ NUL # rest)"
        using "2.IH"(2) [OF 3 b1(2) _ l(1)] "2.prems"(2) by auto
      ultimately show ?thesis using l(2) by (intro exI [of _ buf'] exI [of _ i] exI [of _ j] exI [of _ "c # m"]) simp
    qed
  qed simp
  then show ?thesis using that by blast
qed

lemma copy_string_open:
  assumes "at_text buf json into out (s @ [NUL])" "nul_free s" "literal_rest s = None"
  shows "copy_string buf json into = Inl OutOfBounds
    \<or> (\<exists>buf' i j out'. copy_string buf json into = Inr (buf', i, j) \<and> at_text buf' i j out' [NUL])"
  using assms
proof (induction s arbitrary: buf json into out rule: literal_rest.induct)
  case (1 buf json into out)
  then have "copy_string buf json into = Inr (buf, json, into)"
    by (subst copy_string.simps) (simp add: at_text_rd(1))
  then show ?case using 1 by auto
next
  case (2 c s)
  note t = "2.prems"(1) [unfolded append_Cons]
  have c: "rd buf json = Inr c" "c \<noteq> NUL" "c \<noteq> CHR 0x22" using at_text_rd(1) [OF t] "2.prems"(2,3) by auto
  obtain b1 where b1: "copy_char buf json into = Inr b1" "at_text b1 (json + 1) (into + 1) (out @ [c]) (s @ [NUL])"
    by (rule at_text_copy [OF t])
  show ?case
  proof (cases "c = CHR 0x5C")
    case False
    have "copy_string buf json into = copy_string b1 (json + 1) (into + 1)"
      using c False b1(1) by (subst copy_string.simps) simp
    then show ?thesis using "2.IH"(2) [OF c(3) False b1(2)] "2.prems"(2,3) c False by auto
  next
    case esc: True
    show ?thesis
    proof (cases s)
      case Nil
      obtain b2 where b2: "copy_char b1 (json + 1) (into + 1) = Inr b2"
        "at_text b2 (json + 1 + 1) (into + 1 + 1) ((out @ [c]) @ [NUL]) []"
        by (rule at_text_copy [OF b1(2) [unfolded Nil append_Nil]])
      have "copy_string b2 (json + 2) (into + 2) = Inl OutOfBounds"
        using at_text_end [OF b2(2)] by (subst copy_string.simps) simp
      then show ?thesis using c esc b1(1) b2(1) by (subst (1 2) copy_string.simps) simp
    next
      case s: (Cons d s')
      obtain b2 where b2: "copy_char b1 (json + 1) (into + 1) = Inr b2"
        "at_text b2 (json + 1 + 1) (into + 1 + 1) ((out @ [c]) @ [d]) (s' @ [NUL])"
        by (rule at_text_copy [OF b1(2) [unfolded s append_Cons]])
      have "copy_string buf json into = copy_string b2 (json + 2) (into + 2)"
        using c esc b1(1) b2(1) by (subst copy_string.simps) simp
      then show ?thesis
        using "2.IH"(1) [OF c(3) esc s, of b2 "json + 2" "into + 2" "(out @ [c]) @ [d]"] b2(2) "2.prems"(2,3) esc s by auto
    qed
  qed
qed

lemma nul_free_dropWhile: "nul_free s \<Longrightarrow> nul_free (dropWhile P s)"
  by (auto simp: nul_free_def dest: set_dropWhileD)

lemma nul_free_after_block: "nul_free s \<Longrightarrow> after_block s = Some r \<Longrightarrow> nul_free r"
  by (induction s) (auto simp: nul_free_tl split: if_splits)

lemma at_text_overrun: "at_text buf json into out [c] \<Longrightarrow> rd buf (json + 2) = Inl OutOfBounds"
  by (auto simp: at_text_def rd_def)

text \<open>The character after \<open>c\<close>, which is only read when it matters.\<close>

lemma at_text_second:
  assumes "at_text buf json into out (c # s @ NUL # rest)"
  shows "(if c = CHR ''/'' then rd buf (json + 1) else Inr NUL) = Inr (if c = CHR ''/'' then peek s else NUL)"
  using at_text_rd(2) [OF assms] by (cases s) auto

abbreviation blank :: "char \<Rightarrow> bool" where
  "blank c \<equiv> c = CHR '' '' \<or> c = CHR 0x09 \<or> c = CHR 0x0D \<or> c = CHR 0x0A"

lemma minify_step:
  assumes "at_text buf json into out (c # s @ NUL # rest)" "c \<noteq> NUL"
  shows "minify_loop buf json into =
    (if blank c then minify_loop buf (json + 1) into
     else if c = CHR ''/'' \<and> peek s = CHR ''/'' then bind_c (skip_line buf json) (\<lambda>json. minify_loop buf json into)
     else if c = CHR ''/'' \<and> peek s = CHR ''*''
     then bind_c (skip_block buf json) (\<lambda>json. minify_loop buf (json + 2) into)
     else if c = CHR 0x22
     then bind_c (copy_char buf json into) (\<lambda>buf.
          bind_c (copy_string buf (json + 1) (into + 1)) (\<lambda>(buf, json, into).
          bind_c (copy_char buf json into) (\<lambda>buf. minify_loop buf (json + 1) (into + 1))))
     else bind_c (copy_char buf json into) (\<lambda>buf. minify_loop buf (json + 1) (into + 1)))"
  by (subst minify_loop.simps) (use assms at_text_rd(1) [OF assms(1)] at_text_second [OF assms(1)] in simp)

lemma minify_loop_text:
  "minify s = Some t \<Longrightarrow> at_text buf json into out (s @ NUL # rest) \<Longrightarrow> nul_free s \<Longrightarrow>
   \<exists>buf' i. minify_loop buf json into = Inr (buf', into + length t) \<and> at_text buf' i (into + length t) (out @ t) (NUL # rest)"
proof (induction s arbitrary: t buf json into out rule: minify.induct)
  case (1 s)
  show ?case
  proof (cases s)
    case Nil
    then show ?thesis using "1.prems" at_text_rd(1) [of buf json into out NUL rest]
      by (subst minify_loop.simps) (auto simp: minify.simps [of "[]"])
  next
    case s: (Cons c r)
    note at = "1.prems"(2) [unfolded s append_Cons]
    have c: "rd buf json = Inr c" "c \<noteq> NUL" "nul_free r" using at_text_rd(1) [OF at] "1.prems"(3) s by auto
    note m = "1.prems"(1) [unfolded s minify.simps [of "c # r"] list.case]
    note run = minify_step [OF at c(2)]
    consider "blank c" | "\<not> blank c" "c = CHR ''/'' \<and> peek r = CHR ''/''" | "\<not> blank c" "c = CHR ''/'' \<and> peek r = CHR ''*''"
      | "c = CHR 0x22" | "\<not> blank c" "\<not> (c = CHR ''/'' \<and> peek r = CHR ''/'')" "\<not> (c = CHR ''/'' \<and> peek r = CHR ''*'')" "c \<noteq> CHR 0x22"
      by auto
    then show ?thesis
    proof cases
      case 1
      then have "minify_loop buf json into = minify_loop buf (json + 1) into" "minify r = Some t"
        using c(2) m unfolding run by auto
      then show ?thesis using "1.IH"(1) [OF s 1 _ at_text_skip [OF at] c(3)] by simp
    next
      case 2
      obtain i where i: "skip_line buf json = Inr i"
        "at_text buf i into out (dropWhile (\<lambda>c. c \<noteq> CHR 0x0A) (c # r) @ NUL # rest)"
        using skip_line_text [of buf json into out "c # r" rest] at c by auto
      have "minify_loop buf json into = minify_loop buf i into" using 2 c(2) i(1) unfolding run by simp
      moreover have "minify (dropWhile (\<lambda>c. c \<noteq> CHR 0x0A) r) = Some t" using m 2 by simp
      ultimately show ?thesis
        using "1.IH"(2) [OF s 2 _ _ nul_free_dropWhile [OF c(3)]] i(2) 2(2) by simp
    next
      case 3
      then obtain r' where r': "after_block r = Some r'" "minify r' = Some t" using m by (auto split: option.splits)
      obtain i where i: "skip_block buf json = Inr i" "at_text buf (i + 2) into out (r' @ NUL # rest)"
        using skip_block_text [of buf json into out "c # r" rest] at c r'(1) 3 by auto
      have "minify_loop buf json into = minify_loop buf (i + 2) into" using 3 c(2) i(1) unfolding run by simp
      then show ?thesis
        using "1.IH"(3) [OF s 3(1) _ 3(2) r'(1) r'(2) i(2) nul_free_after_block [OF c(3) r'(1)]] 3(2) by simp
    next
      case 4
      then obtain l r' t' where r': "literal_rest r = Some (l, r')" "minify r' = Some t'" "t = c # l @ t'"
        using m by (auto split: option.splits)
      obtain b1 where b1: "copy_char buf json into = Inr b1" "at_text b1 (json + 1) (into + 1) (out @ [c]) (r @ NUL # rest)"
        by (rule at_text_copy [OF at])
      obtain b2 i j k where b2: "copy_string b1 (json + 1) (into + 1) = Inr (b2, i, j)" "l = k @ [CHR 0x22]" "nul_free r'"
        "at_text b2 i j ((out @ [c]) @ k) (CHR 0x22 # r' @ NUL # rest)"
        by (rule copy_string_text [OF b1(2) c(3) r'(1)])
      obtain b3 where b3: "copy_char b2 i j = Inr b3"
        "at_text b3 (i + 1) (j + 1) (((out @ [c]) @ k) @ [CHR 0x22]) (r' @ NUL # rest)"
        by (rule at_text_copy [OF b2(4)])
      have j: "into = length out" "j = length out + 1 + length k" using at b2(4) by (auto simp: at_text_def)
      have "minify_loop buf json into = minify_loop b3 (i + 1) (j + 1)"
        using 4 c(2) b1(1) b2(1) b3(1) unfolding run by simp
      then show ?thesis
        using "1.IH"(4) [OF s _ _ _ 4 r'(1) _ r'(2) b3(2) b2(3)] r'(3) b2(2) j 4 by (simp add: add.assoc)
    next
      case 5
      then obtain t' where t': "minify r = Some t'" "t = c # t'" using m by auto
      obtain b1 where b1: "copy_char buf json into = Inr b1" "at_text b1 (json + 1) (into + 1) (out @ [c]) (r @ NUL # rest)"
        by (rule at_text_copy [OF at])
      have "minify_loop buf json into = minify_loop b1 (json + 1) (into + 1)"
        using 5 c(2) b1(1) unfolding run by auto
      then show ?thesis using "1.IH"(5) [OF s 5 t'(1) b1(2) c(3)] t'(2) by simp
    qed
  qed
qed

lemma minify_loop_open:
  "minify s = None \<Longrightarrow> at_text buf json into out (s @ [NUL]) \<Longrightarrow> nul_free s \<Longrightarrow>
   minify_loop buf json into = Inl OutOfBounds"
proof (induction s arbitrary: buf json into out rule: minify.induct)
  case (1 s)
  show ?case
  proof (cases s)
    case Nil
    then show ?thesis using "1.prems" by (simp add: minify.simps [of "[]"])
  next
    case s: (Cons c r)
    note at = "1.prems"(2) [unfolded s append_Cons]
    have c: "c \<noteq> NUL" "nul_free r" using "1.prems"(3) s by auto
    note m = "1.prems"(1) [unfolded s minify.simps [of "c # r"] list.case]
    note run = minify_step [OF at c(1)]
    consider "blank c" | "\<not> blank c" "c = CHR ''/'' \<and> peek r = CHR ''/''" | "\<not> blank c" "c = CHR ''/'' \<and> peek r = CHR ''*''"
      | "c = CHR 0x22" | "\<not> blank c" "\<not> (c = CHR ''/'' \<and> peek r = CHR ''/'')" "\<not> (c = CHR ''/'' \<and> peek r = CHR ''*'')" "c \<noteq> CHR 0x22"
      by auto
    then show ?thesis
    proof cases
      case 1
      then show ?thesis using "1.IH"(1) [OF s 1 _ at_text_skip [OF at] c(2)] m unfolding run by auto
    next
      case 2
      obtain i where i: "skip_line buf json = Inr i"
        "at_text buf i into out (dropWhile (\<lambda>c. c \<noteq> CHR 0x0A) (c # r) @ [NUL])"
        using skip_line_text [of buf json into out "c # r" "[]"] at c by auto
      have "minify (dropWhile (\<lambda>c. c \<noteq> CHR 0x0A) r) = None" using m 2 by simp
      then show ?thesis
        using "1.IH"(2) [OF s 2 _ _ nul_free_dropWhile [OF c(2)]] i 2 unfolding run by simp
    next
      case 3
      show ?thesis
      proof (cases "after_block r")
        case None
        then obtain i where i: "skip_block buf json = Inr i" "at_text buf i into out [NUL]"
          using skip_block_text [of buf json into out "c # r" "[]"] at c 3 by auto
        have "minify_loop buf (i + 2) into = Inl OutOfBounds"
          using at_text_overrun [OF i(2)] by (subst minify_loop.simps) simp
        then show ?thesis using 3 i(1) unfolding run by simp
      next
        case (Some r')
        obtain i where i: "skip_block buf json = Inr i" "at_text buf (i + 2) into out (r' @ [NUL])"
          using skip_block_text [of buf json into out "c # r" "[]"] at c Some 3 by auto
        then show ?thesis
          using "1.IH"(3) [OF s 3(1) _ 3(2) Some _ i(2) nul_free_after_block [OF c(2) Some]] m Some 3
          unfolding run by simp
      qed
    next
      case 4
      obtain b1 where b1: "copy_char buf json into = Inr b1" "at_text b1 (json + 1) (into + 1) (out @ [c]) (r @ [NUL])"
        by (rule at_text_copy [OF at])
      show ?thesis
      proof (cases "literal_rest r")
        case None
        show ?thesis
        proof (cases "copy_string b1 (json + 1) (into + 1) = Inl OutOfBounds")
          case False
          then obtain b2 i j out' where b2: "copy_string b1 (json + 1) (into + 1) = Inr (b2, i, j)" "at_text b2 i j out' [NUL]"
            using copy_string_open [OF b1(2) c(2) None] by auto
          obtain b3 where b3: "copy_char b2 i j = Inr b3" "at_text b3 (i + 1) (j + 1) (out' @ [NUL]) []"
            by (rule at_text_copy [OF b2(2)])
          have "minify_loop b3 (i + 1) (j + 1) = Inl OutOfBounds"
            using at_text_end [OF b3(2)] by (subst minify_loop.simps) simp
          then show ?thesis using 4 b1(1) b2(1) b3(1) unfolding run by simp
        qed (use 4 b1(1) in \<open>simp add: run\<close>)
      next
        case (Some p)
        obtain l r' where p: "literal_rest r = Some (l, r')" using Some by (cases p) auto
        obtain b2 i j k where b2: "copy_string b1 (json + 1) (into + 1) = Inr (b2, i, j)" "l = k @ [CHR 0x22]" "nul_free r'"
          "at_text b2 i j ((out @ [c]) @ k) (CHR 0x22 # r' @ [NUL])"
          by (rule copy_string_text [OF b1(2) c(2) p])
        obtain b3 where b3: "copy_char b2 i j = Inr b3"
          "at_text b3 (i + 1) (j + 1) (((out @ [c]) @ k) @ [CHR 0x22]) (r' @ [NUL])"
          by (rule at_text_copy [OF b2(4)])
        have "minify r' = None" using m 4 p by simp
        then show ?thesis
          using "1.IH"(4) [OF s _ _ _ 4 p _ _ b3(2) b2(3)] 4 b1(1) b2(1) b3(1) unfolding run by simp
      qed
    next
      case 5
      obtain b1 where b1: "copy_char buf json into = Inr b1" "at_text b1 (json + 1) (into + 1) (out @ [c]) (r @ [NUL])"
        by (rule at_text_copy [OF at])
      have "minify r = None" using m 5 by auto
      then show ?thesis using "1.IH"(5) [OF s 5 _ b1(2) c(2)] 5 b1(1) unfolding run by auto
    qed
  qed
qed

lemma nul_free_literal_rest: "literal_rest s = Some (l, r) \<Longrightarrow> nul_free s \<Longrightarrow> nul_free l \<and> nul_free r"
  by (induction s arbitrary: l r rule: literal_rest.induct) (auto split: if_splits list.splits)

lemma nul_free_minify: "minify s = Some t \<Longrightarrow> nul_free s \<Longrightarrow> nul_free t"
proof (induction s arbitrary: t rule: minify.induct)
  case (1 s)
  show ?case
  proof (cases s)
    case (Cons c r)
    note m = "1.prems"(1) [unfolded Cons minify.simps [of "c # r"] list.case]
    have c: "c \<noteq> NUL" "nul_free r" using "1.prems"(2) Cons by auto
    show ?thesis using m c "1.IH" [OF Cons]
      by (auto simp: nul_free_dropWhile split: if_splits option.splits dest: nul_free_literal_rest nul_free_after_block)
  qed (use "1.prems" in \<open>simp add: minify.simps [of "[]"]\<close>)
qed

lemma minify_loop_length: "minify_loop buf json into = Inr (b, j) \<Longrightarrow> length b = length buf"
proof (induction buf json into rule: minify_loop.induct)
  case (1 buf json into)
  obtain c where c: "rd buf json = Inr c" using 1(6) by (subst (asm) minify_loop.simps) (erule bind_c_InrE)
  show ?case
  proof (cases "c = NUL \<or> blank c")
    case True
    then show ?thesis using 1(6) 1(1) [OF c] c by (subst (asm) minify_loop.simps) auto
  next
    case False
    obtain d where d: "(if c = CHR ''/'' then rd buf (json + 1) else Inr NUL) = Inr d"
      using 1(6) c False by (subst (asm) minify_loop.simps) (auto elim!: bind_c_InrE)
    show ?thesis
      using 1(6) c d False 1(2-5) [OF c] copy_char_length copy_string_forward
      by (subst (asm) minify_loop.simps) (fastforce elim!: bind_c_InrE split: if_splits)
  qed
qed

section \<open>The text is rewritten in place\<close>

lemma minify_buffer:
  assumes "nul_free s" "minify s = Some t"
  obtains buf where "cJSON_Minify (s @ NUL # rest) = Inr buf" "c_str buf = t" "drop (length s) buf = NUL # rest"
proof -
  obtain b i where b: "minify_loop (s @ NUL # rest) 0 0 = Inr (b, length t)" "at_text b i (length t) t (NUL # rest)"
    using minify_loop_text [OF assms(2), of "s @ NUL # rest" 0 0 "[]" rest] assms by (auto simp: at_text_def)
  obtain gap where gap: "b = t @ gap @ NUL # rest" using b(2) by (auto simp: at_text_def)
  have "length s = length t + length gap" using minify_loop_length [OF b(1)] gap by simp
  then have "drop (length s) (b[length t := NUL]) = NUL # rest" by (cases gap) (auto simp: gap list_update_append)
  moreover have "c_str (b[length t := NUL]) = t"
    using nul_free_minify [OF assms(2,1)]
    by (cases gap) (simp_all add: gap list_update_append c_str_append c_str_def [of "NUL # _"])
  ultimately show ?thesis using that b(1) by (simp add: cJSON_Minify_def gap)
qed

text \<open>C33: \<open>cJSON_Minify\<close> rewrites the text in place: the buffer then holds the text without white space and
  comments, and no byte behind the old terminating NUL has been read or written. When a string literal
  or a block comment is not closed, the function runs over the NUL and reads behind the buffer.\<close>

theorem minify_in_place:
  assumes "nul_free s"
  shows "case minify s of
      Some t \<Rightarrow> \<exists>buf. cJSON_Minify (s @ NUL # rest) = Inr buf \<and> c_str buf = t \<and> drop (length s) buf = NUL # rest
    | None \<Rightarrow> cJSON_Minify (s @ [NUL]) = Inl OutOfBounds"
proof (cases "minify s")
  case None
  then show ?thesis
    using minify_loop_open [OF None, of "s @ [NUL]" 0 0 "[]"] assms by (simp add: cJSON_Minify_def at_text_def)
next
  case (Some t)
  show ?thesis by (rule minify_buffer [OF assms Some, of rest]) (auto simp: Some)
qed

theorem minify_in_place_witness:
  "\<exists>buf. cJSON_Minify (''[ 1 ]/**/'' @ [NUL]) = Inr buf \<and> c_str buf = ''[1]''"
proof -
  have "minify ''[ 1 ]/**/'' = Some ''[1]''" by code_simp
  then show ?thesis using minify_in_place [of "''[ 1 ]/**/''" "[]"] by auto
qed

section \<open>Formatted output, minified, is unformatted output\<close>

text \<open>\<open>shrinks e u\<close>: wherever the tokens \<open>e\<close> stand in a text, \<open>u\<close> remains of them.\<close>

definition shrinks :: "string \<Rightarrow> string \<Rightarrow> bool" where
  "shrinks e u \<longleftrightarrow> (\<forall>r. minify (e @ r) = (case minify r of None \<Rightarrow> None | Some t \<Rightarrow> Some (u @ t)))"

lemma shrinks_Nil [simp]: "shrinks [] []"
  by (simp add: shrinks_def split: option.split)

lemma shrinks_append: "shrinks e u \<Longrightarrow> shrinks e' u' \<Longrightarrow> shrinks (e @ e') (u @ u')"
  by (simp add: shrinks_def split: option.split)

lemma shrinks_blank: "blank c \<Longrightarrow> shrinks e u \<Longrightarrow> shrinks (c # e) u"
  by (simp add: shrinks_def minify.simps [of "c # _"])

lemma shrinks_plain:
  "\<not> blank c \<Longrightarrow> c \<noteq> CHR ''/'' \<Longrightarrow> c \<noteq> CHR 0x22 \<Longrightarrow> shrinks e u \<Longrightarrow> shrinks (c # e) (c # u)"
  by (simp add: shrinks_def minify.simps [of "c # _"] split: option.split)

lemma shrinks_tabs: "shrinks (tabs n) []"
proof -
  have "shrinks (replicate n CHR 0x09) []" by (induction n) (auto intro: shrinks_blank)
  then show ?thesis by (simp add: tabs_def)
qed

lemma shrinks_literal:
  assumes "\<And>r. literal_rest (s @ CHR 0x22 # r) = Some (s @ [CHR 0x22], r)"
  shows "shrinks (CHR 0x22 # s @ [CHR 0x22]) (CHR 0x22 # s @ [CHR 0x22])"
  by (simp add: shrinks_def minify.simps [of "CHR 0x22 # _"] assms split: option.split)

lemma literal_rest_plain:
  "c \<noteq> CHR 0x22 \<Longrightarrow> c \<noteq> CHR 0x5C \<Longrightarrow> literal_rest (c # s) = map_option (\<lambda>(l, r). (c # l, r)) (literal_rest s)"
  by simp

lemma literal_rest_escape:
  "literal_rest (escape_char c @ s) = map_option (\<lambda>(l, r). (escape_char c @ l, r)) (literal_rest s)"
proof (cases c rule: escape_char_cases)
  case unicode
  note h = control_hex [OF unicode(2)]
  show ?thesis unfolding unicode(1) unicode_escape_def using h(1-4)
    by (cases "literal_rest s") (auto simp del: literal_rest.simps(2) simp add: literal_rest.simps(2) [of "CHR 0x5C"] literal_rest_plain)
qed (cases "literal_rest s"; auto)+

lemma literal_rest_escapes:
  "literal_rest (concat (map escape_char s) @ CHR 0x22 # r) = Some (concat (map escape_char s) @ [CHR 0x22], r)"
  by (induction s) (simp_all add: literal_rest_escape)

lemma shrinks_string: "shrinks (print_string_ptr s) (print_string_ptr s)"
proof (cases s)
  case None
  then show ?thesis using shrinks_literal [of "[]"] by (simp add: print_string_ptr_def)
next
  case (Some t)
  then show ?thesis using shrinks_literal [of "concat (map escape_char t)"]
    by (simp add: print_string_ptr_Some literal_rest_escapes)
qed

lemma shrinks_digits: "shrinks (nat_digits n) (nat_digits n)"
proof (induction n rule: nat_digits.induct)
  case (1 n)
  have d: "shrinks [digit_char k] [digit_char k]" if "k < 10" for k
  proof -
    have "byte (digit_char k) = 48 + k" using that by (simp add: byte_digit_char)
    then have "\<not> blank (digit_char k) \<and> digit_char k \<noteq> CHR ''/'' \<and> digit_char k \<noteq> CHR 0x22" by auto
    then show ?thesis by (intro shrinks_plain) auto
  qed
  show ?case
    using 1 shrinks_append [OF _ d [of "n mod 10"]] d [of n] by (cases "n < 10") (simp_all add: nat_digits.simps [of n])
qed

lemma shrinks_int: "shrinks (show_int k) (show_int k)"
  by (simp add: show_int_def shrinks_digits shrinks_plain)

lemma shrinks_array:
  "list_all2 shrinks es us \<Longrightarrow> shrinks (array_entries True es) (array_entries False us)"
proof (induction rule: list_all2_induct)
  case (Cons e es u us)
  show ?case
  proof (cases es)
    case (Cons e' es')
    then obtain u' us' where us: "us = u' # us'" using Cons.hyps(2) by (cases us) auto
    have "shrinks (e @ '', '' @ array_entries True es) (u @ '','' @ array_entries False us)"
      using Cons.hyps(1) Cons.IH by (intro shrinks_append) (simp_all add: shrinks_plain shrinks_blank)
    then show ?thesis using Cons us by simp
  qed (use Cons.hyps in auto)
qed simp

lemma shrinks_object:
  "list_all2 shrinks es us \<Longrightarrow> length ns = length es \<Longrightarrow> \<forall>n\<in>set ns. shrinks n n \<Longrightarrow>
   shrinks (object_entries True d (zip ns es)) (object_entries False d' (zip ns us))"
proof (induction arbitrary: ns rule: list_all2_induct)
  case (Cons e es u us)
  then obtain n ns' where ns: "ns = n # ns'" by (cases ns) auto
  have len: "es = [] \<longleftrightarrow> us = []" using list_all2_lengthD [OF Cons.hyps(2)] by auto
  let ?sep = "if zip ns' es \<noteq> [] then '','' else ''''"
  have "shrinks (tabs d @ n @ CHR '':'' # tabs 1 @ e @ ?sep @ CHR 0x0A # object_entries True d (zip ns' es))
      ([] @ n @ CHR '':'' # [] @ u @ ?sep @ object_entries False d' (zip ns' us))"
    using Cons ns
    by (intro shrinks_append shrinks_plain shrinks_blank shrinks_tabs) (auto intro: shrinks_plain)
  then show ?case using ns len by (simp add: zip_eq_Nil_iff)
qed simp

lemma shrinks_children:
  assumes "list_all2 (\<lambda>c e. \<forall>d' u. print_value c d' False = Some u \<longrightarrow> shrinks e u) cs es"
    "list_all2 (\<lambda>c u. print_value c d' False = Some u) cs us"
  shows "list_all2 shrinks es us"
  using assms by (induction arbitrary: us rule: list_all2_induct) (auto simp: list_all2_Cons1)

lemma minify_print_value:
  "print_value it d True = Some e \<Longrightarrow> printable it \<Longrightarrow> \<forall>d' u. print_value it d' False = Some u \<longrightarrow> shrinks e u"
proof (induction rule: print_induct)
  case (literal it d e)
  then consider "and (ctype it) 255 = cJSON_NULL" | "and (ctype it) 255 = cJSON_False" | "and (ctype it) 255 = cJSON_True"
    by blast
  then show ?case using literal(2) by cases (auto simp: shrinks_plain)
next
  case (number it d)
  then show ?case by (auto simp: print_number_printable(1) shrinks_int)
next
  case (string it d)
  then show ?case by (auto simp: print_string_def shrinks_string)
next
  case (array it d es)
  show ?case
  proof (intro allI impI)
    fix d' u
    assume "print_value it d' False = Some u"
    then obtain us where us: "u = print_array_out False us"
      "list_all2 (\<lambda>c e. print_value c (d' + 1) False = Some e) (child it) us"
      using array(1) by (rule print_array_texts)
    have "list_all2 shrinks es us" using array(4) us(2) by (rule shrinks_children)
    moreover from this have "es = [] \<longleftrightarrow> us = []" using list_all2_lengthD by fastforce
    ultimately show "shrinks (print_array_out True es) u"
      by (auto simp: us(1) print_array_out_def intro!: shrinks_plain shrinks_append shrinks_array)
  qed
next
  case (object it d es)
  show ?case
  proof (intro allI impI)
    fix d' u
    let ?ns = "map (\<lambda>c. print_string_ptr (cstring c)) (child it)"
    assume "print_value it d' False = Some u"
    then obtain us where us: "u = print_object_out False d' (zip ?ns us)"
      "list_all2 (\<lambda>c e. print_value c (d' + 1) False = Some e) (child it) us"
      using object(1) by (rule print_object_texts)
    have r: "list_all2 shrinks es us" using object(4) us(2) by (rule shrinks_children)
    have len: "length ?ns = length es" "length ?ns = length us"
      using list_all2_lengthD [OF object(3)] list_all2_lengthD [OF us(2)] by simp_all
    then have empty: "zip ?ns es = [] \<longleftrightarrow> zip ?ns us = []" by (auto simp: zip_eq_Nil_iff)
    have "shrinks (object_entries True (d + 1) (zip ?ns es)) (object_entries False (d' + 1) (zip ?ns us))"
      by (rule shrinks_object [OF r len(1)]) (simp add: shrinks_string)
    then have "shrinks (object_entries True (d + 1) (zip ?ns es) @ tabs d @ ''}'')
        (object_entries False (d' + 1) (zip ?ns us) @ [] @ ''}'')"
      by (intro shrinks_append shrinks_tabs shrinks_plain) simp_all
    then have "shrinks (''{'' @ [CHR 0x0A] @ object_entries True (d + 1) (zip ?ns es) @ tabs d @ ''}'')
        (''{'' @ object_entries False (d' + 1) (zip ?ns us) @ ''}'')"
      by (simp add: shrinks_plain shrinks_blank)
    moreover have "shrinks (''{'' @ [CHR 0x0A] @ tabs d @ ''}'') (''{'' @ [] @ ''}'')"
      unfolding append_Cons append_Nil by (intro shrinks_plain shrinks_blank shrinks_append [OF shrinks_tabs, of _ "''}''", simplified]) simp_all
    ultimately show "shrinks (print_object_out True d (zip ?ns es)) u"
      unfolding us(1) print_object_out_def empty by simp
  qed
qed

text \<open>C32: For every item with printable values, \<open>cJSON_Minify\<close> turns the text \<open>cJSON_Print\<close> gives into the text
  \<open>cJSON_PrintUnformatted\<close> gives, whatever stands in strings and names and at any depth.\<close>

theorem minify_formatted:
  assumes "printable it" "cJSON_Print (Some it) = Some e" "cJSON_PrintUnformatted (Some it) = Some u"
  shows "\<exists>buf. cJSON_Minify (e @ NUL # rest) = Inr buf \<and> c_str buf = u"
proof -
  have p: "print_value it 0 True = Some e" "print_value it 0 False = Some u"
    using assms(2,3) by (simp_all add: cJSON_Print_def cJSON_PrintUnformatted_def print_value_ptr_def)
  have "minify (e @ []) = Some (u @ [])"
    using minify_print_value [OF p(1) assms(1), rule_format, OF p(2)]
    unfolding shrinks_def by (drule_tac x = "[]" in spec) (simp add: minify.simps [of "[]"])
  then show ?thesis using minify_buffer [OF nul_free_print_value [OF p(1) assms(1)], of u rest] by auto
qed

theorem minify_formatted_witness:
  "\<exists>buf. cJSON_Minify (''[true, true]'' @ [NUL]) = Inr buf \<and> c_str buf = ''[true,true]''"
proof (rule minify_formatted)
  let ?t = "CJSON cJSON_True None 0 0 1 (DFin 0) None []"
  let ?a = "CJSON cJSON_Array None 0 0 0 (DFin 0) None [?t, ?t]"
  show "printable ?a" "cJSON_Print (Some ?a) = Some ''[true, true]''" "cJSON_PrintUnformatted (Some ?a) = Some ''[true,true]''"
    by (simp_all add: Let_def cJSON_Print_def cJSON_PrintUnformatted_def print_value_ptr_def print_array_out_def)
qed

end
