(* ===== verification/CJsonMem.thy ===== *)
theory CJsonMem imports CJson begin

text \<open>
  The memory of \<open>json/cJSON.c\<close>: items and strings are allocated and released, and any allocation may fail.
  The other theories take an item for a tree and leave memory out; here an item is a structure with
  pointers in a heap. \<open>owned\<close> says which cells an item has to itself, and \<open>views\<close> which tree of \<open>CJson\<close>
  its pointers lead to. References share the children and the value of another item.
\<close>

section \<open>The heap\<close>

text \<open>The values of an item that are not pointers: \<open>valueuint8\<close>, \<open>valueuint16\<close>, \<open>valueint\<close>, \<open>valuedouble\<close>.\<close>

type_synonym item_vals = "u8 \<times> u16 \<times> int \<times> double"

record item =
  i_next :: "nat option"
  i_prev :: "nat option"
  i_child :: "nat option"
  i_type :: u32
  i_valuestring :: "nat option"
  i_vals :: item_vals
  i_string :: "nat option"

text \<open>An allocated cell holds an item, a string or an array of \<open>char *\<close>. \<open>literals\<close> are the string constants of the program.
  \<open>fails k\<close>: the \<open>k\<close>-th allocation returns NULL; all cells are below \<open>brk\<close>.\<close>

datatype cell = Item item | Text string | Pointers "nat option list"

record mem =
  heap :: "nat \<rightharpoonup> cell"
  literals :: "nat \<rightharpoonup> string"
  brk :: nat
  allocs :: nat
  fails :: "nat \<Rightarrow> bool"

text \<open>The functions behind \<open>cJSON_malloc\<close> and \<open>cJSON_free\<close>.\<close>

record ('m, 'f) cJSON_Hooks =
  malloc_fn :: "'m option"
  free_fn :: "'f option"

definition cJSON_InitHooks :: "'m \<Rightarrow> 'f \<Rightarrow> ('m, 'f) cJSON_Hooks option \<Rightarrow> 'm \<times> 'f" where
  "cJSON_InitHooks malloc free hooks =
     (case hooks of
        None \<Rightarrow> (malloc, free)
      | Some h \<Rightarrow>
          (case malloc_fn h of None \<Rightarrow> malloc | Some f \<Rightarrow> f, case free_fn h of None \<Rightarrow> free | Some f \<Rightarrow> f))"

text \<open>Allocation of a cell with its first content.\<close>

definition alloc :: "cell \<Rightarrow> mem \<Rightarrow> nat option \<times> mem" where
  "alloc x m =
     (let m' = m\<lparr>allocs := allocs m + 1\<rparr>
      in if fails m (allocs m) then (None, m')
         else (Some (brk m), m'\<lparr>heap := (heap m)(brk m \<mapsto> x), brk := brk m + 1\<rparr>))"

definition free_cell :: "nat \<Rightarrow> mem \<Rightarrow> mem c" where
  "free_cell a m = (if a \<in> dom (heap m) then Inr (m\<lparr>heap := (heap m)(a := None)\<rparr>) else Inl BadFree)"

definition free_opt :: "nat option \<Rightarrow> mem \<Rightarrow> mem c" where
  "free_opt p m = (case p of None \<Rightarrow> Inr m | Some a \<Rightarrow> free_cell a m)"

definition item_at :: "mem \<Rightarrow> nat \<Rightarrow> item c" where
  "item_at m a = (case heap m a of Some (Item it) \<Rightarrow> Inr it | _ \<Rightarrow> Inl UseAfterFree)"

definition put_item :: "nat \<Rightarrow> item \<Rightarrow> mem \<Rightarrow> mem" where
  "put_item a it m = m\<lparr>heap := (heap m)(a \<mapsto> Item it)\<rparr>"

definition text_at :: "mem \<Rightarrow> nat \<Rightarrow> string c" where
  "text_at m a =
     (case heap m a of
        Some (Text s) \<Rightarrow> Inr s
      | Some _ \<Rightarrow> Inl UseAfterFree
      | None \<Rightarrow> (case literals m a of Some s \<Rightarrow> Inr s | None \<Rightarrow> Inl UseAfterFree))"

lemma text_at_cong: "heap m' a = heap m a \<Longrightarrow> literals m' = literals m \<Longrightarrow> text_at m' a = text_at m a"
proof -
  assume same: "heap m' a = heap m a" "literals m' = literals m"
  show ?thesis unfolding text_at_def same ..
qed

definition cJSON_strdup :: "nat \<Rightarrow> mem \<Rightarrow> (nat option \<times> mem) c" where
  "cJSON_strdup str m = bind_c (text_at m str) (\<lambda>s. Inr (alloc (Text s) m))"

definition null_item :: item where
  "null_item = \<lparr>i_next = None, i_prev = None, i_child = None, i_type = 0, i_valuestring = None,
     i_vals = (0, 0, 0, DFin 0), i_string = None\<rparr>"

definition cJSON_New_Item_mem :: "mem \<Rightarrow> nat option \<times> mem" where
  "cJSON_New_Item_mem m = alloc (Item null_item) m"

section \<open>Release\<close>

definition is_ref :: "u32 \<Rightarrow> bool" where
  "is_ref t \<longleftrightarrow> and t cJSON_IsReference \<noteq> 0"

definition is_const :: "u32 \<Rightarrow> bool" where
  "is_const t \<longleftrightarrow> and t cJSON_StringIsConst \<noteq> 0"

text \<open>A run that does not end within \<open>n\<close> nested calls and iterations is \<open>None\<close>.\<close>

type_synonym 'a run = "'a c option"

definition bind_r :: "'a run \<Rightarrow> ('a \<Rightarrow> 'b run) \<Rightarrow> 'b run" where
  "bind_r m f = (case m of None \<Rightarrow> None | Some (Inl e) \<Rightarrow> Some (Inl e) | Some (Inr x) \<Rightarrow> f x)"

lemma bind_r_simps [simp]:
  "bind_r None f = None" "bind_r (Some (Inl e)) f = Some (Inl e)" "bind_r (Some (Inr x)) f = f x"
  by (simp_all add: bind_r_def)

fun cJSON_Delete :: "nat \<Rightarrow> nat option \<Rightarrow> mem \<Rightarrow> mem run" where
  "cJSON_Delete 0 c m = None"
| "cJSON_Delete (Suc n) None m = Some (Inr m)"
| "cJSON_Delete (Suc n) (Some a) m =
     bind_r (Some (item_at m a)) (\<lambda>first.
     bind_r (if \<not> is_ref (i_type first) \<and> i_child first \<noteq> None then cJSON_Delete n (i_child first) m
             else Some (Inr m)) (\<lambda>m.
     bind_r (Some (item_at m a)) (\<lambda>c.
     bind_r (Some (if \<not> is_ref (i_type c) then free_opt (i_valuestring c) m else Inr m)) (\<lambda>m.
     bind_r (Some (item_at m a)) (\<lambda>c.
     bind_r (Some (if \<not> is_const (i_type c) then free_opt (i_string c) m else Inr m)) (\<lambda>m.
     bind_r (Some (free_cell a m)) (\<lambda>m. cJSON_Delete n (i_next first) m)))))))"

text \<open>\<open>json_release\<close> of \<open>json.c\<close>.\<close>

definition json_release :: "nat \<Rightarrow> nat option \<Rightarrow> mem \<Rightarrow> mem run" where
  "json_release n inJson m = cJSON_Delete n inJson m"

section \<open>References and names\<close>

text \<open>The end of a chain, reached within \<open>n\<close> steps.\<close>

fun last_item :: "nat \<Rightarrow> nat \<Rightarrow> mem \<Rightarrow> nat run" where
  "last_item 0 a m = None"
| "last_item (Suc n) a m =
     bind_r (Some (item_at m a)) (\<lambda>it. case i_next it of None \<Rightarrow> Some (Inr a) | Some b \<Rightarrow> last_item n b m)"

definition AddItemToArray_mem :: "nat \<Rightarrow> nat \<Rightarrow> nat option \<Rightarrow> mem \<Rightarrow> mem run" where
  "AddItemToArray_mem n array item m =
     bind_r (Some (item_at m array)) (\<lambda>arr.
       case item of
         None \<Rightarrow> Some (Inr m)
       | Some i \<Rightarrow>
          (case i_child arr of
             None \<Rightarrow> Some (Inr (put_item array (arr\<lparr>i_child := Some i\<rparr>) m))
           | Some c \<Rightarrow>
               bind_r (last_item n c m) (\<lambda>l.
               bind_r (Some (item_at m l)) (\<lambda>prev. let m = put_item l (prev\<lparr>i_next := Some i\<rparr>) m in
               bind_r (Some (item_at m i)) (\<lambda>it. Some (Inr (put_item i (it\<lparr>i_prev := Some l\<rparr>) m)))))))"

definition AddItemToObject_mem :: "nat \<Rightarrow> nat \<Rightarrow> nat \<Rightarrow> nat option \<Rightarrow> mem \<Rightarrow> mem run" where
  "AddItemToObject_mem n object str item m =
     (case item of
        None \<Rightarrow> Some (Inr m)
      | Some i \<Rightarrow>
          bind_r (Some (item_at m i)) (\<lambda>it.
          bind_r (Some (free_opt (i_string it) m)) (\<lambda>m.
          bind_r (Some (cJSON_strdup str m)) (\<lambda>(p, m).
          bind_r (Some (item_at m i)) (\<lambda>it.
            AddItemToArray_mem n object (Some i) (put_item i (it\<lparr>i_string := p\<rparr>) m))))))"

definition create_reference :: "nat option \<Rightarrow> mem \<Rightarrow> (nat option \<times> mem) c" where
  "create_reference item m =
     (let (ref, m) = cJSON_New_Item_mem m
      in case ref of
           None \<Rightarrow> Inr (None, m)
         | Some r \<Rightarrow>
             bind_c (deref item) (\<lambda>i. bind_c (item_at m i) (\<lambda>it.
               Inr (Some r, put_item r (it\<lparr>i_string := None, i_type := or (i_type it) cJSON_IsReference,
                 i_next := None, i_prev := None\<rparr>) m))))"

definition cJSON_AddItemReferenceToArray :: "nat \<Rightarrow> nat \<Rightarrow> nat option \<Rightarrow> mem \<Rightarrow> mem run" where
  "cJSON_AddItemReferenceToArray n array item m =
     bind_r (Some (create_reference item m)) (\<lambda>(r, m). AddItemToArray_mem n array r m)"

definition cJSON_AddItemReferenceToObject :: "nat \<Rightarrow> nat \<Rightarrow> nat \<Rightarrow> nat option \<Rightarrow> mem \<Rightarrow> mem run" where
  "cJSON_AddItemReferenceToObject n object str item m =
     bind_r (Some (create_reference item m)) (\<lambda>(r, m). AddItemToObject_mem n object str r m)"

section \<open>Duplication\<close>

definition dup_string :: "nat option \<Rightarrow> mem \<Rightarrow> (nat option \<times> mem) c" where
  "dup_string p m = (case p of None \<Rightarrow> Inr (None, m) | Some a \<Rightarrow> cJSON_strdup a m)"

text \<open>\<open>Copy over all vars\<close>, into a new item.\<close>

definition copy_values :: "item \<Rightarrow> item" where
  "copy_values it = null_item\<lparr>i_type := and (i_type it) (not cJSON_IsReference),
     i_vals := (case i_vals it of (_, _, vi, vd) \<Rightarrow> (0, 0, vi, vd))\<rparr>"

text \<open>The copy \<open>d\<close> of a child becomes the next one after \<open>nptr\<close>, or the first one.\<close>

definition link_child :: "nat \<Rightarrow> nat option \<Rightarrow> nat \<Rightarrow> mem \<Rightarrow> mem c" where
  "link_child new nptr d m =
     (case nptr of
        Some l \<Rightarrow>
          bind_c (item_at m l) (\<lambda>prev. let m = put_item l (prev\<lparr>i_next := Some d\<rparr>) m in
          bind_c (item_at m d) (\<lambda>it. Inr (put_item d (it\<lparr>i_prev := Some l\<rparr>) m)))
      | None \<Rightarrow> bind_c (item_at m new) (\<lambda>it. Inr (put_item new (it\<lparr>i_child := Some d\<rparr>) m)))"

fun Duplicate_mem :: "nat \<Rightarrow> nat option \<Rightarrow> bool \<Rightarrow> mem \<Rightarrow> (nat option \<times> mem) run"
  and duplicate_children :: "nat \<Rightarrow> nat \<Rightarrow> nat option \<Rightarrow> nat option \<Rightarrow> mem \<Rightarrow> (nat option \<times> mem) run" where
  "Duplicate_mem 0 item recurse m = None"
| "Duplicate_mem (Suc n) None recurse m = Some (Inr (None, m))"
| "Duplicate_mem (Suc n) (Some a) recurse m =
     (case cJSON_New_Item_mem m of
        (None, m) \<Rightarrow> Some (Inr (None, m))
      | (Some new, m) \<Rightarrow>
          bind_r (Some (item_at m a)) (\<lambda>it.
          bind_r (Some (dup_string (i_valuestring it) m)) (\<lambda>(vs, m).
             let cp = (copy_values it)\<lparr>i_valuestring := vs\<rparr>; m = put_item new cp m
             in if vs = None \<and> i_valuestring it \<noteq> None
                then bind_r (cJSON_Delete n (Some new) m) (\<lambda>m. Some (Inr (None, m)))
                else bind_r (Some (dup_string (i_string it) m)) (\<lambda>(s, m).
                     let cp = cp\<lparr>i_string := s\<rparr>; m = put_item new cp m
                     in if s = None \<and> i_string it \<noteq> None
                        then bind_r (cJSON_Delete n (Some new) m) (\<lambda>m. Some (Inr (None, m)))
                        else if \<not> recurse then Some (Inr (Some new, m))
                        else duplicate_children n new (i_child it) None m))))"
| "duplicate_children 0 new cptr nptr m = None"
| "duplicate_children (Suc n) new None nptr m = Some (Inr (Some new, m))"
| "duplicate_children (Suc n) new (Some c) nptr m =
     bind_r (Duplicate_mem n (Some c) True m) (\<lambda>(child, m).
       case child of
         None \<Rightarrow> bind_r (cJSON_Delete n (Some new) m) (\<lambda>m. Some (Inr (None, m)))
       | Some d \<Rightarrow>
           bind_r (Some (link_child new nptr d m)) (\<lambda>m.
           bind_r (Some (item_at m c)) (\<lambda>it. duplicate_children n new (i_next it) (Some d) m)))"

section \<open>What an item owns\<close>

text \<open>The shape of an item in memory. A reference does not own its children and its value, and an item with a
  constant name does not own the name.\<close>

datatype mtree = MTree (m_addr: nat) (m_type: u32) (m_value: "nat option") (m_name: "nat option") (m_kids: "mtree list")

definition opt_list :: "'a option \<Rightarrow> 'a list" where
  "opt_list p = (case p of None \<Rightarrow> [] | Some x \<Rightarrow> [x])"

lemma opt_list_simps [simp]: "opt_list None = []" "opt_list (Some x) = [x]"
  by (simp_all add: opt_list_def)

fun cells :: "mtree \<Rightarrow> nat list" where
  "cells (MTree a t vs s ks) =
     a # (if is_ref t then [] else concat (map cells ks) @ opt_list vs) @ (if is_const t then [] else opt_list s)"

abbreviation all_cells :: "mtree list \<Rightarrow> nat list" where
  "all_cells ts \<equiv> concat (map cells ts)"

function chain_at :: "(nat \<rightharpoonup> cell) \<Rightarrow> nat option \<Rightarrow> mtree list \<Rightarrow> bool" where
  "chain_at h p [] \<longleftrightarrow> p = None"
| "chain_at h p (MTree a t vs s ks # ts) \<longleftrightarrow>
     p = Some a \<and> (\<exists>it. h a = Some (Item it) \<and> i_type it = t \<and> i_valuestring it = vs \<and> i_string it = s
       \<and> (\<not> is_ref t \<longrightarrow> chain_at h (i_child it) ks) \<and> chain_at h (i_next it) ts)"
  by (auto, metis mtree.exhaust neq_Nil_conv)
termination by (relation "measure (\<lambda>(h, p, ts). size_list size ts)") auto

definition owned :: "mem \<Rightarrow> nat option \<Rightarrow> mtree list \<Rightarrow> bool" where
  "owned m p ts \<longleftrightarrow> chain_at (heap m) p ts \<and> distinct (all_cells ts) \<and> set (all_cells ts) \<subseteq> dom (heap m)"

lemma chain_at_frame:
  "chain_at h p ts \<Longrightarrow> (\<And>a. a \<in> set (all_cells ts) \<Longrightarrow> h' a = h a) \<Longrightarrow> chain_at h' p ts"
proof (induction h p ts rule: chain_at.induct)
  case (2 h p a t vs s ks ts)
  then show ?case by auto
qed simp

lemma chain_at_None [simp]: "chain_at h None ts \<longleftrightarrow> ts = []"
  by (induction h "None :: nat option" ts rule: chain_at.induct) simp_all

lemma restrict_map_UNIV [simp]: "f |` UNIV = f"
  by (simp add: restrict_map_def)

definition release :: "nat set \<Rightarrow> mem \<Rightarrow> mem" where
  "release A m = m\<lparr>heap := heap m |` (- A)\<rparr>"

lemma release_simps [simp]:
  "release A (release B m) = release (A \<union> B) m" "heap (release A m) = heap m |` (- A)" "release {} m = m"
  "literals (release A m) = literals m" "brk (release A m) = brk m" "fails (release A m) = fails m"
  "allocs (release A m) = allocs m"
  by (simp_all add: release_def Int_commute)

lemma item_at_release [simp]: "a \<notin> A \<Longrightarrow> item_at (release A m) a = item_at m a"
  by (simp add: item_at_def)

lemma item_at_Inr: "item_at m a = Inr it \<longleftrightarrow> heap m a = Some (Item it)"
  by (auto simp: item_at_def split: option.splits cell.splits)

lemma free_opt_release: "set (opt_list p) \<subseteq> dom (heap m) \<Longrightarrow> free_opt p m = Inr (release (set (opt_list p)) m)"
  by (cases p) (auto simp: free_opt_def free_cell_def release_def restrict_complement_singleton_eq)

lemma free_cell_release: "a \<in> dom (heap m) \<Longrightarrow> free_cell a m = Inr (release {a} m)"
  by (auto simp: free_cell_def release_def restrict_complement_singleton_eq)

lemma owned_frame:
  "owned m p ts \<Longrightarrow> (\<And>a. a \<in> set (all_cells ts) \<Longrightarrow> heap m' a = heap m a) \<Longrightarrow> owned m' p ts"
  unfolding owned_def using chain_at_frame [of "heap m" p ts "heap m'"] by (auto simp: domIff subset_iff)

lemma owned_release:
  "owned m p ts \<Longrightarrow> set (all_cells ts) \<inter> A = {} \<Longrightarrow> owned (release A m) p ts"
  by (erule owned_frame) (auto simp: restrict_map_def)

lemma Delete_owned:
  "owned m p ts \<Longrightarrow> length (all_cells ts) < n \<Longrightarrow>
   cJSON_Delete n p m = Some (Inr (release (set (all_cells ts)) m))"
proof (induction n arbitrary: p ts m)
  case (Suc n)
  show ?case
  proof (cases ts)
    case Nil
    then show ?thesis using Suc.prems by (simp add: owned_def)
  next
    case (Cons t ts')
    obtain a ty vs s ks where t: "t = MTree a ty vs s ks" by (cases t)
    obtain it where it: "p = Some a" "heap m a = Some (Item it)" "i_type it = ty" "i_valuestring it = vs" "i_string it = s"
      "\<not> is_ref ty \<longrightarrow> chain_at (heap m) (i_child it) ks" "chain_at (heap m) (i_next it) ts'"
      using Suc.prems(1) by (auto simp: owned_def Cons t)
    define K where "K = (if is_ref ty then [] else all_cells ks)"
    define V where "V = (if is_ref ty then [] else opt_list vs)"
    define S where "S = (if is_const ty then [] else opt_list s)"
    have all: "all_cells ts = a # K @ V @ S @ all_cells ts'" by (simp add: Cons t K_def V_def S_def)
    have d: "distinct (a # K @ V @ S @ all_cells ts')" "set (a # K @ V @ S @ all_cells ts') \<subseteq> dom (heap m)"
      using Suc.prems(1) unfolding owned_def all by auto
    have n: "length K < n" "length (all_cells ts') < n" using Suc.prems(2) unfolding all by auto
    have kids: "(if \<not> is_ref ty \<and> i_child it \<noteq> None then cJSON_Delete n (i_child it) m else Some (Inr m))
        = Some (Inr (release (set K) m))"
    proof (cases "is_ref ty")
      case False
      have "owned m (i_child it) ks" using it(6) d False by (simp add: owned_def K_def)
      then show ?thesis using Suc.IH [of m "i_child it" ks] n(1) False
        by (cases ks) (auto simp: K_def owned_def)
    qed (simp add: K_def)
    have V: "(if \<not> is_ref ty then free_opt vs (release (set K) m) else Inr (release (set K) m))
        = Inr (release (set K \<union> set V) m)"
    proof (cases "is_ref ty")
      case False
      then have "set (opt_list vs) \<subseteq> dom (heap (release (set K) m))" using d by (auto simp: V_def)
      then show ?thesis using free_opt_release False by (simp add: V_def Un_commute)
    qed (simp add: V_def)
    have S: "(if \<not> is_const ty then free_opt s (release (set K \<union> set V) m) else Inr (release (set K \<union> set V) m))
        = Inr (release (set K \<union> set V \<union> set S) m)"
    proof (cases "is_const ty")
      case False
      then have "set (opt_list s) \<subseteq> dom (heap (release (set K \<union> set V) m))" using d by (auto simp: S_def)
      then show ?thesis using free_opt_release False by (simp add: S_def Un_commute)
    qed (simp add: S_def)
    have A: "free_cell a (release (set K \<union> set V \<union> set S) m) = Inr (release (set K \<union> set V \<union> set S \<union> {a}) m)"
      using d by (subst free_cell_release) (auto simp: Un_commute)
    have at: "item_at m a = Inr it" "item_at (release (set K) m) a = Inr it" "item_at (release (set K \<union> set V) m) a = Inr it"
      using it(2) d(1) by (simp_all add: item_at_Inr)
    have "owned m (i_next it) ts'" using it(7) d by (simp add: owned_def)
    then have "owned (release (set K \<union> set V \<union> set S \<union> {a}) m) (i_next it) ts'"
      using d(1) by (intro owned_release) auto
    then have rest: "cJSON_Delete n (i_next it) (release (set K \<union> set V \<union> set S \<union> {a}) m)
        = Some (Inr (release (set (all_cells ts') \<union> (set K \<union> set V \<union> set S \<union> {a})) m))"
      using Suc.IH n(2) by simp
    show ?thesis
      unfolding it(1) cJSON_Delete.simps at bind_r_simps it(3-5) kids V S A rest all
      by (simp add: Un_ac insert_commute)
  qed
qed simp

text \<open>C34: \<open>cJSON_Delete\<close> on a chain of items returns and releases exactly the cells the items own, each once: the
  items, their names unless they are constants, their values and children unless they are references.
  Everything else, what references point to included, stays as it is.\<close>

theorem delete_releases_owned:
  assumes "owned m p ts" "length (all_cells ts) < n"
  shows "cJSON_Delete n p m = Some (Inr (m\<lparr>heap := heap m |` (- set (all_cells ts))\<rparr>))"
  using Delete_owned [OF assms] by (simp add: release_def)

section \<open>References\<close>

lemma last_item_last:
  "chain_at (heap m) (Some c) ts \<Longrightarrow> length ts \<le> n \<Longrightarrow> last_item n c m = Some (Inr (m_addr (last ts)))"
proof (induction ts arbitrary: c n)
  case (Cons t ts)
  obtain a ty vs s ks where t: "t = MTree a ty vs s ks" by (cases t)
  obtain k where n: "n = Suc k" "length ts \<le> k" using Cons.prems(2) by (cases n) auto
  obtain it where it: "c = a" "heap m a = Some (Item it)" "chain_at (heap m) (i_next it) ts"
    using Cons.prems(1) by (auto simp: t)
  show ?case
  proof (cases "i_next it")
    case None
    then show ?thesis using it n t by (simp add: item_at_def)
  next
    case (Some b)
    then have "ts \<noteq> []" using it(3) by auto
    then show ?thesis using Cons.IH [of b k] it n t Some by (simp add: item_at_def)
  qed
qed simp

lemma last_addr: "ts \<noteq> [] \<Longrightarrow> m_addr (last ts) \<in> set (all_cells ts)"
proof -
  assume "ts \<noteq> []"
  then have "last ts \<in> set ts" by simp
  moreover have "m_addr t \<in> set (cells t)" for t by (cases t) simp
  ultimately show ?thesis by auto
qed

lemma last_is_item: "chain_at h p ts \<Longrightarrow> ts \<noteq> [] \<Longrightarrow> \<exists>prev. h (m_addr (last ts)) = Some (Item prev)"
proof (induction ts arbitrary: p)
  case (Cons t ts)
  then show ?case by (cases t; cases ts) auto
qed simp

lemma chain_at_snoc:
  "chain_at h p ts \<Longrightarrow> ts \<noteq> [] \<Longrightarrow> distinct (all_cells ts) \<Longrightarrow> r \<notin> set (all_cells ts) \<Longrightarrow>
   h (m_addr (last ts)) = Some (Item prev) \<Longrightarrow> i_next rit = None \<Longrightarrow> is_ref (i_type rit) \<Longrightarrow>
   h' = h(m_addr (last ts) \<mapsto> Item (prev\<lparr>i_next := Some r\<rparr>), r \<mapsto> Item rit) \<Longrightarrow>
   chain_at h' p (ts @ [MTree r (i_type rit) (i_valuestring rit) (i_string rit) []])"
proof (induction ts arbitrary: p)
  case (Cons t ts)
  obtain a ty vs s ks where t: "t = MTree a ty vs s ks" by (cases t)
  obtain it where it: "p = Some a" "h a = Some (Item it)" "i_type it = ty" "i_valuestring it = vs" "i_string it = s"
    "\<not> is_ref ty \<longrightarrow> chain_at h (i_child it) ks" "chain_at h (i_next it) ts"
    using Cons.prems(1) by (auto simp: t)
  let ?l = "m_addr (last (t # ts))"
  have kids: "\<not> is_ref ty \<longrightarrow> chain_at h' (i_child it) ks"
  proof
    assume nr: "\<not> is_ref ty"
    have "?l \<notin> set (all_cells ks)"
    proof (cases "ts = []")
      case False
      then have "?l \<in> set (all_cells ts)" using last_addr by simp
      then show ?thesis using Cons.prems(3) nr by (auto simp: t)
    qed (use Cons.prems(3) nr in \<open>auto simp: t\<close>)
    then show "chain_at h' (i_child it) ks"
      using it(6) nr Cons.prems(4,8) by (auto simp: t intro!: chain_at_frame [of h])
  qed
  show ?case
  proof (cases "ts = []")
    case True
    then show ?thesis using it kids Cons.prems(4-8) by (auto simp: t)
  next
    case False
    have "?l \<in> set (all_cells ts)" using False last_addr by simp
    then have "a \<noteq> ?l" "a \<noteq> r" using Cons.prems(3,4) by (auto simp: t)
    then have "h' a = Some (Item it)" using it(2) Cons.prems(8) by simp
    moreover have "chain_at h' (i_next it) (ts @ [MTree r (i_type rit) (i_valuestring rit) (i_string rit) []])"
      using Cons.IH [OF it(7) False] Cons.prems False by (simp add: t)
    ultimately show ?thesis using it kids by (simp add: t)
  qed
qed simp

lemma owned_one:
  "chain_at (heap m) p [t] \<Longrightarrow> distinct (cells t) \<Longrightarrow> set (cells t) = insert r A \<Longrightarrow> A \<subseteq> dom h \<Longrightarrow>
   dom h \<subseteq> dom (heap m) \<Longrightarrow> r \<in> dom (heap m) \<Longrightarrow> owned m p [t]"
  by (auto simp: owned_def)

text \<open>Adding a reference to an array: the array owns a cell more, and the item is what it was.\<close>

lemma reference_added:
  assumes arr: "owned m (Some arr) [MTree arr t vs s ks]" "\<not> is_ref t" "length ks \<le> n"
    and i: "heap m i = Some (Item it)" and fresh: "heap m (brk m) = None" and ok: "\<not> fails m (allocs m)"
  shows "\<exists>m' R. cJSON_AddItemReferenceToArray n arr (Some i) m = Some (Inr m')
    \<and> owned m' (Some arr) [MTree arr t vs s (ks @ [R])]
    \<and> set (cells (MTree arr t vs s (ks @ [R]))) = insert (brk m) (set (cells (MTree arr t vs s ks)))
    \<and> (\<forall>b. b \<noteq> brk m \<longrightarrow> b \<notin> set (cells (MTree arr t vs s ks)) \<longrightarrow> heap m' b = heap m b)
    \<and> (\<exists>ref. heap m' (brk m) = Some (Item ref) \<and> i_child ref = i_child it \<and> i_valuestring ref = i_valuestring it)"
proof -
  let ?r = "brk m"
  define ref where "ref = it\<lparr>i_string := None, i_type := or (i_type it) cJSON_IsReference, i_next := None, i_prev := None\<rparr>"
  define R where "R = MTree ?r (i_type ref) (i_valuestring ref) (i_string ref) []"
  have isref: "is_ref (i_type ref)"
  proof -
    have "and (or x cJSON_IsReference) cJSON_IsReference = cJSON_IsReference" for x :: u32
      by (rule bit_word_eqI) (auto simp: bit_simps)
    then show ?thesis by (simp add: is_ref_def ref_def)
  qed
  define m1 where "m1 = m\<lparr>allocs := allocs m + 1, heap := (heap m)(?r \<mapsto> Item ref), brk := brk m + 1\<rparr>"
  have ri: "?r \<noteq> i" using i fresh by auto
  have cr: "create_reference (Some i) m = Inr (Some ?r, m1)"
    using i fresh ok ri
    by (simp add: create_reference_def cJSON_New_Item_mem_def alloc_def item_at_def put_item_def m1_def ref_def)
  obtain a where a: "heap m arr = Some (Item a)" "i_next a = None" "i_type a = t" "i_valuestring a = vs" "i_string a = s"
    "chain_at (heap m) (i_child a) ks"
    using arr(1,2) by (auto simp: owned_def)
  have d: "distinct (arr # all_cells ks)" "set (arr # all_cells ks) \<subseteq> dom (heap m)"
    using arr(1,2) by (auto simp: owned_def)
  have r: "?r \<noteq> arr" "?r \<notin> set (all_cells ks)" using d(2) fresh by auto
  have cR: "cells R = [?r]" using isref by (simp add: R_def ref_def)
  have new_cells: "distinct (cells (MTree arr t vs s (ks @ [R])))"
    "set (cells (MTree arr t vs s (ks @ [R]))) = insert ?r (set (cells (MTree arr t vs s ks)))"
    "set (cells (MTree arr t vs s ks)) \<subseteq> dom (heap m)"
    using arr(1,2) fresh cR by (auto simp: owned_def)
  have at: "item_at m1 arr = Inr a" using a(1) r(1) by (simp add: m1_def item_at_def)
  show ?thesis
  proof (cases "ks = []")
    case True
    let ?m = "put_item arr (a\<lparr>i_child := Some ?r\<rparr>) m1"
    have run: "cJSON_AddItemReferenceToArray n arr (Some i) m = Some (Inr ?m)"
      using cr at a(6) True by (simp add: cJSON_AddItemReferenceToArray_def AddItemToArray_mem_def)
    have "chain_at (heap ?m) (Some ?r) [R]"
      using r(1) isref by (simp add: R_def put_item_def m1_def ref_def)
    moreover have "i_next ref = None" by (simp add: ref_def)
    ultimately have "owned ?m (Some arr) [MTree arr t vs s (ks @ [R])]"
      using arr(1,2) a(2-5) True r fresh isref by (auto simp: owned_def put_item_def m1_def R_def ref_def)
    then show ?thesis
      using run isref True r(1) arr(2)
      by (intro exI [of _ ?m] exI [of _ R]) (auto simp: R_def ref_def put_item_def m1_def)
  next
    case False
    let ?l = "m_addr (last ks)"
    obtain prev where l: "heap m ?l = Some (Item prev)" using last_is_item [OF a(6) False] by blast
    obtain c where c: "i_child a = Some c" using a(6) False by (cases "i_child a") auto
    have lk: "?l \<in> set (all_cells ks)" using False by (rule last_addr)
    have l1: "?l \<noteq> ?r" "?l \<noteq> arr" using lk r d(1) by auto
    have "chain_at (heap m1) (Some c) ks"
      by (rule chain_at_frame [OF a(6) [unfolded c]]) (use r(2) in \<open>auto simp: m1_def\<close>)
    then have li: "last_item n c m1 = Some (Inr ?l)" using arr(3) by (rule last_item_last)
    let ?m = "put_item ?r (ref\<lparr>i_prev := Some ?l\<rparr>) (put_item ?l (prev\<lparr>i_next := Some ?r\<rparr>) m1)"
    have run: "cJSON_AddItemReferenceToArray n arr (Some i) m = Some (Inr ?m)"
      using cr at c li l l1 by (simp add: cJSON_AddItemReferenceToArray_def AddItemToArray_mem_def item_at_def put_item_def m1_def)
    have same: "heap ?m b = heap m b" if "b \<noteq> ?r" "b \<noteq> ?l" for b using that by (simp add: put_item_def m1_def)
    have "chain_at (heap ?m) (i_child a) (ks @ [MTree ?r (i_type (ref\<lparr>i_prev := Some ?l\<rparr>))
        (i_valuestring (ref\<lparr>i_prev := Some ?l\<rparr>)) (i_string (ref\<lparr>i_prev := Some ?l\<rparr>)) []])"
      by (rule chain_at_snoc [OF a(6) False _ r(2) l])
        (use d(1) isref l1 in \<open>simp_all add: ref_def put_item_def m1_def fun_upd_twist\<close>)
    then have "chain_at (heap ?m) (i_child a) (ks @ [R])" by (simp add: R_def)
    moreover have "heap ?m arr = Some (Item a)" using same [of arr] a(1) r(1) l1(2) by simp
    ultimately have chain: "chain_at (heap ?m) (Some arr) [MTree arr t vs s (ks @ [R])]"
      using a(2-5) by (auto simp del: put_item_def)
    have "dom (heap m) \<subseteq> dom (heap ?m)" "?r \<in> dom (heap ?m)" by (auto simp: put_item_def m1_def)
    then have "owned ?m (Some arr) [MTree arr t vs s (ks @ [R])]"
      by (rule owned_one [OF chain new_cells])
    then show ?thesis
      using run cR arr(2) lk same
      by (intro exI [of _ ?m] exI [of _ R]) (auto simp: ref_def put_item_def)
  qed
qed

text \<open>An array to which a reference to an item has been added is deleted again: its own cells and the reference
  are released, and no other cell changes; the referenced item keeps its children and its value, and
  nothing leaks.\<close>

lemma reference_released_alone:
  assumes "owned m (Some arr) [MTree arr t vs s ks]" "\<not> is_ref t" "length ks \<le> n"
    and "heap m i = Some (Item it)" "heap m (brk m) = None" "\<not> fails m (allocs m)"
    and "length (cells (MTree arr t vs s ks)) + 1 < k"
  shows "\<exists>m' m''. cJSON_AddItemReferenceToArray n arr (Some i) m = Some (Inr m')
    \<and> cJSON_Delete k (Some arr) m' = Some (Inr m'')
    \<and> heap m'' = heap m |` (- set (cells (MTree arr t vs s ks)))"
proof -
  define C where "C = set (cells (MTree arr t vs s ks))"
  obtain m' R where r: "cJSON_AddItemReferenceToArray n arr (Some i) m = Some (Inr m')"
    "owned m' (Some arr) [MTree arr t vs s (ks @ [R])]" "set (cells (MTree arr t vs s (ks @ [R]))) = insert (brk m) C"
    "\<forall>b. b \<noteq> brk m \<longrightarrow> b \<notin> C \<longrightarrow> heap m' b = heap m b"
    using reference_added [OF assms(1-6)] unfolding C_def by blast
  define T where "T = MTree arr t vs s (ks @ [R])"
  have T: "owned m' (Some arr) [T]" "set (cells T) = insert (brk m) C" using r(2,3) by (simp_all add: T_def)
  have "distinct (cells T)" using T(1) by (simp add: owned_def)
  then have "length (cells T) = card (insert (brk m) C)" using T(2) distinct_card by fastforce
  also have "\<dots> \<le> Suc (card C)" by (rule card_insert_le_m1) (simp_all add: C_def)
  also have "card C \<le> length (cells (MTree arr t vs s ks))" unfolding C_def by (rule card_length)
  finally have "length (cells T) < k" using assms(7) by simp
  then have "cJSON_Delete k (Some arr) m' = Some (Inr (release (insert (brk m) C) m'))"
    using Delete_owned [OF T(1)] T(2) by simp
  moreover have "heap (release (insert (brk m) C) m') = heap m |` (- C)"
    using r(4) assms(5) by (auto simp: restrict_map_def)
  ultimately show ?thesis using r(1) unfolding C_def by blast
qed

text \<open>Once the item is deleted, the reference points to released memory.\<close>

fun array_size_loop :: "nat \<Rightarrow> nat option \<Rightarrow> nat \<Rightarrow> mem \<Rightarrow> nat run" where
  "array_size_loop 0 c i m = None"
| "array_size_loop (Suc n) None i m = Some (Inr i)"
| "array_size_loop (Suc n) (Some a) i m =
     bind_r (Some (item_at m a)) (\<lambda>it. array_size_loop n (i_next it) (i + 1) m)"

definition GetArraySize_mem :: "nat \<Rightarrow> nat \<Rightarrow> mem \<Rightarrow> nat run" where
  "GetArraySize_mem n array m = bind_r (Some (item_at m array)) (\<lambda>it. array_size_loop n (i_child it) 0 m)"

lemma reference_dangles:
  assumes "owned m (Some i) [MTree i t vs s (k # ks)]" "\<not> is_ref t" "heap m (brk m) = None" "\<not> fails m (allocs m)"
    and "length (cells (MTree i t vs s (k # ks))) < n"
  shows "\<exists>r m' m''. create_reference (Some i) m = Inr (Some r, m') \<and> cJSON_Delete n (Some i) m' = Some (Inr m'')
    \<and> GetArraySize_mem (Suc n) r m'' = Some (Inl UseAfterFree)"
proof -
  define T where "T = MTree i t vs s (k # ks)"
  obtain it b where it: "heap m i = Some (Item it)" "i_child it = Some b" "b \<in> set (cells T)"
    using assms(1,2) by (cases k) (auto simp: owned_def T_def)
  define ref where "ref = it\<lparr>i_string := None, i_type := or (i_type it) cJSON_IsReference, i_next := None, i_prev := None\<rparr>"
  define m' where "m' = m\<lparr>allocs := allocs m + 1, heap := (heap m)(brk m \<mapsto> Item ref), brk := brk m + 1\<rparr>"
  have "create_reference (Some i) m = Inr (Some (brk m), m')"
    using it(1) assms(3,4)
    by (auto simp: create_reference_def cJSON_New_Item_mem_def alloc_def item_at_def put_item_def m'_def ref_def)
  moreover have T: "brk m \<notin> set (cells T)" using assms(1,3) by (auto simp: owned_def T_def [symmetric])
  then have "owned m' (Some i) [T]"
    using assms(1) unfolding T_def [symmetric] by (auto intro: owned_frame simp: m'_def)
  then have "cJSON_Delete n (Some i) m' = Some (Inr (release (set (cells T)) m'))"
    using Delete_owned assms(5) unfolding T_def [symmetric] by fastforce
  moreover have "GetArraySize_mem (Suc n) (brk m) (release (set (cells T)) m') = Some (Inl UseAfterFree)"
    using T it(2,3) by (auto simp: GetArraySize_mem_def item_at_def m'_def ref_def)
  ultimately show ?thesis by blast
qed

section \<open>Constant names\<close>

text \<open>\<open>cJSON_AddItemToObject\<close> releases the old name of the item even when it is a constant.\<close>

lemma constant_name_freed:
  assumes "heap m i = Some (Item it)" "i_string it = Some p" "heap m p = None"
  shows "AddItemToObject_mem n obj str (Some i) m = Some (Inl BadFree)"
  using assms by (simp add: AddItemToObject_mem_def item_at_def free_opt_def free_cell_def domIff)

section \<open>A heap for the witnesses\<close>

text \<open>At 0 the array \<open>["x"]\<close>, at 3 the item \<open>true\<close>, at 4 one with the constant name \<open>n\<close>.\<close>

definition sample_mem :: mem where
  "sample_mem = \<lparr>heap = [0 \<mapsto> Item (null_item\<lparr>i_type := cJSON_Array, i_child := Some 1\<rparr>),
       1 \<mapsto> Item (null_item\<lparr>i_type := cJSON_String, i_valuestring := Some 2\<rparr>), 2 \<mapsto> Text ''x'',
       3 \<mapsto> Item (null_item\<lparr>i_type := cJSON_True\<rparr>),
       4 \<mapsto> Item (null_item\<lparr>i_type := or cJSON_True cJSON_StringIsConst, i_string := Some 5\<rparr>)],
     literals = [5 \<mapsto> ''n''], brk = 6, allocs = 0, fails = (\<lambda>_. False)\<rparr>"

definition sample_tree :: mtree where
  "sample_tree = MTree 0 cJSON_Array None None [MTree 1 cJSON_String (Some 2) None []]"

lemma sample_owned: "owned sample_mem (Some 0) [sample_tree]"
  by (simp add: owned_def sample_tree_def sample_mem_def null_item_def is_ref_def is_const_def)

lemma sample_cells: "cells sample_tree = [0, 1, 2]"
  by (simp add: sample_tree_def is_ref_def is_const_def)

theorem delete_releases_owned_witness:
  "\<exists>m. cJSON_Delete 4 (Some 0) sample_mem = Some (Inr m) \<and> dom (heap m) = {3, 4}"
proof -
  have "cJSON_Delete 4 (Some 0) sample_mem
      = Some (Inr (sample_mem\<lparr>heap := heap sample_mem |` (- set (all_cells [sample_tree]))\<rparr>))"
    by (rule delete_releases_owned [OF sample_owned]) (simp add: sample_cells)
  moreover have "dom (heap sample_mem |` (- {0, 1, 2})) = {3, 4}" by (auto simp: sample_mem_def)
  ultimately show ?thesis by (simp add: sample_cells)
qed

end
