(* ===== verification/CJsonMemDup.thy ===== *)
theory CJsonMemDup imports CJsonMem begin

text \<open>
  \<open>cJSON_Duplicate\<close> on the heap: every allocation may fail, and then the function releases what it has built
  so far. It is the duplication of trees in \<open>CJson\<close>, or nothing.
\<close>

section \<open>The tree behind a pointer\<close>

definition ptr_text :: "mem \<Rightarrow> nat option \<Rightarrow> string option \<Rightarrow> bool" where
  "ptr_text m p s \<longleftrightarrow> (case p of None \<Rightarrow> s = None | Some a \<Rightarrow> \<exists>t. text_at m a = Inr t \<and> s = Some t)"

abbreviation vals_of :: "cJSON \<Rightarrow> item_vals" where
  "vals_of c \<equiv> (valueuint8 c, valueuint16 c, valueint c, valuedouble c)"

function views :: "mem \<Rightarrow> nat option \<Rightarrow> cJSON list \<Rightarrow> bool" where
  "views m p [] \<longleftrightarrow> p = None"
| "views m p (c # cs) \<longleftrightarrow>
     (\<exists>a it. p = Some a \<and> heap m a = Some (Item it) \<and> i_type it = ctype c \<and> i_vals it = vals_of c
       \<and> ptr_text m (i_valuestring it) (valuestring c) \<and> ptr_text m (i_string it) (cstring c)
       \<and> views m (i_child it) (child c) \<and> views m (i_next it) cs)"
  by pat_completeness auto
termination
  by (relation "measure (\<lambda>(m, p, cs). size_list size cs)") (auto simp: size_child less_SucI trans_less_add1)

section \<open>Memory that only grows\<close>

definition mem_ok :: "mem \<Rightarrow> bool" where
  "mem_ok m \<longleftrightarrow> (\<forall>a. brk m \<le> a \<longrightarrow> heap m a = None \<and> literals m a = None)"

definition ext :: "mem \<Rightarrow> mem \<Rightarrow> bool" where
  "ext m m' \<longleftrightarrow> mem_ok m' \<and> brk m \<le> brk m' \<and> literals m' = literals m \<and> fails m' = fails m
     \<and> (\<forall>a < brk m. heap m' a = heap m a)"

lemma ext_refl: "mem_ok m \<Longrightarrow> ext m m"
  by (simp add: ext_def)

lemma ext_trans: "ext m m' \<Longrightarrow> ext m' m'' \<Longrightarrow> ext m m''"
  by (simp add: ext_def)

lemma ext_ok: "ext m m' \<Longrightarrow> mem_ok m'"
  by (simp add: ext_def)

lemma mem_ok_dom: "mem_ok m \<Longrightarrow> heap m a = Some x \<Longrightarrow> a < brk m"
  unfolding mem_ok_def by (metis linorder_not_le option.simps(3))

lemma ext_heap: "mem_ok m \<Longrightarrow> ext m m' \<Longrightarrow> heap m a = Some x \<Longrightarrow> heap m' a = Some x"
  using mem_ok_dom by (fastforce simp: ext_def)

lemma ext_new: "ext m m' \<Longrightarrow> a \<in> dom (heap m') \<Longrightarrow> a \<notin> dom (heap m) \<Longrightarrow> brk m \<le> a"
  by (force simp: ext_def)

lemma ext_text:
  assumes "mem_ok m" "ext m m'" "text_at m a = Inr t"
  shows "text_at m' a = Inr t"
proof -
  have "a < brk m"
  proof (rule ccontr)
    assume "\<not> a < brk m"
    then show False using assms(1,3) by (simp add: mem_ok_def text_at_def)
  qed
  then show ?thesis using assms(2,3) text_at_cong [of m' a m] by (simp add: ext_def)
qed

lemma ext_ptr_text: "mem_ok m \<Longrightarrow> ext m m' \<Longrightarrow> ptr_text m p s \<Longrightarrow> ptr_text m' p s"
  by (auto simp: ptr_text_def ext_text split: option.splits)

lemma ext_views: "views m p cs \<Longrightarrow> mem_ok m \<Longrightarrow> ext m m' \<Longrightarrow> views m' p cs"
proof (induction m p cs rule: views.induct)
  case (2 m p c cs)
  then show ?case by (fastforce intro: ext_heap ext_ptr_text)
qed simp

lemma alloc_cases:
  assumes "mem_ok m"
  obtains (fail) m' where "alloc x m = (None, m')" "ext m m'" "heap m' = heap m"
  | (new) b m' where "alloc x m = (Some b, m')" "ext m m'" "heap m' = (heap m)(b \<mapsto> x)" "b \<notin> dom (heap m)"
proof (cases "fails m (allocs m)")
  case True
  show ?thesis
    by (rule fail [of "m\<lparr>allocs := allocs m + 1\<rparr>"])
      (use True assms in \<open>simp_all add: alloc_def ext_def mem_ok_def\<close>)
next
  case False
  show ?thesis
    by (rule new [of "brk m" "m\<lparr>allocs := allocs m + 1, heap := (heap m)(brk m \<mapsto> x), brk := brk m + 1\<rparr>"])
      (use False assms in \<open>auto simp: alloc_def ext_def mem_ok_def Let_def\<close>)
qed

lemma ext_put:
  assumes "ext m0 m" "a \<in> dom (heap m)" "a \<notin> dom (heap m0)"
  shows "ext m0 (put_item a it m)"
proof -
  have "brk m0 \<le> a" using ext_new [OF assms] .
  moreover have "a < brk m" using assms(1,2) mem_ok_dom ext_ok by blast
  ultimately show ?thesis using assms(1) by (auto simp: ext_def put_item_def mem_ok_def)
qed

lemma ext_release: "ext m0 m \<Longrightarrow> A \<inter> dom (heap m0) = {} \<Longrightarrow> ext m0 (release A m)"
  unfolding ext_def mem_ok_def by (auto simp: restrict_map_def domIff disjoint_iff)

section \<open>A tree built of cells of its own\<close>

definition text_in :: "(nat \<rightharpoonup> cell) \<Rightarrow> nat option \<Rightarrow> string option \<Rightarrow> bool" where
  "text_in h p s \<longleftrightarrow> (case p of None \<Rightarrow> s = None | Some a \<Rightarrow> \<exists>t. h a = Some (Text t) \<and> s = Some t)"

definition fields :: "(nat \<rightharpoonup> cell) \<Rightarrow> item \<Rightarrow> cJSON \<Rightarrow> bool" where
  "fields h it c \<longleftrightarrow> i_type it = ctype c \<and> i_vals it = vals_of c
     \<and> text_in h (i_valuestring it) (valuestring c) \<and> text_in h (i_string it) (cstring c)"

definition strs :: "item \<Rightarrow> nat list" where
  "strs it = opt_list (i_valuestring it) @ opt_list (i_string it)"

text \<open>\<open>seg h v p cs w q F\<close>: from \<open>p\<close> a chain of items holds \<open>cs\<close>, up to \<open>q\<close>; the first one has the \<open>prev\<close> pointer \<open>v\<close>,
  \<open>w\<close> is the \<open>prev\<close> pointer of a next one. \<open>F\<close> are its cells.\<close>

function seg :: "(nat \<rightharpoonup> cell) \<Rightarrow> nat option \<Rightarrow> nat option \<Rightarrow> cJSON list \<Rightarrow> nat option \<Rightarrow> nat option \<Rightarrow> nat list \<Rightarrow> bool" where
  "seg h v p [] w q F \<longleftrightarrow> w = v \<and> p = q \<and> F = []"
| "seg h v p (c # cs) w q F \<longleftrightarrow>
     (\<exists>a it wk Fk Ft. p = Some a \<and> h a = Some (Item it) \<and> i_prev it = v \<and> fields h it c
       \<and> seg h None (i_child it) (child c) wk None Fk \<and> seg h (Some a) (i_next it) cs w q Ft
       \<and> F = a # Fk @ strs it @ Ft)"
  by pat_completeness auto
termination
  by (relation "measure (\<lambda>(h, v, p, cs, w, q, F). size_list size cs)") (auto simp: size_child less_SucI trans_less_add1)

lemma text_in_frame: "text_in h p s \<Longrightarrow> (\<And>a. a \<in> set (opt_list p) \<Longrightarrow> h' a = h a) \<Longrightarrow> text_in h' p s"
  by (auto simp: text_in_def split: option.splits)

lemma fields_frame: "fields h it c \<Longrightarrow> (\<And>a. a \<in> set (strs it) \<Longrightarrow> h' a = h a) \<Longrightarrow> fields h' it c"
  by (auto simp: fields_def strs_def intro: text_in_frame)

lemma fields_upd [simp]:
  "fields h (it\<lparr>i_next := x\<rparr>) c = fields h it c" "fields h (it\<lparr>i_prev := x\<rparr>) c = fields h it c"
  "fields h (it\<lparr>i_child := x\<rparr>) c = fields h it c"
  "strs (it\<lparr>i_next := x\<rparr>) = strs it" "strs (it\<lparr>i_prev := x\<rparr>) = strs it" "strs (it\<lparr>i_child := x\<rparr>) = strs it"
  by (simp_all add: fields_def strs_def)

lemma seg_frame: "seg h v p cs w q F \<Longrightarrow> (\<And>a. a \<in> set F \<Longrightarrow> h' a = h a) \<Longrightarrow> seg h' v p cs w q F"
proof (induction h v p cs w q F rule: seg.induct)
  case (2 h v p c cs w q F)
  from 2(3) obtain a it wk Fk Ft where s: "p = Some a" "h a = Some (Item it)" "i_prev it = v" "fields h it c"
    "seg h None (i_child it) (child c) wk None Fk" "seg h (Some a) (i_next it) cs w q Ft" "F = a # Fk @ strs it @ Ft"
    by auto
  have eq: "h' b = h b" if "b \<in> set F" for b using 2(4) that .
  have "seg h' None (i_child it) (child c) wk None Fk" "seg h' (Some a) (i_next it) cs w q Ft" "fields h' it c"
    using s eq by (auto intro: "2.IH" fields_frame)
  then show ?case using s eq by (auto intro!: exI [of _ it])
qed simp

lemma seg_append:
  "seg h v p (cs @ ds) w q F \<longleftrightarrow> (\<exists>w' r F1 F2. seg h v p cs w' r F1 \<and> seg h w' r ds w q F2 \<and> F = F1 @ F2)"
  by (induction cs arbitrary: v p F) (simp, fastforce)

lemma seg_last:
  "seg h v p cs w q F \<Longrightarrow> cs \<noteq> [] \<Longrightarrow> \<exists>l it. w = Some l \<and> l \<in> set F \<and> h l = Some (Item it)"
proof (induction cs arbitrary: v p F)
  case (Cons c cs)
  then show ?case by (cases cs) fastforce+
qed simp

lemma text_in_dom: "text_in h p s \<Longrightarrow> set (opt_list p) \<subseteq> dom h"
  by (auto simp: text_in_def split: option.splits)

lemma seg_dom: "seg h v p cs w q F \<Longrightarrow> set F \<subseteq> dom h"
proof (induction h v p cs w q F rule: seg.induct)
  case (2 h v p c cs w q F)
  then show ?case by (fastforce simp: fields_def strs_def dest: text_in_dom)
qed simp

text \<open>The items of the chain are linked to the next one.\<close>

lemma seg_link:
  assumes "seg h v p cs (Some l) None F" "cs \<noteq> []" "distinct F" "h l = Some (Item prev)"
    and d: "seg h None (Some d) [c] (Some d) None Fd" "h d = Some (Item itd)"
    and disj: "distinct (F @ Fd)"
  shows "seg (h(l \<mapsto> Item (prev\<lparr>i_next := Some d\<rparr>), d \<mapsto> Item (itd\<lparr>i_prev := Some l\<rparr>))) v p (cs @ [c]) (Some d) None (F @ Fd)"
proof -
  define g where "g = h(l \<mapsto> Item (prev\<lparr>i_next := Some d\<rparr>), d \<mapsto> Item (itd\<lparr>i_prev := Some l\<rparr>))"
  obtain cs' x where cs: "cs = cs' @ [x]" using assms(2) by (cases cs rule: rev_exhaust) auto
  then obtain w r F1 F2 where s: "seg h v p cs' w r F1" "seg h w r [x] (Some l) None F2" "F = F1 @ F2"
    using assms(1) unfolding cs seg_append by blast
  obtain wk Fk where x: "r = Some l" "i_prev prev = w" "fields h prev x"
    "seg h None (i_child prev) (child x) wk None Fk" "F2 = l # Fk @ strs prev"
    using s(2) assms(4) by auto
  obtain wd Fk' where dd: "fields h itd c" "seg h None (i_child itd) (child c) wd None Fk'" "i_next itd = None"
    "Fd = d # Fk' @ strs itd"
    using d by auto
  have F: "l \<notin> set F1" "d \<notin> set F1" "l \<notin> set (Fk @ strs prev)" "d \<notin> set (Fk @ strs prev)" "l \<noteq> d"
    "l \<notin> set (Fk' @ strs itd)" "d \<notin> set (Fk' @ strs itd)"
    using disj by (auto simp: s(3) x(5) dd(4))
  have g: "g l = Some (Item (prev\<lparr>i_next := Some d\<rparr>))" "g d = Some (Item (itd\<lparr>i_prev := Some l\<rparr>))"
    "\<And>a. a \<noteq> l \<Longrightarrow> a \<noteq> d \<Longrightarrow> g a = h a"
    using F(5) by (simp_all add: g_def)
  have other: "g a = h a" if "a \<in> set F1 \<union> set (Fk @ strs prev) \<union> set (Fk' @ strs itd)" for a
    by (rule g(3)) (use F that in auto)
  have 1: "seg g v p cs' w (Some l) F1" using s(1) x(1) other by (auto intro: seg_frame)
  have 2: "seg g w (Some l) [x] (Some l) (Some d) F2"
  proof -
    have "fields g (prev\<lparr>i_next := Some d\<rparr>) x"
      unfolding fields_upd by (rule fields_frame [OF x(3)]) (use other in auto)
    moreover have "seg g None (i_child prev) (child x) wk None Fk" using x(4) other by (auto intro: seg_frame)
    ultimately show ?thesis using x(2,5) g(1) by auto
  qed
  have 3: "seg g (Some l) (Some d) [c] (Some d) None Fd"
  proof -
    have "fields g (itd\<lparr>i_prev := Some l\<rparr>) c"
      unfolding fields_upd by (rule fields_frame [OF dd(1)]) (use other in auto)
    moreover have "seg g None (i_child itd) (child c) wd None Fk'" using dd(2) other by (auto intro: seg_frame)
    ultimately show ?thesis using dd(3,4) g(2) by auto
  qed
  have "seg g w (Some l) ([x] @ [c]) (Some d) None (F2 @ Fd)" using 2 3 unfolding seg_append by blast
  then have "seg g v p (cs' @ [x] @ [c]) (Some d) None (F1 @ F2 @ Fd)" using 1 by (subst seg_append) blast
  then show ?thesis by (simp add: g_def [symmetric] cs s(3))
qed

section \<open>Releasing what has been built\<close>

fun own_names :: "cJSON \<Rightarrow> bool" where
  "own_names (CJSON t vs u8 u16 vi vd s ch) \<longleftrightarrow> \<not> is_const t \<and> list_all own_names ch"

fun plain :: "cJSON \<Rightarrow> bool" where
  "plain (CJSON t vs u8 u16 vi vd s ch) \<longleftrightarrow> \<not> is_ref t \<and> \<not> is_const t \<and> list_all plain ch"

text \<open>\<open>~cJSON_IsReference\<close>, as the simplifier writes it.\<close>

lemma is_ref_masked [simp]: "\<not> is_ref (and t (- 257))"
proof -
  have "and (and t (- 257)) cJSON_IsReference = and t (and (- 257) cJSON_IsReference)" by (simp only: and.assoc)
  then show ?thesis by (simp add: is_ref_def)
qed

lemma is_const_masked [simp]: "is_const (and t (- 257)) = is_const t"
proof -
  have "and (and t (- 257)) cJSON_StringIsConst = and t (and (- 257) cJSON_StringIsConst)" by (simp only: and.assoc)
  moreover have "and (- 257) cJSON_StringIsConst = cJSON_StringIsConst" by simp
  ultimately show ?thesis by (simp add: is_const_def)
qed

lemma plain_duplicate: "own_names c \<Longrightarrow> plain (cJSON_Duplicate_item c rec)"
  by (induction c rec rule: cJSON_Duplicate_item.induct) (auto simp: list_all_iff)

lemma seg_chain:
  "seg h v p cs w q F \<Longrightarrow> q = None \<Longrightarrow> list_all plain cs \<Longrightarrow> \<exists>ts. chain_at h p ts \<and> all_cells ts = F"
proof (induction h v p cs w q F rule: seg.induct)
  case (1 h v p w q F)
  then show ?case by (intro exI [of _ "[]"]) simp
next
  case (2 h v p c cs w q F)
  from 2(3) obtain a it wk Fk Ft where s: "p = Some a" "h a = Some (Item it)" "i_prev it = v" "fields h it c"
    "seg h None (i_child it) (child c) wk None Fk" "seg h (Some a) (i_next it) cs w q Ft" "F = a # Fk @ strs it @ Ft"
    by auto
  have c: "\<not> is_ref (ctype c)" "\<not> is_const (ctype c)" "list_all plain (child c)" "list_all plain cs"
    using 2(5) by (cases c; simp)+
  obtain ks where ks: "chain_at h (i_child it) ks" "all_cells ks = Fk"
    using "2.IH"(1) [OF s(5)] c(3) by auto
  obtain ts where ts: "chain_at h (i_next it) ts" "all_cells ts = Ft" using "2.IH"(2) [OF s(6)] 2(4) c(4) by auto
  show ?case
    by (intro exI [of _ "MTree a (ctype c) (i_valuestring it) (i_string it) ks # ts"])
      (use s(1,2,4,7) c(1,2) ks ts in \<open>simp add: fields_def strs_def\<close>)
qed

lemma Delete_seg:
  assumes "seg (heap m) v p cs w None F" "distinct F" "list_all plain cs" "length F < n"
  shows "cJSON_Delete n p m = Some (Inr (release (set F) m))"
proof -
  obtain ts where ts: "chain_at (heap m) p ts" "all_cells ts = F" using seg_chain [OF assms(1) refl assms(3)] by blast
  then have "owned m p ts" using assms(2) seg_dom [OF assms(1)] by (simp add: owned_def)
  then show ?thesis using Delete_owned [of m p ts n] assms(4) ts(2) by simp
qed

section \<open>A copy under construction\<close>

text \<open>\<open>built m0 m new c done nptr F\<close>: since \<open>m0\<close>, the cells \<open>F\<close> have been allocated for the item \<open>new\<close>, which has the
  fields of \<open>c\<close> and the children \<open>done\<close>, the last one at \<open>nptr\<close>.\<close>

definition built :: "mem \<Rightarrow> mem \<Rightarrow> nat \<Rightarrow> cJSON \<Rightarrow> cJSON list \<Rightarrow> nat option \<Rightarrow> nat list \<Rightarrow> bool" where
  "built m0 m new c done nptr F \<longleftrightarrow> ext m0 m
     \<and> (\<exists>it Fk. heap m new = Some (Item it) \<and> i_prev it = None \<and> i_next it = None \<and> fields (heap m) it c
          \<and> seg (heap m) None (i_child it) done nptr None Fk \<and> F = new # Fk @ strs it)
     \<and> distinct F \<and> set F = dom (heap m) - dom (heap m0)"

lemma built_seg:
  "built m0 m new c done nptr F \<Longrightarrow> seg (heap m) None (Some new) [set_child done c] (Some new) None F"
  by (cases c) (auto simp: built_def fields_def)

lemma release_new: "ext m0 m \<Longrightarrow> set F = dom (heap m) - dom (heap m0) \<Longrightarrow> mem_ok m0 \<Longrightarrow> heap (release (set F) m) = heap m0"
proof (rule ext)
  fix a
  assume e: "ext m0 m" "set F = dom (heap m) - dom (heap m0)" "mem_ok m0"
  show "heap (release (set F) m) a = heap m0 a"
  proof (cases "heap m0 a")
    case (Some x)
    then show ?thesis using e ext_heap [OF e(3,1) Some] by (auto simp: restrict_map_def)
  qed (use e in \<open>auto simp: restrict_map_def\<close>)
qed

lemma built_undone:
  assumes "built m0 m new c done nptr F" "mem_ok m0" "plain (set_child done c)" "length F < n"
  obtains m' where "cJSON_Delete n (Some new) m = Some (Inr m')" "ext m0 m'" "heap m' = heap m0"
proof -
  have b: "ext m0 m" "distinct F" "set F = dom (heap m) - dom (heap m0)" using assms(1) by (simp_all add: built_def)
  have "cJSON_Delete n (Some new) m = Some (Inr (release (set F) m))"
    using Delete_seg [OF built_seg [OF assms(1)] b(2) _ assms(4)] assms(3) by simp
  moreover have "ext m0 (release (set F) m)" using b by (intro ext_release) auto
  ultimately show ?thesis using that release_new [OF b(1,3) assms(2)] by blast
qed

lemma built_start:
  assumes "ext m0 m" "b \<in> dom (heap m)" "b \<notin> dom (heap m0)" "fields (heap m) cp c"
    "i_prev cp = None" "i_next cp = None" "i_child cp = None"
    "dom (heap m) - dom (heap m0) = insert b (set (strs cp))" "distinct (b # strs cp)"
  shows "built m0 (put_item b cp m) b c [] None (b # strs cp)"
proof -
  have "fields (heap (put_item b cp m)) cp c"
    by (rule fields_frame [OF assms(4)]) (use assms(9) in \<open>auto simp: put_item_def\<close>)
  moreover have "dom (heap (put_item b cp m)) = dom (heap m)" using assms(2) by (auto simp: put_item_def)
  ultimately show ?thesis
    unfolding built_def using ext_put [OF assms(1-3)] assms(5-9) by (auto simp: put_item_def)
qed

lemma built_link:
  assumes b: "built m0 m new c done nptr F" and m0: "mem_ok m0" and m': "ext m m'"
    and d: "seg (heap m') None (Some d) [cd] (Some d) None Fd" "distinct Fd" "set Fd = dom (heap m') - dom (heap m)"
  obtains m'' F' where "link_child new nptr d m' = Inr m''" "built m0 m'' new c (done @ [cd]) (Some d) F'"
    "length F' = length F + length Fd" "ext m0 m''"
proof -
  obtain it Fk where it: "ext m0 m" "heap m new = Some (Item it)" "i_prev it = None" "i_next it = None" "fields (heap m) it c"
    "seg (heap m) None (i_child it) done nptr None Fk" "F = new # Fk @ strs it" "distinct F"
    "set F = dom (heap m) - dom (heap m0)"
    using b by (auto simp: built_def)
  have ok: "mem_ok m" using it(1) by (rule ext_ok)
  have keep: "heap m' a = heap m a" if "a \<in> set F" for a
  proof -
    have "a \<in> dom (heap m)" using that it(9) by simp
    then show ?thesis using ext_heap [OF ok m'] by (auto simp: dom_def)
  qed
  have sub: "set F \<inter> set Fd = {}" using it(9) d(3) by auto
  have e: "ext m0 m'" using it(1) m' by (rule ext_trans)
  have all: "set (F @ Fd) = dom (heap m') - dom (heap m0)"
  proof -
    have "dom (heap m0) \<subseteq> dom (heap m)" "dom (heap m) \<subseteq> dom (heap m')"
      using ext_heap [OF m0 it(1)] ext_heap [OF ok m'] by (auto simp: dom_def)
    then show ?thesis using it(9) d(3) by auto
  qed
  have part: "new \<in> set F" "set Fk \<subseteq> set F" "set (strs it) \<subseteq> set F" using it(7) by auto
  have new: "heap m' new = Some (Item it)" using keep [OF part(1)] it(2) by simp
  have val: "fields (heap m') it c" by (rule fields_frame [OF it(5)]) (use keep part(3) in blast)
  have kids: "seg (heap m') None (i_child it) done nptr None Fk" by (rule seg_frame [OF it(6)]) (use keep part(2) in blast)
  obtain itd where itd: "heap m' d = Some (Item itd)" "d \<in> set Fd" using d(1) by auto
  have other: "new \<notin> set (Fk @ strs it @ Fd)" "distinct (F @ Fd)" using it(7,8) sub d(2) by auto
  show ?thesis
  proof (cases nptr)
    case None
    then have k: "done = []" "i_child it = None" "Fk = []" using kids seg_last [OF kids] by (cases "done"; auto)+
    let ?m = "put_item new (it\<lparr>i_child := Some d\<rparr>) m'"
    have same: "heap ?m a = heap m' a" if "a \<noteq> new" for a using that by (simp add: put_item_def)
    have e': "ext m0 ?m" by (rule ext_put [OF e]) (use new part(1) it(9) in auto)
    have "fields (heap ?m) it c" by (rule fields_frame [OF val]) (use other(1) in \<open>auto intro!: same\<close>)
    moreover have "seg (heap ?m) None (Some d) [cd] (Some d) None Fd"
      by (rule seg_frame [OF d(1)]) (use other(1) in \<open>auto intro!: same\<close>)
    moreover have "dom (heap ?m) = dom (heap m')" using new by (auto simp: put_item_def)
    ultimately have "built m0 ?m new c (done @ [cd]) (Some d) (new # Fd @ strs it)"
      unfolding built_def using e' it(3,4,7) k other all
      by (auto simp: put_item_def simp del: seg.simps(2) intro!: exI [of _ "it\<lparr>i_child := Some d\<rparr>"])
    moreover have "link_child new nptr d m' = Inr ?m" using None new by (simp add: link_child_def item_at_def)
    ultimately show ?thesis using that e' it(7) k by simp
  next
    case (Some l)
    then have "done \<noteq> []" using kids by auto
    then obtain prev where l: "l \<in> set Fk" "heap m' l = Some (Item prev)" using seg_last [OF kids] Some by auto
    let ?m = "put_item d (itd\<lparr>i_prev := Some l\<rparr>) (put_item l (prev\<lparr>i_next := Some d\<rparr>) m')"
    have ne: "d \<noteq> l" using other(2) itd(2) l(1) it(7) by auto
    have same: "heap ?m a = heap m' a" if "a \<noteq> d" "a \<noteq> l" for a using that by (simp add: put_item_def)
    have e': "ext m0 ?m"
      by (intro ext_put e) (use l part(2) it(9) itd all ne in \<open>auto simp: put_item_def\<close>)
    have "fields (heap ?m) it c"
      by (rule fields_frame [OF val]) (use other l(1) itd(2) it(7) in \<open>auto intro!: same\<close>)
    moreover have "seg (heap ?m) None (i_child it) (done @ [cd]) (Some d) None (Fk @ Fd)"
      using seg_link [OF kids [unfolded Some] \<open>done \<noteq> []\<close> _ l(2) d(1) itd(1)] other(2) it(7)
      by (simp add: put_item_def Int_Un_distrib)
    moreover have "heap ?m new = Some (Item it)" using same [of new] other(1) itd(2) l(1) new by auto
    moreover have "dom (heap ?m) = dom (heap m')" using l(2) itd(1) by (auto simp: put_item_def)
    ultimately have "built m0 ?m new c (done @ [cd]) (Some d) (new # (Fk @ Fd) @ strs it)"
      unfolding built_def using e' it(3,4,7) other all by (auto simp del: seg.simps(2))
    moreover have "link_child new nptr d m' = Inr ?m"
      using Some l(2) itd(1) ne by (simp add: link_child_def item_at_def put_item_def)
    ultimately show ?thesis using that e' it(7) by simp
  qed
qed

lemma dup_string_cases:
  assumes "mem_ok m" "ptr_text m p s"
  obtains (fail) m' where "dup_string p m = Inr (None, m')" "p \<noteq> None" "ext m m'" "heap m' = heap m"
  | (copy) q m' where "dup_string p m = Inr (q, m')" "q = None \<longleftrightarrow> p = None" "ext m m'" "text_in (heap m') q s"
      "dom (heap m') = dom (heap m) \<union> set (opt_list q)" "set (opt_list q) \<inter> dom (heap m) = {}"
proof (cases p)
  case None
  then show ?thesis
    using copy [of None m] assms ext_refl by (simp add: dup_string_def ptr_text_def text_in_def)
next
  case (Some a)
  then obtain t where t: "text_at m a = Inr t" "s = Some t" using assms(2) by (auto simp: ptr_text_def)
  have d: "dup_string p m = Inr (alloc (Text t) m)" using Some t(1) by (simp add: dup_string_def cJSON_strdup_def)
  show ?thesis using assms(1)
  proof (cases rule: alloc_cases [where x = "Text t"])
    case (fail m')
    then show ?thesis using that(1) d Some by simp
  next
    case (new b m')
    then show ?thesis using that(2) [of "Some b" m'] d Some t(2) by (simp add: text_in_def)
  qed
qed

section \<open>The copy, or nothing\<close>

fun weight :: "cJSON \<Rightarrow> nat" where
  "weight (CJSON t vs u8 u16 vi vd s ch) = 5 + sum_list (map (\<lambda>c. weight c + 1) ch)"

definition duplicated :: "mem \<Rightarrow> cJSON \<Rightarrow> bool \<Rightarrow> nat option \<Rightarrow> mem \<Rightarrow> bool" where
  "duplicated m c recurse r m' \<longleftrightarrow> ext m m'
     \<and> (case r of
          None \<Rightarrow> heap m' = heap m
        | Some b \<Rightarrow> \<exists>F. seg (heap m') None (Some b) [cJSON_Duplicate_item c recurse] (Some b) None F \<and> distinct F
            \<and> set F = dom (heap m') - dom (heap m) \<and> length F \<le> weight c)"

lemma built_duplicated:
  assumes "built m m' b h dn w F" "set_child dn h = cJSON_Duplicate_item c recurse" "length F \<le> weight c"
  shows "duplicated m c recurse (Some b) m'"
proof -
  have "ext m m'" "distinct F" "set F = dom (heap m') - dom (heap m)" using assms(1) by (simp_all add: built_def)
  then show ?thesis
    using built_seg [OF assms(1)] assms(2,3) unfolding duplicated_def option.case by (intro conjI exI [of _ F]) simp_all
qed

lemma duplicate_children_step:
  assumes IH: "\<And>m a c rest. mem_ok m \<Longrightarrow> views m (Some a) (c # rest) \<Longrightarrow> own_names c \<Longrightarrow> weight c \<le> n \<Longrightarrow>
      \<exists>r m'. Duplicate_mem n (Some a) True m = Some (Inr (r, m')) \<and> duplicated m c True r m'"
    and loop: "\<And>m F dn cptr nptr. built m0 m new h dn nptr F \<Longrightarrow> views m0 cptr cs \<Longrightarrow> plain (set_child dn h) \<Longrightarrow>
      length F + sum_list (map (\<lambda>c. weight c + 1) cs) < n \<Longrightarrow>
      \<exists>r m'. duplicate_children n new cptr nptr m = Some (Inr (r, m')) \<and> ext m0 m'
        \<and> (case r of None \<Rightarrow> heap m' = heap m0
           | Some b \<Rightarrow> b = new \<and> (\<exists>F' w. built m0 m' new h (dn @ map (\<lambda>c. cJSON_Duplicate_item c True) cs) w F'
               \<and> length F' \<le> length F + sum_list (map weight cs)))"
    and b: "built m0 m new h dn nptr F" and m0: "mem_ok m0" and v: "views m0 cptr (c # cs)" and c: "own_names c"
    and p: "plain (set_child dn h)" and n: "length F + sum_list (map (\<lambda>c. weight c + 1) (c # cs)) < Suc n"
  shows "\<exists>r m'. duplicate_children (Suc n) new cptr nptr m = Some (Inr (r, m')) \<and> ext m0 m'
        \<and> (case r of None \<Rightarrow> heap m' = heap m0
           | Some b \<Rightarrow> b = new \<and> (\<exists>F' w. built m0 m' new h (dn @ map (\<lambda>c. cJSON_Duplicate_item c True) (c # cs)) w F'
               \<and> length F' \<le> length F + sum_list (map weight (c # cs))))"
proof -
  obtain a it where a: "cptr = Some a" "heap m0 a = Some (Item it)" "views m0 (i_next it) cs" using v by auto
  have e: "ext m0 m" using b by (simp add: built_def)
  obtain r m1 where r: "Duplicate_mem n (Some a) True m = Some (Inr (r, m1))" "duplicated m c True r m1"
    using IH [OF ext_ok [OF e], of a c cs] ext_views [OF v m0 e] c n a(1) by auto
  show ?thesis
  proof (cases r)
    case None
    then have "built m0 m1 new h dn nptr F"
      using b r(2) ext_trans [OF e] unfolding built_def duplicated_def by auto
    moreover have "length F < n" using n by simp
    ultimately obtain m2 where "cJSON_Delete n (Some new) m1 = Some (Inr m2)" "ext m0 m2" "heap m2 = heap m0"
      using built_undone [OF _ m0 p] by blast
    then show ?thesis using r(1) None a(1) by simp
  next
    case (Some d)
    then obtain Fd where d: "ext m m1" "seg (heap m1) None (Some d) [cJSON_Duplicate_item c True] (Some d) None Fd" "distinct Fd"
      "set Fd = dom (heap m1) - dom (heap m)" "length Fd \<le> weight c"
      using r(2) by (auto simp: duplicated_def)
    obtain m2 F2 where l: "link_child new nptr d m1 = Inr m2"
      "built m0 m2 new h (dn @ [cJSON_Duplicate_item c True]) (Some d) F2" "length F2 = length F + length Fd" "ext m0 m2"
      by (rule built_link [OF b m0 d(1-4)])
    have at: "item_at m2 a = Inr it" using ext_heap [OF m0 l(4) a(2)] by (simp add: item_at_Inr)
    have "plain (set_child (dn @ [cJSON_Duplicate_item c True]) h)"
      using p plain_duplicate [OF c] by (cases h) simp
    then obtain r3 m3 where "duplicate_children n new (i_next it) (Some d) m2 = Some (Inr (r3, m3))" "ext m0 m3"
      "case r3 of None \<Rightarrow> heap m3 = heap m0
       | Some b \<Rightarrow> b = new \<and> (\<exists>F' w. built m0 m3 new h ((dn @ [cJSON_Duplicate_item c True]) @ map (\<lambda>c. cJSON_Duplicate_item c True) cs) w F'
               \<and> length F' \<le> length F2 + sum_list (map weight cs))"
      using loop [OF l(2) a(3)] n l(3) d(5) by auto
    then show ?thesis
      using r(1) Some l(1,3) at a(1) d(5) by (fastforce split: option.splits)
  qed
qed

lemma distinct_opt_list [simp]: "distinct (opt_list p)"
  by (cases p) simp_all

lemma vals_set: "vals_of (set_cstring s c) = vals_of c"
  by (cases c) simp

lemma text_in_None: "text_in h None None"
  by (simp add: text_in_def)

lemma duplicate_item_step:
  assumes loop: "\<And>m1 new h F cptr. built m m1 new h [] None F \<Longrightarrow> views m cptr (child c) \<Longrightarrow> plain (set_child [] h) \<Longrightarrow>
      length F + sum_list (map (\<lambda>c. weight c + 1) (child c)) < n \<Longrightarrow>
      \<exists>r m'. duplicate_children n new cptr None m1 = Some (Inr (r, m')) \<and> ext m m'
        \<and> (case r of None \<Rightarrow> heap m' = heap m
           | Some b \<Rightarrow> b = new \<and> (\<exists>F' w. built m m' new h (map (\<lambda>c. cJSON_Duplicate_item c True) (child c)) w F'
               \<and> length F' \<le> length F + sum_list (map weight (child c))))"
    and m: "mem_ok m" and v: "views m (Some a) (c # rest)" and c: "own_names c" and n: "weight c \<le> Suc n"
  shows "\<exists>r m'. Duplicate_mem (Suc n) (Some a) recurse m = Some (Inr (r, m')) \<and> duplicated m c recurse r m'"
  using m
proof (cases rule: alloc_cases [where x = "Item null_item"])
  case (fail m1)
  then show ?thesis by (simp add: cJSON_New_Item_mem_def duplicated_def)
next
  case (new b m1)
  have ok1: "mem_ok m1" using new(2) by (rule ext_ok)
  obtain it where it: "heap m a = Some (Item it)" "i_type it = ctype c" "i_vals it = vals_of c"
    "ptr_text m (i_valuestring it) (valuestring c)" "ptr_text m (i_string it) (cstring c)" "views m (i_child it) (child c)"
    using v by auto
  have at: "item_at m1 a = Inr it" using ext_heap [OF m new(2) it(1)] by (simp add: item_at_Inr)
  define head where "head = cJSON_Duplicate_item c False"
  define cp where "cp = copy_values it"
  have cp: "i_prev cp = None" "i_next cp = None" "i_child cp = None" "i_string cp = None" "i_valuestring cp = None"
    "i_type cp = ctype head" "i_vals cp = vals_of head"
    using it(2,3) by (cases c; simp add: cp_def copy_values_def null_item_def head_def)+
  have head: "valuestring head = valuestring c" "cstring head = cstring c" "plain head" "child head = []"
    using plain_duplicate [OF c, of False] by (cases c; simp add: head_def)+
  have plain_head: "plain (set_child [] (set_valuestring vs (set_cstring s head)))" for vs s
    using head(3,4) by (cases head) simp
  have small: "length F < n" if "length F \<le> 3" for F :: "nat list" using n that by (cases c) simp
  show ?thesis using ok1 ext_ptr_text [OF m new(2) it(4)]
  proof (cases rule: dup_string_cases)
    case vs: (fail m2)
    define cp1 where "cp1 = cp\<lparr>i_valuestring := None\<rparr>"
    have "built m (put_item b cp1 m2) b (set_valuestring None (set_cstring None head)) [] None (b # strs cp1)"
      by (rule built_start)
        (use ext_trans [OF new(2) vs(3)] vs(4) new(3,4) cp in
          \<open>auto simp: cp1_def fields_def text_in_def strs_def, (cases head, simp)+\<close>)
    then obtain m3 where "cJSON_Delete n (Some b) (put_item b cp1 m2) = Some (Inr m3)" "ext m m3" "heap m3 = heap m"
      by (rule built_undone [OF _ m plain_head]) (rule small, use cp in \<open>simp add: cp1_def strs_def\<close>)
    then show ?thesis
      using new(1) at vs(1,2) by (simp add: cJSON_New_Item_mem_def duplicated_def Let_def cp_def cp1_def)
  next
    case vs: (copy q m2)
    define cp1 where "cp1 = cp\<lparr>i_valuestring := q\<rparr>"
    define m3 where "m3 = put_item b cp1 m2"
    have e2: "ext m m2" using ext_trans [OF new(2) vs(3)] .
    have b2: "b \<in> dom (heap m2)" using vs(5) new(3) by auto
    have q: "b \<notin> set (opt_list q)" "set (opt_list q) \<inter> dom (heap m) = {}" using vs(6) new(3) by auto
    have c1: "i_prev cp1 = None" "i_next cp1 = None" "i_child cp1 = None" using cp by (simp_all add: cp1_def)
    have strs1: "strs cp1 = opt_list q" using cp by (simp add: cp1_def strs_def)
    have val1: "fields (heap m2) cp1 (set_cstring None head)"
      using cp vs(4) head(1) vals_set by (simp add: fields_def cp1_def text_in_None)
    have b3: "built m m3 b (set_cstring None head) [] None (b # strs cp1)"
      unfolding m3_def
      by (rule built_start [OF e2 b2 new(4) val1])
        (use c1 q vs(5) new(3,4) strs1 in auto)
    have at3: "heap m3 b = Some (Item cp1)" by (simp add: m3_def put_item_def)
    have e3: "ext m m3" and val3: "fields (heap m3) cp1 (set_cstring None head)"
      using b3 at3 by (auto simp: built_def)
    have dom3: "dom (heap m3) = insert b (dom (heap m) \<union> set (opt_list q))"
      using vs(5) new(3) by (auto simp: m3_def put_item_def)
    have run1: "Duplicate_mem (Suc n) (Some a) recurse m =
        bind_r (Some (dup_string (i_string it) m3)) (\<lambda>(s, m).
          let cp = cp1\<lparr>i_string := s\<rparr>; m = put_item b cp m
          in if s = None \<and> i_string it \<noteq> None
             then bind_r (cJSON_Delete n (Some b) m) (\<lambda>m. Some (Inr (None, m)))
             else if \<not> recurse then Some (Inr (Some b, m))
             else duplicate_children n b (i_child it) None m)"
      using new(1) at vs(1,2) by (auto simp: cJSON_New_Item_mem_def Let_def cp_def cp1_def m3_def)
    show ?thesis using ext_ok [OF e3] ext_ptr_text [OF m e3 it(5)]
    proof (cases rule: dup_string_cases)
      case s: (fail m4)
      have cp1: "cp1\<lparr>i_string := None\<rparr> = cp1" using cp by (simp add: cp1_def)
      have "built m (put_item b cp1 m4) b (set_cstring None head) [] None (b # strs cp1)"
        by (rule built_start)
          (use ext_trans [OF e3 s(3)] s(4) at3 val3 new(4) c1 q dom3 strs1 in auto)
      moreover have "plain (set_child [] (set_cstring None head))" using head(3) by (cases head) simp
      moreover have "length (b # strs cp1) < n" by (rule small) (cases q; simp add: strs1)
      ultimately obtain m5 where "cJSON_Delete n (Some b) (put_item b cp1 m4) = Some (Inr m5)" "ext m m5" "heap m5 = heap m"
        using built_undone [OF _ m] by blast
      then show ?thesis unfolding run1 using s(1,2) by (auto simp: Let_def cp1 duplicated_def)
    next
      case s: (copy r m4)
      define cp2 where "cp2 = cp1\<lparr>i_string := r\<rparr>"
      have e4: "ext m m4" using ext_trans [OF e3 s(3)] .
      have r: "b \<notin> set (opt_list r)" "set (opt_list q) \<inter> set (opt_list r) = {}" "set (opt_list r) \<inter> dom (heap m) = {}"
        using s(6) dom3 by auto
      have c2: "i_prev cp2 = None" "i_next cp2 = None" "i_child cp2 = None" using c1 by (simp_all add: cp2_def)
      have strs2: "strs cp2 = opt_list q @ opt_list r" using cp by (simp add: cp1_def cp2_def strs_def)
      have "text_in (heap m4) q (valuestring head)"
        using val3 ext_heap [OF ext_ok [OF e3] s(3)] by (auto simp: fields_def text_in_def cp1_def split: option.splits)
      then have val4: "fields (heap m4) cp2 head"
        using cp s(4) head(2) by (simp add: fields_def cp1_def cp2_def)
      have b4: "built m (put_item b cp2 m4) b head [] None (b # strs cp2)"
        by (rule built_start [OF e4 _ new(4) val4])
          (use c2 q r s(5) dom3 new(4) strs2 in auto)
      have run2: "Duplicate_mem (Suc n) (Some a) recurse m =
          (if \<not> recurse then Some (Inr (Some b, put_item b cp2 m4)) else duplicate_children n b (i_child it) None (put_item b cp2 m4))"
        unfolding run1 using s(1,2) by (auto simp: Let_def cp2_def)
      have len: "length (b # strs cp2) \<le> 3" by (cases q; cases r; simp add: strs2)
      have sc: "set_child [] head = head" using head(4) by (cases head) simp
      show ?thesis
      proof (cases recurse)
        case False
        have "duplicated m c recurse (Some b) (put_item b cp2 m4)"
        proof (rule built_duplicated [OF b4])
          show "set_child [] head = cJSON_Duplicate_item c recurse" using sc False by (simp add: head_def)
          show "length (b # strs cp2) \<le> weight c" using len by (cases c) simp
        qed
        then show ?thesis unfolding run2 using False by simp
      next
        case True
        have "length (b # strs cp2) + sum_list (map (\<lambda>c. weight c + 1) (child c)) < n"
          using n len by (cases c) simp
        then obtain r' m5 where l: "duplicate_children n b (i_child it) None (put_item b cp2 m4) = Some (Inr (r', m5))" "ext m m5"
          "case r' of None \<Rightarrow> heap m5 = heap m
           | Some b' \<Rightarrow> b' = b \<and> (\<exists>F' w. built m m5 b head (map (\<lambda>c. cJSON_Duplicate_item c True) (child c)) w F'
               \<and> length F' \<le> length (b # strs cp2) + sum_list (map weight (child c)))"
          using loop [OF b4 it(6)] head(3) sc by auto
        have whole: "set_child (map (\<lambda>c. cJSON_Duplicate_item c True) (child c)) head = cJSON_Duplicate_item c recurse"
          using True by (cases c) (simp add: head_def)
        have wt: "3 + sum_list (map weight (child c)) \<le> weight c"
          using sum_list_mono [of "child c" weight "\<lambda>c. weight c + 1"] by (cases c) simp
        have "duplicated m c recurse r' m5"
        proof (cases r')
          case None
          then show ?thesis using l(2,3) by (simp add: duplicated_def)
        next
          case (Some b')
          then obtain F' w where f: "b' = b" "built m m5 b head (map (\<lambda>c. cJSON_Duplicate_item c True) (child c)) w F'"
            "length F' \<le> length (b # strs cp2) + sum_list (map weight (child c))"
            using l(3) by auto
          show ?thesis unfolding Some f(1)
            by (rule built_duplicated [OF f(2) whole]) (use f(3) len wt in linarith)
        qed
        then show ?thesis unfolding run2 using True l(1) by simp
      qed
    qed
  qed
qed

lemma Duplicate_run:
  "(\<forall>m a c rest recurse. mem_ok m \<longrightarrow> views m (Some a) (c # rest) \<longrightarrow> own_names c \<longrightarrow> weight c \<le> n \<longrightarrow>
      (\<exists>r m'. Duplicate_mem n (Some a) recurse m = Some (Inr (r, m')) \<and> duplicated m c recurse r m'))
   \<and> (\<forall>m0 m new h dn nptr F cptr cs. mem_ok m0 \<longrightarrow> built m0 m new h dn nptr F \<longrightarrow> views m0 cptr cs \<longrightarrow>
        list_all own_names cs \<longrightarrow> plain (set_child dn h) \<longrightarrow> length F + sum_list (map (\<lambda>c. weight c + 1) cs) < n \<longrightarrow>
      (\<exists>r m'. duplicate_children n new cptr nptr m = Some (Inr (r, m')) \<and> ext m0 m'
        \<and> (case r of None \<Rightarrow> heap m' = heap m0
           | Some b \<Rightarrow> b = new \<and> (\<exists>F' w. built m0 m' new h (dn @ map (\<lambda>c. cJSON_Duplicate_item c True) cs) w F'
               \<and> length F' \<le> length F + sum_list (map weight cs)))))"
proof (induction n)
  case 0
  have "\<not> weight c \<le> 0" for c by (cases c) simp
  then show ?case by simp
next
  case (Suc n)
  note item = Suc.IH [THEN conjunct1, rule_format]
  note loop = Suc.IH [THEN conjunct2, rule_format]
  show ?case
  proof (rule conjI; intro allI impI)
    fix m a c rest recurse
    assume a: "mem_ok m" "views m (Some a) (c # rest)" "own_names c" "weight c \<le> Suc n"
    have kids: "list_all own_names (child c)" using a(3) by (cases c) simp
    show "\<exists>r m'. Duplicate_mem (Suc n) (Some a) recurse m = Some (Inr (r, m')) \<and> duplicated m c recurse r m'"
      by (rule duplicate_item_step [OF loop [OF a(1) _ _ kids, where dn = "[]" and nptr = None, unfolded append_Nil] a])
  next
    fix m0 m new h dn nptr F cptr and cs :: "cJSON list"
    assume a: "mem_ok m0" "built m0 m new h dn nptr F" "views m0 cptr cs" "list_all own_names cs" "plain (set_child dn h)"
      "length F + sum_list (map (\<lambda>c. weight c + 1) cs) < Suc n"
    show "\<exists>r m'. duplicate_children (Suc n) new cptr nptr m = Some (Inr (r, m')) \<and> ext m0 m'
        \<and> (case r of None \<Rightarrow> heap m' = heap m0
           | Some b \<Rightarrow> b = new \<and> (\<exists>F' w. built m0 m' new h (dn @ map (\<lambda>c. cJSON_Duplicate_item c True) cs) w F'
               \<and> length F' \<le> length F + sum_list (map weight cs)))"
    proof (cases cs)
      case Nil
      then show ?thesis using a(2,3) by (auto simp: built_def)
    next
      case (Cons c cs')
      show ?thesis unfolding Cons
        by (rule duplicate_children_step [OF item loop [OF a(1)] a(2,1) a(3) [unfolded Cons] _ a(5) a(6) [unfolded Cons]])
          (use a(4) Cons in simp_all)
    qed
  qed
qed

text \<open>C39: \<open>cJSON_Duplicate\<close> copies an item or does nothing: whichever of its allocations fail, it returns without
  touching memory that is not allocated, and either it returns NULL and all memory it took is released
  again, or it returns an item that is the duplicate of the tree, linked through \<open>next\<close> and \<open>prev\<close>, in new
  cells that nothing else uses. (For trees whose names are all their own.)\<close>

theorem duplicate_all_or_nothing:
  assumes "mem_ok m" "views m (Some a) (c # rest)" "own_names c" "weight c \<le> n"
  shows "\<exists>r m'. Duplicate_mem n (Some a) recurse m = Some (Inr (r, m')) \<and> (\<forall>b < brk m. heap m' b = heap m b)
    \<and> (case r of
         None \<Rightarrow> heap m' = heap m
       | Some b \<Rightarrow> \<exists>F. seg (heap m') None (Some b) [cJSON_Duplicate_item c recurse] (Some b) None F \<and> distinct F
           \<and> set F = dom (heap m') - dom (heap m))"
proof -
  obtain r m' where r: "Duplicate_mem n (Some a) recurse m = Some (Inr (r, m'))" "duplicated m c recurse r m'"
    using Duplicate_run assms by blast
  then show ?thesis by (cases r) (auto simp: duplicated_def ext_def simp del: seg.simps)
qed

text \<open>\<open>cJSON_Duplicate\<close> gives the copy of an item with a constant name a name of its own, but leaves the bit
  \<open>cJSON_StringIsConst\<close> set: when the copy is deleted, its name stays allocated for ever.\<close>

lemma duplicate_leaks_name:
  assumes "heap m a = Some (Item it)" "is_const (i_type it)" "i_string it = Some p" "text_at m p = Inr name"
    "i_valuestring it = None" "\<forall>b \<ge> brk m. heap m b = None" "\<forall>k. \<not> fails m k" "p < brk m"
  shows "\<exists>m' m''. Duplicate_mem 2 (Some a) False m = Some (Inr (Some (brk m), m'))
    \<and> cJSON_Delete 2 (Some (brk m)) m' = Some (Inr m'')
    \<and> heap m'' = (heap m)(Suc (brk m) \<mapsto> Text name)"
proof -
  let ?new = "brk m" and ?nm = "Suc (brk m)"
  define cp where "cp = (copy_values it)\<lparr>i_valuestring := None\<rparr>"
  have type: "i_type (cp\<lparr>i_string := x\<rparr>) = and (i_type it) (- 257)" "i_next (cp\<lparr>i_string := x\<rparr>) = None"
    "i_child (cp\<lparr>i_string := x\<rparr>) = None" "i_valuestring (cp\<lparr>i_string := x\<rparr>) = None" for x
    by (simp_all add: cp_def copy_values_def null_item_def)
  define m1 where "m1 = put_item ?new cp (m\<lparr>allocs := Suc (allocs m), heap := (heap m)(?new \<mapsto> Item null_item), brk := Suc ?new\<rparr>)"
  define m2 where "m2 = m1\<lparr>allocs := Suc (allocs m1), heap := (heap m1)(?nm \<mapsto> Text name), brk := Suc ?nm\<rparr>"
  define m3 where "m3 = put_item ?new (cp\<lparr>i_string := Some ?nm\<rparr>) m2"
  have a: "a \<noteq> ?new" using assms(1,6) by auto
  have "text_at m1 p = Inr name"
    using assms(4,8) text_at_cong [of m1 p m] by (simp add: m1_def put_item_def)
  then have d: "dup_string (i_string it) m1 = Inr (Some ?nm, m2)"
    using assms(3,7) by (simp add: dup_string_def cJSON_strdup_def alloc_def m2_def m1_def put_item_def)
  have "Duplicate_mem 2 (Some a) False m = Some (Inr (Some ?new, m3))"
    using assms(1,5,7) a d
    by (simp add: numeral_2_eq_2 cJSON_New_Item_mem_def alloc_def Let_def item_at_def dup_string_def [of None]
        cp_def [symmetric] m1_def [symmetric] m3_def)
  moreover have at: "item_at m3 ?new = Inr (cp\<lparr>i_string := Some ?nm\<rparr>)" by (simp add: m3_def put_item_def item_at_def)
  then have "cJSON_Delete 2 (Some ?new) m3 = Some (Inr (release {?new} m3))"
    using assms(2) by (simp add: numeral_2_eq_2 type free_opt_def free_cell_release m3_def put_item_def)
  moreover have "heap (release {?new} m3) = (heap m)(?nm \<mapsto> Text name)"
    using assms(6) by (auto simp: restrict_map_def m3_def m2_def m1_def put_item_def)
  ultimately show ?thesis by blast
qed

theorem duplicate_all_or_nothing_witness:
  "\<exists>r m'. Duplicate_mem 11 (Some 0) True sample_mem = Some (Inr (r, m')) \<and> (\<forall>b < 6. heap m' b = heap sample_mem b)
    \<and> (case r of
         None \<Rightarrow> heap m' = heap sample_mem
       | Some b \<Rightarrow> \<exists>F. seg (heap m') None (Some b)
             [CJSON cJSON_Array None 0 0 0 (DFin 0) None [CJSON cJSON_String (Some ''x'') 0 0 0 (DFin 0) None []]] (Some b) None F
           \<and> distinct F \<and> set F = dom (heap m') - {0, 1, 2, 3, 4})"
proof -
  let ?c = "CJSON cJSON_Array None 0 0 0 (DFin 0) None [CJSON cJSON_String (Some ''x'') 0 0 0 (DFin 0) None []]"
  have ok: "mem_ok sample_mem" by (auto simp: mem_ok_def sample_mem_def)
  have v: "views sample_mem (Some 0) (?c # [])"
    by (simp add: sample_mem_def null_item_def ptr_text_def text_at_def)
  have c: "own_names ?c" "weight ?c \<le> 11" by (simp_all add: is_const_def)
  have same: "cJSON_Duplicate_item ?c True = ?c" by simp
  have m: "brk sample_mem = 6" "dom (heap sample_mem) = {0, 1, 2, 3, 4}" by (auto simp: sample_mem_def)
  show ?thesis using duplicate_all_or_nothing [OF ok v c, of True] unfolding same m .
qed

end
