(* ===== verification/CJsonMemParse.thy ===== *)
theory CJsonMemParse imports CJsonMemDup CJsonParse begin

text \<open>
  The parser of \<open>json/cJSON.c\<close> on the heap: it builds the items as it reads, links each one before it is filled, and
  any of its allocations may fail. \<open>cJSON_ParseWithOpts\<close> then deletes the root. It is the parser of
  \<open>CJsonParse\<close>, or nothing.
\<close>

section \<open>The functions\<close>

text \<open>The results of \<open>CJsonParse\<close> with the memory. The item is populated in place, so only the end of the text
  read is returned.\<close>

datatype mresult = MFault fault | MFuel | MFail "string option" mem | MOk string mem

definition mbind :: "mresult \<Rightarrow> (string \<Rightarrow> mem \<Rightarrow> mresult) \<Rightarrow> mresult" where
  "mbind r f = (case r of MOk s m \<Rightarrow> f s m | MFail ep m \<Rightarrow> MFail ep m | MFault e \<Rightarrow> MFault e | MFuel \<Rightarrow> MFuel)"

lemma mbind_simps [simp]:
  "mbind (MOk s m) f = f s m" "mbind (MFail ep m) f = MFail ep m" "mbind (MFault e) f = MFault e" "mbind MFuel f = MFuel"
  by (simp_all add: mbind_def)

definition mfault :: "'a c \<Rightarrow> ('a \<Rightarrow> mresult) \<Rightarrow> mresult" where
  "mfault x f = (case x of Inl e \<Rightarrow> MFault e | Inr y \<Rightarrow> f y)"

lemma mfault_simps [simp]: "mfault (Inl e) f = MFault e" "mfault (Inr x) f = f x"
  by (simp_all add: mfault_def)

text \<open>A test of \<open>cJSON_malloc\<close>: NULL is a failure that leaves the error pointer alone.\<close>

definition mnew :: "nat option \<times> mem \<Rightarrow> (nat \<Rightarrow> mem \<Rightarrow> mresult) \<Rightarrow> mresult" where
  "mnew r f = (case r of (None, m) \<Rightarrow> MFail None m | (Some b, m) \<Rightarrow> f b m)"

lemma mnew_simps [simp]: "mnew (None, m) f = MFail None m" "mnew (Some b, m) f = f b m"
  by (simp_all add: mnew_def)

definition change_item :: "nat \<Rightarrow> (item \<Rightarrow> item) \<Rightarrow> mem \<Rightarrow> mem c" where
  "change_item a f m = bind_c (item_at m a) (\<lambda>it. Inr (put_item a (f it) m))"

definition parse_number_mem :: "nat \<Rightarrow> string \<Rightarrow> mem \<Rightarrow> mresult" where
  "parse_number_mem a num m =
     (let (sign, num) = number_sign num;
          (n, num) = number_integer num;
          (n, scale, num) = number_scale n num
      in mfault (number_exp num) (\<lambda>(exponent, num).
           let v = dmul (dmul sign n) (pow10 (scale + exponent))
           in mfault (int_of_double v) (\<lambda>k.
              mfault (change_item a (\<lambda>it. it\<lparr>i_vals := (case i_vals it of (u8, u16, _, _) \<Rightarrow> (u8, u16, k, v)),
                        i_type := cJSON_Number\<rparr>) m) (\<lambda>m. MOk num m))))"

text \<open>The characters are written to \<open>out\<close> one by one; here they are when the loop has ended. When it fails, what
  has been written is never read.\<close>

definition parse_string_mem :: "nat \<Rightarrow> string \<Rightarrow> mem \<Rightarrow> mresult" where
  "parse_string_mem a str m =
     (if peek str \<noteq> CHR 0x22 then MFail (Some str) m
      else mfault (scan_string (tl str) 0 0) (\<lambda>(len, off).
        mnew (alloc (Text []) m) (\<lambda>out m.
        mfault (change_item a (\<lambda>it. it\<lparr>i_valuestring := Some out, i_type := cJSON_String\<rparr>) m) (\<lambda>m.
          case decode_string str (tl str) off [] of
            PFault e \<Rightarrow> MFault e
          | PFuel \<Rightarrow> MFuel
          | PFail ep \<Rightarrow> MFail ep m
          | POk s ptr \<Rightarrow> MOk (if peek ptr = CHR 0x22 then tl ptr else ptr) (m\<lparr>heap := (heap m)(out \<mapsto> Text s)\<rparr>)))))"

text \<open>\<open>a\<close> is the item that is populated, \<open>l\<close> its last child.\<close>

function (sequential) parse_value_mem :: "nat \<Rightarrow> nat \<Rightarrow> string \<Rightarrow> mem \<Rightarrow> mresult"
  and parse_array_mem :: "nat \<Rightarrow> nat \<Rightarrow> string \<Rightarrow> mem \<Rightarrow> mresult"
  and array_loop_mem :: "nat \<Rightarrow> nat \<Rightarrow> nat \<Rightarrow> string \<Rightarrow> mem \<Rightarrow> mresult"
  and parse_object_mem :: "nat \<Rightarrow> nat \<Rightarrow> string \<Rightarrow> mem \<Rightarrow> mresult"
  and object_loop_mem :: "nat \<Rightarrow> nat \<Rightarrow> nat \<Rightarrow> string \<Rightarrow> mem \<Rightarrow> mresult"
  and parse_member_mem :: "nat \<Rightarrow> nat \<Rightarrow> string \<Rightarrow> mem \<Rightarrow> mresult" where
  "parse_value_mem 0 a value m = MFuel"
| "parse_value_mem (Suc n) a value m =
     (if take 4 value = ''null''
      then mfault (change_item a (i_type_update (\<lambda>_. cJSON_NULL)) m) (MOk (drop 4 value))
      else if take 5 value = ''false''
      then mfault (change_item a (i_type_update (\<lambda>_. cJSON_False)) m) (MOk (drop 5 value))
      else if take 4 value = ''true''
      then mfault (change_item a (\<lambda>it. it\<lparr>i_type := cJSON_True,
             i_vals := (case i_vals it of (u8, u16, _, d) \<Rightarrow> (u8, u16, 1, d))\<rparr>) m) (MOk (drop 4 value))
      else if peek value = CHR 0x22 then parse_string_mem a value m
      else if peek value = CHR ''-'' \<or> is_digit (peek value) then parse_number_mem a value m
      else if peek value = CHR ''['' then parse_array_mem n a value m
      else if peek value = CHR ''{'' then parse_object_mem n a value m
      else MFail (Some value) m)"
| "parse_array_mem 0 a value m = MFuel"
| "parse_array_mem (Suc n) a value m =
     (if peek value \<noteq> CHR ''['' then MFail (Some value) m
      else mfault (change_item a (i_type_update (\<lambda>_. cJSON_Array)) m) (\<lambda>m.
        let value = skip (tl value)
        in if peek value = CHR '']'' then MOk (tl value) m
           else mnew (cJSON_New_Item_mem m) (\<lambda>d m. mfault (link_child a None d m) (\<lambda>m.
                mbind (parse_value_mem n d (skip value) m) (\<lambda>rest. array_loop_mem n a d (skip rest))))))"
| "array_loop_mem 0 a l value m = MFuel"
| "array_loop_mem (Suc n) a l value m =
     (if peek value = CHR '',''
      then mnew (cJSON_New_Item_mem m) (\<lambda>d m. mfault (link_child a (Some l) d m) (\<lambda>m.
           mbind (parse_value_mem n d (skip (tl value)) m) (\<lambda>rest. array_loop_mem n a d (skip rest))))
      else if peek value = CHR '']'' then MOk (tl value) m
      else MFail (Some value) m)"
| "parse_object_mem 0 a value m = MFuel"
| "parse_object_mem (Suc n) a value m =
     (if peek value \<noteq> CHR ''{'' then MFail (Some value) m
      else mfault (change_item a (i_type_update (\<lambda>_. cJSON_Object)) m) (\<lambda>m.
        let value = skip (tl value)
        in if peek value = CHR ''}'' then MOk (tl value) m
           else mnew (cJSON_New_Item_mem m) (\<lambda>d m. mfault (link_child a None d m) (\<lambda>m.
                mbind (parse_member_mem n d (skip value) m) (object_loop_mem n a d)))))"
| "object_loop_mem 0 a l value m = MFuel"
| "object_loop_mem (Suc n) a l value m =
     (if peek value = CHR '',''
      then mnew (cJSON_New_Item_mem m) (\<lambda>d m. mfault (link_child a (Some l) d m) (\<lambda>m.
           mbind (parse_member_mem n d (skip (tl value)) m) (object_loop_mem n a d)))
      else if peek value = CHR ''}'' then MOk (tl value) m
      else MFail (Some value) m)"
| "parse_member_mem 0 d value m = MFuel"
| "parse_member_mem (Suc n) d value m =
     mbind (parse_string_mem d value m) (\<lambda>rest m.
     mfault (change_item d (\<lambda>it. it\<lparr>i_string := i_valuestring it, i_valuestring := None\<rparr>) m) (\<lambda>m.
       let value = skip rest
       in if peek value \<noteq> CHR '':'' then MFail (Some value) m
          else mbind (parse_value_mem n d (skip (tl value)) m) (\<lambda>rest. MOk (skip rest))))"
  by pat_completeness auto
termination
  by (relation "measure (case_sum (case_sum fst (case_sum fst fst)) (case_sum fst (case_sum fst fst)))") auto

text \<open>\<open>n\<close> bounds the recursion of \<open>cJSON_Delete\<close>. The parser starts with a bound that it does not reach.\<close>

definition cJSON_ParseWithOpts_mem ::
  "nat \<Rightarrow> string option \<Rightarrow> bool \<Rightarrow> bool \<Rightarrow> mem \<Rightarrow> (nat option \<times> string option \<times> mem) run" where
  "cJSON_ParseWithOpts_mem n value return_parse_end require_null_terminated m =
     (case cJSON_New_Item_mem m of
        (None, m) \<Rightarrow> Some (Inr (None, None, m))
      | (Some c, m) \<Rightarrow>
          (case (case value of
                   None \<Rightarrow> MFail None m
                 | Some text \<Rightarrow> parse_value_mem (parse_fuel text) c (skip text) m) of
             MFault e \<Rightarrow> Some (Inl e)
           | MFuel \<Rightarrow> None
           | MFail ep m \<Rightarrow> bind_r (cJSON_Delete n (Some c) m) (\<lambda>m. Some (Inr (None, ep, m)))
           | MOk end m \<Rightarrow>
               let end = (if require_null_terminated then skip end else end)
               in if require_null_terminated \<and> peek end \<noteq> NUL
                  then bind_r (cJSON_Delete n (Some c) m) (\<lambda>m. Some (Inr (None, Some end, m)))
                  else Some (Inr (Some c, if return_parse_end then Some end else None, m))))"

definition cJSON_Parse_mem :: "nat \<Rightarrow> string \<Rightarrow> mem \<Rightarrow> (nat option \<times> mem) run" where
  "cJSON_Parse_mem n value m =
     bind_r (cJSON_ParseWithOpts_mem n (Some value) False False m) (\<lambda>(c, ep, m). Some (Inr (c, m)))"

section \<open>An item under construction\<close>

text \<open>\<open>grows m0 F0 m\<close>: since \<open>m0\<close>, only cells of \<open>F0\<close> and new ones have changed.\<close>

definition grows :: "mem \<Rightarrow> nat set \<Rightarrow> mem \<Rightarrow> bool" where
  "grows m0 F0 m \<longleftrightarrow> mem_ok m0 \<and> F0 \<subseteq> dom (heap m0) \<and> mem_ok m \<and> brk m0 \<le> brk m \<and> literals m = literals m0
     \<and> fails m = fails m0 \<and> allocs m0 \<le> allocs m \<and> (\<forall>x < brk m0. x \<notin> F0 \<longrightarrow> heap m x = heap m0 x)"

text \<open>\<open>partial m0 F0 m v a q c chs w F\<close>: of the cells that were \<open>F0\<close> in \<open>m0\<close> and of new ones, \<open>F\<close> in all, the item \<open>a\<close>
  consists now; it stands between \<open>v\<close> and \<open>q\<close>, has the fields of \<open>c\<close> and the children \<open>chs\<close>, the last one at \<open>w\<close>.\<close>

definition partial :: "mem \<Rightarrow> nat set \<Rightarrow> mem \<Rightarrow> nat option \<Rightarrow> nat \<Rightarrow> nat option \<Rightarrow> cJSON \<Rightarrow> cJSON list \<Rightarrow> nat option \<Rightarrow>
    nat list \<Rightarrow> bool" where
  "partial m0 F0 m v a q c chs w F \<longleftrightarrow> grows m0 F0 m
     \<and> (\<exists>it Fk. heap m a = Some (Item it) \<and> i_prev it = v \<and> i_next it = q \<and> fields (heap m) it c
          \<and> seg (heap m) None (i_child it) chs w None Fk \<and> F = a # Fk @ strs it)
     \<and> distinct F \<and> set F = F0 \<union> (dom (heap m) - dom (heap m0)) \<and> \<not> is_ref (ctype c) \<and> \<not> is_const (ctype c)
     \<and> list_all plain chs"

lemma grows_refl: "mem_ok m \<Longrightarrow> F0 \<subseteq> dom (heap m) \<Longrightarrow> grows m F0 m"
  by (simp add: grows_def)

lemma grows_put:
  assumes "grows m0 F0 m" "x \<in> F0 \<union> (dom (heap m) - dom (heap m0))" "x \<in> dom (heap m)"
  shows "grows m0 F0 (m\<lparr>heap := (heap m)(x \<mapsto> y)\<rparr>)"
proof -
  have "brk m0 \<le> x \<or> x \<in> F0" using assms(1,2) by (force simp: grows_def)
  moreover have "x < brk m" using assms(1,3) mem_ok_dom by (auto simp: grows_def)
  ultimately show ?thesis using assms(1) by (auto simp: grows_def mem_ok_def)
qed

lemma grows_new:
  assumes "grows m0 F0 m" "b \<in> dom (heap m)" "b \<notin> dom (heap m0)"
  shows "brk m0 \<le> b"
proof (rule ccontr)
  assume "\<not> brk m0 \<le> b"
  moreover have "b \<notin> F0" using assms(1,3) by (auto simp: grows_def)
  ultimately have "heap m b = heap m0 b" using assms(1) by (simp add: grows_def)
  then show False using assms(2,3) by (simp add: domIff)
qed

lemma grows_keep: "grows m0 F0 m \<Longrightarrow> x \<in> dom (heap m0) \<Longrightarrow> x \<notin> F0 \<Longrightarrow> heap m x = heap m0 x"
  unfolding grows_def using mem_ok_dom by (metis domD)

text \<open>The work on a child, whose cells are \<open>F1\<close>, is work on the item.\<close>

lemma grows_trans:
  assumes 1: "grows m0 F0 m" and 2: "grows m F1 m'" and F1: "F1 \<subseteq> F0 \<union> (dom (heap m) - dom (heap m0))"
  shows "grows m0 F0 m'"
proof -
  have "heap m' x = heap m0 x" if x: "x < brk m0" "x \<notin> F0" for x
  proof -
    have "x \<notin> F1" using x F1 grows_new [OF 1] by fastforce
    then show ?thesis using 1 2 x by (simp add: grows_def)
  qed
  then show ?thesis using 1 2 by (simp add: grows_def)
qed

lemma grows_alloc:
  assumes "grows m0 F0 m"
  obtains (fail) m' where "alloc x m = (None, m')" "grows m0 F0 m'" "heap m' = heap m" "fails m0 (allocs m)" "allocs m' = Suc (allocs m)"
  | (new) b m' where "alloc x m = (Some b, m')" "grows m0 F0 m'" "heap m' = (heap m)(b \<mapsto> x)" "b \<notin> dom (heap m)" "b \<notin> dom (heap m0)"
proof (cases "fails m (allocs m)")
  case True
  show ?thesis
    by (rule fail [of "m\<lparr>allocs := Suc (allocs m)\<rparr>"])
      (use True assms in \<open>simp_all add: alloc_def grows_def mem_ok_def\<close>)
next
  case False
  show ?thesis
    by (rule new [of "brk m" "m\<lparr>allocs := allocs m + 1, heap := (heap m)(brk m \<mapsto> x), brk := brk m + 1\<rparr>"])
      (use False assms in \<open>auto simp: alloc_def grows_def mem_ok_def Let_def\<close>)
qed

lemma partial_dom: "partial m0 F0 m v a q c chs w F \<Longrightarrow> set F \<subseteq> dom (heap m)"
proof -
  assume "partial m0 F0 m v a q c chs w F"
  then obtain it Fk where it: "heap m a = Some (Item it)" "fields (heap m) it c" "seg (heap m) None (i_child it) chs w None Fk"
    "F = a # Fk @ strs it"
    by (auto simp: partial_def)
  have "set (strs it) \<subseteq> dom (heap m)" using it(2) by (auto simp: fields_def strs_def dest: text_in_dom)
  then show ?thesis using it(1,4) seg_dom [OF it(3)] by auto
qed

lemma partial_mono:
  assumes p: "partial m0 F0 m v a q c chs w F"
  shows "dom (heap m0) \<subseteq> dom (heap m)"
proof
  fix x assume x: "x \<in> dom (heap m0)"
  have "grows m0 F0 m" "F0 \<subseteq> set F" using p by (auto simp: partial_def)
  then show "x \<in> dom (heap m)" using grows_keep [of m0 F0 m x] x partial_dom [OF p] by (cases "x \<in> F0") auto
qed

lemma partial_frame:
  assumes p: "partial m0 F0 m v a q c chs w F" and g: "grows m0 F0 m'" and d: "dom (heap m') = dom (heap m)"
    and same: "\<And>x. x \<in> set F \<Longrightarrow> heap m' x = heap m x"
  shows "partial m0 F0 m' v a q c chs w F"
proof -
  obtain it Fk where it: "heap m a = Some (Item it)" "i_prev it = v" "i_next it = q" "fields (heap m) it c"
    "seg (heap m) None (i_child it) chs w None Fk" "F = a # Fk @ strs it"
    using p by (auto simp: partial_def)
  have "fields (heap m') it c" by (rule fields_frame [OF it(4)]) (use same it(6) in auto)
  moreover have "seg (heap m') None (i_child it) chs w None Fk" by (rule seg_frame [OF it(5)]) (use same it(6) in auto)
  moreover have "heap m' a = Some (Item it)" using same [of a] it(1,6) by simp
  ultimately show ?thesis using p g d it(2,3,6) by (auto simp: partial_def)
qed

text \<open>A change of fields that takes no cells of its own.\<close>

lemma partial_change:
  assumes p: "partial m0 F0 m v a q c chs w F"
    and f: "\<And>it h. i_prev (f it) = i_prev it \<and> i_next (f it) = i_next it \<and> i_child (f it) = i_child it"
      "\<And>it h. fields h it c \<Longrightarrow> fields h (f it) c'" "\<And>it h. fields h it c \<Longrightarrow> strs (f it) = strs it"
    and t: "\<not> is_ref (ctype c')" "\<not> is_const (ctype c')"
  obtains m' where "change_item a f m = Inr m'" "partial m0 F0 m' v a q c' chs w F" "allocs m' = allocs m"
proof -
  obtain it Fk where it: "heap m a = Some (Item it)" "i_prev it = v" "i_next it = q" "fields (heap m) it c"
    "seg (heap m) None (i_child it) chs w None Fk" "F = a # Fk @ strs it"
    using p by (auto simp: partial_def)
  let ?m = "put_item a (f it) m"
  have d: "distinct F" "set F = F0 \<union> (dom (heap m) - dom (heap m0))" using p by (auto simp: partial_def)
  have same: "heap ?m x = heap m x" if "x \<noteq> a" for x using that by (simp add: put_item_def)
  have "grows m0 F0 ?m"
    unfolding put_item_def by (rule grows_put) (use p it(1,6) d in \<open>auto simp: partial_def\<close>)
  moreover have "fields (heap ?m) it c" by (rule fields_frame [OF it(4)]) (use d it(6) in \<open>auto intro!: same\<close>)
  then have "fields (heap ?m) (f it) c'" by (rule f(2))
  moreover have "seg (heap ?m) None (i_child it) chs w None Fk"
    by (rule seg_frame [OF it(5)]) (use d it(6) in \<open>auto intro!: same\<close>)
  moreover have "heap ?m a = Some (Item (f it))" "dom (heap ?m) = dom (heap m)" using it(1) by (auto simp: put_item_def)
  moreover have "strs (f it) = strs it" by (rule f(3) [OF it(4)])
  ultimately have "partial m0 F0 ?m v a q c' chs w F"
    using p it(2,3,6) t f(1) [of it] by (auto simp: partial_def)
  moreover have "change_item a f m = Inr ?m" using it(1) by (simp add: change_item_def item_at_def)
  ultimately show ?thesis using that by (simp add: put_item_def)
qed

lemma fields_set_child [simp]: "fields h it (set_child xs c) = fields h it c"
  by (cases c) (simp add: fields_def)

text \<open>A new item becomes the last child.\<close>

lemma partial_link:
  assumes p: "partial m0 F0 m v a q c chs w F" and b: "grows m0 F0 m1" "heap m1 = (heap m)(b \<mapsto> Item null_item)"
    "b \<notin> dom (heap m)" "b \<notin> dom (heap m0)"
  obtains m2 F2 where "link_child a w b m1 = Inr m2" "partial m0 F0 m2 v a q c (chs @ [cJSON_New_Item]) (Some b) F2"
proof -
  obtain it Fk where it: "heap m a = Some (Item it)" "i_prev it = v" "i_next it = q" "fields (heap m) it c"
    "seg (heap m) None (i_child it) chs w None Fk" "F = a # Fk @ strs it" "distinct F"
    "set F = F0 \<union> (dom (heap m) - dom (heap m0))" "\<not> is_ref (ctype c)" "\<not> is_const (ctype c)" "list_all plain chs"
    using p by (auto simp: partial_def)
  have bF: "b \<notin> set F" using partial_dom [OF p] b(3) by auto
  have keep: "heap m1 x = heap m x" if "x \<noteq> b" for x using that b(2) by simp
  have ab: "a \<noteq> b" "heap m1 a = Some (Item it)" using it(1) b(2,3) by auto
  have val: "fields (heap m1) it c" by (rule fields_frame [OF it(4)]) (use bF it(6) in \<open>auto intro!: keep\<close>)
  have kids: "seg (heap m1) None (i_child it) chs w None Fk"
    by (rule seg_frame [OF it(5)]) (use bF it(6) in \<open>auto intro!: keep\<close>)
  have new: "fields h (null_item\<lparr>i_prev := u\<rparr>) cJSON_New_Item" "strs null_item = []" "fields h null_item cJSON_New_Item" for h u
    by (simp_all add: fields_def null_item_def cJSON_New_Item_def text_in_def strs_def)
  have one: "seg (heap m1) None (Some b) [cJSON_New_Item] (Some b) None [b]"
    using b(2) new by (simp add: null_item_def cJSON_New_Item_def)
  have dom: "dom (heap m1) = insert b (dom (heap m))" using b(2) by auto
  have plain: "plain cJSON_New_Item" by (simp add: cJSON_New_Item_def is_ref_def is_const_def)
  show ?thesis
  proof (cases w)
    case None
    then have k: "chs = []" "i_child it = None" "Fk = []" using kids seg_last [OF kids] by (cases chs; auto)+
    let ?m = "put_item a (it\<lparr>i_child := Some b\<rparr>) m1"
    have same: "heap ?m x = heap m1 x" if "x \<noteq> a" for x using that by (simp add: put_item_def)
    have "grows m0 F0 ?m"
      unfolding put_item_def by (rule grows_put [OF b(1)]) (use it(6,8) dom ab in auto)
    moreover have "fields (heap ?m) it c" by (rule fields_frame [OF val]) (use it(6,7) in \<open>auto intro!: same\<close>)
    moreover have "seg (heap ?m) None (Some b) [cJSON_New_Item] (Some b) None [b]"
      by (rule seg_frame [OF one]) (use ab(1) in \<open>auto intro!: same\<close>)
    moreover have "dom (heap ?m) = dom (heap m1)" using ab(2) by (auto simp: put_item_def)
    ultimately have "partial m0 F0 ?m v a q c (chs @ [cJSON_New_Item]) (Some b) (a # [b] @ strs it)"
      unfolding partial_def using it(2,3,6-11) k b(4) dom ab bF plain
      by (auto simp: put_item_def simp del: seg.simps(2) intro!: exI [of _ "it\<lparr>i_child := Some b\<rparr>"])
    moreover have "link_child a w b m1 = Inr ?m" using None ab(2) by (simp add: link_child_def item_at_def)
    ultimately show ?thesis using that by blast
  next
    case (Some l)
    then have ne: "chs \<noteq> []" using kids by auto
    then obtain prev where l: "l \<in> set Fk" "heap m1 l = Some (Item prev)" using seg_last [OF kids] Some by auto
    let ?m = "put_item b (null_item\<lparr>i_prev := Some l\<rparr>) (put_item l (prev\<lparr>i_next := Some b\<rparr>) m1)"
    have bl: "b \<noteq> l" "l \<noteq> a" using bF l(1) it(6,7) by auto
    have same: "heap ?m x = heap m1 x" if "x \<noteq> b" "x \<noteq> l" for x using that by (simp add: put_item_def)
    have g: "grows m0 F0 (put_item l (prev\<lparr>i_next := Some b\<rparr>) m1)"
      unfolding put_item_def by (rule grows_put [OF b(1)]) (use l it(6,8) dom in auto)
    have "grows m0 F0 ?m"
      unfolding put_item_def [of b] by (rule grows_put [OF g]) (use b(4) dom in \<open>auto simp: put_item_def\<close>)
    moreover have "fields (heap ?m) it c"
      by (rule fields_frame [OF val]) (use it(6,7) bF l(1) in \<open>auto intro!: same\<close>)
    moreover have "seg (heap ?m) None (i_child it) (chs @ [cJSON_New_Item]) (Some b) None (Fk @ [b])"
      using seg_link [OF kids [unfolded Some] ne _ l(2) one, of null_item] it(6,7) bF b(2)
      by (simp add: put_item_def)
    moreover have "heap ?m a = Some (Item it)" using same [of a] ab bl by auto
    moreover have "dom (heap ?m) = dom (heap m1)" using l(2) dom by (auto simp: put_item_def)
    ultimately have "partial m0 F0 ?m v a q c (chs @ [cJSON_New_Item]) (Some b) (a # (Fk @ [b]) @ strs it)"
      unfolding partial_def using it(2,3,6-11) b(4) dom bF plain by (auto simp del: seg.simps(2))
    moreover have "link_child a w b m1 = Inr ?m"
      using Some l(2) b(2) bl by (simp add: link_child_def item_at_def put_item_def)
    ultimately show ?thesis using that by blast
  qed
qed

text \<open>The item with all its children.\<close>

definition whole :: "mem \<Rightarrow> nat set \<Rightarrow> mem \<Rightarrow> nat option \<Rightarrow> nat \<Rightarrow> nat option \<Rightarrow> cJSON \<Rightarrow> bool" where
  "whole m0 F0 m v a q c \<longleftrightarrow> (\<exists>w F. partial m0 F0 m v a q c (child c) w F)"

lemma partial_whole: "partial m0 F0 m v a q c chs w F \<Longrightarrow> whole m0 F0 m v a q (set_child chs c)"
  unfolding whole_def by (intro exI [of _ w] exI [of _ F]) (simp add: partial_def)

lemma partial_seg:
  assumes "partial m0 F0 m v a q c (child c) w F"
  shows "seg (heap m) v (Some a) [c] (Some a) q F" "plain c"
  using assms by (auto simp: partial_def) (cases c; simp)

text \<open>The last child can be worked on by itself.\<close>

lemma partial_child:
  assumes p: "partial m0 F0 m v a q c (chs @ [c0]) (Some d) F" and c0: "child c0 = []"
  obtains u Fd where "partial m (set Fd) m u d None c0 [] None Fd"
    "\<And>m' c'. whole m (set Fd) m' u d None c' \<Longrightarrow> \<exists>F'. partial m0 F0 m' v a q c (chs @ [c']) (Some d) F'"
proof -
  obtain it Fk where it: "heap m a = Some (Item it)" "i_prev it = v" "i_next it = q" "fields (heap m) it c"
    "seg (heap m) None (i_child it) (chs @ [c0]) (Some d) None Fk" "F = a # Fk @ strs it" "distinct F"
    "set F = F0 \<union> (dom (heap m) - dom (heap m0))" "\<not> is_ref (ctype c)" "\<not> is_const (ctype c)" "list_all plain (chs @ [c0])"
    "grows m0 F0 m"
    using p by (auto simp: partial_def)
  obtain u r F1 Fd where s: "seg (heap m) None (i_child it) chs u r F1" "seg (heap m) u r [c0] (Some d) None Fd" "Fk = F1 @ Fd"
    using it(5) unfolding seg_append by blast
  obtain itd where d: "r = Some d" "heap m d = Some (Item itd)" "i_prev itd = u" "fields (heap m) itd c0" "i_child itd = None"
    "i_next itd = None" "Fd = d # strs itd"
    using s(2) c0 by auto
  have sub: "set Fd \<subseteq> set F" "distinct Fd" using it(6,7) s(3) by auto
  have ok: "mem_ok m" using it(12) by (simp add: grows_def)
  have plain0: "\<not> is_ref (ctype c0)" "\<not> is_const (ctype c0)" using it(11) by (cases c0; simp)+
  have start: "partial m (set Fd) m u d None c0 [] None Fd"
    unfolding partial_def using d(2-7) sub plain0 grows_refl [OF ok, of "set Fd"] partial_dom [OF p] by auto
  have "\<exists>F'. partial m0 F0 m' v a q c (chs @ [c']) (Some d) F'" if whole: "whole m (set Fd) m' u d None c'" for m' c'
  proof -
    obtain w Fd' where w: "partial m (set Fd) m' u d None c' (child c') w Fd'" using whole by (auto simp: whole_def)
    have seg: "seg (heap m') u (Some d) [c'] (Some d) None Fd'" and pl: "plain c'" using partial_seg [OF w] .
    have g: "grows m (set Fd) m'" "distinct Fd'" "set Fd' = set Fd \<union> (dom (heap m') - dom (heap m))"
      using w by (simp_all add: partial_def)
    have keep: "heap m' x = heap m x" if "x \<in> set F" "x \<notin> set Fd" for x
      using grows_keep [OF g(1)] that partial_dom [OF p] by blast
    have out: "set F1 \<inter> set Fd = {}" "a \<notin> set Fd" "set (strs it) \<inter> set Fd = {}" "a \<notin> set F1" "distinct F1" "distinct (strs it)"
      "a \<notin> set (strs it)" "set F1 \<inter> set (strs it) = {}"
      using it(6,7) s(3) by auto
    have in_F: "set F1 \<subseteq> set F" "a \<in> set F" "set (strs it) \<subseteq> set F" using it(6) s(3) by auto
    have "seg (heap m') None (i_child it) chs u (Some d) F1"
      by (rule seg_frame [OF s(1) [unfolded d(1)]]) (use keep in_F(1) out(1) in blast)
    then have kids: "seg (heap m') None (i_child it) (chs @ [c']) (Some d) None (F1 @ Fd')"
      using seg unfolding seg_append by blast
    have val: "fields (heap m') it c" by (rule fields_frame [OF it(4)]) (use keep in_F(3) out(3) in blast)
    have at: "heap m' a = Some (Item it)" using keep [OF in_F(2) out(2)] it(1) by simp
    have gr: "grows m0 F0 m'" by (rule grows_trans [OF it(12) g(1)]) (use sub(1) it(8) in simp)
    have new: "set Fd' \<inter> set F = set Fd" using g(3) sub(1) partial_dom [OF p] by auto
    have "dom (heap m0) \<subseteq> dom (heap m)" "dom (heap m) \<subseteq> dom (heap m')"
      using partial_mono [OF p] partial_mono [OF w] .
    moreover have "set (a # (F1 @ Fd') @ strs it) = set F \<union> set Fd'" using it(6) s(3) sub(1) g(3) by auto
    moreover have "set Fd \<subseteq> dom (heap m')" using partial_dom [OF w] g(3) by blast
    ultimately have "set (a # (F1 @ Fd') @ strs it) = F0 \<union> (dom (heap m') - dom (heap m0))"
      using it(8) g(3) sub(1) by auto
    moreover have "distinct (a # (F1 @ Fd') @ strs it)" using out g(2) new in_F by auto
    ultimately have "partial m0 F0 m' v a q c (chs @ [c']) (Some d) (a # (F1 @ Fd') @ strs it)"
      unfolding partial_def using gr at it(2,3,9-11) val kids pl by (auto simp del: seg.simps(2))
    then show ?thesis by blast
  qed
  with start that show ?thesis by blast
qed

section \<open>What the functions return\<close>

text \<open>\<open>outcome m0 F0 v a q r res\<close>: the result \<open>res\<close> on the heap is the result \<open>r\<close> of the parser of trees, or a failure
  after an allocation has returned NULL. Either way the item stands where it stood.\<close>

definition outcome :: "mem \<Rightarrow> nat set \<Rightarrow> nat option \<Rightarrow> nat \<Rightarrow> nat option \<Rightarrow> cJSON presult \<Rightarrow> mresult \<Rightarrow> bool" where
  "outcome m0 F0 v a q r res \<longleftrightarrow>
     (case res of
        MFault e \<Rightarrow> r = PFault e
      | MFuel \<Rightarrow> r = PFuel
      | MFail ep m \<Rightarrow> (\<exists>c. whole m0 F0 m v a q c)
          \<and> (r = PFail ep \<or> ep = None \<and> (\<exists>k. allocs m0 \<le> k \<and> k < allocs m \<and> fails m0 k))
      | MOk s m \<Rightarrow> \<exists>c. r = POk c s \<and> whole m0 F0 m v a q c)"

lemma outcome_simps [simp]:
  "outcome m0 F0 v a q r (MFault e) \<longleftrightarrow> r = PFault e"
  "outcome m0 F0 v a q r MFuel \<longleftrightarrow> r = PFuel"
  "outcome m0 F0 v a q r (MOk s m) \<longleftrightarrow> (\<exists>c. r = POk c s \<and> whole m0 F0 m v a q c)"
  by (simp_all add: outcome_def)

lemma outcome_ok: "partial m0 F0 m v a q c chs w F \<Longrightarrow> outcome m0 F0 v a q (POk (set_child chs c) s) (MOk s m)"
  by (auto dest: partial_whole)

lemma outcome_fail: "partial m0 F0 m v a q c chs w F \<Longrightarrow> outcome m0 F0 v a q (PFail ep) (MFail ep m)"
  by (auto simp: outcome_def dest: partial_whole)

lemma outcome_new:
  assumes p: "partial m0 F0 m v a q c chs w F"
    and rest: "\<And>d m' F'. partial m0 F0 m' v a q c (chs @ [cJSON_New_Item]) (Some d) F' \<Longrightarrow> outcome m0 F0 v a q r (g d m')"
  shows "outcome m0 F0 v a q r (mnew (cJSON_New_Item_mem m) (\<lambda>d m. mfault (link_child a w d m) (g d)))"
proof -
  have gr: "grows m0 F0 m" using p by (simp add: partial_def)
  show ?thesis
    using gr
  proof (cases rule: grows_alloc [where x = "Item null_item"])
    case (fail m')
    have "partial m0 F0 m' v a q c chs w F" by (rule partial_frame [OF p fail(2)]) (simp_all add: fail(3))
    moreover have "allocs m0 \<le> allocs m" using gr by (simp add: grows_def)
    ultimately show ?thesis
      using fail(1,4,5) by (auto simp: outcome_def cJSON_New_Item_mem_def dest: partial_whole)
  next
    case (new b m1)
    obtain m2 F2 where "link_child a w b m1 = Inr m2" "partial m0 F0 m2 v a q c (chs @ [cJSON_New_Item]) (Some b) F2"
      by (rule partial_link [OF p new(2-5)])
    then show ?thesis using new(1) rest by (simp add: cJSON_New_Item_mem_def)
  qed
qed

lemma outcome_child:
  assumes p: "partial m0 F0 m v a q c (chs @ [c0]) (Some d) F" and c0: "child c0 = []"
    and sub: "\<And>u Fd. partial m (set Fd) m u d None c0 [] None Fd \<Longrightarrow> outcome m (set Fd) u d None r res"
    and rest: "\<And>c' s m' F'. r = POk c' s \<Longrightarrow> partial m0 F0 m' v a q c (chs @ [c']) (Some d) F' \<Longrightarrow>
      outcome m0 F0 v a q (f c' s) (g s m')"
  shows "outcome m0 F0 v a q (pbind r f) (mbind res g)"
proof -
  obtain u Fd where u: "partial m (set Fd) m u d None c0 [] None Fd"
    "\<And>m' c'. whole m (set Fd) m' u d None c' \<Longrightarrow> \<exists>F'. partial m0 F0 m' v a q c (chs @ [c']) (Some d) F'"
    by (rule partial_child [OF p c0]) (rule that)
  have o: "outcome m (set Fd) u d None r res" using u(1) by (rule sub)
  show ?thesis
  proof (cases res)
    case (MFail ep m')
    then obtain c' where "whole m (set Fd) m' u d None c'" using o by (auto simp: outcome_def)
    then obtain F' where c': "partial m0 F0 m' v a q c (chs @ [c']) (Some d) F'" using u(2) by blast
    have "allocs m0 \<le> allocs m" "fails m = fails m0" using p by (simp_all add: partial_def grows_def)
    moreover have "r = PFail ep \<or> ep = None \<and> (\<exists>k. allocs m \<le> k \<and> k < allocs m' \<and> fails m k)"
      using o MFail by (simp add: outcome_def)
    ultimately show ?thesis using MFail partial_whole [OF c'] by (auto simp: outcome_def intro: order_trans)
  next
    case (MOk s m')
    then obtain c' where c': "r = POk c' s" "whole m (set Fd) m' u d None c'" using o by auto
    then obtain F' where "partial m0 F0 m' v a q c (chs @ [c']) (Some d) F'" using u(2) by blast
    then show ?thesis using MOk rest c'(1) by simp
  qed (use o in simp_all)
qed

section \<open>Numbers and strings\<close>

text \<open>An item that is to be filled: no children yet, and no value.\<close>

abbreviation empty_item :: "mem \<Rightarrow> nat set \<Rightarrow> mem \<Rightarrow> nat option \<Rightarrow> nat \<Rightarrow> nat option \<Rightarrow> cJSON \<Rightarrow> nat list \<Rightarrow> bool" where
  "empty_item m0 F0 m v a q c F \<equiv> partial m0 F0 m v a q c [] None F"

lemma plain_types [simp]:
  "\<not> is_ref cJSON_NULL" "\<not> is_ref cJSON_False" "\<not> is_ref cJSON_True" "\<not> is_ref cJSON_Number" "\<not> is_ref cJSON_String"
  "\<not> is_ref cJSON_Array" "\<not> is_ref cJSON_Object" "\<not> is_const cJSON_NULL" "\<not> is_const cJSON_False" "\<not> is_const cJSON_True"
  "\<not> is_const cJSON_Number" "\<not> is_const cJSON_String" "\<not> is_const cJSON_Array" "\<not> is_const cJSON_Object"
  by (simp_all add: is_ref_def is_const_def)

lemma outcome_set:
  assumes p: "partial m0 F0 m v a q c chs w F"
    and f: "\<And>it h. i_prev (f it) = i_prev it \<and> i_next (f it) = i_next it \<and> i_child (f it) = i_child it"
      "\<And>it h. fields h it c \<Longrightarrow> fields h (f it) c'" "\<And>it h. fields h it c \<Longrightarrow> strs (f it) = strs it"
    and t: "\<not> is_ref (ctype c')" "\<not> is_const (ctype c')"
    and rest: "\<And>m'. partial m0 F0 m' v a q c' chs w F \<Longrightarrow> outcome m0 F0 v a q r (g m')"
  shows "outcome m0 F0 v a q r (mfault (change_item a f m) g)"
proof -
  obtain m' where "change_item a f m = Inr m'" "partial m0 F0 m' v a q c' chs w F"
    by (rule partial_change [OF p f t])
  then show ?thesis using rest by simp
qed

lemma fields_type: "fields h it c \<Longrightarrow> fields h (i_type_update (\<lambda>_. t) it) (set_ctype t c)"
  by (cases c) (simp add: fields_def)

lemma parse_number_outcome:
  assumes p: "empty_item m0 F0 m v a q c F" and c: "child c = []"
  shows "outcome m0 F0 v a q (parse_number c num) (parse_number_mem a num m)"
proof -
  obtain sign n1 where 1: "number_sign num = (sign, n1)" by (cases "number_sign num")
  obtain n n2 where 2: "number_integer n1 = (n, n2)" by (cases "number_integer n1")
  obtain n' scale n3 where 3: "number_scale n n2 = (n', scale, n3)" by (cases "number_scale n n2")
  show ?thesis
  proof (cases "number_exp n3")
    case (Inl e)
    then show ?thesis by (simp add: parse_number_def parse_number_mem_def 1 2 3)
  next
    case (Inr x)
    obtain exponent n4 where x: "x = (exponent, n4)" by (cases x)
    define val where "val = dmul (dmul sign n') (pow10 (scale + exponent))"
    show ?thesis
    proof (cases "int_of_double val")
      case (Inl e)
      then show ?thesis using Inr by (simp add: parse_number_def parse_number_mem_def 1 2 3 x val_def Let_def)
    next
      case k: (Inr k)
      let ?c = "set_ctype cJSON_Number (set_valueint k (set_valuedouble val c))"
      have sc: "set_child [] ?c = ?c" using c by (cases c) simp
      have "outcome m0 F0 v a q (POk ?c n4)
        (mfault (change_item a (\<lambda>it. it\<lparr>i_vals := (case i_vals it of (u8, u16, _, _) \<Rightarrow> (u8, u16, k, val)),
           i_type := cJSON_Number\<rparr>) m) (\<lambda>m. MOk n4 m))"
        by (rule outcome_set [OF p, where c' = ?c])
          (use outcome_ok [where c = ?c] sc in \<open>auto simp: fields_def strs_def, (cases c, simp)+\<close>)
      then show ?thesis using Inr k by (simp add: parse_number_def parse_number_mem_def 1 2 3 x val_def [symmetric] Let_def)
    qed
  qed
qed

text \<open>The value of an item gets a new cell, whatever is written to it.\<close>

lemma partial_text:
  assumes p: "partial m0 F0 m v a q c chs w F" and c: "valuestring c = None"
    and b: "grows m0 F0 m1" "heap m1 = (heap m)(b \<mapsto> Text [])" "b \<notin> dom (heap m)" "b \<notin> dom (heap m0)"
    and t: "\<not> is_ref t" "\<not> is_const t"
  obtains m2 F2 where "change_item a (\<lambda>it. it\<lparr>i_valuestring := Some b, i_type := t\<rparr>) m1 = Inr m2"
    "\<And>s. partial m0 F0 (m2\<lparr>heap := (heap m2)(b \<mapsto> Text s)\<rparr>) v a q (set_valuestring (Some s) (set_ctype t c)) chs w F2"
    "m2\<lparr>heap := (heap m2)(b \<mapsto> Text [])\<rparr> = m2"
proof -
  obtain it Fk where it: "heap m a = Some (Item it)" "i_prev it = v" "i_next it = q" "fields (heap m) it c"
    "seg (heap m) None (i_child it) chs w None Fk" "F = a # Fk @ strs it" "distinct F"
    "set F = F0 \<union> (dom (heap m) - dom (heap m0))" "list_all plain chs"
    using p by (auto simp: partial_def)
  define it' where "it' = it\<lparr>i_valuestring := Some b, i_type := t\<rparr>"
  define m2 where "m2 = put_item a it' m1"
  have bF: "b \<notin> set F" using partial_dom [OF p] b(3) by auto
  have strs: "strs it = opt_list (i_string it)" "strs it' = b # strs it"
    using it(4) c by (auto simp: fields_def text_in_def strs_def it'_def split: option.splits)
  have ab: "a \<noteq> b" "heap m1 a = Some (Item it)" using it(1) b(2,3) by auto
  have "partial m0 F0 (m2\<lparr>heap := (heap m2)(b \<mapsto> Text s)\<rparr>) v a q (set_valuestring (Some s) (set_ctype t c)) chs w (a # Fk @ strs it')"
    (is "partial _ _ ?m _ _ _ ?c _ _ _") for s
  proof -
    have dom: "dom (heap m1) = insert b (dom (heap m))" "dom (heap m2) = dom (heap m1)"
      using b(2) ab(2) by (auto simp: m2_def put_item_def)
    have "grows m0 F0 m2"
      unfolding m2_def put_item_def by (rule grows_put [OF b(1)]) (use it(6,8) dom ab in auto)
    then have "grows m0 F0 ?m" by (rule grows_put) (use b(4) dom in auto)
    moreover have keep: "heap ?m x = heap m x" if "x \<in> set F" "x \<noteq> a" for x
      using that bF b(2) by (auto simp: m2_def put_item_def)
    have "seg (heap ?m) None (i_child it) chs w None Fk" by (rule seg_frame [OF it(5)], rule keep) (use it(6,7) in auto)
    then have "seg (heap ?m) None (i_child it') chs w None Fk" by (simp add: it'_def)
    moreover have "text_in (heap m) (i_string it) (cstring c)" using it(4) by (simp add: fields_def)
    then have "text_in (heap ?m) (i_string it) (cstring c)"
      by (rule text_in_frame, intro keep) (use it(6,7) strs(1) in auto)
    then have "fields (heap ?m) it' ?c"
      using it(4) by (cases c) (simp add: fields_def it'_def text_in_def)
    moreover have "heap ?m a = Some (Item it')" using ab by (simp add: m2_def put_item_def)
    moreover have "ctype ?c = t" by (cases c) simp
    moreover have "dom (heap ?m) = insert b (dom (heap m))" using dom by auto
    ultimately show ?thesis
      unfolding partial_def using it(2,3,6-9) strs(2) t b(4) bF by (auto simp: it'_def)
  qed
  moreover have "change_item a (\<lambda>it. it\<lparr>i_valuestring := Some b, i_type := t\<rparr>) m1 = Inr m2"
    using ab(2) by (simp add: change_item_def item_at_def m2_def it'_def)
  moreover have "m2\<lparr>heap := (heap m2)(b \<mapsto> Text [])\<rparr> = m2"
    using ab(1) b(2) by (simp add: m2_def put_item_def fun_upd_twist)
  ultimately show ?thesis using that by blast
qed

lemma parse_string_outcome:
  assumes p: "empty_item m0 F0 m v a q c F" and c: "child c = []" "valuestring c = None"
  shows "outcome m0 F0 v a q (parse_string c str) (parse_string_mem a str m)"
proof (cases "peek str = CHR 0x22")
  case False
  then show ?thesis using outcome_fail [OF p] by (simp add: parse_string_def parse_string_mem_def)
next
  case quote: True
  have gr: "grows m0 F0 m" using p by (simp add: partial_def)
  show ?thesis
  proof (cases "scan_string (tl str) 0 0")
    case (Inl e)
    then show ?thesis using quote by (simp add: parse_string_def parse_string_mem_def)
  next
    case (Inr x)
    obtain len off where x: "x = (len, off)" by (cases x)
    show ?thesis using gr
    proof (cases rule: grows_alloc [where x = "Text []"])
      case (fail m')
      have "partial m0 F0 m' v a q c [] None F" by (rule partial_frame [OF p fail(2)]) (simp_all add: fail(3))
      moreover have "allocs m0 \<le> allocs m" using gr by (simp add: grows_def)
      ultimately show ?thesis
        using fail(1,4,5) quote Inr x by (auto simp: outcome_def parse_string_mem_def dest: partial_whole)
    next
      case (new b m1)
      obtain m2 F2 where m2: "change_item a (\<lambda>it. it\<lparr>i_valuestring := Some b, i_type := cJSON_String\<rparr>) m1 = Inr m2"
        "\<And>s. partial m0 F0 (m2\<lparr>heap := (heap m2)(b \<mapsto> Text s)\<rparr>) v a q (set_valuestring (Some s) (set_ctype cJSON_String c)) [] None F2"
        "m2\<lparr>heap := (heap m2)(b \<mapsto> Text [])\<rparr> = m2"
        by (rule partial_text [OF p c(2) new(2-5) plain_types(5,12)]) (rule that)
      have sc: "set_child [] (set_valuestring s (set_ctype t c)) = set_valuestring s (set_ctype t c)" for s t
        using c(1) by (cases c) simp
      have fail: "outcome m0 F0 v a q (PFail ep) (MFail ep m2)" for ep
        using outcome_fail [OF m2(2) [of "[]"]] by (simp add: m2(3))
      show ?thesis
        using quote Inr x new(1) m2(1) outcome_ok [OF m2(2)] fail
        by (auto simp: parse_string_def parse_string_mem_def sc split: presult.split)
    qed
  qed
qed

section \<open>Values, arrays and objects\<close>

lemma outcome_if:
  "(b \<Longrightarrow> outcome m0 F0 v a q r res) \<Longrightarrow> (\<not> b \<Longrightarrow> outcome m0 F0 v a q r' res') \<Longrightarrow>
   outcome m0 F0 v a q (if b then r else r') (if b then res else res')"
  by simp

lemma outcome_bind:
  assumes "outcome m0 F0 v a q r res"
    and "\<And>c s m. r = POk c s \<Longrightarrow> whole m0 F0 m v a q c \<Longrightarrow> outcome m0 F0 v a q (f c s) (g s m)"
  shows "outcome m0 F0 v a q (pbind r f) (mbind res g)"
proof (cases res)
  case (MOk s m)
  then obtain c where "r = POk c s" "whole m0 F0 m v a q c" using assms(1) by auto
  then show ?thesis using MOk assms(2) by simp
qed (use assms(1) in \<open>auto simp: outcome_def\<close>)

lemma whole_empty: "whole m0 F0 m v a q c \<Longrightarrow> child c = [] \<Longrightarrow> \<exists>F. empty_item m0 F0 m v a q c F"
  by (auto simp: whole_def partial_def)

definition outcomes :: "nat \<Rightarrow> bool" where
  "outcomes n \<longleftrightarrow>
     (\<forall>m0 F0 m v a q c F s. empty_item m0 F0 m v a q c F \<longrightarrow> child c = [] \<longrightarrow> valuestring c = None \<longrightarrow>
        outcome m0 F0 v a q (parse_value n c s) (parse_value_mem n a s m)
        \<and> outcome m0 F0 v a q (parse_array n c s) (parse_array_mem n a s m)
        \<and> outcome m0 F0 v a q (parse_object n c s) (parse_object_mem n a s m))
     \<and> (\<forall>m0 F0 m v a q c chs l F s. partial m0 F0 m v a q c chs (Some l) F \<longrightarrow>
        outcome m0 F0 v a q (array_loop n c chs s) (array_loop_mem n a l s m)
        \<and> outcome m0 F0 v a q (object_loop n c chs s) (object_loop_mem n a l s m))
     \<and> (\<forall>m0 F0 m v a q F s. empty_item m0 F0 m v a q cJSON_New_Item F \<longrightarrow>
        outcome m0 F0 v a q (parse_member n s) (parse_member_mem n a s m))"

lemma outcomesD:
  assumes "outcomes n"
  shows "empty_item m0 F0 m v a q c F \<Longrightarrow> child c = [] \<Longrightarrow> valuestring c = None \<Longrightarrow>
      outcome m0 F0 v a q (parse_value n c s) (parse_value_mem n a s m)"
    "empty_item m0 F0 m v a q c F \<Longrightarrow> child c = [] \<Longrightarrow> valuestring c = None \<Longrightarrow>
      outcome m0 F0 v a q (parse_array n c s) (parse_array_mem n a s m)"
    "empty_item m0 F0 m v a q c F \<Longrightarrow> child c = [] \<Longrightarrow> valuestring c = None \<Longrightarrow>
      outcome m0 F0 v a q (parse_object n c s) (parse_object_mem n a s m)"
    "partial m0 F0 m v a q c chs (Some l) F \<Longrightarrow>
      outcome m0 F0 v a q (array_loop n c chs s) (array_loop_mem n a l s m)"
    "partial m0 F0 m v a q c chs (Some l) F \<Longrightarrow>
      outcome m0 F0 v a q (object_loop n c chs s) (object_loop_mem n a l s m)"
    "empty_item m0 F0 m v a q cJSON_New_Item F \<Longrightarrow>
      outcome m0 F0 v a q (parse_member n s) (parse_member_mem n a s m)"
proof -
  note item = assms [unfolded outcomes_def, THEN conjunct1, rule_format]
    and loop = assms [unfolded outcomes_def, THEN conjunct2, THEN conjunct1, rule_format]
    and member = assms [unfolded outcomes_def, THEN conjunct2, THEN conjunct2, rule_format]
  show "empty_item m0 F0 m v a q c F \<Longrightarrow> child c = [] \<Longrightarrow> valuestring c = None \<Longrightarrow>
      outcome m0 F0 v a q (parse_value n c s) (parse_value_mem n a s m)"
    "empty_item m0 F0 m v a q c F \<Longrightarrow> child c = [] \<Longrightarrow> valuestring c = None \<Longrightarrow>
      outcome m0 F0 v a q (parse_array n c s) (parse_array_mem n a s m)"
    "empty_item m0 F0 m v a q c F \<Longrightarrow> child c = [] \<Longrightarrow> valuestring c = None \<Longrightarrow>
      outcome m0 F0 v a q (parse_object n c s) (parse_object_mem n a s m)"
    using item by blast+
  show "partial m0 F0 m v a q c chs (Some l) F \<Longrightarrow>
      outcome m0 F0 v a q (array_loop n c chs s) (array_loop_mem n a l s m)"
    "partial m0 F0 m v a q c chs (Some l) F \<Longrightarrow>
      outcome m0 F0 v a q (object_loop n c chs s) (object_loop_mem n a l s m)"
    using loop by blast+
  show "empty_item m0 F0 m v a q cJSON_New_Item F \<Longrightarrow>
      outcome m0 F0 v a q (parse_member n s) (parse_member_mem n a s m)"
    by (rule member)
qed

lemma new_item_empty [simp]: "child cJSON_New_Item = []" "valuestring cJSON_New_Item = None" "cstring cJSON_New_Item = None"
  by (simp_all add: cJSON_New_Item_def)

lemma value_outcome:
  assumes IH: "outcomes n" and p: "empty_item m0 F0 m v a q c F" and c: "child c = []" "valuestring c = None"
  shows "outcome m0 F0 v a q (parse_value (Suc n) c s) (parse_value_mem (Suc n) a s m)"
proof -
  have set: "outcome m0 F0 v a q (POk (set_ctype t c) r) (mfault (change_item a (i_type_update (\<lambda>_. t)) m) (MOk r))"
    if "\<not> is_ref t" "\<not> is_const t" for t r
  proof (rule outcome_set [OF p])
    fix m' assume "partial m0 F0 m' v a q (set_ctype t c) [] None F"
    then show "outcome m0 F0 v a q (POk (set_ctype t c) r) (MOk r m')"
      using outcome_ok [where c = "set_ctype t c" and chs = "[]"] c(1) by (cases c) fastforce
  qed (use that in \<open>simp_all add: fields_type strs_def\<close>)
  let ?c = "set_valueint 1 (set_ctype cJSON_True c)"
  have ty: "ctype ?c = cJSON_True" by (cases c) simp
  have true: "outcome m0 F0 v a q (POk ?c r)
      (mfault (change_item a (\<lambda>it. it\<lparr>i_type := cJSON_True,
         i_vals := (case i_vals it of (u8, u16, _, d) \<Rightarrow> (u8, u16, 1, d))\<rparr>) m) (MOk r))" for r
  proof (rule outcome_set [OF p])
    fix m' assume "partial m0 F0 m' v a q ?c [] None F"
    then show "outcome m0 F0 v a q (POk ?c r) (MOk r m')"
      using outcome_ok [where c = ?c and chs = "[]"] c(1) by (cases c) fastforce
  next
    fix it h assume "fields h it c"
    then show "fields h (it\<lparr>i_type := cJSON_True, i_vals := (case i_vals it of (u8, u16, _, d) \<Rightarrow> (u8, u16, 1, d))\<rparr>) ?c"
      by (cases c) (simp add: fields_def)
  qed (simp_all add: ty strs_def)
  show ?thesis
    unfolding parse_value.simps parse_value_mem.simps
    by (intro outcome_if set true parse_string_outcome [OF p c] parse_number_outcome [OF p c(1)]
        outcomesD(2,3) [OF IH p c] outcome_fail [OF p] plain_types)
qed

text \<open>An element of an array or a member of an object, and the rest.\<close>

lemma elem_outcome:
  assumes IH: "outcomes n" and p: "partial m0 F0 m v a q c chs w F"
  shows "outcome m0 F0 v a q (pbind (parse_value n cJSON_New_Item s) (\<lambda>ch rest. array_loop n c (chs @ [ch]) (skip rest)))
     (mnew (cJSON_New_Item_mem m) (\<lambda>d m. mfault (link_child a w d m) (\<lambda>m.
        mbind (parse_value_mem n d s m) (\<lambda>rest. array_loop_mem n a d (skip rest)))))"
proof (rule outcome_new [OF p])
  fix d m' F' assume p: "partial m0 F0 m' v a q c (chs @ [cJSON_New_Item]) (Some d) F'"
  show "outcome m0 F0 v a q (pbind (parse_value n cJSON_New_Item s) (\<lambda>ch rest. array_loop n c (chs @ [ch]) (skip rest)))
     (mbind (parse_value_mem n d s m') (\<lambda>rest. array_loop_mem n a d (skip rest)))"
    by (rule outcome_child [OF p]) (simp_all add: outcomesD(1,4) [OF IH])
qed

lemma member_outcome:
  assumes IH: "outcomes n" and p: "partial m0 F0 m v a q c chs w F"
  shows "outcome m0 F0 v a q (pbind (parse_member n s) (\<lambda>ch rest. object_loop n c (chs @ [ch]) rest))
     (mnew (cJSON_New_Item_mem m) (\<lambda>d m. mfault (link_child a w d m) (\<lambda>m.
        mbind (parse_member_mem n d s m) (object_loop_mem n a d))))"
proof (rule outcome_new [OF p])
  fix d m' F' assume p: "partial m0 F0 m' v a q c (chs @ [cJSON_New_Item]) (Some d) F'"
  show "outcome m0 F0 v a q (pbind (parse_member n s) (\<lambda>ch rest. object_loop n c (chs @ [ch]) rest))
     (mbind (parse_member_mem n d s m') (object_loop_mem n a d))"
    by (rule outcome_child [OF p]) (simp_all add: outcomesD(5,6) [OF IH])
qed

lemma set_child_empty [simp]: "child c = [] \<Longrightarrow> set_child [] c = c"
  by (cases c) simp

lemma array_outcome:
  assumes IH: "outcomes n" and p: "empty_item m0 F0 m v a q c F" and c: "child c = []"
  shows "outcome m0 F0 v a q (parse_array (Suc n) c s) (parse_array_mem (Suc n) a s m)"
  unfolding parse_array.simps parse_array_mem.simps Let_def
proof (intro outcome_if outcome_fail [OF p] outcome_set [OF p])
  fix m' assume p': "partial m0 F0 m' v a q (set_ctype cJSON_Array c) [] None F"
  show "outcome m0 F0 v a q (POk (set_ctype cJSON_Array c) t) (MOk t m')" for t
    using outcome_ok [OF p'] c by simp
qed (simp_all add: fields_type strs_def elem_outcome [OF IH, where chs = "[]", simplified])

lemma object_outcome:
  assumes IH: "outcomes n" and p: "empty_item m0 F0 m v a q c F" and c: "child c = []"
  shows "outcome m0 F0 v a q (parse_object (Suc n) c s) (parse_object_mem (Suc n) a s m)"
  unfolding parse_object.simps parse_object_mem.simps Let_def
proof (intro outcome_if outcome_fail [OF p] outcome_set [OF p])
  fix m' assume p': "partial m0 F0 m' v a q (set_ctype cJSON_Object c) [] None F"
  show "outcome m0 F0 v a q (POk (set_ctype cJSON_Object c) t) (MOk t m')" for t
    using outcome_ok [OF p'] c by simp
qed (simp_all add: fields_type strs_def member_outcome [OF IH, where chs = "[]", simplified])

lemma loop_outcomes:
  assumes IH: "outcomes n" and p: "partial m0 F0 m v a q c chs (Some l) F"
  shows "outcome m0 F0 v a q (array_loop (Suc n) c chs s) (array_loop_mem (Suc n) a l s m)"
    "outcome m0 F0 v a q (object_loop (Suc n) c chs s) (object_loop_mem (Suc n) a l s m)"
  unfolding array_loop.simps array_loop_mem.simps object_loop.simps object_loop_mem.simps
  by (intro outcome_if outcome_fail [OF p] outcome_ok [OF p] elem_outcome [OF IH p] member_outcome [OF IH p])+

lemma parse_string_keeps: "parse_string c s = POk c' t \<Longrightarrow> child c' = child c \<and> cstring c' = cstring c \<and> ctype c' = cJSON_String"
  by (cases c) (auto simp: parse_string_def pfault_def pbind_eq_POk split: if_splits sum.splits)

text \<open>The string that has been read is the name.\<close>

lemma fields_name:
  assumes "fields h it ch" "cstring ch = None"
  shows "fields h (it\<lparr>i_string := i_valuestring it, i_valuestring := None\<rparr>)
      (set_valuestring None (set_cstring (valuestring ch) ch))"
    "strs (it\<lparr>i_string := i_valuestring it, i_valuestring := None\<rparr>) = strs it"
  using assms by (cases ch; auto simp: fields_def strs_def text_in_None text_in_def split: option.splits)+

lemma key_outcome:
  assumes IH: "outcomes n" and p: "empty_item m0 F0 m v a q cJSON_New_Item F"
  shows "outcome m0 F0 v a q (parse_member (Suc n) s) (parse_member_mem (Suc n) a s m)"
  unfolding parse_member.simps parse_member_mem.simps
proof (rule outcome_bind [OF parse_string_outcome [OF p new_item_empty(1,2)]])
  fix ch rest m'
  assume ch: "parse_string cJSON_New_Item s = POk ch rest" "whole m0 F0 m' v a q ch"
  have k: "child ch = []" "cstring ch = None" "ctype ch = cJSON_String" using parse_string_keeps [OF ch(1)] by simp_all
  obtain F' where p': "empty_item m0 F0 m' v a q ch F'" using whole_empty [OF ch(2) k(1)] by blast
  let ?ch = "set_valuestring None (set_cstring (valuestring ch) ch)"
  have c': "child ?ch = []" "valuestring ?ch = None" using k(1) by (cases ch, simp)+
  show "outcome m0 F0 v a q
     (let va = skip rest; ch = ?ch
      in if peek va \<noteq> CHR '':'' then PFail (Some va)
         else pbind (parse_value n ch (skip (tl va))) (\<lambda>ch rest. POk ch (skip rest)))
     (mfault (change_item a (\<lambda>it. it\<lparr>i_string := i_valuestring it, i_valuestring := None\<rparr>) m') (\<lambda>m.
       let va = skip rest
       in if peek va \<noteq> CHR '':'' then MFail (Some va) m
          else mbind (parse_value_mem n a (skip (tl va)) m) (\<lambda>rest. MOk (skip rest))))"
    unfolding Let_def
  proof (rule outcome_set [OF p', where c' = ?ch])
    fix m'' assume p'': "partial m0 F0 m'' v a q ?ch [] None F'"
    show "outcome m0 F0 v a q
      (if peek (skip rest) \<noteq> CHR '':'' then PFail (Some (skip rest))
       else pbind (parse_value n ?ch (skip (tl (skip rest)))) (\<lambda>ch rest. POk ch (skip rest)))
      (if peek (skip rest) \<noteq> CHR '':'' then MFail (Some (skip rest)) m''
       else mbind (parse_value_mem n a (skip (tl (skip rest))) m'') (\<lambda>rest. MOk (skip rest)))"
      by (intro outcome_if outcome_fail [OF p''] outcome_bind [OF outcomesD(1) [OF IH p'' c']]) simp
  next
    have "ctype ?ch = cJSON_String" using k(3) by (cases ch) simp
    then show "\<not> is_ref (ctype ?ch)" "\<not> is_const (ctype ?ch)" by simp_all
  qed (use fields_name k(2) in simp_all)
qed

lemma parse_outcomes: "outcomes n"
proof (induction n)
  case (Suc n)
  show ?case
    unfolding outcomes_def
    by (intro conjI allI impI;
        rule value_outcome [OF Suc] array_outcome [OF Suc] object_outcome [OF Suc] loop_outcomes [OF Suc] key_outcome [OF Suc];
        assumption)
qed (simp add: outcomes_def)

section \<open>The tree, or nothing\<close>

lemma grows_ext: "grows m0 {} m \<Longrightarrow> ext m0 m"
  by (simp add: grows_def ext_def)

text \<open>\<open>fresh_tree m0 m a c F\<close>: since \<open>m0\<close> the tree \<open>c\<close> has been built at \<open>a\<close>; its cells \<open>F\<close> are all that is new.\<close>

definition fresh_tree :: "mem \<Rightarrow> mem \<Rightarrow> nat \<Rightarrow> cJSON \<Rightarrow> nat list \<Rightarrow> bool" where
  "fresh_tree m0 m a c F \<longleftrightarrow> seg (heap m) None (Some a) [c] (Some a) None F \<and> distinct F
     \<and> set F = dom (heap m) - dom (heap m0) \<and> (\<forall>b < brk m0. heap m b = heap m0 b)"

lemma whole_tree:
  assumes "whole m0 {} m None a None c"
  obtains F where "fresh_tree m0 m a c F" "plain c" "ext m0 m" "mem_ok m0"
proof -
  obtain w F where w: "partial m0 {} m None a None c (child c) w F" using assms by (auto simp: whole_def)
  have "distinct F" "set F = dom (heap m) - dom (heap m0)" "grows m0 {} m" using w by (simp_all add: partial_def)
  then show ?thesis
    using that [of F] partial_seg [OF w] grows_ext [of m0 m] by (simp add: fresh_tree_def grows_def del: seg.simps)
qed

lemma fresh_tree_released:
  assumes "fresh_tree m0 m a c F" "plain c" "ext m0 m" "mem_ok m0" "length F < n"
  obtains m' where "cJSON_Delete n (Some a) m = Some (Inr m')" "heap m' = heap m0" "allocs m' = allocs m" "ext m0 m'"
proof -
  have F: "seg (heap m) None (Some a) [c] (Some a) None F" "distinct F" "set F = dom (heap m) - dom (heap m0)"
    using assms(1) by (simp_all add: fresh_tree_def)
  have "cJSON_Delete n (Some a) m = Some (Inr (release (set F) m))"
    by (rule Delete_seg [OF F(1,2) _ assms(5)]) (simp add: assms(2))
  moreover have "ext m0 (release (set F) m)" by (rule ext_release [OF assms(3)]) (use F(3) in auto)
  ultimately show ?thesis using that release_new [OF assms(3) F(3) assms(4)] by simp
qed

text \<open>What the parser returns for the root item.\<close>

lemma root_outcome:
  assumes m: "mem_ok m"
  obtains (fail) m' where "cJSON_New_Item_mem m = (None, m')" "heap m' = heap m" "fails m (allocs m)" "allocs m' = Suc (allocs m)"
  | (new) b m' where "cJSON_New_Item_mem m = (Some b, m')" "whole m {} m' None b None cJSON_New_Item"
      "\<And>n s. outcome m {} None b None (parse_value n cJSON_New_Item s) (parse_value_mem n b s m')"
  unfolding cJSON_New_Item_mem_def
proof -
  have g: "grows m {} m" using m by (rule grows_refl) simp
  show thesis using g
  proof (cases rule: grows_alloc [where x = "Item null_item"])
    case (fail m')
    then show ?thesis using that(1) by (simp add: cJSON_New_Item_mem_def)
  next
    case (new b m')
    have "partial m {} m' None b None cJSON_New_Item [] None [b]"
      unfolding partial_def using new(2-4)
      by (auto simp: fields_def null_item_def cJSON_New_Item_def text_in_def strs_def is_ref_def is_const_def)
    then show ?thesis
      using that(2) [of b m'] new(1) outcomesD(1) [OF parse_outcomes] partial_whole [of m "{}" m' None b None cJSON_New_Item "[]"]
      by (simp add: cJSON_New_Item_mem_def)
  qed
qed

lemma parse_run:
  assumes "mem_ok m"
  shows "\<exists>n0. \<forall>n \<ge> n0.
    (case cJSON_ParseWithOpts_mem n src rpe rnt m of
       None \<Rightarrow> False
     | Some (Inl e) \<Rightarrow> cJSON_ParseWithOpts src rpe rnt = Inl e
     | Some (Inr (None, ep, m')) \<Rightarrow> heap m' = heap m
         \<and> (cJSON_ParseWithOpts src rpe rnt = Inr (None, ep)
            \<or> ep = None \<and> (\<exists>k. allocs m \<le> k \<and> k < allocs m' \<and> fails m k))
     | Some (Inr (Some a, ep, m')) \<Rightarrow>
         \<exists>c F. cJSON_ParseWithOpts src rpe rnt = Inr (Some c, ep) \<and> fresh_tree m m' a c F
           \<and> plain c \<and> ext m m')"
    (is "\<exists>n0. \<forall>n \<ge> n0. ?P n")
  using assms
proof (cases rule: root_outcome)
  case (fail m')
  have "?P n" for n using fail(2,3) by (auto simp: cJSON_ParseWithOpts_mem_def fail(1,4))
  then show ?thesis by blast
next
  case (new b m1)
  define r where "r = (case src of None \<Rightarrow> PFail None | Some text \<Rightarrow> parse_value (parse_fuel text) cJSON_New_Item (skip text))"
  define res where "res = (case src of None \<Rightarrow> MFail None m1 | Some text \<Rightarrow> parse_value_mem (parse_fuel text) b (skip text) m1)"
  have o: "outcome m {} None b None r res"
    using new(2,3) by (auto simp: r_def res_def outcome_def split: option.split)
  have "parse_value (parse_fuel t) cJSON_New_Item (skip t) \<noteq> PFuel" for t
    by (rule parse_value_fueled) (use length_skip [of t] in \<open>simp add: parse_fuel_def\<close>)
  then have nofuel: "r \<noteq> PFuel" by (simp add: r_def del: parse_value.simps split: option.split)
  have run: "cJSON_ParseWithOpts_mem n src rpe rnt m =
      (case res of MFault e \<Rightarrow> Some (Inl e) | MFuel \<Rightarrow> None
       | MFail ep m \<Rightarrow> bind_r (cJSON_Delete n (Some b) m) (\<lambda>m. Some (Inr (None, ep, m)))
       | MOk end m \<Rightarrow> let end = (if rnt then skip end else end)
           in if rnt \<and> peek end \<noteq> NUL then bind_r (cJSON_Delete n (Some b) m) (\<lambda>m. Some (Inr (None, Some end, m)))
              else Some (Inr (Some b, if rpe then Some end else None, m)))" for n
    using new(1) by (simp add: cJSON_ParseWithOpts_mem_def res_def)
  have pure: "cJSON_ParseWithOpts src rpe rnt =
      (case r of PFault e \<Rightarrow> Inl e | PFuel \<Rightarrow> Inr (None, None) | PFail ep \<Rightarrow> Inr (None, ep)
       | POk it end \<Rightarrow> let end = (if rnt then skip end else end)
           in if rnt \<and> peek end \<noteq> NUL then Inr (None, Some end) else Inr (Some it, if rpe then Some end else None))"
    by (simp add: cJSON_ParseWithOpts_def r_def split: option.split)
  show ?thesis
  proof (cases res)
    case (MFail ep m')
    then obtain c where c: "whole m {} m' None b None c" using o by (auto simp: outcome_def)
    have why: "r = PFail ep \<or> ep = None \<and> (\<exists>k. allocs m \<le> k \<and> k < allocs m' \<and> fails m k)"
      using o MFail by (simp add: outcome_def)
    obtain F where F: "fresh_tree m m' b c F" "plain c" "ext m m'" "mem_ok m" by (rule whole_tree [OF c])
    show ?thesis
    proof (intro exI [of _ "Suc (length F)"] allI impI)
      fix n assume "Suc (length F) \<le> n"
      then obtain m'' where "cJSON_Delete n (Some b) m' = Some (Inr m'')" "heap m'' = heap m" "allocs m'' = allocs m'"
        using fresh_tree_released [OF F] by (metis Suc_le_eq)
      then show "?P n" using why unfolding run pure MFail by auto
    qed
  next
    case (MOk s m')
    then obtain c where c: "r = POk c s" "whole m {} m' None b None c" using o by auto
    obtain F where F: "fresh_tree m m' b c F" "plain c" "ext m m'" "mem_ok m" by (rule whole_tree [OF c(2)])
    show ?thesis
    proof (intro exI [of _ "Suc (length F)"] allI impI)
      fix n assume "Suc (length F) \<le> n"
      then obtain m'' where "cJSON_Delete n (Some b) m' = Some (Inr m'')" "heap m'' = heap m"
        using fresh_tree_released [OF F] by (metis Suc_le_eq)
      then show "?P n" using F(1-3) unfolding run pure MOk c(1) by (auto simp: Let_def)
    qed
  qed (use o nofuel in \<open>simp_all add: run pure\<close>)
qed

text \<open>C35: Whichever of its allocations fail, \<open>cJSON_ParseWithOpts\<close> returns, without touching memory that is not
  allocated, and parses the whole text or does nothing: either it returns NULL and the heap is what it was, and then the text is
  one the parser rejects, with the same error position, or an allocation has failed; or it returns the tree the parser of
  trees gives for the text, linked through \<open>next\<close>, \<open>prev\<close> and \<open>child\<close>, in new cells that nothing else uses, and
  no other cell has been taken. (\<open>n\<close> bounds the recursion of \<open>cJSON_Delete\<close>.)\<close>

theorem parse_all_or_nothing:
  assumes "mem_ok m"
  shows "\<exists>n0. \<forall>n \<ge> n0.
    (case cJSON_ParseWithOpts_mem n src rpe rnt m of
       None \<Rightarrow> False
     | Some (Inl e) \<Rightarrow> cJSON_ParseWithOpts src rpe rnt = Inl e
     | Some (Inr (None, ep, m')) \<Rightarrow> heap m' = heap m
         \<and> (cJSON_ParseWithOpts src rpe rnt = Inr (None, ep)
            \<or> ep = None \<and> (\<exists>k. allocs m \<le> k \<and> k < allocs m' \<and> fails m k))
     | Some (Inr (Some a, ep, m')) \<Rightarrow>
         \<exists>c F. cJSON_ParseWithOpts src rpe rnt = Inr (Some c, ep) \<and> fresh_tree m m' a c F)"
  using parse_run [OF assms, of src rpe rnt]
  by (fastforce split: option.split_asm option.split sum.split_asm sum.split)

text \<open>Nothing leaks: when \<open>json_release\<close> is called on what \<open>cJSON_ParseWithOpts\<close> has returned, NULL or a tree, the heap
  is the one from before the call, whichever allocations failed.\<close>

lemma parse_release_restores:
  assumes "mem_ok m"
  shows "\<exists>n0. \<forall>n \<ge> n0. \<forall>r ep m'. cJSON_ParseWithOpts_mem n src rpe rnt m = Some (Inr (r, ep, m')) \<longrightarrow>
    (\<exists>k m''. json_release k r m' = Some (Inr m'') \<and> heap m'' = heap m)"
proof -
  obtain n0 where n0: "\<And>n. n0 \<le> n \<Longrightarrow>
    (case cJSON_ParseWithOpts_mem n src rpe rnt m of
       None \<Rightarrow> False
     | Some (Inl e) \<Rightarrow> cJSON_ParseWithOpts src rpe rnt = Inl e
     | Some (Inr (None, ep, m')) \<Rightarrow> heap m' = heap m
         \<and> (cJSON_ParseWithOpts src rpe rnt = Inr (None, ep)
            \<or> ep = None \<and> (\<exists>k. allocs m \<le> k \<and> k < allocs m' \<and> fails m k))
     | Some (Inr (Some a, ep, m')) \<Rightarrow>
         \<exists>c F. cJSON_ParseWithOpts src rpe rnt = Inr (Some c, ep) \<and> fresh_tree m m' a c F \<and> plain c \<and> ext m m')"
    using parse_run [OF assms, of src rpe rnt] by blast
  have "\<exists>k m''. json_release k r m' = Some (Inr m'') \<and> heap m'' = heap m"
    if n: "n0 \<le> n" and run: "cJSON_ParseWithOpts_mem n src rpe rnt m = Some (Inr (r, ep, m'))" for n r ep m'
  proof (cases r)
    case None
    then have "json_release 1 r m' = Some (Inr m') \<and> heap m' = heap m" using n0 [OF n] run by (simp add: json_release_def)
    then show ?thesis by blast
  next
    case (Some a)
    then obtain c F where "fresh_tree m m' a c F" "plain c" "ext m m'" using n0 [OF n] run by auto
    then obtain m'' where "cJSON_Delete (Suc (length F)) (Some a) m' = Some (Inr m'')" "heap m'' = heap m"
      using fresh_tree_released [OF _ _ _ assms] by blast
    then show ?thesis unfolding Some json_release_def by blast
  qed
  then show ?thesis by blast
qed

section \<open>A small text\<close>

lemma sample_ok: "mem_ok sample_mem"
  by (auto simp: mem_ok_def sample_mem_def)

lemma sample_parsed: "\<exists>m'. cJSON_ParseWithOpts_mem n (Some ''[]'') True False sample_mem = Some (Inr (Some 6, Some [], m'))"
  by (simp add: cJSON_ParseWithOpts_mem_def parse_fuel_def cJSON_New_Item_mem_def alloc_def sample_mem_def change_item_def
      item_at_def put_item_def eval_nat_numeral is_digit_def)

theorem parse_all_or_nothing_witness:
  "\<exists>n m'. cJSON_ParseWithOpts_mem n (Some ''[]'') True False sample_mem = Some (Inr (Some 6, Some [], m'))
     \<and> (\<exists>F. fresh_tree sample_mem m' 6 (CJSON cJSON_Array None 0 0 0 (DFin 0) None []) F)"
proof -
  obtain n where n: "case cJSON_ParseWithOpts_mem n (Some ''[]'') True False sample_mem of
       None \<Rightarrow> False
     | Some (Inl e) \<Rightarrow> cJSON_ParseWithOpts (Some ''[]'') True False = Inl e
     | Some (Inr (None, ep, m')) \<Rightarrow> heap m' = heap sample_mem
         \<and> (cJSON_ParseWithOpts (Some ''[]'') True False = Inr (None, ep)
            \<or> ep = None \<and> (\<exists>k. allocs sample_mem \<le> k \<and> k < allocs m' \<and> fails sample_mem k))
     | Some (Inr (Some a, ep, m')) \<Rightarrow>
         \<exists>c F. cJSON_ParseWithOpts (Some ''[]'') True False = Inr (Some c, ep) \<and> fresh_tree sample_mem m' a c F"
    using parse_all_or_nothing [OF sample_ok, of "Some ''[]''" True False] by blast
  have pure: "cJSON_ParseWithOpts (Some ''[]'') True False = Inr (Some (CJSON cJSON_Array None 0 0 0 (DFin 0) None []), Some [])"
    by (simp add: cJSON_ParseWithOpts_def parse_fuel_def cJSON_New_Item_def eval_nat_numeral is_digit_def)
  obtain m' where "cJSON_ParseWithOpts_mem n (Some ''[]'') True False sample_mem = Some (Inr (Some 6, Some [], m'))"
    using sample_parsed by blast
  then show ?thesis using n unfolding pure by (intro exI [of _ n] exI [of _ m']) auto
qed

end
