(* ===== verification/CJsonMemPrint.thy ===== *)
theory CJsonMemPrint imports CJsonMemParse CJsonPrint begin

text \<open>
  The unbuffered printer of \<open>json/cJSON.c\<close> on the heap: every text is a cell of its own, arrays and objects collect
  the texts of their entries in arrays of pointers, and any allocation may fail; then they release what they
  have collected. It is the printer of \<open>CJsonPrint\<close>, or nothing.
\<close>

section \<open>The functions\<close>

definition ptrs_at :: "mem \<Rightarrow> nat \<Rightarrow> nat option list c" where
  "ptrs_at m e = (case heap m e of Some (Pointers ps) \<Rightarrow> Inr ps | _ \<Rightarrow> Inl UseAfterFree)"

definition put_ptr :: "nat \<Rightarrow> nat \<Rightarrow> nat option \<Rightarrow> mem \<Rightarrow> mem c" where
  "put_ptr e i p m =
     bind_c (ptrs_at m e) (\<lambda>ps.
       if i < length ps then Inr (m\<lparr>heap := (heap m)(e \<mapsto> Pointers (ps[i := p]))\<rparr>) else Inl OutOfBounds)"

definition print_string_ptr_mem :: "nat option \<Rightarrow> mem \<Rightarrow> (nat option \<times> mem) c" where
  "print_string_ptr_mem str m =
     (case str of
        None \<Rightarrow> Inr (alloc (Text (print_string_ptr None)) m)
      | Some a \<Rightarrow> bind_c (text_at m a) (\<lambda>s. Inr (alloc (Text (print_string_ptr (Some s))) m)))"

text \<open>\<open>print_number\<close> reads \<open>valuedouble\<close> and \<open>valueint\<close> only.\<close>

definition print_number_mem :: "item \<Rightarrow> mem \<Rightarrow> nat option \<times> mem" where
  "print_number_mem it m =
     (case i_vals it of (u8, u16, vi, vd) \<Rightarrow> alloc (Text (print_number (CJSON cJSON_Number None u8 u16 vi vd None []))) m)"

text \<open>\<open>if (entries[i]) cJSON_free(entries[i]);\<close> for all \<open>i\<close>, and the same for \<open>names\<close> and \<open>entries\<close>.\<close>

fun free_entries :: "nat option list \<Rightarrow> mem \<Rightarrow> mem c" where
  "free_entries [] m = Inr m"
| "free_entries (p # ps) m = bind_c (free_opt p m) (free_entries ps)"

fun free_members :: "nat option list \<Rightarrow> nat option list \<Rightarrow> mem \<Rightarrow> mem c" where
  "free_members (nm # nms) (p # ps) m = bind_c (free_opt nm m) (\<lambda>m. bind_c (free_opt p m) (free_members nms ps))"
| "free_members nms ps m = Inr m"

text \<open>The loops that compose the output read an entry and release it.\<close>

fun take_entries :: "nat option list \<Rightarrow> mem \<Rightarrow> (string list \<times> mem) c" where
  "take_entries [] m = Inr ([], m)"
| "take_entries (p # ps) m =
     bind_c (deref p) (\<lambda>a. bind_c (text_at m a) (\<lambda>s. bind_c (free_cell a m) (\<lambda>m.
     bind_c (take_entries ps m) (\<lambda>(ss, m). Inr (s # ss, m)))))"

fun take_members :: "nat option list \<Rightarrow> nat option list \<Rightarrow> mem \<Rightarrow> ((string \<times> string) list \<times> mem) c" where
  "take_members (nm # nms) (p # ps) m =
     bind_c (deref nm) (\<lambda>b. bind_c (text_at m b) (\<lambda>n. bind_c (deref p) (\<lambda>a. bind_c (text_at m a) (\<lambda>s.
     bind_c (free_cell b m) (\<lambda>m. bind_c (free_cell a m) (\<lambda>m.
     bind_c (take_members nms ps m) (\<lambda>(es, m). Inr ((n, s) # es, m))))))))"
| "take_members nms ps m = Inr ([], m)"

text \<open>The ends of \<open>print_array\<close> and \<open>print_object\<close>, once the entries have been printed.\<close>

definition finish_array :: "bool \<Rightarrow> bool \<Rightarrow> nat \<Rightarrow> mem \<Rightarrow> (nat option \<times> mem) c" where
  "finish_array fail fmt entries m =
     (let (out, m) = (if fail then (None, m) else alloc (Text []) m)
      in bind_c (ptrs_at m entries) (\<lambda>ps.
         case out of
           None \<Rightarrow> bind_c (free_entries ps m) (\<lambda>m. bind_c (free_cell entries m) (\<lambda>m. Inr (None, m)))
         | Some b \<Rightarrow> bind_c (take_entries ps m) (\<lambda>(ss, m). bind_c (free_cell entries m) (\<lambda>m.
             Inr (Some b, m\<lparr>heap := (heap m)(b \<mapsto> Text (print_array_out fmt ss))\<rparr>)))))"

definition finish_object :: "bool \<Rightarrow> bool \<Rightarrow> nat \<Rightarrow> nat \<Rightarrow> nat \<Rightarrow> mem \<Rightarrow> (nat option \<times> mem) c" where
  "finish_object fail fmt depth names entries m =
     (let (out, m) = (if fail then (None, m) else alloc (Text []) m)
      in bind_c (ptrs_at m names) (\<lambda>nms. bind_c (ptrs_at m entries) (\<lambda>ps.
         case out of
           None \<Rightarrow> bind_c (free_members nms ps m) (\<lambda>m. bind_c (free_cell names m) (\<lambda>m.
             bind_c (free_cell entries m) (\<lambda>m. Inr (None, m))))
         | Some b \<Rightarrow> bind_c (take_members nms ps m) (\<lambda>(es, m). bind_c (free_cell names m) (\<lambda>m.
             bind_c (free_cell entries m) (\<lambda>m.
             Inr (Some b, m\<lparr>heap := (heap m)(b \<mapsto> Text (print_object_out fmt depth es))\<rparr>)))))))"

text \<open>\<open>n\<close> bounds the recursion and the walks along the chain; the last two functions return \<open>fail\<close>.\<close>

function (sequential) print_value_mem :: "nat \<Rightarrow> nat option \<Rightarrow> nat \<Rightarrow> bool \<Rightarrow> mem \<Rightarrow> (nat option \<times> mem) run"
  and print_array_mem :: "nat \<Rightarrow> item \<Rightarrow> nat \<Rightarrow> bool \<Rightarrow> mem \<Rightarrow> (nat option \<times> mem) run"
  and print_object_mem :: "nat \<Rightarrow> item \<Rightarrow> nat \<Rightarrow> bool \<Rightarrow> mem \<Rightarrow> (nat option \<times> mem) run"
  and print_items_mem :: "nat \<Rightarrow> nat \<Rightarrow> nat \<Rightarrow> nat option \<Rightarrow> nat \<Rightarrow> bool \<Rightarrow> mem \<Rightarrow> (bool \<times> mem) run"
  and print_members_mem :: "nat \<Rightarrow> nat \<Rightarrow> nat \<Rightarrow> nat \<Rightarrow> nat option \<Rightarrow> nat \<Rightarrow> bool \<Rightarrow> mem \<Rightarrow> (bool \<times> mem) run" where
  "print_value_mem 0 p depth fmt m = None"
| "print_value_mem (Suc n) None depth fmt m = Some (Inr (None, m))"
| "print_value_mem (Suc n) (Some a) depth fmt m =
     bind_r (Some (item_at m a)) (\<lambda>it.
       let t = and (i_type it) 255
       in if t = cJSON_NULL then Some (Inr (alloc (Text ''null'') m))
          else if t = cJSON_False then Some (Inr (alloc (Text ''false'') m))
          else if t = cJSON_True then Some (Inr (alloc (Text ''true'') m))
          else if t = cJSON_Number then Some (Inr (print_number_mem it m))
          else if t = cJSON_String then Some (print_string_ptr_mem (i_valuestring it) m)
          else if t = cJSON_Array then print_array_mem n it depth fmt m
          else if t = cJSON_Object then print_object_mem n it depth fmt m
          else Some (Inr (None, m)))"
| "print_array_mem 0 it depth fmt m = None"
| "print_array_mem (Suc n) it depth fmt m =
     bind_r (array_size_loop n (i_child it) 0 m) (\<lambda>numentries.
       if numentries = 0 then Some (Inr (alloc (Text ''[]'') m))
       else case alloc (Pointers (replicate numentries None)) m of
         (None, m) \<Rightarrow> Some (Inr (None, m))
       | (Some e, m) \<Rightarrow> bind_r (print_items_mem n e 0 (i_child it) (depth + 1) fmt m) (\<lambda>(fail, m).
           Some (finish_array fail fmt e m)))"
| "print_object_mem 0 it depth fmt m = None"
| "print_object_mem (Suc n) it depth fmt m =
     bind_r (array_size_loop n (i_child it) 0 m) (\<lambda>numentries.
       if numentries = 0 then Some (Inr (alloc (Text (print_object_out fmt depth [])) m))
       else case alloc (Pointers (replicate numentries None)) m of
         (None, m) \<Rightarrow> Some (Inr (None, m))
       | (Some e, m) \<Rightarrow>
           (case alloc (Pointers (replicate numentries None)) m of
              (None, m) \<Rightarrow> bind_r (Some (free_cell e m)) (\<lambda>m. Some (Inr (None, m)))
            | (Some nm, m) \<Rightarrow> bind_r (print_members_mem n nm e 0 (i_child it) (depth + 1) fmt m) (\<lambda>(fail, m).
                Some (finish_object fail fmt depth nm e m))))"
| "print_items_mem 0 e i p depth fmt m = None"
| "print_items_mem (Suc n) e i None depth fmt m = Some (Inr (False, m))"
| "print_items_mem (Suc n) e i (Some c) depth fmt m =
     bind_r (print_value_mem n (Some c) depth fmt m) (\<lambda>(ret, m).
     bind_r (Some (put_ptr e i ret m)) (\<lambda>m.
     bind_r (Some (item_at m c)) (\<lambda>it.
       if ret = None then Some (Inr (True, m)) else print_items_mem n e (i + 1) (i_next it) depth fmt m)))"
| "print_members_mem 0 nm e i p depth fmt m = None"
| "print_members_mem (Suc n) nm e i None depth fmt m = Some (Inr (False, m))"
| "print_members_mem (Suc n) nm e i (Some c) depth fmt m =
     bind_r (Some (item_at m c)) (\<lambda>it.
     bind_r (Some (print_string_ptr_mem (i_string it) m)) (\<lambda>(str, m).
     bind_r (Some (put_ptr nm i str m)) (\<lambda>m.
     bind_r (print_value_mem n (Some c) depth fmt m) (\<lambda>(ret, m).
     bind_r (Some (put_ptr e i ret m)) (\<lambda>m.
     bind_r (Some (item_at m c)) (\<lambda>it.
       if str = None \<or> ret = None then Some (Inr (True, m))
       else print_members_mem n nm e (i + 1) (i_next it) depth fmt m))))))"
  by pat_completeness auto
termination
  by (relation "measure (case_sum (case_sum fst fst) (case_sum fst (case_sum fst fst)))") auto

definition cJSON_Print_mem :: "nat \<Rightarrow> nat option \<Rightarrow> mem \<Rightarrow> (nat option \<times> mem) run" where
  "cJSON_Print_mem n item m = print_value_mem n item 0 True m"

definition cJSON_PrintUnformatted_mem :: "nat \<Rightarrow> nat option \<Rightarrow> mem \<Rightarrow> (nat option \<times> mem) run" where
  "cJSON_PrintUnformatted_mem n item m = print_value_mem n item 0 False m"

section \<open>Cells that are added for a time\<close>

text \<open>\<open>holds m0 m X\<close>: the heap is that of \<open>m0\<close> with the cells \<open>X\<close> added. \<open>starved m m'\<close>: from \<open>m\<close> to \<open>m'\<close> an allocation has
  returned NULL.\<close>

definition holds :: "mem \<Rightarrow> mem \<Rightarrow> nat set \<Rightarrow> bool" where
  "holds m0 m X \<longleftrightarrow> mem_ok m0 \<and> ext m0 m \<and> X \<subseteq> dom (heap m) - dom (heap m0) \<and> (\<forall>x. x \<notin> X \<longrightarrow> heap m x = heap m0 x)"

definition starved :: "mem \<Rightarrow> mem \<Rightarrow> bool" where
  "starved m m' \<longleftrightarrow> (\<exists>k. allocs m \<le> k \<and> k < allocs m' \<and> fails m k)"

definition onward :: "mem \<Rightarrow> mem \<Rightarrow> bool" where
  "onward m m' \<longleftrightarrow> allocs m \<le> allocs m' \<and> fails m' = fails m"

lemma onward_trans: "onward m m' \<Longrightarrow> onward m' m'' \<Longrightarrow> onward m m''"
  by (auto simp: onward_def)

lemma onward_same [simp]: "onward m m" "onward m (m'\<lparr>heap := h\<rparr>) = onward m m'" "onward m (release A m') = onward m m'"
  by (simp_all add: onward_def release_def)

lemma starved_trans:
  "starved m m' \<Longrightarrow> onward m' m'' \<Longrightarrow> starved m m''" "onward m m' \<Longrightarrow> starved m' m'' \<Longrightarrow> starved m m''"
  by (auto simp: starved_def onward_def intro: order_trans less_le_trans)

lemma starved_same [simp]: "starved m (m'\<lparr>heap := h\<rparr>) = starved m m'" "starved m (release A m') = starved m m'"
  by (simp_all add: starved_def release_def)

lemma alloc_onward:
  assumes "mem_ok m"
  obtains (fail) m' where "alloc x m = (None, m')" "ext m m'" "heap m' = heap m" "starved m m'" "onward m m'"
  | (new) b m' where "alloc x m = (Some b, m')" "ext m m'" "heap m' = (heap m)(b \<mapsto> x)" "b \<notin> dom (heap m)" "onward m m'"
proof -
  have l: "onward m (snd (alloc x m))" "fst (alloc x m) = None \<Longrightarrow> starved m (snd (alloc x m))"
    by (auto simp: alloc_def onward_def starved_def Let_def split: if_splits)
  show thesis using assms
    by (cases rule: alloc_cases [where x = x]) (use l that in auto)
qed

lemma holds_refl: "mem_ok m \<Longrightarrow> holds m m {}"
  by (simp add: holds_def ext_refl)

lemma holds_ok: "holds m0 m X \<Longrightarrow> mem_ok m" "holds m0 m X \<Longrightarrow> ext m0 m" "holds m0 m X \<Longrightarrow> mem_ok m0"
  by (auto simp: holds_def ext_ok)

lemma holds_new:
  assumes "holds m0 m X" "ext m m'" "heap m' = (heap m)(b \<mapsto> x)" "b \<notin> dom (heap m)"
  shows "holds m0 m' (insert b X)"
proof -
  have "b \<notin> dom (heap m0)"
    using ext_heap [OF holds_ok(3) [OF assms(1)] holds_ok(2) [OF assms(1)]] assms(4) by (cases "heap m0 b") (auto simp: domIff)
  then show ?thesis using assms ext_trans [OF holds_ok(2) [OF assms(1)] assms(2)] by (auto simp: holds_def)
qed

lemma holds_same: "holds m0 m X \<Longrightarrow> ext m m' \<Longrightarrow> heap m' = heap m \<Longrightarrow> holds m0 m' X"
  using ext_trans [of m0 m m'] by (auto simp: holds_def)

lemma holds_put:
  assumes "holds m0 m X" "x \<in> X"
  shows "holds m0 (m\<lparr>heap := (heap m)(x \<mapsto> y)\<rparr>) X"
proof -
  have "brk m0 \<le> x" "x < brk m"
    using assms ext_new [of m0 m x] mem_ok_dom [OF holds_ok(1) [OF assms(1)]] by (auto simp: holds_def)
  then show ?thesis using assms by (auto simp: holds_def ext_def mem_ok_def)
qed

lemma holds_release: "holds m0 m X \<Longrightarrow> A \<subseteq> X \<Longrightarrow> X - A = Y \<Longrightarrow> holds m0 (release A m) Y"
  using ext_release [of m0 m A] by (auto simp: holds_def restrict_map_def domIff subset_iff disjoint_iff)

lemma holds_none: "holds m0 m {} \<Longrightarrow> heap m = heap m0"
  by (auto simp: holds_def)

section \<open>What a function has printed\<close>

definition printed :: "mem \<Rightarrow> string option \<Rightarrow> nat option \<Rightarrow> mem \<Rightarrow> bool" where
  "printed m s r m' \<longleftrightarrow> ext m m' \<and> onward m m'
     \<and> (case r of
          None \<Rightarrow> heap m' = heap m \<and> (s = None \<or> starved m m')
        | Some b \<Rightarrow> \<exists>t. s = Some t \<and> b \<notin> dom (heap m) \<and> heap m' = (heap m)(b \<mapsto> Text t))"

lemma alloc_printed: "mem_ok m \<Longrightarrow> (case alloc (Text t) m of (r, m') \<Rightarrow> printed m (Some t) r m')"
  by (rule alloc_onward [of m "Text t"]) (auto simp: printed_def)

lemma string_printed:
  assumes "mem_ok m" "ptr_text m p s"
  shows "\<exists>r m'. print_string_ptr_mem p m = Inr (r, m') \<and> printed m (Some (print_string_ptr s)) r m'"
  using assms alloc_printed [OF assms(1), of "print_string_ptr s"]
  by (cases p) (auto simp: ptr_text_def print_string_ptr_mem_def split: prod.splits)

abbreviation addrs :: "nat option list \<Rightarrow> nat list" where
  "addrs ps \<equiv> concat (map opt_list ps)"

definition texts :: "mem \<Rightarrow> nat option list \<Rightarrow> string list \<Rightarrow> bool" where
  "texts m = list_all2 (\<lambda>p t. \<exists>a. p = Some a \<and> heap m a = Some (Text t))"

lemma texts_simps [simp]:
  "texts m [] ts \<longleftrightarrow> ts = []"
  "texts m (p # ps) (t # ts) \<longleftrightarrow> (\<exists>a. p = Some a \<and> heap m a = Some (Text t)) \<and> texts m ps ts"
  by (simp_all add: texts_def)

lemma texts_frame: "texts m ps ts \<Longrightarrow> (\<And>x. x \<in> set (addrs ps) \<Longrightarrow> heap m' x = heap m x) \<Longrightarrow> texts m' ps ts"
  unfolding texts_def by (induction ps ts rule: list_all2_induct) auto

text \<open>A slot of an array of pointers is filled with what has been printed.\<close>

lemma slot_filled:
  assumes p: "printed m s r m1" and h: "holds m0 m X" and e: "e \<in> X" "heap m e = Some (Pointers (qs @ None # rest))"
  obtains m2 where "put_ptr e (length qs) r m1 = Inr m2" "holds m0 m2 (X \<union> set (opt_list r))"
    "heap m2 e = Some (Pointers (qs @ r # rest))" "\<And>x. x \<in> dom (heap m) \<Longrightarrow> x \<noteq> e \<Longrightarrow> heap m2 x = heap m x"
    "set (opt_list r) \<inter> dom (heap m) = {}" "onward m m2"
    "case r of None \<Rightarrow> s = None \<or> starved m m2 | Some b \<Rightarrow> \<exists>t. s = Some t \<and> heap m2 b = Some (Text t)"
proof -
  let ?m = "m1\<lparr>heap := (heap m1)(e \<mapsto> Pointers (qs @ r # rest))\<rparr>"
  have h1: "holds m0 m1 (X \<union> set (opt_list r))"
  proof (cases r)
    case None
    then show ?thesis using p holds_same [OF h] by (simp add: printed_def)
  next
    case (Some b)
    then show ?thesis using p holds_new [OF h] by (auto simp: printed_def)
  qed
  have at: "heap m1 e = Some (Pointers (qs @ None # rest))" using p e(2) by (cases r) (auto simp: printed_def domIff)
  show ?thesis
  proof (rule that)
    show "put_ptr e (length qs) r m1 = Inr ?m" using at by (simp add: put_ptr_def ptrs_at_def)
    show "holds m0 ?m (X \<union> set (opt_list r))" by (rule holds_put [OF h1]) (simp add: e(1))
    show "case r of None \<Rightarrow> s = None \<or> starved m ?m | Some b \<Rightarrow> \<exists>t. s = Some t \<and> heap ?m b = Some (Text t)"
      using p e(2) by (cases r) (auto simp: printed_def)
    show "set (opt_list r) \<inter> dom (heap m) = {}" using p by (cases r) (auto simp: printed_def)
    fix x assume "x \<in> dom (heap m)" "x \<noteq> e"
    then show "heap ?m x = heap m x" using p by (cases r) (auto simp: printed_def domIff)
  qed (use p in \<open>simp_all add: printed_def\<close>)
qed

section \<open>Composing the output\<close>

lemma free_cell_member: "a \<in> dom (heap m) \<Longrightarrow> free_cell a m = Inr (release {a} m)"
  by (rule free_cell_release)

lemma free_entries_release:
  "distinct (addrs ps) \<Longrightarrow> set (addrs ps) \<subseteq> dom (heap m) \<Longrightarrow> free_entries ps m = Inr (release (set (addrs ps)) m)"
proof (induction ps arbitrary: m)
  case (Cons p ps)
  then have "free_opt p m = Inr (release (set (opt_list p)) m)" by (intro free_opt_release) auto
  moreover have "free_entries ps (release (set (opt_list p)) m) = Inr (release (set (addrs ps)) (release (set (opt_list p)) m))"
    by (rule Cons.IH) (use Cons.prems in auto)
  ultimately show ?case by (simp add: Un_commute)
qed simp

lemma free_members_release:
  "length nms = length ps \<Longrightarrow> distinct (addrs nms @ addrs ps) \<Longrightarrow> set (addrs nms @ addrs ps) \<subseteq> dom (heap m) \<Longrightarrow>
   free_members nms ps m = Inr (release (set (addrs nms @ addrs ps)) m)"
proof (induction nms ps arbitrary: m rule: list_induct2)
  case (Cons nm nms p ps)
  let ?A = "set (opt_list nm)" and ?B = "set (opt_list p)"
  have "free_opt nm m = Inr (release ?A m)" by (rule free_opt_release) (use Cons.prems in auto)
  moreover have "free_opt p (release ?A m) = Inr (release ?B (release ?A m))"
    by (rule free_opt_release) (use Cons.prems in auto)
  moreover have "free_members nms ps (release ?B (release ?A m)) = Inr (release (set (addrs nms @ addrs ps)) (release ?B (release ?A m)))"
    by (rule Cons.IH) (use Cons.prems in auto)
  ultimately show ?case by (simp add: Un_ac)
qed simp

lemma text_at_heap: "heap m a = Some (Text t) \<Longrightarrow> text_at m a = Inr t"
  by (simp add: text_at_def)

lemma texts_release: "texts m ps ts \<Longrightarrow> A \<inter> set (addrs ps) = {} \<Longrightarrow> texts (release A m) ps ts"
  by (erule texts_frame) (auto simp: restrict_map_def)

lemma take_entries_release:
  "texts m ps ts \<Longrightarrow> distinct (addrs ps) \<Longrightarrow> take_entries ps m = Inr (ts, release (set (addrs ps)) m)"
proof (induction ps arbitrary: m ts)
  case (Cons p ps)
  obtain t ts' a where t: "ts = t # ts'" "p = Some a" "heap m a = Some (Text t)" "texts m ps ts'"
    using Cons.prems(1) by (cases ts) (auto simp: texts_def)
  have "take_entries ps (release {a} m) = Inr (ts', release (set (addrs ps)) (release {a} m))"
    by (rule Cons.IH [OF texts_release [OF t(4)]]) (use Cons.prems(2) t(2) in auto)
  then show ?case using t free_cell_release [of a m] by (simp add: deref_def text_at_heap domI)
qed simp

lemma take_members_release:
  "length nms = length ps \<Longrightarrow> texts m nms ns \<Longrightarrow> texts m ps ts \<Longrightarrow> distinct (addrs nms @ addrs ps) \<Longrightarrow>
   take_members nms ps m = Inr (zip ns ts, release (set (addrs nms @ addrs ps)) m)"
proof (induction nms ps arbitrary: m ns ts rule: list_induct2)
  case (Cons nm nms p ps)
  obtain t ts' a where t: "ts = t # ts'" "p = Some a" "heap m a = Some (Text t)" "texts m ps ts'"
    using Cons.prems(2) by (cases ts) (auto simp: texts_def)
  obtain s ns' b where s: "ns = s # ns'" "nm = Some b" "heap m b = Some (Text s)" "texts m nms ns'"
    using Cons.prems(1) by (cases ns) (auto simp: texts_def)
  let ?m = "release {a} (release {b} m)"
  have "take_members nms ps ?m = Inr (zip ns' ts', release (set (addrs nms @ addrs ps)) ?m)"
    by (rule Cons.IH; (intro texts_release s t)?) (use Cons.prems(3) s(2) t(2) in auto)
  moreover have "free_cell b m = Inr (release {b} m)" using s(3) by (intro free_cell_release) auto
  moreover have "free_cell a (release {b} m) = Inr ?m" by (rule free_cell_release) (use t(2,3) s(2) Cons.prems(3) in auto)
  ultimately show ?case using s t by (simp add: deref_def text_at_heap Un_ac)
qed simp

lemma printed_none: "holds m0 m {} \<Longrightarrow> onward m0 m \<Longrightarrow> s = None \<or> starved m0 m \<Longrightarrow> printed m0 s None m"
  by (simp add: printed_def holds_ok(2) holds_none)

lemma printed_some:
  assumes "holds m0 m {b}" "onward m0 m" "heap m b = Some (Text t)"
  shows "printed m0 (Some t) (Some b) m"
proof -
  have "heap m = (heap m0)(b \<mapsto> Text t)" using assms(1,3) by (auto simp: holds_def)
  then show ?thesis using assms by (auto simp: printed_def holds_def)
qed

text \<open>The output takes the place of all the cells held: \<open>A\<close> is released cell by cell.\<close>

lemma printed_out:
  assumes "holds m0 m (insert b A)" "b \<notin> A" "onward m0 m"
  shows "printed m0 (Some t) (Some b) ((release A m)\<lparr>heap := (heap (release A m))(b \<mapsto> Text t)\<rparr>)"
proof (rule printed_some)
  have "holds m0 (release A m) {b}" by (rule holds_release [OF assms(1)]) (use assms(2) in auto)
  then show "holds m0 ((release A m)\<lparr>heap := (heap (release A m))(b \<mapsto> Text t)\<rparr>) {b}" by (rule holds_put) simp
qed (use assms(3) in simp_all)

lemma printed_undone:
  assumes "holds m0 m A" "onward m0 m" "s = None \<or> starved m0 m"
  shows "printed m0 s None (release A m)"
  by (rule printed_none) (use assms holds_release [OF assms(1) order_refl] in simp_all)

lemma holds_dom: "holds m0 m X \<Longrightarrow> X \<subseteq> dom (heap m)"
  by (auto simp: holds_def)

lemma finish_array_printed:
  assumes h: "holds m0 m (insert e (set (addrs ps)))" and e: "e \<notin> set (addrs ps)" "heap m e = Some (Pointers ps)"
    and d: "distinct (addrs ps)" and l: "onward m0 m"
    and f: "if fail then s = None \<or> starved m0 m else \<exists>ts. s = Some (print_array_out fmt ts) \<and> texts m ps ts"
  shows "\<exists>r m'. finish_array fail fmt e m = Inr (r, m') \<and> printed m0 s r m'"
proof -
  let ?A = "set (addrs ps)"
  have undo: "bind_c (free_entries ps m') (\<lambda>m. bind_c (free_cell e m) (\<lambda>m. Inr (None, m))) = Inr (None :: nat option, release (insert e ?A) m')"
    if m': "holds m0 m' (insert e ?A)" for m'
    using free_entries_release [OF d, of m'] free_cell_release [of e "release ?A m'"] holds_dom [OF m'] e(1)
    by (auto simp: domIff)
  show ?thesis
  proof (cases fail)
    case True
    then show ?thesis
      using f undo [OF h] printed_undone [OF h l] e(2) by (simp add: finish_array_def ptrs_at_def)
  next
    case False
    then obtain ts where ts: "s = Some (print_array_out fmt ts)" "texts m ps ts" using f by auto
    show ?thesis using holds_ok(1) [OF h]
    proof (cases rule: alloc_onward [where x = "Text []"])
      case (fail m')
      have h': "holds m0 m' (insert e ?A)" by (rule holds_same [OF h fail(2,3)])
      show ?thesis
        using fail False undo [OF h'] printed_undone [OF h' onward_trans [OF l fail(5)]] starved_trans(2) [OF l fail(4)] e(2)
        by (simp add: finish_array_def ptrs_at_def)
    next
      case (new b m')
      have b: "b \<notin> insert e ?A" using new(4) holds_dom [OF h] by auto
      have h': "holds m0 m' (insert b (insert e ?A))" by (rule holds_new [OF h new(2-4)])
      have "texts m' ps ts" by (rule texts_frame [OF ts(2)]) (use b new(3) in auto)
      then have "take_entries ps m' = Inr (ts, release ?A m')" using d by (rule take_entries_release)
      moreover have "free_cell e (release ?A m') = Inr (release (insert e ?A) m')"
        using free_cell_release [of e "release ?A m'"] holds_dom [OF h'] e(1) by (auto simp: domIff)
      ultimately show ?thesis
        using new(1,3) b e(2) False ts(1) printed_out [OF h' b onward_trans [OF l new(5)]]
        by (simp add: finish_array_def ptrs_at_def)
    qed
  qed
qed

lemma finish_object_printed:
  assumes h: "holds m0 m (insert nm (insert e (set (addrs nms @ addrs ps))))" and e: "nm \<noteq> e" "nm \<notin> set (addrs nms @ addrs ps)"
      "e \<notin> set (addrs nms @ addrs ps)" "heap m nm = Some (Pointers nms)" "heap m e = Some (Pointers ps)"
    and d: "distinct (addrs nms @ addrs ps)" "length nms = length ps" and l: "onward m0 m"
    and f: "if fail then s = None \<or> starved m0 m
      else \<exists>ns ts. s = Some (print_object_out fmt depth (zip ns ts)) \<and> texts m nms ns \<and> texts m ps ts"
  shows "\<exists>r m'. finish_object fail fmt depth nm e m = Inr (r, m') \<and> printed m0 s r m'"
proof -
  let ?A = "set (addrs nms @ addrs ps)"
  have cells: "free_cell nm (release ?A m') = Inr (release (insert nm ?A) m')"
    "free_cell e (release (insert nm ?A) m') = Inr (release (insert nm (insert e ?A)) m')"
    if m': "insert nm (insert e ?A) \<subseteq> dom (heap m')" for m'
    using free_cell_release [of nm "release ?A m'"] free_cell_release [of e "release (insert nm ?A) m'"] m' e(1-3)
    by (auto simp: domIff insert_commute)
  have undo: "bind_c (free_members nms ps m') (\<lambda>m. bind_c (free_cell nm m) (\<lambda>m. bind_c (free_cell e m) (\<lambda>m. Inr (None, m))))
      = Inr (None :: nat option, release (insert nm (insert e ?A)) m')"
    if m': "holds m0 m' (insert nm (insert e ?A))" for m'
  proof -
    have "free_members nms ps m' = Inr (release ?A m')"
      by (rule free_members_release [OF d(2,1)]) (use holds_dom [OF m'] in auto)
    then show ?thesis using cells [OF holds_dom [OF m']] by simp
  qed
  show ?thesis
  proof (cases fail)
    case True
    then show ?thesis
      using f undo [OF h] printed_undone [OF h l] e(4,5) by (simp add: finish_object_def ptrs_at_def)
  next
    case False
    then obtain ns ts where ts: "s = Some (print_object_out fmt depth (zip ns ts))" "texts m nms ns" "texts m ps ts" using f by auto
    show ?thesis using holds_ok(1) [OF h]
    proof (cases rule: alloc_onward [where x = "Text []"])
      case (fail m')
      have h': "holds m0 m' (insert nm (insert e ?A))" by (rule holds_same [OF h fail(2,3)])
      show ?thesis
        using fail False undo [OF h'] printed_undone [OF h' onward_trans [OF l fail(5)]] starved_trans(2) [OF l fail(4)] e(4,5)
        by (simp add: finish_object_def ptrs_at_def)
    next
      case (new b m')
      have b: "b \<notin> insert nm (insert e ?A)" using new(4) holds_dom [OF h] by auto
      have h': "holds m0 m' (insert b (insert nm (insert e ?A)))" by (rule holds_new [OF h new(2-4)])
      have "texts m' nms ns" "texts m' ps ts" by (rule texts_frame [OF ts(2)] texts_frame [OF ts(3)]; use b new(3) in auto)+
      then have "take_members nms ps m' = Inr (zip ns ts, release ?A m')" using d by (intro take_members_release)
      moreover have "insert nm (insert e ?A) \<subseteq> dom (heap m')" using holds_dom [OF h'] by auto
      ultimately show ?thesis
        using new(1,3) b e(4,5) False ts(1) printed_out [OF h' b onward_trans [OF l new(5)]] cells [of m']
        by (simp add: finish_object_def ptrs_at_def)
    qed
  qed
qed

section \<open>The loops over the children\<close>

lemma array_size_views: "views m p cs \<Longrightarrow> length cs < n \<Longrightarrow> array_size_loop n p i m = Some (Inr (i + length cs))"
proof (induction cs arbitrary: p n i)
  case Nil
  then show ?case by (cases n) simp_all
next
  case (Cons c cs)
  then obtain a it where "p = Some a" "heap m a = Some (Item it)" "views m (i_next it) cs" by auto
  then show ?case using Cons.IH [of "i_next it" "n - 1" "i + 1"] Cons.prems(2) by (cases n) (simp_all add: item_at_def)
qed

text \<open>\<open>filled m0 m X As n m'\<close>: from \<open>m\<close> to \<open>m'\<close> the last \<open>n\<close> slots of the arrays \<open>As\<close> have been filled; each is given with
  the slots before and the new ones.\<close>

definition filled :: "mem \<Rightarrow> mem \<Rightarrow> nat set \<Rightarrow> (nat \<times> nat option list \<times> nat option list) list \<Rightarrow> nat \<Rightarrow> mem \<Rightarrow> bool" where
  "filled m0 m X As n m' \<longleftrightarrow>
     (let new = concat (map (\<lambda>(e, qs, rs). addrs rs) As)
      in holds m0 m' (X \<union> set new) \<and> distinct new \<and> set new \<inter> dom (heap m) = {} \<and> onward m m'
         \<and> (\<forall>(e, qs, rs) \<in> set As. length rs = n \<and> heap m' e = Some (Pointers (qs @ rs)))
         \<and> (\<forall>x \<in> dom (heap m). x \<notin> fst ` set As \<longrightarrow> heap m' x = heap m x))"

lemma addrs_None [simp]: "addrs (replicate n None) = []"
  by (induction n) simp_all

lemma replicate_Suc_None: "replicate (length (c # cs)) None = None # replicate (length cs) None"
  by simp

text \<open>What the loops leave behind, for the texts \<open>ss\<close> of the children (and the names \<open>ns\<close>).\<close>

definition items_post :: "mem \<Rightarrow> mem \<Rightarrow> nat set \<Rightarrow> nat \<Rightarrow> nat option list \<Rightarrow> string option list \<Rightarrow> (bool \<times> mem) run \<Rightarrow> bool" where
  "items_post m0 m X e qs ss run \<longleftrightarrow> (\<exists>fail m' rs. run = Some (Inr (fail, m')) \<and> filled m0 m X [(e, qs, rs)] (length ss) m'
     \<and> (if fail then those ss = None \<or> starved m m' else \<exists>ts. those ss = Some ts \<and> texts m' rs ts))"

definition members_post ::
  "mem \<Rightarrow> mem \<Rightarrow> nat set \<Rightarrow> nat \<Rightarrow> nat option list \<Rightarrow> nat \<Rightarrow> nat option list \<Rightarrow> string list \<Rightarrow> string option list \<Rightarrow>
    (bool \<times> mem) run \<Rightarrow> bool" where
  "members_post m0 m X nm qn e qs ns ss run \<longleftrightarrow> (\<exists>fail m' rn rs. run = Some (Inr (fail, m'))
     \<and> filled m0 m X [(nm, qn, rn), (e, qs, rs)] (length ss) m'
     \<and> (if fail then those ss = None \<or> starved m m' else \<exists>ts. those ss = Some ts \<and> texts m' rs ts \<and> texts m' rn ns))"

definition items_filled :: "nat \<Rightarrow> bool" where
  "items_filled n \<longleftrightarrow> (\<forall>m0 m X e qs p cs depth fmt. holds m0 m X \<longrightarrow> e \<in> X \<longrightarrow>
     heap m e = Some (Pointers (qs @ replicate (length cs) None)) \<longrightarrow> views m0 p cs \<longrightarrow>
     sum_list (map (\<lambda>c. weight c + 1) cs) < n \<longrightarrow>
     items_post m0 m X e qs (map (\<lambda>c. print_value c depth fmt) cs) (print_items_mem n e (length qs) p depth fmt m))"

definition members_filled :: "nat \<Rightarrow> bool" where
  "members_filled n \<longleftrightarrow> (\<forall>m0 m X nm e qn qs p cs depth fmt. holds m0 m X \<longrightarrow> nm \<in> X \<longrightarrow> e \<in> X \<longrightarrow> nm \<noteq> e \<longrightarrow>
     heap m nm = Some (Pointers (qn @ replicate (length cs) None)) \<longrightarrow>
     heap m e = Some (Pointers (qs @ replicate (length cs) None)) \<longrightarrow> length qn = length qs \<longrightarrow> views m0 p cs \<longrightarrow>
     sum_list (map (\<lambda>c. weight c + 1) cs) < n \<longrightarrow>
     members_post m0 m X nm qn e qs (map (\<lambda>c. print_string_ptr (cstring c)) cs) (map (\<lambda>c. print_value c depth fmt) cs)
       (print_members_mem n nm e (length qs) p depth fmt m))"

definition value_printed :: "nat \<Rightarrow> bool" where
  "value_printed n \<longleftrightarrow> (\<forall>m a c rest depth fmt. mem_ok m \<longrightarrow> views m (Some a) (c # rest) \<longrightarrow> weight c \<le> n \<longrightarrow>
     (\<exists>r m'. print_value_mem n (Some a) depth fmt m = Some (Inr (r, m')) \<and> printed m (print_value c depth fmt) r m'))"

lemma value_printedE:
  assumes "value_printed n" "mem_ok m" "views m (Some a) (c # rest)" "weight c \<le> n"
  obtains r m' where "print_value_mem n (Some a) depth fmt m = Some (Inr (r, m'))" "printed m (print_value c depth fmt) r m'"
  using assms(1) [unfolded value_printed_def, rule_format, OF assms(2-4)] by blast

text \<open>The chain is not touched.\<close>

lemma holds_view: "holds m0 m X \<Longrightarrow> heap m0 a = Some x \<Longrightarrow> heap m a = Some x"
  using ext_heap holds_ok by blast

lemma those_Cons: "those (x # xs) = (case x of None \<Rightarrow> None | Some y \<Rightarrow> map_option (Cons y) (those xs))"
  by (simp split: option.split)

lemma dom_mono: "(\<And>x. x \<in> dom (heap m) \<Longrightarrow> x \<noteq> e \<Longrightarrow> heap m' x = heap m x) \<Longrightarrow> heap m' e = Some y \<Longrightarrow> dom (heap m) \<subseteq> dom (heap m')"
  by (metis domI domIff subsetI)

lemma items_step:
  assumes val: "value_printed n" and IH: "items_filled n"
  shows "items_filled (Suc n)"
  unfolding items_filled_def
proof (intro allI impI)
  fix m0 m X e qs p and cs :: "cJSON list" and depth fmt
  assume h: "holds m0 m X" and e: "e \<in> X" "heap m e = Some (Pointers (qs @ replicate (length cs) None))"
    and v: "views m0 p cs" and n: "sum_list (map (\<lambda>c. weight c + 1) cs) < Suc n"
  define pr where "pr = (\<lambda>c. print_value c depth fmt)"
  have "items_post m0 m X e qs (map pr cs) (print_items_mem (Suc n) e (length qs) p depth fmt m)"
  proof (cases cs)
    case Nil
    then show ?thesis
      unfolding items_post_def using h e v
      by (intro exI [of _ False] exI [of _ m] exI [of _ "[]"]) (simp add: filled_def)
  next
    case (Cons c cs')
    obtain a it where a: "p = Some a" "heap m0 a = Some (Item it)" "views m0 (i_next it) cs'" using v Cons by auto
    have v': "views m (Some a) (c # cs')" using ext_views [OF v holds_ok(3) [OF h] holds_ok(2) [OF h]] Cons a(1) by simp
    have w: "weight c \<le> n" "sum_list (map (\<lambda>c. weight c + 1) cs') < n" using n Cons by auto
    obtain r m1 where r: "print_value_mem n (Some a) depth fmt m = Some (Inr (r, m1))" "printed m (pr c) r m1"
      unfolding pr_def by (rule value_printedE [OF val holds_ok(1) [OF h] v' w(1)])
    obtain m2 where m2: "put_ptr e (length qs) r m1 = Inr m2" "holds m0 m2 (X \<union> set (opt_list r))"
      "heap m2 e = Some (Pointers (qs @ r # replicate (length cs') None))" "\<And>x. x \<in> dom (heap m) \<Longrightarrow> x \<noteq> e \<Longrightarrow> heap m2 x = heap m x"
      "set (opt_list r) \<inter> dom (heap m) = {}" "onward m m2"
      "case r of None \<Rightarrow> pr c = None \<or> starved m m2 | Some b \<Rightarrow> \<exists>t. pr c = Some t \<and> heap m2 b = Some (Text t)"
      by (rule slot_filled [OF r(2) h e(1) e(2) [unfolded Cons replicate_Suc_None]]) (rule that)
    have at: "item_at m2 a = Inr it" using holds_view [OF m2(2) a(2)] by (simp add: item_at_Inr)
    have run: "print_items_mem (Suc n) e (length qs) p depth fmt m =
        (if r = None then Some (Inr (True, m2)) else print_items_mem n e (length (qs @ [r])) (i_next it) depth fmt m2)"
      using a(1) r(1) m2(1) at by simp
    show ?thesis
    proof (cases r)
      case None
      then show ?thesis unfolding run items_post_def
        using m2(2,3,4,6,7) Cons
        by (intro exI [of _ True] exI [of _ m2] exI [of _ "replicate (length cs) None"]) (auto simp: filled_def those_Cons)
    next
      case (Some b)
      obtain t where t: "pr c = Some t" "heap m2 b = Some (Text t)" using m2(7) Some by auto
      have "items_post m0 m2 (X \<union> set (opt_list r)) e (qs @ [r]) (map pr cs')
          (print_items_mem n e (length (qs @ [r])) (i_next it) depth fmt m2)"
        unfolding pr_def by (rule IH [unfolded items_filled_def, rule_format, OF m2(2) _ _ a(3) w(2)]) (use e(1) m2(3) in simp_all)
      then obtain fail m' rs where l: "print_items_mem n e (length (qs @ [r])) (i_next it) depth fmt m2 = Some (Inr (fail, m'))"
        "filled m0 m2 (X \<union> set (opt_list r)) [(e, qs @ [r], rs)] (length cs') m'"
        "if fail then those (map pr cs') = None \<or> starved m2 m' else \<exists>ts. those (map pr cs') = Some ts \<and> texts m' rs ts"
        unfolding items_post_def by auto
      have f: "holds m0 m' (X \<union> set (opt_list r) \<union> set (addrs rs))" "distinct (addrs rs)" "set (addrs rs) \<inter> dom (heap m2) = {}"
        "onward m2 m'" "length rs = length cs'" "heap m' e = Some (Pointers ((qs @ [r]) @ rs))"
        "\<And>x. x \<in> dom (heap m2) \<Longrightarrow> x \<noteq> e \<Longrightarrow> heap m' x = heap m2 x"
        using l(2) by (auto simp: filled_def)
      have sub: "dom (heap m) \<subseteq> dom (heap m2)" by (rule dom_mono [OF m2(4,3)])
      have "set (addrs rs) \<inter> dom (heap m) = {}" using f(3) sub by blast
      then have "set (addrs (r # rs)) \<inter> dom (heap m) = {}" "distinct (addrs (r # rs))" using f(2,3) m2(5) t(2) Some by auto
      moreover have "heap m' x = heap m x" if "x \<in> dom (heap m)" "x \<noteq> e" for x
        using f(7) [of x] m2(4) [of x] sub that by auto
      ultimately have "filled m0 m X [(e, qs, r # rs)] (length cs) m'"
        using f(1,4-6) onward_trans [OF m2(6)] Cons by (auto simp: filled_def Un_ac)
      moreover have "b \<noteq> e" using m2(3) t(2) by auto
      then have "heap m' b = Some (Text t)" using f(7) [of b] t(2) by auto
      ultimately show ?thesis unfolding run items_post_def
        using Some l(1,3) t(1) Cons starved_trans(2) [OF m2(6)]
        by (intro exI [of _ fail] exI [of _ m'] exI [of _ "r # rs"]) (auto simp: those_Cons split: if_splits)
    qed
  qed
  then show "items_post m0 m X e qs (map (\<lambda>c. print_value c depth fmt) cs) (print_items_mem (Suc n) e (length qs) p depth fmt m)"
    by (simp add: pr_def)
qed

lemma members_step:
  assumes val: "value_printed n" and IH: "members_filled n"
  shows "members_filled (Suc n)"
  unfolding members_filled_def
proof (intro allI impI)
  fix m0 m X nm e qn qs p and cs :: "cJSON list" and depth fmt
  assume h: "holds m0 m X" and nm: "nm \<in> X" and e: "e \<in> X" and ne: "nm \<noteq> e"
    and at_nm: "heap m nm = Some (Pointers (qn @ replicate (length cs) None))"
    and at_e: "heap m e = Some (Pointers (qs @ replicate (length cs) None))" and len: "length qn = length qs"
    and v: "views m0 p cs" and n: "sum_list (map (\<lambda>c. weight c + 1) cs) < Suc n"
  define pr where "pr = (\<lambda>c. print_value c depth fmt)"
  define nam where "nam = (\<lambda>c. print_string_ptr (cstring c))"
  have "members_post m0 m X nm qn e qs (map nam cs) (map pr cs) (print_members_mem (Suc n) nm e (length qs) p depth fmt m)"
  proof (cases cs)
    case Nil
    then show ?thesis
      unfolding members_post_def using h at_nm at_e v
      by (intro exI [of _ False] exI [of _ m] exI [of _ "[]"]) (simp add: filled_def)
  next
    case (Cons c cs')
    obtain a it where a: "p = Some a" "heap m0 a = Some (Item it)" "views m0 (i_next it) cs'"
      "ptr_text m0 (i_string it) (cstring c)"
      using v Cons by auto
    have w: "weight c \<le> n" "sum_list (map (\<lambda>c. weight c + 1) cs') < n" using n Cons by auto
    have at: "item_at m a = Inr it" using holds_view [OF h a(2)] by (simp add: item_at_Inr)
    have "ptr_text m (i_string it) (cstring c)" using ext_ptr_text [OF holds_ok(3) [OF h] holds_ok(2) [OF h] a(4)] .
    then obtain str m1 where s1: "print_string_ptr_mem (i_string it) m = Inr (str, m1)" "printed m (Some (nam c)) str m1"
      using string_printed [OF holds_ok(1) [OF h]] unfolding nam_def by blast
    obtain m2 where m2: "put_ptr nm (length qn) str m1 = Inr m2" "holds m0 m2 (X \<union> set (opt_list str))"
      "heap m2 nm = Some (Pointers (qn @ str # replicate (length cs') None))" "\<And>x. x \<in> dom (heap m) \<Longrightarrow> x \<noteq> nm \<Longrightarrow> heap m2 x = heap m x"
      "set (opt_list str) \<inter> dom (heap m) = {}" "onward m m2"
      "case str of None \<Rightarrow> Some (nam c) = None \<or> starved m m2 | Some b \<Rightarrow> \<exists>t. Some (nam c) = Some t \<and> heap m2 b = Some (Text t)"
      by (rule slot_filled [OF s1(2) h nm at_nm [unfolded Cons replicate_Suc_None]]) (rule that)
    have at_e2: "heap m2 e = Some (Pointers (qs @ None # replicate (length cs') None))"
      using m2(4) [of e] at_e ne Cons by auto
    have v2: "views m2 (Some a) (c # cs')" using ext_views [OF v holds_ok(3) [OF h] holds_ok(2) [OF m2(2)]] Cons a(1) by simp
    obtain r m3 where r: "print_value_mem n (Some a) depth fmt m2 = Some (Inr (r, m3))" "printed m2 (pr c) r m3"
      unfolding pr_def by (rule value_printedE [OF val holds_ok(1) [OF m2(2)] v2 w(1)])
    obtain m4 where m4: "put_ptr e (length qs) r m3 = Inr m4" "holds m0 m4 (X \<union> set (opt_list str) \<union> set (opt_list r))"
      "heap m4 e = Some (Pointers (qs @ r # replicate (length cs') None))" "\<And>x. x \<in> dom (heap m2) \<Longrightarrow> x \<noteq> e \<Longrightarrow> heap m4 x = heap m2 x"
      "set (opt_list r) \<inter> dom (heap m2) = {}" "onward m2 m4"
      "case r of None \<Rightarrow> pr c = None \<or> starved m2 m4 | Some b \<Rightarrow> \<exists>t. pr c = Some t \<and> heap m4 b = Some (Text t)"
      by (rule slot_filled [OF r(2) m2(2) _ at_e2]) (use e in simp, rule that)
    have at4: "item_at m4 a = Inr it" using holds_view [OF m4(2) a(2)] by (simp add: item_at_Inr)
    have run: "print_members_mem (Suc n) nm e (length qs) p depth fmt m =
        (if str = None \<or> r = None then Some (Inr (True, m4))
         else print_members_mem n nm e (length (qs @ [r])) (i_next it) depth fmt m4)"
      using a(1) at s1(1) m2(1) r(1) m4(1) at4 len by simp
    have "dom (heap m) \<subseteq> dom (heap m2)" by (rule dom_mono [OF m2(4,3)])
    moreover have "dom (heap m2) \<subseteq> dom (heap m4)" by (rule dom_mono [OF m4(4,3)])
    ultimately have sub: "dom (heap m) \<subseteq> dom (heap m2)" "dom (heap m2) \<subseteq> dom (heap m4)" .
    have onward: "onward m m4" by (rule onward_trans [OF m2(6) m4(6)])
    have nm4: "heap m4 nm = Some (Pointers (qn @ str # replicate (length cs') None))" using m4(4) [of nm] m2(3) ne by auto
    have keep: "heap m4 x = heap m x" if "x \<in> dom (heap m)" "x \<noteq> nm" "x \<noteq> e" for x
      using m4(4) [of x] m2(4) [of x] sub(1) that by auto
    have str: "str = Some b \<Longrightarrow> b \<in> dom (heap m2)" for b using m2(7) by auto
    have new: "distinct (opt_list str @ opt_list r)" "set (opt_list str @ opt_list r) \<inter> dom (heap m) = {}"
      using m2(5) m4(5) sub(1) str by (cases str; cases r; auto)+
    show ?thesis
    proof (cases "str = None \<or> r = None")
      case True
      have "those (map pr cs) = None \<or> starved m m4"
        using True m2(7) m4(7) Cons starved_trans(1) [OF _ m4(6)] starved_trans(2) [OF m2(6)]
        by (auto simp: those_Cons split: option.splits)
      moreover have "addrs (x # replicate k None) = opt_list x" for x k by simp
      then have "filled m0 m X [(nm, qn, str # replicate (length cs') None), (e, qs, r # replicate (length cs') None)] (length cs) m4"
        using m4(2,3) nm4 keep onward new Cons by (auto simp: filled_def Un_ac simp del: map_replicate)
      ultimately show ?thesis unfolding run members_post_def
        using True by (intro exI [of _ True] exI [of _ m4] exI) simp
    next
      case False
      then obtain b d where bd: "str = Some b" "r = Some d" by auto
      obtain t where t: "pr c = Some t" "heap m4 d = Some (Text t)" "heap m2 b = Some (Text (nam c))" using m2(7) m4(7) bd by auto
      have ned: "d \<noteq> e" "d \<noteq> nm" "b \<noteq> nm" "b \<noteq> e" using t m4(3) nm4 m2(3) at_e2 by auto
      have b4: "heap m4 b = Some (Text (nam c))" using m4(4) [of b] t(3) ned by auto
      have "members_post m0 m4 (X \<union> set (opt_list str) \<union> set (opt_list r)) nm (qn @ [str]) e (qs @ [r]) (map nam cs') (map pr cs')
          (print_members_mem n nm e (length (qs @ [r])) (i_next it) depth fmt m4)"
        unfolding pr_def nam_def
        by (rule IH [unfolded members_filled_def, rule_format, OF m4(2) _ _ ne _ _ _ a(3) w(2)])
          (use nm e m4(3) nm4 len in simp_all)
      then obtain fail m' rn rs where l:
        "print_members_mem n nm e (length (qs @ [r])) (i_next it) depth fmt m4 = Some (Inr (fail, m'))"
        "filled m0 m4 (X \<union> set (opt_list str) \<union> set (opt_list r)) [(nm, qn @ [str], rn), (e, qs @ [r], rs)] (length cs') m'"
        "if fail then those (map pr cs') = None \<or> starved m4 m'
         else \<exists>ts. those (map pr cs') = Some ts \<and> texts m' rs ts \<and> texts m' rn (map nam cs')"
        unfolding members_post_def by auto
      have f: "holds m0 m' (X \<union> set (opt_list str) \<union> set (opt_list r) \<union> set (addrs rn @ addrs rs))" "distinct (addrs rn @ addrs rs)"
        "set (addrs rn @ addrs rs) \<inter> dom (heap m4) = {}" "onward m4 m'" "length rn = length cs'" "length rs = length cs'"
        "heap m' nm = Some (Pointers ((qn @ [str]) @ rn))" "heap m' e = Some (Pointers ((qs @ [r]) @ rs))"
        "\<And>x. x \<in> dom (heap m4) \<Longrightarrow> x \<noteq> nm \<Longrightarrow> x \<noteq> e \<Longrightarrow> heap m' x = heap m4 x"
        using l(2) by (auto simp: filled_def)
      have "set (addrs rn @ addrs rs) \<inter> dom (heap m) = {}" using f(3) sub by blast
      moreover have "b \<notin> set (addrs rn @ addrs rs)" "d \<notin> set (addrs rn @ addrs rs)" using f(3) b4 t(2) by blast+
      ultimately have "set (addrs (str # rn) @ addrs (r # rs)) \<inter> dom (heap m) = {}" "distinct (addrs (str # rn) @ addrs (r # rs))"
        using f(2) new bd by auto
      moreover have "heap m' x = heap m x" if "x \<in> dom (heap m)" "x \<noteq> nm" "x \<noteq> e" for x
        using f(9) [of x] keep [of x] sub that by auto
      moreover have "holds m0 m' (X \<union> set (addrs (str # rn) @ addrs (r # rs)))" using f(1) by (simp add: Un_ac)
      ultimately have "filled m0 m X [(nm, qn, str # rn), (e, qs, r # rs)] (length cs) m'"
        using f(4-8) onward_trans [OF onward] Cons by (simp add: filled_def)
      moreover have "heap m' b = Some (Text (nam c))" "heap m' d = Some (Text t)" using f(9) [of b] f(9) [of d] t(2) b4 ned by auto
      ultimately show ?thesis unfolding run members_post_def
        using bd l(1,3) t(1) Cons starved_trans(2) [OF onward]
        by (intro exI [of _ fail] exI [of _ m'] exI [of _ "str # rn"] exI [of _ "r # rs"]) (auto simp: those_Cons split: if_splits)
    qed
  qed
  then show "members_post m0 m X nm qn e qs (map (\<lambda>c. print_string_ptr (cstring c)) cs) (map (\<lambda>c. print_value c depth fmt) cs)
      (print_members_mem (Suc n) nm e (length qs) p depth fmt m)"
    by (simp add: pr_def nam_def)
qed

section \<open>The text, or nothing\<close>

lemma alloc_run_printed:
  assumes "mem_ok m"
  shows "\<exists>r m'. Some (Inr (alloc (Text t) m)) = Some (Inr (r, m')) \<and> printed m (Some t) r m'"
  using alloc_printed [OF assms, of t] by (cases "alloc (Text t) m") simp

lemma those_length: "those xs = Some ys \<Longrightarrow> length ys = length xs"
  by (induction xs arbitrary: ys) (auto simp: those_Cons split: option.splits)

lemma array_printed:
  assumes I: "items_filled n" and m: "mem_ok m" and v: "views m (i_child it) (child c)"
    and n: "sum_list (map (\<lambda>c. weight c + 1) (child c)) < n"
  shows "\<exists>r m'. print_array_mem (Suc n) it depth fmt m = Some (Inr (r, m')) \<and> printed m (print_array c depth fmt) r m'"
proof -
  let ?cs = "child c"
  have len: "length ?cs < n"
    using n sum_list_mono [of ?cs "\<lambda>_. 1" "\<lambda>c. weight c + 1"] by (simp add: sum_list_triv)
  define ss where "ss = map (\<lambda>c. print_value c (depth + 1) fmt) ?cs"
  have pure: "print_array c depth fmt = map_option (print_array_out fmt) (those ss)"
    by (cases c) (simp add: ss_def del: print_value.simps)
  have count: "array_size_loop n (i_child it) 0 m = Some (Inr (length ?cs))" using array_size_views [OF v len, of 0] by simp
  show ?thesis
  proof (cases "?cs = []")
    case True
    then have "print_array c depth fmt = Some ''[]''" by (simp add: pure ss_def print_array_out_def)
    then show ?thesis using True count alloc_run_printed [OF m, of "''[]''"] by simp
  next
    case False
    show ?thesis using m
    proof (cases rule: alloc_onward [where x = "Pointers (replicate (length ?cs) None)"])
      case (fail m')
      then have "printed m (print_array c depth fmt) None m'" by (simp add: printed_def)
      then show ?thesis using False count fail(1) by simp
    next
      case (new e m1)
      have h: "holds m m1 {e}" using holds_new [OF holds_refl [OF m] new(2-4)] by simp
      have "items_post m m1 {e} e [] ss (print_items_mem n e (length ([] :: nat option list)) (i_child it) (depth + 1) fmt m1)"
        unfolding ss_def
        by (rule I [unfolded items_filled_def, rule_format, OF h _ _ v n]) (use new(3) in simp_all)
      then obtain fail m2 rs where l: "print_items_mem n e 0 (i_child it) (depth + 1) fmt m1 = Some (Inr (fail, m2))"
        "filled m m1 {e} [(e, [], rs)] (length ss) m2"
        "if fail then those ss = None \<or> starved m1 m2 else \<exists>ts. those ss = Some ts \<and> texts m2 rs ts"
        unfolding items_post_def by auto
      have f: "holds m m2 (insert e (set (addrs rs)))" "distinct (addrs rs)" "set (addrs rs) \<inter> dom (heap m1) = {}" "onward m1 m2"
        "heap m2 e = Some (Pointers rs)"
        using l(2) by (auto simp: filled_def)
      have "e \<notin> set (addrs rs)" using f(3) new(3) by auto
      moreover have "if fail then print_array c depth fmt = None \<or> starved m m2
          else \<exists>ts. print_array c depth fmt = Some (print_array_out fmt ts) \<and> texts m2 rs ts"
        using l(3) starved_trans(2) [OF new(5)] by (auto simp: pure split: if_splits)
      ultimately obtain r m' where "finish_array fail fmt e m2 = Inr (r, m')" "printed m (print_array c depth fmt) r m'"
        using finish_array_printed [OF f(1) _ f(5,2) onward_trans [OF new(5) f(4)]] by blast
      then show ?thesis using False count new(1) l(1) by simp
    qed
  qed
qed

lemma object_printed:
  assumes M: "members_filled n" and m: "mem_ok m" and v: "views m (i_child it) (child c)"
    and n: "sum_list (map (\<lambda>c. weight c + 1) (child c)) < n"
  shows "\<exists>r m'. print_object_mem (Suc n) it depth fmt m = Some (Inr (r, m')) \<and> printed m (print_object c depth fmt) r m'"
proof -
  let ?cs = "child c"
  have len: "length ?cs < n"
    using n sum_list_mono [of ?cs "\<lambda>_. 1" "\<lambda>c. weight c + 1"] by (simp add: sum_list_triv)
  define ss where "ss = map (\<lambda>c. print_value c (depth + 1) fmt) ?cs"
  define ns where "ns = map (\<lambda>c. print_string_ptr (cstring c)) ?cs"
  have pure: "print_object c depth fmt = map_option (\<lambda>ts. print_object_out fmt depth (zip ns ts)) (those ss)"
    by (cases c) (simp add: ss_def ns_def del: print_value.simps)
  have count: "array_size_loop n (i_child it) 0 m = Some (Inr (length ?cs))" using array_size_views [OF v len, of 0] by simp
  show ?thesis
  proof (cases "?cs = []")
    case True
    then have "print_object c depth fmt = Some (print_object_out fmt depth [])" by (simp add: pure ss_def ns_def)
    then show ?thesis using True count alloc_run_printed [OF m, of "print_object_out fmt depth []"] by simp
  next
    case False
    let ?P = "Pointers (replicate (length ?cs) None)"
    show ?thesis using m
    proof (cases rule: alloc_onward [where x = ?P])
      case (fail m')
      then have "printed m (print_object c depth fmt) None m'" by (simp add: printed_def)
      then show ?thesis using False count fail(1) by simp
    next
      case (new e m1)
      have h: "holds m m1 {e}" using holds_new [OF holds_refl [OF m] new(2-4)] by simp
      show ?thesis using holds_ok(1) [OF h]
      proof (cases rule: alloc_onward [where x = ?P])
        case (fail m2)
        have "holds m m2 {e}" by (rule holds_same [OF h fail(2,3)])
        then have "printed m (print_object c depth fmt) None (release {e} m2)"
          by (rule printed_undone) (use fail(4,5) new(5) onward_trans starved_trans(2) in blast)+
        moreover have "free_cell e m2 = Inr (release {e} m2)" by (rule free_cell_release) (use fail(3) new(3) in auto)
        ultimately show ?thesis using False count new(1) fail(1) by simp
      next
        case two: (new nm m2)
        have h2: "holds m m2 {nm, e}" using holds_new [OF h two(2-4)] by simp
        have ne: "nm \<noteq> e" using two(4) new(3) by auto
        have at: "heap m2 nm = Some ?P" "heap m2 e = Some ?P" using two(3) new(3) ne by simp_all
        have "members_post m m2 {nm, e} nm [] e [] ns ss (print_members_mem n nm e (length ([] :: nat option list)) (i_child it) (depth + 1) fmt m2)"
          unfolding ss_def ns_def
          by (rule M [unfolded members_filled_def, rule_format, OF h2 _ _ ne _ _ _ v n]) (use at in simp_all)
        then obtain fail m3 rn rs where l: "print_members_mem n nm e 0 (i_child it) (depth + 1) fmt m2 = Some (Inr (fail, m3))"
          "filled m m2 {nm, e} [(nm, [], rn), (e, [], rs)] (length ss) m3"
          "if fail then those ss = None \<or> starved m2 m3 else \<exists>ts. those ss = Some ts \<and> texts m3 rs ts \<and> texts m3 rn ns"
          unfolding members_post_def by auto
        have f: "holds m m3 (insert nm (insert e (set (addrs rn @ addrs rs))))" "distinct (addrs rn @ addrs rs)"
          "set (addrs rn @ addrs rs) \<inter> dom (heap m2) = {}" "onward m2 m3" "length rn = length rs"
          "heap m3 nm = Some (Pointers rn)" "heap m3 e = Some (Pointers rs)"
          using l(2) by (auto simp: filled_def)
        have out: "nm \<notin> set (addrs rn @ addrs rs)" "e \<notin> set (addrs rn @ addrs rs)" using f(3) at by blast+
        have onward: "onward m m2" by (rule onward_trans [OF new(5) two(5)])
        have "if fail then print_object c depth fmt = None \<or> starved m m3
            else \<exists>ns ts. print_object c depth fmt = Some (print_object_out fmt depth (zip ns ts)) \<and> texts m3 rn ns \<and> texts m3 rs ts"
          using l(3) starved_trans(2) [OF onward] by (auto simp: pure split: if_splits)
        then obtain r m' where "finish_object fail fmt depth nm e m3 = Inr (r, m')" "printed m (print_object c depth fmt) r m'"
          using finish_object_printed [OF f(1) ne out f(6,7,2,5) onward_trans [OF onward f(4)]] by blast
        then show ?thesis using False count new(1) two(1) l(1) by simp
      qed
    qed
  qed
qed

lemma value_step:
  assumes I: "items_filled n" and M: "members_filled n"
  shows "value_printed (Suc (Suc n))"
  unfolding value_printed_def
proof (intro allI impI)
  fix m a c rest depth fmt
  assume m: "mem_ok m" and v: "views m (Some a) (c # rest)" and w: "weight c \<le> Suc (Suc n)"
  obtain it where it: "heap m a = Some (Item it)" "i_type it = ctype c" "i_vals it = vals_of c"
    "ptr_text m (i_valuestring it) (valuestring c)" "views m (i_child it) (child c)"
    using v by auto
  have n: "sum_list (map (\<lambda>c. weight c + 1) (child c)) < n" using w by (cases c) simp
  obtain r m' where s: "print_string_ptr_mem (i_valuestring it) m = Inr (r, m')" "printed m (Some (print_string c)) r m'"
    using string_printed [OF m it(4)] unfolding print_string_def by blast
  have num: "print_number_mem it m = alloc (Text (print_number c)) m"
    using it(3) by (cases c) (simp add: print_number_mem_def print_number_def)
  have "printed m None None m" using m by (simp add: printed_def ext_refl)
  then show "\<exists>r m'. print_value_mem (Suc (Suc n)) (Some a) depth fmt m = Some (Inr (r, m')) \<and> printed m (print_value c depth fmt) r m'"
    using it(1,2) s num alloc_run_printed [OF m] array_printed [OF I m it(5) n, of depth fmt]
      object_printed [OF M m it(5) n, of depth fmt]
    unfolding print_value_mem.simps print_value.simps Let_def item_at_Inr [THEN iffD2, OF it(1)] bind_r_simps it(2)
    by (simp del: print_array_mem.simps print_object_mem.simps print_array.simps print_object.simps)
qed

lemma print_runs: "value_printed n \<and> items_filled n \<and> members_filled n"
proof (induction n rule: less_induct)
  case (less n)
  show ?case
  proof (cases n)
    case 0
    have "\<not> weight c \<le> 0" for c by (cases c) simp
    then show ?thesis unfolding 0 value_printed_def items_filled_def members_filled_def by blast
  next
    case n: (Suc k)
    have k: "value_printed k" "items_filled k" "members_filled k" using less [of k] n by auto
    have "value_printed n"
    proof (cases k)
      case 0
      have "\<not> weight c \<le> 1" for c by (cases c) simp
      then show ?thesis unfolding n 0 value_printed_def by simp
    next
      case (Suc j)
      then have "items_filled j" "members_filled j" using less [of j] n by auto
      then show ?thesis unfolding n Suc by (rule value_step)
    qed
    then show ?thesis using items_step [OF k(1,2)] members_step [OF k(1,3)] n by simp
  qed
qed

text \<open>C36: Whichever of its allocations fail, \<open>cJSON_Print\<close> and \<open>cJSON_PrintUnformatted\<close> return, without touching memory that is not
  allocated, and leave the heap as it was but for the result: either they return NULL, and then the tree cannot be
  printed or an allocation has failed, or they return one new cell with the text that the printer of trees gives. All the
  texts of entries and names and the arrays that hold them are released, each once.\<close>

theorem print_all_or_nothing:
  assumes "mem_ok m" "views m (Some a) (c # rest)" "weight c \<le> n"
  shows "\<exists>r m'. print_value_mem n (Some a) depth fmt m = Some (Inr (r, m'))
    \<and> (case r of
         None \<Rightarrow> heap m' = heap m
           \<and> (print_value c depth fmt = None \<or> (\<exists>k. allocs m \<le> k \<and> k < allocs m' \<and> fails m k))
       | Some b \<Rightarrow> \<exists>t. print_value c depth fmt = Some t \<and> b \<notin> dom (heap m) \<and> heap m' = (heap m)(b \<mapsto> Text t))"
proof -
  obtain r m' where "print_value_mem n (Some a) depth fmt m = Some (Inr (r, m'))" "printed m (print_value c depth fmt) r m'"
    using print_runs [THEN conjunct1, unfolded value_printed_def, rule_format, OF assms] by blast
  then show ?thesis
    by (intro exI [of _ r] exI [of _ m']) (cases r; simp add: printed_def starved_def del: print_value.simps print_value_mem.simps)
qed

section \<open>A tree that the parser has built\<close>

text \<open>What the parser and \<open>cJSON_Duplicate\<close> build can be printed and duplicated.\<close>

lemma text_in_ptr: "text_in (heap m) p s \<Longrightarrow> ptr_text m p s"
  by (auto simp: text_in_def ptr_text_def text_at_def split: option.splits)

lemma seg_views: "seg h v p cs w q F \<Longrightarrow> heap m = h \<Longrightarrow> q = None \<Longrightarrow> views m p cs"
proof (induction h v p cs w q F rule: seg.induct)
  case (2 h v p c cs w q F)
  then show ?case by (fastforce simp: fields_def intro: text_in_ptr)
qed simp

lemma seg_length: "seg h v p cs w q F \<Longrightarrow> length F \<le> sum_list (map weight cs)"
proof (induction h v p cs w q F rule: seg.induct)
  case (2 h v p c cs w q F)
  from 2(3) obtain a it wk Fk Ft where s: "seg h None (i_child it) (child c) wk None Fk" "seg h (Some a) (i_next it) cs w q Ft"
    "F = a # Fk @ strs it @ Ft"
    by auto
  have "length (strs it) \<le> 2" by (cases "i_valuestring it"; cases "i_string it"; simp add: strs_def)
  moreover have "5 + sum_list (map weight (child c)) \<le> weight c"
    using sum_list_mono [of "child c" weight "\<lambda>c. weight c + 1"] by (cases c) simp
  ultimately show ?case using "2.IH"(1) [OF s(1)] "2.IH"(2) [OF s(2)] s(3) by simp
qed simp

text \<open>Such a tree is printed and released.\<close>

lemma print_release:
  assumes m: "mem_ok m" and c: "fresh_tree m m1 a c F" "plain c" "ext m m1" and w: "weight c < n"
  obtains r m2 m3 where "print_value_mem n (Some a) depth fmt m1 = Some (Inr (r, m2))" "json_release n (Some a) m2 = Some (Inr m3)"
    "case r of None \<Rightarrow> heap m3 = heap m
     | Some b \<Rightarrow> \<exists>t. print_value c depth fmt = Some t \<and> b \<notin> dom (heap m) \<and> heap m3 = (heap m)(b \<mapsto> Text t)"
    "printed m1 (print_value c depth fmt) r m2" "onward m2 m3" "ext m m3"
proof -
  have F: "seg (heap m1) None (Some a) [c] (Some a) None F" "distinct F" "set F = dom (heap m1) - dom (heap m)"
    using c(1) by (simp_all add: fresh_tree_def)
  have wt: "length F < n" using w seg_length [OF F(1)] by simp
  have m1: "mem_ok m1" "views m1 (Some a) [c]" using ext_ok [OF c(3)] seg_views [OF F(1) refl refl] by simp_all
  obtain r m2 where r: "print_value_mem n (Some a) depth fmt m1 = Some (Inr (r, m2))" "printed m1 (print_value c depth fmt) r m2"
    by (rule value_printedE [OF print_runs [THEN conjunct1] m1 less_imp_le [OF w]])
  have same: "heap m2 x = heap m1 x" if "x \<in> set F" for x
    using r(2) F(3) that by (cases r) (auto simp: printed_def domIff)
  have "seg (heap m2) None (Some a) [c] (Some a) None F" using F(1) same by (rule seg_frame)
  then have del: "json_release n (Some a) m2 = Some (Inr (release (set F) m2))"
    unfolding json_release_def by (rule Delete_seg [OF _ F(2) _ wt]) (simp add: c(2))
  have clean: "heap m1 |` (- set F) = heap m" using release_new [OF c(3) F(3) m] by simp
  have "case r of None \<Rightarrow> heap (release (set F) m2) = heap m
      | Some b \<Rightarrow> \<exists>t. print_value c depth fmt = Some t \<and> b \<notin> dom (heap m) \<and> heap (release (set F) m2) = (heap m)(b \<mapsto> Text t)"
  proof (cases r)
    case None
    then show ?thesis using r(2) clean by (simp add: printed_def)
  next
    case (Some b)
    then obtain t where t: "print_value c depth fmt = Some t" "b \<notin> dom (heap m1)" "heap m2 = (heap m1)(b \<mapsto> Text t)"
      using r(2) by (auto simp: printed_def)
    have "b \<notin> set F" using t(2) F(3) by auto
    then have "heap (release (set F) m2) = (heap m1 |` (- set F))(b \<mapsto> Text t)" using t(3) by (auto simp: restrict_map_def)
    then have "heap (release (set F) m2) = (heap m)(b \<mapsto> Text t)" unfolding clean .
    moreover have "b \<notin> dom (heap m)" unfolding clean [symmetric] using t(2) by auto
    ultimately show ?thesis using Some t(1) by simp
  qed
  moreover have "ext m (release (set F) m2)"
    using r(2) F(3) by (intro ext_release ext_trans [OF c(3)]) (auto simp: printed_def)
  ultimately show thesis using that [OF r(1) del _ r(2)] by simp
qed

text \<open>C37: A text is parsed, the tree is printed and released: whichever allocations fail on the way, every call returns and
  the heap is what it was before, with one new cell that holds the printed tree, or, when printing has failed, with
  none.\<close>

theorem parse_print_release:
  assumes "mem_ok m"
  shows "\<exists>n0. \<forall>n \<ge> n0. \<forall>a ep m1. cJSON_ParseWithOpts_mem n src rpe rnt m = Some (Inr (Some a, ep, m1)) \<longrightarrow>
    (\<exists>c r m2 m3. cJSON_ParseWithOpts src rpe rnt = Inr (Some c, ep)
       \<and> print_value_mem n (Some a) depth fmt m1 = Some (Inr (r, m2)) \<and> json_release n (Some a) m2 = Some (Inr m3)
       \<and> (case r of
            None \<Rightarrow> heap m3 = heap m
          | Some b \<Rightarrow> \<exists>t. print_value c depth fmt = Some t \<and> b \<notin> dom (heap m) \<and> heap m3 = (heap m)(b \<mapsto> Text t)))"
proof -
  obtain n0 where n0: "\<And>n a ep m1. n0 \<le> n \<Longrightarrow> cJSON_ParseWithOpts_mem n src rpe rnt m = Some (Inr (Some a, ep, m1)) \<Longrightarrow>
      \<exists>c F. cJSON_ParseWithOpts src rpe rnt = Inr (Some c, ep) \<and> fresh_tree m m1 a c F \<and> plain c \<and> ext m m1"
    using parse_run [OF assms, of src rpe rnt] by fastforce
  define w where "w = (case cJSON_ParseWithOpts src rpe rnt of Inr (Some c, ep) \<Rightarrow> weight c | _ \<Rightarrow> 0)"
  show ?thesis
  proof (intro exI [of _ "max n0 (Suc w)"] allI impI)
    fix n a ep m1
    assume n: "max n0 (Suc w) \<le> n" and run: "cJSON_ParseWithOpts_mem n src rpe rnt m = Some (Inr (Some a, ep, m1))"
    obtain c F where c: "cJSON_ParseWithOpts src rpe rnt = Inr (Some c, ep)" "fresh_tree m m1 a c F" "plain c" "ext m m1"
      using n0 [OF _ run] n by auto
    have "weight c < n" using n c(1) by (simp add: w_def)
    then obtain r m2 m3 where "print_value_mem n (Some a) depth fmt m1 = Some (Inr (r, m2))" "json_release n (Some a) m2 = Some (Inr m3)"
      "case r of None \<Rightarrow> heap m3 = heap m
       | Some b \<Rightarrow> \<exists>t. print_value c depth fmt = Some t \<and> b \<notin> dom (heap m) \<and> heap m3 = (heap m)(b \<mapsto> Text t)"
      by (rule print_release [OF assms c(2-4)])
    then show "\<exists>c r m2 m3. cJSON_ParseWithOpts src rpe rnt = Inr (Some c, ep)
       \<and> print_value_mem n (Some a) depth fmt m1 = Some (Inr (r, m2)) \<and> json_release n (Some a) m2 = Some (Inr m3)
       \<and> (case r of
            None \<Rightarrow> heap m3 = heap m
          | Some b \<Rightarrow> \<exists>t. print_value c depth fmt = Some t \<and> b \<notin> dom (heap m) \<and> heap m3 = (heap m)(b \<mapsto> Text t))"
      using c(1) by blast
  qed
qed

section \<open>Small runs\<close>

theorem print_all_or_nothing_witness:
  "\<exists>b m'. print_value_mem 11 (Some 0) 0 False sample_mem = Some (Inr (Some b, m'))
     \<and> heap m' = (heap sample_mem)(b \<mapsto> Text [CHR ''['', CHR 0x22, CHR ''x'', CHR 0x22, CHR '']''])"
proof -
  let ?c = "CJSON cJSON_Array None 0 0 0 (DFin 0) None [CJSON cJSON_String (Some ''x'') 0 0 0 (DFin 0) None []]"
  have v: "views sample_mem (Some 0) (?c # [])"
    by (simp add: sample_mem_def null_item_def ptr_text_def text_at_def)
  have pure: "print_value ?c 0 False = Some [CHR ''['', CHR 0x22, CHR ''x'', CHR 0x22, CHR '']'']" by code_simp
  have "fails sample_mem k = False" for k by (simp add: sample_mem_def)
  then show ?thesis
    using print_all_or_nothing [OF sample_ok v, of 11 0 False] unfolding pure by (auto split: option.splits)
qed

theorem parse_print_release_witness:
  "\<exists>n m1 r m2 m3. cJSON_ParseWithOpts_mem n (Some ''[]'') True False sample_mem = Some (Inr (Some 6, Some [], m1))
     \<and> print_value_mem n (Some 6) 0 False m1 = Some (Inr (r, m2)) \<and> json_release n (Some 6) m2 = Some (Inr m3)"
  using parse_print_release [OF sample_ok, of "Some ''[]''" True False 0 False] sample_parsed by blast

end
