(* ===== verification/CJsonMemEdit.thy ===== *)
theory CJsonMemEdit imports CJsonMemParse begin

text \<open>
  The operations of \<open>json/cJSON.c\<close> that change an array or an object, on the heap: detaching, deleting, inserting and
  replacing. They are the operations on trees of \<open>CJson\<close>; what they take out is released, or handed to the caller, and
  no other cell is touched.
\<close>

section \<open>The functions\<close>

text \<open>\<open>while (c && which>0) c=c->next,which--;\<close>\<close>

fun nth_item_mem :: "nat \<Rightarrow> nat option \<Rightarrow> mem \<Rightarrow> nat option c" where
  "nth_item_mem 0 c m = Inr c"
| "nth_item_mem (Suc which) None m = Inr None"
| "nth_item_mem (Suc which) (Some c) m = bind_c (item_at m c) (\<lambda>it. nth_item_mem which (i_next it) m)"

text \<open>The name of an item, as \<open>cJSON_strcasecmp\<close> reads it.\<close>

definition name_at :: "nat option \<Rightarrow> mem \<Rightarrow> string option c" where
  "name_at p m = (case p of None \<Rightarrow> Inr None | Some a \<Rightarrow> bind_c (text_at m a) (\<lambda>s. Inr (Some s)))"

fun find_index_mem :: "nat \<Rightarrow> string \<Rightarrow> nat option \<Rightarrow> nat \<Rightarrow> mem \<Rightarrow> nat option run" where
  "find_index_mem 0 key c i m = None"
| "find_index_mem (Suc n) key None i m = Some (Inr None)"
| "find_index_mem (Suc n) key (Some c) i m =
     bind_r (Some (item_at m c)) (\<lambda>it. bind_r (Some (name_at (i_string it) m)) (\<lambda>s.
       if cJSON_strcasecmp s (Some key) = 0 then Some (Inr (Some i)) else find_index_mem n key (i_next it) (Suc i) m))"

text \<open>An assignment through a pointer that has been tested.\<close>

definition change_opt :: "nat option \<Rightarrow> (item \<Rightarrow> item) \<Rightarrow> mem \<Rightarrow> mem c" where
  "change_opt p f m = (case p of None \<Rightarrow> Inr m | Some a \<Rightarrow> change_item a f m)"

definition DetachItemFromArray_mem :: "nat \<Rightarrow> int \<Rightarrow> mem \<Rightarrow> (nat option \<times> mem) c" where
  "DetachItemFromArray_mem array which m =
     bind_c (item_at m array) (\<lambda>arr. bind_c (nth_item_mem (nat which) (i_child arr) m) (\<lambda>c.
       case c of
         None \<Rightarrow> Inr (None, m)
       | Some c \<Rightarrow>
           bind_c (item_at m c) (\<lambda>it. bind_c (change_opt (i_prev it) (\<lambda>p. p\<lparr>i_next := i_next it\<rparr>) m) (\<lambda>m.
           bind_c (item_at m c) (\<lambda>it. bind_c (change_opt (i_next it) (\<lambda>p. p\<lparr>i_prev := i_prev it\<rparr>) m) (\<lambda>m.
           bind_c (item_at m c) (\<lambda>it. bind_c (item_at m array) (\<lambda>arr.
           bind_c (if i_child arr = Some c then change_item array (\<lambda>p. p\<lparr>i_child := i_next it\<rparr>) m else Inr m) (\<lambda>m.
           bind_c (change_item c (\<lambda>p. p\<lparr>i_prev := None, i_next := None\<rparr>) m) (\<lambda>m. Inr (Some c, m)))))))))))"

definition DeleteItemFromArray_mem :: "nat \<Rightarrow> nat \<Rightarrow> int \<Rightarrow> mem \<Rightarrow> mem run" where
  "DeleteItemFromArray_mem n array which m =
     bind_r (Some (DetachItemFromArray_mem array which m)) (\<lambda>(c, m). cJSON_Delete n c m)"

definition DetachItemFromObject_mem :: "nat \<Rightarrow> nat \<Rightarrow> string \<Rightarrow> mem \<Rightarrow> (nat option \<times> mem) run" where
  "DetachItemFromObject_mem n obj key m =
     bind_r (Some (item_at m obj)) (\<lambda>ob. bind_r (find_index_mem n key (i_child ob) 0 m) (\<lambda>i.
       case i of None \<Rightarrow> Some (Inr (None, m)) | Some i \<Rightarrow> Some (DetachItemFromArray_mem obj (int i) m)))"

definition DeleteItemFromObject_mem :: "nat \<Rightarrow> nat \<Rightarrow> string \<Rightarrow> mem \<Rightarrow> mem run" where
  "DeleteItemFromObject_mem n obj key m =
     bind_r (DetachItemFromObject_mem n obj key m) (\<lambda>(c, m). cJSON_Delete n c m)"

definition ReplaceItemInArray_mem :: "nat \<Rightarrow> nat \<Rightarrow> int \<Rightarrow> nat \<Rightarrow> mem \<Rightarrow> mem run" where
  "ReplaceItemInArray_mem n array which newitem m =
     bind_r (Some (item_at m array)) (\<lambda>arr. bind_r (Some (nth_item_mem (nat which) (i_child arr) m)) (\<lambda>c.
       case c of
         None \<Rightarrow> Some (Inr m)
       | Some c \<Rightarrow>
           bind_r (Some (item_at m c)) (\<lambda>it.
           bind_r (Some (change_item newitem (\<lambda>p. p\<lparr>i_next := i_next it, i_prev := i_prev it\<rparr>) m)) (\<lambda>m.
           bind_r (Some (item_at m newitem)) (\<lambda>new.
           bind_r (Some (change_opt (i_next new) (\<lambda>p. p\<lparr>i_prev := Some newitem\<rparr>) m)) (\<lambda>m.
           bind_r (Some (item_at m array)) (\<lambda>arr.
           bind_r (Some (if i_child arr = Some c then change_item array (\<lambda>p. p\<lparr>i_child := Some newitem\<rparr>) m
                         else bind_c (item_at m newitem) (\<lambda>new. bind_c (deref (i_prev new)) (\<lambda>l.
                              change_item l (\<lambda>p. p\<lparr>i_next := Some newitem\<rparr>) m)))) (\<lambda>m.
           bind_r (Some (change_item c (\<lambda>p. p\<lparr>i_next := None, i_prev := None\<rparr>) m)) (\<lambda>m.
             cJSON_Delete n (Some c) m)))))))))"

text \<open>\<open>newitem->string=cJSON_strdup(string)\<close>: an old name is not released.\<close>

definition ReplaceItemInObject_mem :: "nat \<Rightarrow> nat \<Rightarrow> string \<Rightarrow> nat \<Rightarrow> mem \<Rightarrow> mem run" where
  "ReplaceItemInObject_mem n obj key newitem m =
     bind_r (Some (item_at m obj)) (\<lambda>ob. bind_r (find_index_mem n key (i_child ob) 0 m) (\<lambda>i.
       case i of
         None \<Rightarrow> Some (Inr m)
       | Some i \<Rightarrow>
           (case alloc (Text key) m of (s, m) \<Rightarrow>
             bind_r (Some (change_item newitem (\<lambda>p. p\<lparr>i_string := s\<rparr>) m)) (\<lambda>m.
               ReplaceItemInArray_mem n obj (int i) newitem m))))"

definition InsertItemInArray_mem :: "nat \<Rightarrow> nat \<Rightarrow> int \<Rightarrow> nat \<Rightarrow> mem \<Rightarrow> mem run" where
  "InsertItemInArray_mem n array which newitem m =
     bind_r (Some (item_at m array)) (\<lambda>arr. bind_r (Some (nth_item_mem (nat which) (i_child arr) m)) (\<lambda>c.
       case c of
         None \<Rightarrow> AddItemToArray_mem n array (Some newitem) m
       | Some c \<Rightarrow>
           bind_r (Some (item_at m c)) (\<lambda>it.
           bind_r (Some (change_item newitem (\<lambda>p. p\<lparr>i_next := Some c, i_prev := i_prev it\<rparr>) m)) (\<lambda>m.
           bind_r (Some (change_item c (\<lambda>p. p\<lparr>i_prev := Some newitem\<rparr>) m)) (\<lambda>m.
           bind_r (Some (item_at m array)) (\<lambda>arr.
             Some (if i_child arr = Some c then change_item array (\<lambda>p. p\<lparr>i_child := Some newitem\<rparr>) m
                   else bind_c (item_at m newitem) (\<lambda>new. bind_c (deref (i_prev new)) (\<lambda>l.
                        change_item l (\<lambda>p. p\<lparr>i_next := Some newitem\<rparr>) m)))))))))"

section \<open>Chains are taken apart and joined\<close>

lemma seg_next:
  assumes "seg h v p cs (Some l) q F" "cs \<noteq> []" "distinct F" "h l = Some (Item it)"
  shows "seg (h(l \<mapsto> Item (it\<lparr>i_next := r\<rparr>))) v p cs (Some l) r F"
proof -
  define g where "g = h(l \<mapsto> Item (it\<lparr>i_next := r\<rparr>))"
  obtain cs' x where cs: "cs = cs' @ [x]" using assms(2) by (cases cs rule: rev_exhaust) auto
  then obtain w s F1 F2 where s: "seg h v p cs' w s F1" "seg h w s [x] (Some l) q F2" "F = F1 @ F2"
    using assms(1) unfolding cs seg_append by blast
  obtain wk Fk where x: "s = Some l" "i_prev it = w" "fields h it x"
    "seg h None (i_child it) (child x) wk None Fk" "F2 = l # Fk @ strs it"
    using s(2) assms(4) by auto
  have out: "l \<notin> set F1" "l \<notin> set Fk" "l \<notin> set (strs it)" using assms(3) s(3) x(5) by auto
  have same: "g a = h a" if "a \<noteq> l" for a using that by (simp add: g_def)
  have 1: "seg g v p cs' w s F1" by (rule seg_frame [OF s(1)]) (use out in \<open>auto intro!: same\<close>)
  have "fields g it x" by (rule fields_frame [OF x(3)]) (use out in \<open>auto intro!: same\<close>)
  moreover have "seg g None (i_child it) (child x) wk None Fk" by (rule seg_frame [OF x(4)]) (use out in \<open>auto intro!: same\<close>)
  ultimately have "seg g w s [x] (Some l) r F2" using x(1,2,5) by (auto simp: g_def)
  then show ?thesis using 1 unfolding cs seg_append g_def [symmetric] s(3) by blast
qed

lemma seg_prev:
  assumes "seg h v (Some a) (c # cs) w q F" "distinct F" "h a = Some (Item it)"
  shows "seg (h(a \<mapsto> Item (it\<lparr>i_prev := u\<rparr>))) u (Some a) (c # cs) w q F"
proof -
  define g where "g = h(a \<mapsto> Item (it\<lparr>i_prev := u\<rparr>))"
  obtain wk Fk Ft where s: "fields h it c" "seg h None (i_child it) (child c) wk None Fk" "seg h (Some a) (i_next it) cs w q Ft"
    "F = a # Fk @ strs it @ Ft"
    using assms(1,3) by auto
  have out: "a \<notin> set Fk" "a \<notin> set (strs it)" "a \<notin> set Ft" using assms(2) s(4) by auto
  have same: "g x = h x" if "x \<noteq> a" for x using that by (simp add: g_def)
  have "fields g it c" by (rule fields_frame [OF s(1)]) (use out in \<open>auto intro!: same\<close>)
  moreover have "seg g None (i_child it) (child c) wk None Fk" by (rule seg_frame [OF s(2)]) (use out in \<open>auto intro!: same\<close>)
  moreover have "seg g (Some a) (i_next it) cs w q Ft" by (rule seg_frame [OF s(3)]) (use out in \<open>auto intro!: same\<close>)
  ultimately show ?thesis using s(4) by (auto simp: g_def)
qed

lemma change_item_at: "heap m a = Some (Item it) \<Longrightarrow> change_item a f m = Inr (m\<lparr>heap := (heap m)(a \<mapsto> Item (f it))\<rparr>)"
  by (simp add: change_item_def item_at_def put_item_def)

text \<open>\<open>only m m' A\<close>: from \<open>m\<close> to \<open>m'\<close> only the contents of the cells \<open>A\<close> have changed.\<close>

definition only :: "mem \<Rightarrow> mem \<Rightarrow> nat set \<Rightarrow> bool" where
  "only m m' A \<longleftrightarrow> m' = m\<lparr>heap := heap m'\<rparr> \<and> dom (heap m') = dom (heap m) \<and> (\<forall>x. x \<notin> A \<longrightarrow> heap m' x = heap m x)"

lemma only_refl: "only m m A"
  by (simp add: only_def)

lemma only_trans: "only m m' A \<Longrightarrow> only m' m'' B \<Longrightarrow> only m m'' (A \<union> B)"
  unfolding only_def by (cases m; cases m'; cases m'') auto

lemma only_mono: "only m m' A \<Longrightarrow> A \<subseteq> B \<Longrightarrow> only m m' B"
  by (auto simp: only_def)

lemma only_heap: "only m m' A \<Longrightarrow> x \<notin> A \<Longrightarrow> heap m' x = heap m x"
  by (simp add: only_def)

lemma only_item: "heap m a = Some (Item it) \<Longrightarrow> only m (m\<lparr>heap := (heap m)(a \<mapsto> y)\<rparr>) {a}"
  by (auto simp: only_def)

lemma only_seg: "seg (heap m) v p cs w q F \<Longrightarrow> only m m' A \<Longrightarrow> set F \<inter> A = {} \<Longrightarrow> seg (heap m') v p cs w q F"
  by (erule seg_frame) (auto simp: only_def)

lemma only_fields: "fields (heap m) it c \<Longrightarrow> only m m' A \<Longrightarrow> set (strs it) \<inter> A = {} \<Longrightarrow> fields (heap m') it c"
  by (erule fields_frame) (auto simp: only_def)

text \<open>What stands before a place, or behind it, is linked to something else.\<close>

lemma link_left:
  assumes "seg (heap m) None p xs w r0 F" "distinct F"
  obtains m' where "change_opt w (\<lambda>p. p\<lparr>i_next := r\<rparr>) m = Inr m'" "seg (heap m') None (if xs = [] then r else p) xs w r F"
    "only m m' (set F)"
proof (cases "xs = []")
  case True
  then show ?thesis using assms that [of m] by (simp add: change_opt_def only_refl)
next
  case False
  then obtain l it where l: "w = Some l" "l \<in> set F" "heap m l = Some (Item it)" using seg_last [OF assms(1)] by auto
  let ?m = "m\<lparr>heap := (heap m)(l \<mapsto> Item (it\<lparr>i_next := r\<rparr>))\<rparr>"
  have "only m ?m (set F)" by (rule only_mono [OF only_item [OF l(3)]]) (simp add: l(2))
  moreover have "seg (heap ?m) None p xs w r F" using seg_next [OF assms(1) [unfolded l(1)] False assms(2) l(3)] l(1) by simp
  moreover have "change_opt w (\<lambda>p. p\<lparr>i_next := r\<rparr>) m = Inr ?m" using change_item_at [OF l(3)] by (simp add: change_opt_def l(1))
  ultimately show ?thesis using that False by simp
qed

lemma link_right:
  assumes "seg (heap m) v r zs w None F" "distinct F"
  obtains m' w' where "change_opt r (\<lambda>p. p\<lparr>i_prev := u\<rparr>) m = Inr m'" "seg (heap m') u r zs w' None F" "only m m' (set F)"
proof (cases zs)
  case Nil
  then show ?thesis using assms that [of m u] by (simp add: change_opt_def only_refl)
next
  case (Cons c cs)
  then obtain a it where a: "r = Some a" "heap m a = Some (Item it)" "a \<in> set F" using assms(1) by auto
  let ?m = "m\<lparr>heap := (heap m)(a \<mapsto> Item (it\<lparr>i_prev := u\<rparr>))\<rparr>"
  have "only m ?m (set F)" by (rule only_mono [OF only_item [OF a(2)]]) (simp add: a(3))
  moreover have "seg (heap ?m) u r zs w None F"
    using seg_prev [OF assms(1) [unfolded Cons a(1)] assms(2) a(2)] Cons a(1) by simp
  moreover have "change_opt r (\<lambda>p. p\<lparr>i_prev := u\<rparr>) m = Inr ?m" using change_item_at [OF a(2)] by (simp add: change_opt_def a(1))
  ultimately show ?thesis using that by blast
qed

lemma nth_item_seg: "seg (heap m) v p xs w r F \<Longrightarrow> nth_item_mem (length xs) p m = Inr r"
proof (induction xs arbitrary: v p F)
  case (Cons x xs)
  then show ?case by (auto simp: item_at_def)
qed simp

lemma nth_item_end: "seg (heap m) v p xs w None F \<Longrightarrow> length xs \<le> k \<Longrightarrow> nth_item_mem k p m = Inr None"
proof (induction xs arbitrary: v p F k)
  case Nil
  then show ?case by (cases k) simp_all
next
  case (Cons x xs)
  then show ?case by (cases k) (auto simp: item_at_def)
qed

text \<open>The tree of an item, taken apart at a child.\<close>

lemma seg_apart:
  assumes s: "seg h v (Some a) [c] (Some a) q F" and d: "distinct F" and i: "i < length (child c)"
  obtains arr b it w wk F1 Fy F3 where "h a = Some (Item arr)" "i_prev arr = v" "i_next arr = q" "fields h arr c"
    "seg h None (i_child arr) (take i (child c)) w (Some b) F1" "h b = Some (Item it)" "i_prev it = w"
    "seg h w (Some b) [child c ! i] (Some b) (i_next it) Fy" "seg h (Some b) (i_next it) (drop (Suc i) (child c)) wk None F3"
    "F = a # (F1 @ Fy @ F3) @ strs arr" "b \<in> set Fy" "i_child arr = Some b \<longleftrightarrow> i = 0"
proof -
  obtain arr wk Fk where a: "h a = Some (Item arr)" "i_prev arr = v" "fields h arr c" "seg h None (i_child arr) (child c) wk None Fk"
    "i_next arr = q" "F = a # Fk @ strs arr"
    using s by auto
  have split: "child c = take i (child c) @ [child c ! i] @ drop (Suc i) (child c)" using i by (simp add: id_take_nth_drop)
  have "seg h None (i_child arr) (take i (child c) @ [child c ! i] @ drop (Suc i) (child c)) wk None Fk" using a(4) split by simp
  then obtain w r F1 w2 r2 Fy F3 where p: "seg h None (i_child arr) (take i (child c)) w r F1"
    "seg h w r [child c ! i] w2 r2 Fy" "seg h w2 r2 (drop (Suc i) (child c)) wk None F3" "Fk = F1 @ Fy @ F3"
    unfolding seg_append by blast
  obtain b it where b: "r = Some b" "h b = Some (Item it)" "i_prev it = w" "w2 = Some b" "r2 = i_next it" "b \<in> set Fy"
    using p(2) by auto
  have "i_child arr = Some b \<longleftrightarrow> i = 0"
  proof (cases "take i (child c)")
    case Nil
    then show ?thesis using p(1) b(1) i by auto
  next
    case (Cons x xs)
    then have "\<exists>e. i_child arr = Some e \<and> e \<in> set F1" using p(1) by auto
    moreover have "b \<notin> set F1" using d b(6) by (auto simp: a(6) p(4))
    ultimately show ?thesis using Cons by auto
  qed
  then show ?thesis using that a p b by blast
qed

text \<open>The item with other children.\<close>

lemma seg_rebuilt:
  assumes "heap m a = Some (Item arr)" "i_prev arr = v" "i_next arr = q" "fields (heap m) arr c"
    "seg (heap m) None (i_child arr) cs w None Fk"
  shows "seg (heap m) v (Some a) [set_child cs c] (Some a) q (a # Fk @ strs arr)"
  using assms by (cases c) (auto simp: fields_def)

section \<open>Detaching and deleting\<close>

lemma detach_apart:
  assumes s: "seg (heap m) v (Some a) [c] (Some a) q F" and d: "distinct F" and i: "nat which < length (child c)"
  obtains b m' F' Fy where "DetachItemFromArray_mem a which m = Inr (Some b, m')"
    "seg (heap m') v (Some a) [cJSON_DeleteItemFromArray c which] (Some a) q F'"
    "seg (heap m') None (Some b) [child c ! nat which] (Some b) None Fy"
    "set F = set F' \<union> set Fy" "distinct (F' @ Fy)" "only m m' (set F)"
proof -
  let ?xs = "take (nat which) (child c)" and ?zs = "drop (Suc (nat which)) (child c)"
  obtain arr b it w wk F1 Fy F3 where p: "heap m a = Some (Item arr)" "i_prev arr = v" "i_next arr = q" "fields (heap m) arr c"
    "seg (heap m) None (i_child arr) ?xs w (Some b) F1" "heap m b = Some (Item it)" "i_prev it = w"
    "seg (heap m) w (Some b) [child c ! nat which] (Some b) (i_next it) Fy" "seg (heap m) (Some b) (i_next it) ?zs wk None F3"
    "F = a # (F1 @ Fy @ F3) @ strs arr" "b \<in> set Fy" "i_child arr = Some b \<longleftrightarrow> nat which = 0"
    by (rule seg_apart [OF s d i])
  have dis: "a \<notin> set (F1 @ Fy @ F3 @ strs arr)" "distinct F1" "distinct Fy" "distinct F3" "set F1 \<inter> set F3 = {}" "set F1 \<inter> set Fy = {}"
    "set Fy \<inter> set F3 = {}" "set (strs arr) \<inter> set (F1 @ Fy @ F3) = {}" "distinct (strs arr)"
    using d unfolding p(10) by auto
  obtain m1 where m1: "change_opt w (\<lambda>p. p\<lparr>i_next := i_next it\<rparr>) m = Inr m1"
    "seg (heap m1) None (if ?xs = [] then i_next it else i_child arr) ?xs w (i_next it) F1" "only m m1 (set F1)"
    by (rule link_left [OF p(5) dis(2)])
  have "seg (heap m1) (Some b) (i_next it) ?zs wk None F3" by (rule only_seg [OF p(9) m1(3)]) (use dis(5) in auto)
  then obtain m2 wk' where m2: "change_opt (i_next it) (\<lambda>p. p\<lparr>i_prev := w\<rparr>) m1 = Inr m2"
    "seg (heap m2) w (i_next it) ?zs wk' None F3" "only m1 m2 (set F3)"
    by (rule link_right [OF _ dis(4)])
  have m12: "only m m2 (set F1 \<union> set F3)" by (rule only_trans [OF m1(3) m2(3)])
  have bout: "b \<notin> set F1 \<union> set F3" "b \<noteq> a" using p(11) dis(1,6,7) by auto
  have b12: "heap m1 b = Some (Item it)" "heap m2 b = Some (Item it)" "heap m2 a = Some (Item arr)"
    using only_heap [OF m1(3), of b] only_heap [OF m12, of b] only_heap [OF m12, of a] p(1,6) bout dis(1) by auto
  have kids2: "seg (heap m2) None (if ?xs = [] then i_next it else i_child arr) (?xs @ ?zs) wk' None (F1 @ F3)"
    using only_seg [OF m1(2) m2(3)] m2(2) dis(5) unfolding seg_append by blast
  define arr' where "arr' = (if nat which = 0 then arr\<lparr>i_child := i_next it\<rparr> else arr)"
  define m3 where "m3 = (if nat which = 0 then m2\<lparr>heap := (heap m2)(a \<mapsto> Item arr')\<rparr> else m2)"
  have m3: "only m2 m3 {a}" "heap m3 a = Some (Item arr')"
    using b12(3) only_item [OF b12(3)] by (auto simp: m3_def arr'_def only_refl)
  have child': "i_child arr' = (if ?xs = [] then i_next it else i_child arr)" using i by (auto simp: arr'_def)
  have b3: "heap m3 b = Some (Item it)" using only_heap [OF m3(1), of b] b12(2) bout by simp
  define m4 where "m4 = m3\<lparr>heap := (heap m3)(b \<mapsto> Item (it\<lparr>i_prev := None, i_next := None\<rparr>))\<rparr>"
  have m34: "only m3 m4 {b}" using only_item [OF b3] by (simp add: m4_def)
  have m04: "only m m4 (set F1 \<union> set F3 \<union> {a} \<union> {b})" by (rule only_trans [OF only_trans [OF m12 m3(1)] m34])
  have step3: "(if i_child arr = Some b then change_item a (\<lambda>p. p\<lparr>i_child := i_next it\<rparr>) m2 else Inr m2) = Inr m3"
    using change_item_at [OF b12(3)] p(12) by (simp add: m3_def arr'_def)
  have run: "DetachItemFromArray_mem a which m = Inr (Some b, m4)"
    using p(1,6,7) nth_item_seg [OF p(5)] i m1(1) b12 m2(1) step3 b3
    by (simp add: DetachItemFromArray_mem_def item_at_def change_item_at m4_def min_absorb2)
  have y: "seg (heap m4) None (Some b) [child c ! nat which] (Some b) None Fy"
  proof -
    obtain wy Fyk where y: "fields (heap m) it (child c ! nat which)" "seg (heap m) None (i_child it) (child (child c ! nat which)) wy None Fyk"
      "Fy = b # Fyk @ strs it"
      using p(6,8) by auto
    have "fields (heap m4) it (child c ! nat which)" by (rule only_fields [OF y(1) m04]) (use y(3) dis in auto)
    moreover have "seg (heap m4) None (i_child it) (child (child c ! nat which)) wy None Fyk"
      by (rule only_seg [OF y(2) m04]) (use y(3) dis in auto)
    ultimately show ?thesis using y(3) by (auto simp: m4_def)
  qed
  have "seg (heap m4) v (Some a) [set_child (?xs @ ?zs) c] (Some a) q (a # (F1 @ F3) @ strs arr')"
  proof (rule seg_rebuilt)
    show "heap m4 a = Some (Item arr')" using m3(2) bout by (simp add: m4_def)
    have "only m2 m4 ({a} \<union> {b})" by (rule only_trans [OF m3(1) m34])
    then show "seg (heap m4) None (i_child arr') (?xs @ ?zs) wk' None (F1 @ F3)"
      unfolding child' by (rule only_seg [OF kids2]) (use dis(1) bout in auto)
    have "fields (heap m4) arr c" by (rule only_fields [OF p(4) m04]) (use dis p(11) in auto)
    then show "fields (heap m4) arr' c" by (simp add: arr'_def)
  qed (use p(2,3) in \<open>simp_all add: arr'_def\<close>)
  then have tree: "seg (heap m4) v (Some a) [cJSON_DeleteItemFromArray c which] (Some a) q (a # (F1 @ F3) @ strs arr)"
    using i by (simp add: cJSON_DeleteItemFromArray_def cJSON_DetachItemFromArray_def Let_def arr'_def del: seg.simps split: if_splits)
  have cells: "set F = set (a # (F1 @ F3) @ strs arr) \<union> set Fy" "distinct ((a # (F1 @ F3) @ strs arr) @ Fy)"
    using dis p(10) by auto
  have "only m m4 (set F)" by (rule only_mono [OF m04]) (use p(10,11) in auto)
  then show ?thesis by (rule that [OF run tree y cells])
qed

text \<open>\<open>edited m G m' F'\<close>: of the cells \<open>G\<close> those of \<open>F'\<close> are left, the others have been released, and nothing else has changed.\<close>

definition edited :: "mem \<Rightarrow> nat set \<Rightarrow> mem \<Rightarrow> nat list \<Rightarrow> bool" where
  "edited m G m' F' \<longleftrightarrow> distinct F' \<and> set F' \<subseteq> G \<and> dom (heap m') = dom (heap m) - (G - set F')
     \<and> (\<forall>x. x \<notin> G \<longrightarrow> heap m' x = heap m x)"

lemma edited_release:
  assumes o: "only m m' G" and G: "G = set F' \<union> set Fy" "distinct (F' @ Fy)"
  shows "edited m G (release (set Fy) m') F'"
proof -
  have "G - set F' = set Fy" using G by auto
  moreover have "dom (heap m') = dom (heap m)" using o by (simp add: only_def)
  ultimately show ?thesis using assms by (auto simp: edited_def only_def)
qed

lemma DeleteItem_run:
  assumes s: "seg (heap m) v (Some a) [c] (Some a) q F" and d: "distinct F" and p: "list_all plain (child c)" and n: "length F < n"
  shows "\<exists>m' F'. DeleteItemFromArray_mem n a which m = Some (Inr m')
    \<and> seg (heap m') v (Some a) [cJSON_DeleteItemFromArray c which] (Some a) q F' \<and> edited m (set F) m' F'"
proof (cases "nat which < length (child c)")
  case False
  obtain arr wk Fk where a: "heap m a = Some (Item arr)" "seg (heap m) None (i_child arr) (child c) wk None Fk"
    using s by auto
  have "nth_item_mem (nat which) (i_child arr) m = Inr None" by (rule nth_item_end [OF a(2)]) (use False in simp)
  moreover have "0 < n" using n by simp
  then have "cJSON_Delete n None m = Some (Inr m)" by (cases n) simp_all
  ultimately have "DeleteItemFromArray_mem n a which m = Some (Inr m)"
    using a(1) by (simp add: DeleteItemFromArray_mem_def DetachItemFromArray_mem_def item_at_def)
  moreover have "cJSON_DeleteItemFromArray c which = c"
    using False by (simp add: cJSON_DeleteItemFromArray_def cJSON_DetachItemFromArray_def)
  ultimately show ?thesis using s d by (intro exI [of _ m] exI [of _ F]) (simp add: edited_def del: seg.simps)
next
  case True
  obtain b m' F' Fy where r: "DetachItemFromArray_mem a which m = Inr (Some b, m')"
    "seg (heap m') v (Some a) [cJSON_DeleteItemFromArray c which] (Some a) q F'"
    "seg (heap m') None (Some b) [child c ! nat which] (Some b) None Fy"
    "set F = set F' \<union> set Fy" "distinct (F' @ Fy)" "only m m' (set F)"
    by (rule detach_apart [OF s d True])
  have "length Fy = card (set Fy)" using r(5) by (simp add: distinct_card)
  also have "\<dots> \<le> card (set F)" using r(4) by (intro card_mono) auto
  also have "\<dots> = length F" using d by (rule distinct_card)
  finally have "length Fy \<le> length F" .
  moreover have "plain (child c ! nat which)" using p True by (simp add: list_all_length)
  ultimately have "cJSON_Delete n (Some b) m' = Some (Inr (release (set Fy) m'))"
    using r(5) n by (intro Delete_seg [OF r(3)]) simp_all
  moreover have "seg (heap (release (set Fy) m')) v (Some a) [cJSON_DeleteItemFromArray c which] (Some a) q F'"
    by (rule seg_frame [OF r(2)]) (use r(5) in \<open>auto simp: restrict_map_def\<close>)
  moreover have "edited m (set F) (release (set Fy) m') F'" by (rule edited_release [OF r(6,4,5)])
  ultimately show ?thesis using r(1) by (auto simp: DeleteItemFromArray_mem_def simp del: seg.simps)
qed

section \<open>Replacing and inserting\<close>

lemma place_left:
  assumes a: "heap m a = Some (Item arr)" "a \<notin> set F1" "i_child arr = Some b \<longleftrightarrow> xs = []"
    and s: "seg (heap m) None (i_child arr) xs w r F1" "distinct F1"
    and e: "heap m e = Some (Item ne)" "i_prev ne = w"
  obtains m' arr' where
    "(if i_child arr = Some b then change_item a (\<lambda>p. p\<lparr>i_child := Some e\<rparr>) m
      else bind_c (item_at m e) (\<lambda>new. bind_c (deref (i_prev new)) (\<lambda>l. change_item l (\<lambda>p. p\<lparr>i_next := Some e\<rparr>) m))) = Inr m'"
    "heap m' a = Some (Item arr')" "arr' = arr\<lparr>i_child := i_child arr'\<rparr>" "seg (heap m') None (i_child arr') xs w (Some e) F1"
    "only m m' (insert a (set F1))"
proof -
  obtain m1 where m1: "change_opt w (\<lambda>p. p\<lparr>i_next := Some e\<rparr>) m = Inr m1"
    "seg (heap m1) None (if xs = [] then Some e else i_child arr) xs w (Some e) F1" "only m m1 (set F1)"
    by (rule link_left [OF s])
  have a1: "heap m1 a = Some (Item arr)" using only_heap [OF m1(3) a(2)] a(1) by simp
  show ?thesis
  proof (cases "xs = []")
    case True
    then have "m1 = m" using m1(1) s(1) by (auto simp: change_opt_def)
    let ?m = "m\<lparr>heap := (heap m)(a \<mapsto> Item (arr\<lparr>i_child := Some e\<rparr>))\<rparr>"
    have o: "only m ?m (insert a (set F1))" by (rule only_mono [OF only_item [OF a(1)]]) simp
    have "seg (heap ?m) None (Some e) xs w (Some e) F1" using m1(2) True by simp
    then show ?thesis using that [of ?m "arr\<lparr>i_child := Some e\<rparr>"] True a(3) change_item_at [OF a(1)] o by simp
  next
    case False
    then obtain l where l: "w = Some l" using seg_last [OF s(1)] by auto
    have o: "only m m1 (insert a (set F1))" by (rule only_mono [OF m1(3)]) auto
    have "change_item l (\<lambda>p. p\<lparr>i_next := Some e\<rparr>) m = Inr m1" using m1(1) l by (simp add: change_opt_def)
    then show ?thesis using that [OF _ a1 _ _ o] False m1(2) a(3) e l by (simp add: item_at_def deref_def)
  qed
qed

lemma replace_apart:
  assumes s: "seg (heap m) v (Some a) [c] (Some a) q F" and d: "distinct (F @ Fd)" and i: "nat which < length (child c)"
    and e: "seg (heap m) None (Some e) [nc] (Some e) None Fd" and p: "list_all plain (child c)" and n: "length F < n"
  shows "\<exists>m' F'. ReplaceItemInArray_mem n a which e m = Some (Inr m')
    \<and> seg (heap m') v (Some a) [cJSON_ReplaceItemInArray c which nc] (Some a) q F' \<and> edited m (set F \<union> set Fd) m' F'"
proof -
  let ?xs = "take (nat which) (child c)" and ?zs = "drop (Suc (nat which)) (child c)"
  have dF: "distinct F" "set F \<inter> set Fd = {}" "distinct Fd" using d by auto
  obtain arr b it w wk F1 Fy F3 where p: "heap m a = Some (Item arr)" "i_prev arr = v" "i_next arr = q" "fields (heap m) arr c"
    "seg (heap m) None (i_child arr) ?xs w (Some b) F1" "heap m b = Some (Item it)" "i_prev it = w"
    "seg (heap m) w (Some b) [child c ! nat which] (Some b) (i_next it) Fy" "seg (heap m) (Some b) (i_next it) ?zs wk None F3"
    "F = a # (F1 @ Fy @ F3) @ strs arr" "b \<in> set Fy" "i_child arr = Some b \<longleftrightarrow> nat which = 0"
    by (rule seg_apart [OF s dF(1) i])
  have dis: "a \<notin> set (F1 @ Fy @ F3 @ strs arr)" "distinct F1" "distinct Fy" "distinct F3" "set F1 \<inter> set F3 = {}" "set F1 \<inter> set Fy = {}"
    "set Fy \<inter> set F3 = {}" "set (strs arr) \<inter> set (F1 @ Fy @ F3) = {}" "distinct (strs arr)" "a \<notin> set Fd" "set F1 \<inter> set Fd = {}"
    "set F3 \<inter> set Fd = {}" "set Fy \<inter> set Fd = {}" "set (strs arr) \<inter> set Fd = {}"
    using dF unfolding p(10) by auto
  obtain ne wd Fdk where ne: "heap m e = Some (Item ne)" "fields (heap m) ne nc" "seg (heap m) None (i_child ne) (child nc) wd None Fdk"
    "Fd = e # Fdk @ strs ne"
    using e by auto
  define ne' where "ne' = ne\<lparr>i_next := i_next it, i_prev := w\<rparr>"
  define m1 where "m1 = m\<lparr>heap := (heap m)(e \<mapsto> Item ne')\<rparr>"
  have m1: "only m m1 {e}" using only_item [OF ne(1)] by (simp add: m1_def)
  have eout: "e \<notin> set F1" "e \<notin> set Fy" "e \<notin> set F3" "e \<noteq> a" "e \<noteq> b" "e \<notin> set (strs arr)" using dis ne(4) p(11) by auto
  have new1: "seg (heap m1) w (Some e) [nc] (Some e) (i_next it) Fd"
  proof -
    have "fields (heap m1) ne nc" by (rule only_fields [OF ne(2) m1]) (use ne(4) dF(3) in auto)
    moreover have "seg (heap m1) None (i_child ne) (child nc) wd None Fdk" by (rule only_seg [OF ne(3) m1]) (use ne(4) dF(3) in auto)
    ultimately show ?thesis using ne(4) by (auto simp: m1_def ne'_def)
  qed
  have "seg (heap m1) (Some b) (i_next it) ?zs wk None F3" by (rule only_seg [OF p(9) m1]) (use eout in auto)
  then obtain m2 wk' where m2: "change_opt (i_next it) (\<lambda>p. p\<lparr>i_prev := Some e\<rparr>) m1 = Inr m2"
    "seg (heap m2) (Some e) (i_next it) ?zs wk' None F3" "only m1 m2 (set F3)"
    by (rule link_right [OF _ dis(4)])
  have m02: "only m m2 ({e} \<union> set F3)" by (rule only_trans [OF m1 m2(3)])
  have at: "heap m1 e = Some (Item ne')" "heap m2 e = Some (Item ne')" "heap m2 a = Some (Item arr)" "heap m1 b = Some (Item it)"
    using only_heap [OF m2(3), of e] only_heap [OF m02, of a] only_heap [OF m1, of b] eout dis(1) p(1,6)
    by (auto simp: m1_def)
  have xs2: "seg (heap m2) None (i_child arr) ?xs w (Some b) F1" by (rule only_seg [OF p(5) m02]) (use eout dis in auto)
  have first: "i_child arr = Some b \<longleftrightarrow> ?xs = []" using p(12) i by auto
  have prev': "i_prev ne' = w" "i_next ne' = i_next it" by (simp_all add: ne'_def)
  obtain m3 arr' where m3:
    "(if i_child arr = Some b then change_item a (\<lambda>p. p\<lparr>i_child := Some e\<rparr>) m2
      else bind_c (item_at m2 e) (\<lambda>new. bind_c (deref (i_prev new)) (\<lambda>l. change_item l (\<lambda>p. p\<lparr>i_next := Some e\<rparr>) m2))) = Inr m3"
    "heap m3 a = Some (Item arr')" "arr' = arr\<lparr>i_child := i_child arr'\<rparr>" "seg (heap m3) None (i_child arr') ?xs w (Some e) F1"
    "only m2 m3 (insert a (set F1))"
    by (rule place_left [OF at(3) _ first xs2 dis(2) at(2) prev'(1)]) (use dis(1) in simp, rule that)
  have m03: "only m m3 ({e} \<union> set F3 \<union> insert a (set F1))" by (rule only_trans [OF m02 m3(5)])
  have b3: "heap m3 b = Some (Item it)" using only_heap [OF m03, of b] p(6,11) dis eout by auto
  define m4 where "m4 = m3\<lparr>heap := (heap m3)(b \<mapsto> Item (it\<lparr>i_next := None, i_prev := None\<rparr>))\<rparr>"
  have m34: "only m3 m4 {b}" using only_item [OF b3] by (simp add: m4_def)
  have m04: "only m m4 ({e} \<union> set F3 \<union> insert a (set F1) \<union> {b})" by (rule only_trans [OF m03 m34])
  have run: "ReplaceItemInArray_mem n a which e m = cJSON_Delete n (Some b) m4"
    using p(1,6,7) nth_item_seg [OF p(5)] i change_item_at [OF ne(1)] at m2(1) m3(1) change_item_at [OF b3] prev'
    by (simp add: ReplaceItemInArray_mem_def item_at_def min_absorb2 m1_def [symmetric] ne'_def [symmetric] m4_def [symmetric])
  have y: "seg (heap m4) None (Some b) [child c ! nat which] (Some b) None Fy"
  proof -
    obtain wy Fyk where y: "fields (heap m) it (child c ! nat which)" "seg (heap m) None (i_child it) (child (child c ! nat which)) wy None Fyk"
      "Fy = b # Fyk @ strs it"
      using p(6,8) by auto
    have "fields (heap m4) it (child c ! nat which)" by (rule only_fields [OF y(1) m04]) (use y(3) dis eout in auto)
    moreover have "seg (heap m4) None (i_child it) (child (child c ! nat which)) wy None Fyk"
      by (rule only_seg [OF y(2) m04]) (use y(3) dis eout in auto)
    ultimately show ?thesis using y(3) by (auto simp: m4_def)
  qed
  have "only m2 m4 (insert a (set F1) \<union> {b})" by (rule only_trans [OF m3(5) m34])
  then have zs4: "seg (heap m4) (Some e) (i_next it) ?zs wk' None F3"
    by (rule only_seg [OF m2(2)]) (use dis p(11) in auto)
  have "only m1 m4 (set F3 \<union> (insert a (set F1) \<union> {b}))"
    by (rule only_trans [OF m2(3) only_trans [OF m3(5) m34]])
  then have new4: "seg (heap m4) w (Some e) [nc] (Some e) (i_next it) Fd" by (rule only_seg [OF new1]) (use dis p(11) in auto)
  have xs4: "seg (heap m4) None (i_child arr') ?xs w (Some e) F1" by (rule only_seg [OF m3(4) m34]) (use dis p(11) in auto)
  have "seg (heap m4) None (i_child arr') (?xs @ [nc] @ ?zs) wk' None (F1 @ Fd @ F3)"
    unfolding seg_append using xs4 new4 zs4 by blast
  moreover have "heap m4 a = Some (Item arr')" using m3(2) p(11) dis(1) by (auto simp: m4_def)
  moreover have "fields (heap m4) arr c" by (rule only_fields [OF p(4) m04]) (use dis p(11) eout in auto)
  then have "fields (heap m4) arr' c" by (subst m3(3)) simp
  moreover have "i_prev arr' = v" "i_next arr' = q" "strs arr' = strs arr" using p(2,3) by (subst m3(3), simp)+
  ultimately have "seg (heap m4) v (Some a) [set_child (?xs @ [nc] @ ?zs) c] (Some a) q (a # (F1 @ Fd @ F3) @ strs arr)"
    using seg_rebuilt [of m4 a arr' v q c] by metis
  then have tree: "seg (heap m4) v (Some a) [cJSON_ReplaceItemInArray c which nc] (Some a) q (a # (F1 @ Fd @ F3) @ strs arr)"
    using i by (simp add: cJSON_ReplaceItemInArray_def Let_def del: seg.simps)
  have cells: "set F \<union> set Fd = set (a # (F1 @ Fd @ F3) @ strs arr) \<union> set Fy" "distinct ((a # (F1 @ Fd @ F3) @ strs arr) @ Fy)"
    using dis dF(3) p(10) by auto
  have "length Fy < n" using n p(10) by simp
  moreover have "plain (child c ! nat which)" using assms(5) i by (simp add: list_all_length)
  ultimately have "cJSON_Delete n (Some b) m4 = Some (Inr (release (set Fy) m4))"
    using dis(3) by (intro Delete_seg [OF y]) simp_all
  moreover have "seg (heap (release (set Fy) m4)) v (Some a) [cJSON_ReplaceItemInArray c which nc] (Some a) q (a # (F1 @ Fd @ F3) @ strs arr)"
    by (rule seg_frame [OF tree]) (use cells(2) in \<open>auto simp: restrict_map_def\<close>)
  moreover have "only m m4 (set F \<union> set Fd)" by (rule only_mono [OF m04]) (use p(10,11) ne(4) in auto)
  then have "edited m (set F \<union> set Fd) (release (set Fy) m4) (a # (F1 @ Fd @ F3) @ strs arr)" using cells by (rule edited_release)
  ultimately show ?thesis unfolding run by blast
qed

lemma insert_apart:
  assumes s: "seg (heap m) v (Some a) [c] (Some a) q F" and d: "distinct (F @ Fd)" and i: "nat which < length (child c)"
    and e: "seg (heap m) None (Some e) [nc] (Some e) None Fd"
  shows "\<exists>m' F'. InsertItemInArray_mem n a which e m = Some (Inr m')
    \<and> seg (heap m') v (Some a) [cJSON_InsertItemInArray c which nc] (Some a) q F' \<and> edited m (set F \<union> set Fd) m' F'
    \<and> set F' = set F \<union> set Fd"
proof -
  let ?xs = "take (nat which) (child c)" and ?y = "child c ! nat which" and ?zs = "drop (Suc (nat which)) (child c)"
  have dF: "distinct F" "set F \<inter> set Fd = {}" "distinct Fd" using d by auto
  obtain arr b it w wk F1 Fy F3 where p: "heap m a = Some (Item arr)" "i_prev arr = v" "i_next arr = q" "fields (heap m) arr c"
    "seg (heap m) None (i_child arr) ?xs w (Some b) F1" "heap m b = Some (Item it)" "i_prev it = w"
    "seg (heap m) w (Some b) [?y] (Some b) (i_next it) Fy" "seg (heap m) (Some b) (i_next it) ?zs wk None F3"
    "F = a # (F1 @ Fy @ F3) @ strs arr" "b \<in> set Fy" "i_child arr = Some b \<longleftrightarrow> nat which = 0"
    by (rule seg_apart [OF s dF(1) i])
  have tail: "seg (heap m) w (Some b) (?y # ?zs) wk None (Fy @ F3)"
    using p(8,9) seg_append [of "heap m" w "Some b" "[?y]" ?zs wk None "Fy @ F3"] by (metis append_Cons append_Nil)
  have dis: "a \<notin> set (F1 @ (Fy @ F3) @ strs arr)" "distinct F1" "distinct (Fy @ F3)" "set F1 \<inter> set (Fy @ F3) = {}"
    "set (strs arr) \<inter> set (F1 @ Fy @ F3) = {}" "distinct (strs arr)" "a \<notin> set Fd" "set F1 \<inter> set Fd = {}"
    "set (Fy @ F3) \<inter> set Fd = {}" "set (strs arr) \<inter> set Fd = {}"
    using dF unfolding p(10) by auto
  obtain ne wd Fdk where ne: "heap m e = Some (Item ne)" "fields (heap m) ne nc" "seg (heap m) None (i_child ne) (child nc) wd None Fdk"
    "Fd = e # Fdk @ strs ne"
    using e by auto
  define ne' where "ne' = ne\<lparr>i_next := Some b, i_prev := w\<rparr>"
  define m1 where "m1 = m\<lparr>heap := (heap m)(e \<mapsto> Item ne')\<rparr>"
  have m1: "only m m1 {e}" using only_item [OF ne(1)] by (simp add: m1_def)
  have eout: "e \<notin> set F1" "e \<notin> set (Fy @ F3)" "e \<noteq> a" "e \<noteq> b" "e \<notin> set (strs arr)" using dis ne(4) p(11) by auto
  have new1: "seg (heap m1) w (Some e) [nc] (Some e) (Some b) Fd"
  proof -
    have "fields (heap m1) ne nc" by (rule only_fields [OF ne(2) m1]) (use ne(4) dF(3) in auto)
    moreover have "seg (heap m1) None (i_child ne) (child nc) wd None Fdk" by (rule only_seg [OF ne(3) m1]) (use ne(4) dF(3) in auto)
    ultimately show ?thesis using ne(4) by (auto simp: m1_def ne'_def)
  qed
  have "seg (heap m1) w (Some b) (?y # ?zs) wk None (Fy @ F3)" by (rule only_seg [OF tail m1]) (use eout in auto)
  then obtain m2 wk' where m2: "change_opt (Some b) (\<lambda>p. p\<lparr>i_prev := Some e\<rparr>) m1 = Inr m2"
    "seg (heap m2) (Some e) (Some b) (?y # ?zs) wk' None (Fy @ F3)" "only m1 m2 (set (Fy @ F3))"
    by (rule link_right [OF _ dis(3)])
  have m02: "only m m2 ({e} \<union> set (Fy @ F3))" by (rule only_trans [OF m1 m2(3)])
  have at: "heap m2 e = Some (Item ne')" "heap m2 a = Some (Item arr)" "heap m1 b = Some (Item it)"
    using only_heap [OF m2(3), of e] only_heap [OF m02, of a] only_heap [OF m1, of b] eout dis(1) p(1,6)
    by (auto simp: m1_def)
  have xs2: "seg (heap m2) None (i_child arr) ?xs w (Some b) F1" by (rule only_seg [OF p(5) m02]) (use eout dis in auto)
  have first: "i_child arr = Some b \<longleftrightarrow> ?xs = []" using p(12) i by auto
  have prev': "i_prev ne' = w" by (simp add: ne'_def)
  obtain m3 arr' where m3:
    "(if i_child arr = Some b then change_item a (\<lambda>p. p\<lparr>i_child := Some e\<rparr>) m2
      else bind_c (item_at m2 e) (\<lambda>new. bind_c (deref (i_prev new)) (\<lambda>l. change_item l (\<lambda>p. p\<lparr>i_next := Some e\<rparr>) m2))) = Inr m3"
    "heap m3 a = Some (Item arr')" "arr' = arr\<lparr>i_child := i_child arr'\<rparr>" "seg (heap m3) None (i_child arr') ?xs w (Some e) F1"
    "only m2 m3 (insert a (set F1))"
    by (rule place_left [OF at(2) _ first xs2 dis(2) at(1) prev']) (use dis(1) in simp, rule that)
  have m03: "only m m3 ({e} \<union> set (Fy @ F3) \<union> insert a (set F1))" by (rule only_trans [OF m02 m3(5)])
  have run: "InsertItemInArray_mem n a which e m = Some (Inr m3)"
    using p(1,6,7) nth_item_seg [OF p(5)] i change_item_at [OF ne(1)] at m2(1) m3(1) prev'
    by (simp add: InsertItemInArray_mem_def item_at_def min_absorb2 m1_def [symmetric] ne'_def [symmetric] change_opt_def)
  have tail3: "seg (heap m3) (Some e) (Some b) (?y # ?zs) wk' None (Fy @ F3)"
    by (rule only_seg [OF m2(2) m3(5)]) (use dis in auto)
  have "only m1 m3 (set (Fy @ F3) \<union> insert a (set F1))" by (rule only_trans [OF m2(3) m3(5)])
  then have new3: "seg (heap m3) w (Some e) [nc] (Some e) (Some b) Fd" by (rule only_seg [OF new1]) (use dis in auto)
  have "seg (heap m3) None (i_child arr') (?xs @ [nc] @ (?y # ?zs)) wk' None (F1 @ Fd @ (Fy @ F3))"
    unfolding seg_append using m3(4) new3 tail3 by blast
  moreover have "fields (heap m3) arr c" by (rule only_fields [OF p(4) m03]) (use dis eout in auto)
  then have "fields (heap m3) arr' c" by (subst m3(3)) simp
  moreover have "i_prev arr' = v" "i_next arr' = q" "strs arr' = strs arr" using p(2,3) by (subst m3(3), simp)+
  ultimately have "seg (heap m3) v (Some a) [set_child (?xs @ [nc] @ (?y # ?zs)) c] (Some a) q (a # (F1 @ Fd @ (Fy @ F3)) @ strs arr)"
    using seg_rebuilt [of m3 a arr' v q c] m3(2) by metis
  then have "seg (heap m3) v (Some a) [cJSON_InsertItemInArray c which nc] (Some a) q (a # (F1 @ Fd @ (Fy @ F3)) @ strs arr)"
    using i by (simp add: cJSON_InsertItemInArray_def Let_def Cons_nth_drop_Suc del: seg.simps)
  moreover have cells: "set (a # (F1 @ Fd @ (Fy @ F3)) @ strs arr) = set F \<union> set Fd" "distinct (a # (F1 @ Fd @ (Fy @ F3)) @ strs arr)"
    using dis dF(3) p(10) by auto
  moreover have "only m m3 (set F \<union> set Fd)" by (rule only_mono [OF m03]) (use p(10) ne(4) in auto)
  then have "edited m (set F \<union> set Fd) m3 (a # (F1 @ Fd @ (Fy @ F3)) @ strs arr)"
    using cells by (simp add: edited_def only_def)
  ultimately show ?thesis using run by blast
qed

section \<open>Adding at the end\<close>

lemma last_item_seg:
  "seg (heap m) v (Some c) cs (Some l) None F \<Longrightarrow> cs \<noteq> [] \<Longrightarrow> length cs \<le> n \<Longrightarrow> last_item n c m = Some (Inr l)"
proof (induction cs arbitrary: v c F n)
  case (Cons x xs)
  obtain it Ft where it: "heap m c = Some (Item it)" "seg (heap m) (Some c) (i_next it) xs (Some l) None Ft" using Cons.prems(1) by auto
  obtain k where n: "n = Suc k" "length xs \<le> k" using Cons.prems(3) by (cases n) auto
  show ?case
  proof (cases xs)
    case Nil
    then show ?thesis using it n(1) by (simp add: item_at_def)
  next
    case (Cons x' xs')
    then obtain d where "i_next it = Some d" using it(2) by auto
    then show ?thesis using Cons.IH [of "Some c" d Ft k] it n Cons by (simp add: item_at_def)
  qed
qed simp

lemma add_apart:
  assumes s: "seg (heap m) v (Some a) [c] (Some a) q F" and d: "distinct (F @ Fd)"
    and e: "seg (heap m) None (Some e) [nc] (Some e) None Fd" and n: "length (child c) \<le> n"
  shows "\<exists>m' F'. AddItemToArray_mem n a (Some e) m = Some (Inr m')
    \<and> seg (heap m') v (Some a) [cJSON_AddItemToArray c (Some nc)] (Some a) q F' \<and> edited m (set F \<union> set Fd) m' F'
    \<and> set F' = set F \<union> set Fd"
proof -
  obtain arr wk Fk where a: "heap m a = Some (Item arr)" "i_prev arr = v" "i_next arr = q" "fields (heap m) arr c"
    "seg (heap m) None (i_child arr) (child c) wk None Fk" "F = a # Fk @ strs arr"
    using s by auto
  obtain ne where ne: "heap m e = Some (Item ne)" "e \<in> set Fd" using e by auto
  have dis: "a \<notin> set (Fk @ strs arr @ Fd)" "distinct (Fk @ Fd)" "distinct (strs arr)" "set (strs arr) \<inter> set (Fk @ Fd) = {}"
    using d unfolding a(6) by auto
  have "\<exists>m' arr'. AddItemToArray_mem n a (Some e) m = Some (Inr m') \<and> heap m' a = Some (Item arr') \<and> arr' = arr\<lparr>i_child := i_child arr'\<rparr>
    \<and> seg (heap m') None (i_child arr') (child c @ [nc]) (Some e) None (Fk @ Fd) \<and> only m m' (insert a (set Fk \<union> set Fd))"
  proof (cases "child c")
    case Nil
    then have k: "i_child arr = None" "Fk = []" using a(5) by auto
    let ?m = "put_item a (arr\<lparr>i_child := Some e\<rparr>) m"
    have o: "only m ?m {a}" unfolding put_item_def by (rule only_item [OF a(1)])
    have "seg (heap ?m) None (Some e) [nc] (Some e) None Fd" by (rule only_seg [OF e o]) (use dis(1) in auto)
    then show ?thesis using Nil k a(1) only_mono [OF o, of "insert a (set Fk \<union> set Fd)"]
      by (intro exI [of _ ?m] exI [of _ "arr\<lparr>i_child := Some e\<rparr>"])
        (simp add: AddItemToArray_mem_def item_at_def put_item_def del: seg.simps(2))
  next
    case (Cons x xs)
    then have ne': "child c \<noteq> []" by simp
    obtain f where f: "i_child arr = Some f" using a(5) Cons by auto
    obtain l prev where l: "wk = Some l" "l \<in> set Fk" "heap m l = Some (Item prev)" using seg_last [OF a(5) ne'] by auto
    have el: "e \<noteq> l" using dis(2) ne(2) l(2) by auto
    let ?m = "put_item e (ne\<lparr>i_prev := Some l\<rparr>) (put_item l (prev\<lparr>i_next := Some e\<rparr>) m)"
    have o: "only m ?m {l, e}" using l(3) ne(1) el by (auto simp: only_def put_item_def)
    have "seg (heap ?m) None (i_child arr) (child c @ [nc]) (Some e) None (Fk @ Fd)"
      using seg_link [OF a(5) [unfolded l(1)] ne' _ l(3) e ne(1)] dis(2) by (simp add: put_item_def del: seg.simps)
    moreover have "heap ?m a = Some (Item arr)" using only_heap [OF o, of a] dis(1) ne(2) l(2) a(1) by auto
    moreover have "AddItemToArray_mem n a (Some e) m = Some (Inr ?m)"
      using a(1) f last_item_seg [of m None f "child c" l Fk n] a(5) l ne' ne(1) n el
      by (simp add: AddItemToArray_mem_def item_at_def put_item_def del: seg.simps)
    moreover have "only m ?m (insert a (set Fk \<union> set Fd))" by (rule only_mono [OF o]) (use l(2) ne(2) in auto)
    ultimately show ?thesis by (intro exI [of _ ?m] exI [of _ arr]) simp
  qed
  then obtain m' arr' where m': "AddItemToArray_mem n a (Some e) m = Some (Inr m')" "heap m' a = Some (Item arr')"
    "arr' = arr\<lparr>i_child := i_child arr'\<rparr>" "seg (heap m') None (i_child arr') (child c @ [nc]) (Some e) None (Fk @ Fd)"
    "only m m' (insert a (set Fk \<union> set Fd))"
    by blast
  have "fields (heap m') arr c" by (rule only_fields [OF a(4) m'(5)]) (use dis in auto)
  then have "fields (heap m') arr' c" by (subst m'(3)) simp
  moreover have "i_prev arr' = v" "i_next arr' = q" "strs arr' = strs arr" using a(2,3) by (subst m'(3), simp)+
  ultimately have "seg (heap m') v (Some a) [set_child (child c @ [nc]) c] (Some a) q (a # (Fk @ Fd) @ strs arr)"
    using seg_rebuilt [OF m'(2) _ _ _ m'(4), of v q c] by metis
  then have "seg (heap m') v (Some a) [cJSON_AddItemToArray c (Some nc)] (Some a) q (a # (Fk @ Fd) @ strs arr)"
    by (simp add: cJSON_AddItemToArray_def del: seg.simps)
  moreover have cells: "set (a # (Fk @ Fd) @ strs arr) = set F \<union> set Fd" "distinct (a # (Fk @ Fd) @ strs arr)"
    using dis a(6) by auto
  moreover have "only m m' (set F \<union> set Fd)" by (rule only_mono [OF m'(5)]) (use a(6) in auto)
  then have "edited m (set F \<union> set Fd) m' (a # (Fk @ Fd) @ strs arr)" using cells by (simp add: edited_def only_def)
  ultimately show ?thesis using m'(1) by blast
qed

lemma InsertItem_run:
  assumes "seg (heap m) v (Some a) [c] (Some a) q F" "distinct (F @ Fd)" "seg (heap m) None (Some e) [nc] (Some e) None Fd"
    "length (child c) \<le> n"
  shows "\<exists>m' F'. InsertItemInArray_mem n a which e m = Some (Inr m')
    \<and> seg (heap m') v (Some a) [cJSON_InsertItemInArray c which nc] (Some a) q F' \<and> edited m (set F \<union> set Fd) m' F'
    \<and> set F' = set F \<union> set Fd"
proof (cases "nat which < length (child c)")
  case True
  then show ?thesis by (rule insert_apart [OF assms(1,2) _ assms(3)])
next
  case False
  obtain arr wk Fk where a: "heap m a = Some (Item arr)" "seg (heap m) None (i_child arr) (child c) wk None Fk"
    using assms(1) by auto
  have "nth_item_mem (nat which) (i_child arr) m = Inr None" by (rule nth_item_end [OF a(2)]) (use False in simp)
  then have "InsertItemInArray_mem n a which e m = AddItemToArray_mem n a (Some e) m"
    using a(1) by (simp add: InsertItemInArray_mem_def item_at_def)
  moreover have "cJSON_InsertItemInArray c which nc = cJSON_AddItemToArray c (Some nc)"
    using False by (simp add: cJSON_InsertItemInArray_def)
  ultimately show ?thesis using add_apart [OF assms] by simp
qed

section \<open>The forms for objects\<close>

lemma find_index_seg:
  "seg (heap m) v p cs w None F \<Longrightarrow> length cs < n \<Longrightarrow> find_index_mem n key p i m = Some (Inr (find_index key cs i))"
proof (induction cs arbitrary: v p F n i)
  case Nil
  then show ?case by (cases n) simp_all
next
  case (Cons c cs)
  obtain a it Ft where a: "p = Some a" "heap m a = Some (Item it)" "fields (heap m) it c" "seg (heap m) (Some a) (i_next it) cs w None Ft"
    using Cons.prems(1) by auto
  have "name_at (i_string it) m = Inr (cstring c)"
    using a(3) by (auto simp: fields_def text_in_def name_at_def text_at_def split: option.splits)
  then show ?case
    using Cons.IH [OF a(4), of "n - 1" "Suc i"] Cons.prems(2) a(1,2) by (cases n) (simp_all add: item_at_def)
qed

lemma find_index_less: "find_index key cs i = Some k \<Longrightarrow> k < i + length cs"
  by (induction cs arbitrary: i) (fastforce split: if_splits)+

lemma DeleteItemFromObject_run:
  assumes s: "seg (heap m) v (Some a) [c] (Some a) q F" and d: "distinct F" and p: "list_all plain (child c)"
    and n: "length F < n" "length (child c) < n"
  shows "\<exists>m' F'. DeleteItemFromObject_mem n a key m = Some (Inr m')
    \<and> seg (heap m') v (Some a) [cJSON_DeleteItemFromObject c key] (Some a) q F' \<and> edited m (set F) m' F'"
proof -
  obtain ob wk Fk where a: "heap m a = Some (Item ob)" "seg (heap m) None (i_child ob) (child c) wk None Fk" using s by auto
  have find: "find_index_mem n key (i_child ob) 0 m = Some (Inr (find_index key (child c) 0))" by (rule find_index_seg [OF a(2) n(2)])
  show ?thesis
  proof (cases "find_index key (child c) 0")
    case None
    have "cJSON_Delete n None m = Some (Inr m)" using n(1) by (cases n) simp_all
    then have "DeleteItemFromObject_mem n a key m = Some (Inr m)"
      using a(1) find None by (simp add: DeleteItemFromObject_mem_def DetachItemFromObject_mem_def item_at_def)
    moreover have "cJSON_DeleteItemFromObject c key = c"
      using None by (simp add: cJSON_DeleteItemFromObject_def cJSON_DetachItemFromObject_def)
    ultimately show ?thesis using s d by (intro exI [of _ m] exI [of _ F]) (simp add: edited_def del: seg.simps)
  next
    case (Some i)
    have "DeleteItemFromObject_mem n a key m = DeleteItemFromArray_mem n a (int i) m"
      using a(1) find Some
      by (simp add: DeleteItemFromObject_mem_def DetachItemFromObject_mem_def DeleteItemFromArray_mem_def item_at_def)
    moreover have "cJSON_DeleteItemFromObject c key = cJSON_DeleteItemFromArray c (int i)"
      using Some by (simp add: cJSON_DeleteItemFromObject_def cJSON_DetachItemFromObject_def cJSON_DeleteItemFromArray_def)
    ultimately show ?thesis using DeleteItem_run [OF s d p n(1), of "int i"] by simp
  qed
qed

lemma alloc_heap:
  assumes "mem_ok m" "alloc x m = (r, m1)"
  shows "ext m m1" "heap m1 = (case r of None \<Rightarrow> heap m | Some b \<Rightarrow> (heap m)(b \<mapsto> x))" "set (opt_list r) \<inter> dom (heap m) = {}"
proof -
  have "ext m m1 \<and> heap m1 = (case r of None \<Rightarrow> heap m | Some b \<Rightarrow> (heap m)(b \<mapsto> x)) \<and> set (opt_list r) \<inter> dom (heap m) = {}"
    by (rule alloc_cases [OF assms(1), of x]) (use assms(2) in auto)
  then show "ext m m1" "heap m1 = (case r of None \<Rightarrow> heap m | Some b \<Rightarrow> (heap m)(b \<mapsto> x))"
    "set (opt_list r) \<inter> dom (heap m) = {}"
    by blast+
qed

lemma alloc_keep: "mem_ok m \<Longrightarrow> alloc x m = (r, m1) \<Longrightarrow> b \<in> dom (heap m) \<Longrightarrow> heap m1 b = heap m b"
  using alloc_heap [of m x r m1] ext_heap [of m m1 b] by auto

lemma new_name:
  assumes e: "seg (heap m) None (Some e) [nc] (Some e) None Fd" "distinct Fd" "cstring nc = None"
    and m: "mem_ok m" "alloc (Text key) m = (s, m1)"
  obtains m2 where "change_item e (\<lambda>p. p\<lparr>i_string := s\<rparr>) m1 = Inr m2" "only m1 m2 {e}"
    "seg (heap m2) None (Some e) [if s = None then nc else set_cstring (Some key) nc] (Some e) None (Fd @ opt_list s)"
proof -
  obtain ne wd Fdk where ne: "heap m e = Some (Item ne)" "i_prev ne = None" "i_next ne = None" "fields (heap m) ne nc"
    "seg (heap m) None (i_child ne) (child nc) wd None Fdk" "Fd = e # Fdk @ strs ne"
    using e(1) by auto
  note al = alloc_heap [OF m]
  have str: "i_string ne = None" using ne(4) e(3) by (auto simp: fields_def text_in_def split: option.splits)
  have e1: "heap m1 e = Some (Item ne)" using alloc_keep [OF m, of e] ne(1) by auto
  define m2 where "m2 = m1\<lparr>heap := (heap m1)(e \<mapsto> Item (ne\<lparr>i_string := s\<rparr>))\<rparr>"
  have o: "only m1 m2 {e}" using only_item [OF e1] by (simp add: m2_def)
  have keep: "heap m2 x = heap m x" if "x \<in> set Fd" "x \<noteq> e" for x
    using alloc_keep [OF m, of x] subsetD [OF seg_dom [OF e(1)] that(1)] that(2) by (simp add: m2_def)
  have out: "e \<notin> set Fdk" "e \<notin> set (strs ne)" "set Fdk \<subseteq> set Fd" "set (strs ne) \<subseteq> set Fd" using e(2) ne(6) by auto
  have "seg (heap m2) None (i_child ne) (child nc) wd None Fdk"
    by (rule seg_frame [OF ne(5)], rule keep) (use out in auto)
  moreover have "text_in (heap m) (i_valuestring ne) (valuestring nc)" using ne(4) by (simp add: fields_def)
  then have "text_in (heap m2) (i_valuestring ne) (valuestring nc)"
    by (rule text_in_frame, intro keep) (use out in \<open>auto simp: strs_def\<close>)
  moreover have "heap m2 p = Some (Text key)" if "s = Some p" for p
  proof -
    have "p \<noteq> e" using al(3) ne(1) that by auto
    then show ?thesis using al(2) that by (simp add: m2_def)
  qed
  then have "text_in (heap m2) s (map_option (\<lambda>_. key) s)" by (cases s) (simp_all add: text_in_def)
  moreover define nc' where "nc' = (if s = None then nc else set_cstring (Some key) nc)"
  have nc': "ctype nc' = ctype nc" "vals_of nc' = vals_of nc" "valuestring nc' = valuestring nc" "child nc' = child nc"
    "cstring nc' = map_option (\<lambda>_. key) s"
    using e(3) by (cases nc; cases s; simp add: nc'_def)+
  ultimately have "fields (heap m2) (ne\<lparr>i_string := s\<rparr>) nc'"
    "seg (heap m2) None (i_child (ne\<lparr>i_string := s\<rparr>)) (child nc') wd None Fdk"
    using ne(4) unfolding fields_def nc' by simp_all
  moreover have "heap m2 e = Some (Item (ne\<lparr>i_string := s\<rparr>))" by (simp add: m2_def)
  moreover have "Fd @ opt_list s = e # Fdk @ strs (ne\<lparr>i_string := s\<rparr>)" using ne(6) str by (simp add: strs_def)
  ultimately have sg: "seg (heap m2) None (Some e) [nc'] (Some e) None (Fd @ opt_list s)"
    using seg_rebuilt [of m2 e "ne\<lparr>i_string := s\<rparr>" None None nc' "child nc'" wd Fdk] ne(2,3) by (simp del: seg.simps)
  have "change_item e (\<lambda>p. p\<lparr>i_string := s\<rparr>) m1 = Inr m2" unfolding m2_def by (rule change_item_at [OF e1])
  then show ?thesis by (rule that [OF _ o sg [unfolded nc'_def]])
qed

text \<open>The replacement is given the name; when there is no memory for it, the member is left without one.\<close>

lemma ReplaceItemInObject_run:
  assumes s: "seg (heap m) v (Some a) [c] (Some a) q F" and d: "distinct (F @ Fd)"
    and e: "seg (heap m) None (Some e) [nc] (Some e) None Fd" "cstring nc = None" and p: "list_all plain (child c)"
    and n: "length F < n" "length (child c) < n" and m: "mem_ok m" "alloc (Text key) m = (s, m1)"
    and i: "find_index key (child c) 0 = Some i"
  shows "\<exists>m' F'. ReplaceItemInObject_mem n a key e m = Some (Inr m')
    \<and> seg (heap m') v (Some a) [if s = None then cJSON_ReplaceItemInArray c (int i) nc else cJSON_ReplaceItemInObject c key nc] (Some a) q F'
    \<and> edited m1 (set F \<union> set Fd \<union> set (opt_list s)) m' F'"
proof -
  obtain ob wk Fk where a: "heap m a = Some (Item ob)" "seg (heap m) None (i_child ob) (child c) wk None Fk" using s by auto
  have find: "find_index_mem n key (i_child ob) 0 m = Some (Inr (Some i))" using find_index_seg [OF a(2) n(2), of key 0] i by simp
  have dd: "distinct F" "distinct Fd" "set F \<inter> set Fd = {}" using d by auto
  obtain m2 where m2: "change_item e (\<lambda>p. p\<lparr>i_string := s\<rparr>) m1 = Inr m2" "only m1 m2 {e}"
    "seg (heap m2) None (Some e) [if s = None then nc else set_cstring (Some key) nc] (Some e) None (Fd @ opt_list s)"
    by (rule new_name [OF e(1) dd(2) e(2) m])
  note al = alloc_heap [OF m]
  have "e \<in> set Fd" using e(1) by auto
  then have out: "e \<notin> set F" using dd(3) by auto
  have keep: "heap m2 x = heap m x" if "x \<in> set F" for x
  proof -
    have "x \<noteq> e" using that out by auto
    then show ?thesis using only_heap [OF m2(2), of x] alloc_keep [OF m, of x] subsetD [OF seg_dom [OF s] that] by simp
  qed
  have s2: "seg (heap m2) v (Some a) [c] (Some a) q F" by (rule seg_frame [OF s keep])
  have "set (opt_list s) \<inter> (set F \<union> set Fd) = {}" using al(3) seg_dom [OF s] seg_dom [OF e(1)] by auto
  then have d2: "distinct (F @ (Fd @ opt_list s))" using dd by (cases s) auto
  have i2: "nat (int i) < length (child c)" using find_index_less [OF i] by simp
  obtain m' F' where r: "ReplaceItemInArray_mem n a (int i) e m2 = Some (Inr m')"
    "seg (heap m') v (Some a) [cJSON_ReplaceItemInArray c (int i) (if s = None then nc else set_cstring (Some key) nc)] (Some a) q F'"
    "edited m2 (set F \<union> set (Fd @ opt_list s)) m' F'"
    using replace_apart [OF s2 d2 i2 m2(3) p n(1)] by blast
  have "ReplaceItemInObject_mem n a key e m = Some (Inr m')"
    using a(1) find m(2) m2(1) r(1) by (simp add: ReplaceItemInObject_mem_def item_at_def)
  moreover have "cJSON_ReplaceItemInObject c key nc = cJSON_ReplaceItemInArray c (int i) (set_cstring (Some key) nc)"
    using i by (simp add: cJSON_ReplaceItemInObject_def)
  moreover have "edited m1 (set F \<union> set Fd \<union> set (opt_list s)) m' F'"
    using r(3) m2(2) \<open>e \<in> set Fd\<close> by (auto simp: edited_def only_def Un_assoc)
  ultimately show ?thesis using r(2) by (cases s) (auto simp del: seg.simps)
qed

lemma ReplaceItem_outside:
  assumes "seg (heap m) v (Some a) [c] (Some a) q F" "\<not> nat which < length (child c)"
  shows "ReplaceItemInArray_mem n a which e m = Some (Inr m)"
proof -
  obtain arr wk Fk where a: "heap m a = Some (Item arr)" "seg (heap m) None (i_child arr) (child c) wk None Fk"
    using assms(1) by auto
  have "nth_item_mem (nat which) (i_child arr) m = Inr None" by (rule nth_item_end [OF a(2)]) (use assms(2) in simp)
  then show ?thesis using a(1) by (simp add: ReplaceItemInArray_mem_def item_at_def)
qed

lemma seg_items: "seg h v p cs w q F \<Longrightarrow> length cs \<le> length F"
proof (induction cs arbitrary: v p F)
  case (Cons c cs)
  then show ?case by fastforce
qed simp

lemma children_fewer: "seg h v (Some a) [c] (Some a) q F \<Longrightarrow> length (child c) < length F"
  using seg_items by fastforce

text \<open>\<open>edits_to m v a q G r c\<close>: the run \<open>r\<close> from \<open>m\<close> returns with the tree \<open>c\<close> at \<open>a\<close>; of the cells \<open>G\<close> those that are not its own
  have been released, and no other cell has changed.\<close>

definition edits_to :: "mem \<Rightarrow> nat option \<Rightarrow> nat \<Rightarrow> nat option \<Rightarrow> nat set \<Rightarrow> mem run \<Rightarrow> cJSON \<Rightarrow> bool" where
  "edits_to m v a q G r c \<longleftrightarrow>
     (\<exists>m' F'. r = Some (Inr m') \<and> seg (heap m') v (Some a) [c] (Some a) q F' \<and> edited m G m' F')"

text \<open>C38: The edits of an array or object on the heap are the edits of the tree. Deleting, replacing, inserting and adding a
  child return without a fault and leave the item linked, forwards and backwards, to the children that the tree has then; the cells of
  a child that is taken out are released, each once, and no others, and no cell outside the item and the new
  child is written.\<close>

theorem heap_edits_refine:
  assumes "seg (heap m) v (Some a) [c] (Some a) q F" "seg (heap m) None (Some e) [nc] (Some e) None Fd" "distinct (F @ Fd)"
    "list_all plain (child c)" "length F < n"
  shows "edits_to m v a q (set F) (DeleteItemFromArray_mem n a which m) (cJSON_DeleteItemFromArray c which)
    \<and> edits_to m v a q (set F) (DeleteItemFromObject_mem n a key m) (cJSON_DeleteItemFromObject c key)
    \<and> edits_to m v a q (if nat which < length (child c) then set F \<union> set Fd else set F)
        (ReplaceItemInArray_mem n a which e m) (cJSON_ReplaceItemInArray c which nc)
    \<and> edits_to m v a q (set F \<union> set Fd) (InsertItemInArray_mem n a which e m) (cJSON_InsertItemInArray c which nc)
    \<and> edits_to m v a q (set F \<union> set Fd) (AddItemToArray_mem n a (Some e) m) (cJSON_AddItemToArray c (Some nc))"
proof (intro conjI)
  have d: "distinct F" using assms(3) by simp
  have n: "length (child c) < n" using children_fewer [OF assms(1)] assms(5) by simp
  show "edits_to m v a q (set F) (DeleteItemFromArray_mem n a which m) (cJSON_DeleteItemFromArray c which)"
    using DeleteItem_run [OF assms(1) d assms(4,5)] by (simp only: edits_to_def)
  show "edits_to m v a q (set F) (DeleteItemFromObject_mem n a key m) (cJSON_DeleteItemFromObject c key)"
    using DeleteItemFromObject_run [OF assms(1) d assms(4,5) n] by (simp only: edits_to_def)
  show "edits_to m v a q (set F \<union> set Fd) (InsertItemInArray_mem n a which e m) (cJSON_InsertItemInArray c which nc)"
    using InsertItem_run [OF assms(1,3,2) less_imp_le [OF n]] unfolding edits_to_def by blast
  show "edits_to m v a q (set F \<union> set Fd) (AddItemToArray_mem n a (Some e) m) (cJSON_AddItemToArray c (Some nc))"
    using add_apart [OF assms(1,3,2) less_imp_le [OF n]] unfolding edits_to_def by blast
  show "edits_to m v a q (if nat which < length (child c) then set F \<union> set Fd else set F)
      (ReplaceItemInArray_mem n a which e m) (cJSON_ReplaceItemInArray c which nc)"
  proof (cases "nat which < length (child c)")
    case True
    then show ?thesis using replace_apart [OF assms(1,3) True assms(2,4,5)] by (simp only: edits_to_def if_True)
  next
    case False
    have "edited m (set F) m F" using d by (simp add: edited_def)
    then show ?thesis using False ReplaceItem_outside [OF assms(1) False] assms(1)
      by (auto simp: edits_to_def cJSON_ReplaceItemInArray_def simp del: seg.simps)
  qed
qed

theorem heap_edits_refine_witness:
  "\<exists>m' F'. DeleteItemFromArray_mem 4 0 0 sample_mem = Some (Inr m')
     \<and> seg (heap m') None (Some 0) [CJSON cJSON_Array None 0 0 0 (DFin 0) None []] (Some 0) None F' \<and> edited sample_mem {0, 1, 2} m' F'"
proof -
  let ?c = "CJSON cJSON_Array None 0 0 0 (DFin 0) None [CJSON cJSON_String (Some ''x'') 0 0 0 (DFin 0) None []]"
  have s: "seg (heap sample_mem) None (Some 0) [?c] (Some 0) None [0, 1, 2]"
    by (simp add: sample_mem_def null_item_def fields_def text_in_def strs_def)
  have e: "seg (heap sample_mem) None (Some 3) [CJSON cJSON_True None 0 0 0 (DFin 0) None []] (Some 3) None [3]"
    by (simp add: sample_mem_def null_item_def fields_def text_in_def strs_def)
  have "edits_to sample_mem None 0 None (set [0, 1, 2]) (DeleteItemFromArray_mem 4 0 0 sample_mem) (cJSON_DeleteItemFromArray ?c 0)"
    by (rule heap_edits_refine [OF s e, THEN conjunct1]) simp_all
  then show ?thesis
    by (simp add: edits_to_def cJSON_DeleteItemFromArray_def cJSON_DetachItemFromArray_def del: seg.simps)
qed

end
