(* ===== verification/CJsonMemCreate.thy ===== *)
theory CJsonMemCreate imports CJsonMemPrint begin

text \<open>
  The constructors of \<open>json/cJSON.c\<close> on the heap, where any of their allocations may fail. An array constructor makes its
  elements one by one and deletes the array when one cannot be made; what it asks of the constructor of the elements
  is the locale \<open>item_maker\<close>.
\<close>

section \<open>The functions\<close>

text \<open>A new item whose fields are set, unless there is no memory for it.\<close>

definition new_item :: "(item \<Rightarrow> item c) \<Rightarrow> mem \<Rightarrow> (nat option \<times> mem) run" where
  "new_item f m =
     (case cJSON_New_Item_mem m of
        (None, m) \<Rightarrow> Some (Inr (None, m))
      | (Some b, m) \<Rightarrow> Some (bind_c (item_at m b) (\<lambda>it. bind_c (f it) (\<lambda>it. Inr (Some b, put_item b it m)))))"

definition cJSON_CreateNull_mem :: "mem \<Rightarrow> (nat option \<times> mem) run" where
  "cJSON_CreateNull_mem = new_item (\<lambda>it. Inr (it\<lparr>i_type := cJSON_NULL\<rparr>))"

definition cJSON_CreateTrue_mem :: "mem \<Rightarrow> (nat option \<times> mem) run" where
  "cJSON_CreateTrue_mem = new_item (\<lambda>it. Inr (it\<lparr>i_type := cJSON_True\<rparr>))"

definition cJSON_CreateFalse_mem :: "mem \<Rightarrow> (nat option \<times> mem) run" where
  "cJSON_CreateFalse_mem = new_item (\<lambda>it. Inr (it\<lparr>i_type := cJSON_False\<rparr>))"

definition cJSON_CreateBool_mem :: "int \<Rightarrow> mem \<Rightarrow> (nat option \<times> mem) run" where
  "cJSON_CreateBool_mem b = new_item (\<lambda>it. Inr (it\<lparr>i_type := if b \<noteq> 0 then cJSON_True else cJSON_False\<rparr>))"

definition cJSON_CreateArray_mem :: "mem \<Rightarrow> (nat option \<times> mem) run" where
  "cJSON_CreateArray_mem = new_item (\<lambda>it. Inr (it\<lparr>i_type := cJSON_Array\<rparr>))"

definition cJSON_CreateObject_mem :: "mem \<Rightarrow> (nat option \<times> mem) run" where
  "cJSON_CreateObject_mem = new_item (\<lambda>it. Inr (it\<lparr>i_type := cJSON_Object\<rparr>))"

definition cJSON_CreateNumber_mem :: "double \<Rightarrow> mem \<Rightarrow> (nat option \<times> mem) run" where
  "cJSON_CreateNumber_mem num =
     new_item (\<lambda>it. bind_c (int_of_double num) (\<lambda>k.
       Inr (it\<lparr>i_type := cJSON_Number, i_vals := (case i_vals it of (u8, u16, _, _) \<Rightarrow> (u8, u16, k, num))\<rparr>)))"

definition cJSON_CreateUInt8_mem :: "double \<Rightarrow> mem \<Rightarrow> (nat option \<times> mem) run" where
  "cJSON_CreateUInt8_mem num =
     new_item (\<lambda>it. bind_c (uint8_of_double num) (\<lambda>k.
       Inr (it\<lparr>i_type := cJSON_Number, i_vals := (case i_vals it of (_, u16, i, _) \<Rightarrow> (k, u16, i, num))\<rparr>)))"

definition cJSON_CreateUInt16_mem :: "double \<Rightarrow> mem \<Rightarrow> (nat option \<times> mem) run" where
  "cJSON_CreateUInt16_mem num =
     new_item (\<lambda>it. bind_c (uint16_of_double num) (\<lambda>k.
       Inr (it\<lparr>i_type := cJSON_Number, i_vals := (case i_vals it of (u8, _, i, _) \<Rightarrow> (u8, k, i, num))\<rparr>)))"

definition cJSON_CreateString_mem :: "nat \<Rightarrow> nat \<Rightarrow> mem \<Rightarrow> (nat option \<times> mem) run" where
  "cJSON_CreateString_mem n str m =
     bind_r (new_item (\<lambda>it. Inr (it\<lparr>i_type := cJSON_String\<rparr>)) m) (\<lambda>(item, m).
       case item of
         None \<Rightarrow> Some (Inr (None, m))
       | Some b \<Rightarrow>
           bind_r (Some (cJSON_strdup str m)) (\<lambda>(s, m).
           bind_r (Some (change_item b (\<lambda>it. it\<lparr>i_valuestring := s\<rparr>) m)) (\<lambda>m.
             if s = None then bind_r (cJSON_Delete n (Some b) m) (\<lambda>m. Some (Inr (None, m)))
             else Some (Inr (Some b, m)))))"

text \<open>The loop of the array constructors: \<open>k\<close> more elements are made, \<open>p\<close> is the one before.\<close>

fun create_loop ::
  "(nat \<Rightarrow> 'a \<Rightarrow> mem \<Rightarrow> (nat option \<times> mem) run) \<Rightarrow> nat \<Rightarrow> nat \<Rightarrow> nat option \<Rightarrow> 'a list \<Rightarrow> nat \<Rightarrow> mem \<Rightarrow> (nat option \<times> mem) run" where
  "create_loop mk n a p numbers 0 m = Some (Inr (Some a, m))"
| "create_loop mk n a p [] (Suc k) m = Some (Inl OutOfBounds)"
| "create_loop mk n a p (x # numbers) (Suc k) m =
     bind_r (mk n x m) (\<lambda>(item, m).
       case item of
         None \<Rightarrow> bind_r (cJSON_Delete n (Some a) m) (\<lambda>m. Some (Inr (None, m)))
       | Some d \<Rightarrow> bind_r (Some (link_child a p d m)) (create_loop mk n a (Some d) numbers k))"

definition create_array_mem ::
  "(nat \<Rightarrow> 'a \<Rightarrow> mem \<Rightarrow> (nat option \<times> mem) run) \<Rightarrow> nat \<Rightarrow> 'a list \<Rightarrow> int \<Rightarrow> mem \<Rightarrow> (nat option \<times> mem) run" where
  "create_array_mem mk n numbers count m =
     bind_r (cJSON_CreateArray_mem m) (\<lambda>(a, m).
       case a of None \<Rightarrow> Some (Inr (None, m)) | Some a \<Rightarrow> create_loop mk n a None numbers (nat count) m)"

definition cJSON_CreateUInt8Array_mem :: "nat \<Rightarrow> u8 list \<Rightarrow> int \<Rightarrow> mem \<Rightarrow> (nat option \<times> mem) run" where
  "cJSON_CreateUInt8Array_mem = create_array_mem (\<lambda>n x. cJSON_CreateUInt8_mem (double_of_int (uint x)))"

definition cJSON_CreateUInt16Array_mem :: "nat \<Rightarrow> u16 list \<Rightarrow> int \<Rightarrow> mem \<Rightarrow> (nat option \<times> mem) run" where
  "cJSON_CreateUInt16Array_mem = create_array_mem (\<lambda>n x. cJSON_CreateUInt16_mem (double_of_int (uint x)))"

definition cJSON_CreateIntArray_mem :: "nat \<Rightarrow> int list \<Rightarrow> int \<Rightarrow> mem \<Rightarrow> (nat option \<times> mem) run" where
  "cJSON_CreateIntArray_mem = create_array_mem (\<lambda>n x. cJSON_CreateNumber_mem (double_of_int x))"

definition cJSON_CreateFloatArray_mem :: "nat \<Rightarrow> double list \<Rightarrow> int \<Rightarrow> mem \<Rightarrow> (nat option \<times> mem) run" where
  "cJSON_CreateFloatArray_mem = create_array_mem (\<lambda>n. cJSON_CreateNumber_mem)"

definition cJSON_CreateDoubleArray_mem :: "nat \<Rightarrow> double list \<Rightarrow> int \<Rightarrow> mem \<Rightarrow> (nat option \<times> mem) run" where
  "cJSON_CreateDoubleArray_mem = create_array_mem (\<lambda>n. cJSON_CreateNumber_mem)"

text \<open>The elements are pointers to strings.\<close>

definition cJSON_CreateStringArray_mem :: "nat \<Rightarrow> nat list \<Rightarrow> int \<Rightarrow> mem \<Rightarrow> (nat option \<times> mem) run" where
  "cJSON_CreateStringArray_mem = create_array_mem cJSON_CreateString_mem"

section \<open>An item is made, or nothing\<close>

text \<open>\<open>made m c r\<close>: the run \<open>r\<close> from \<open>m\<close> has made the item \<open>c\<close> in new cells, or an allocation has failed and the heap is what it
  was, or the constructor leaves defined behaviour as that of trees does.\<close>

definition made :: "mem \<Rightarrow> cJSON c \<Rightarrow> (nat option \<times> mem) run \<Rightarrow> bool" where
  "made m c r \<longleftrightarrow>
     (case r of
        None \<Rightarrow> False
      | Some (Inl e) \<Rightarrow> c = Inl e
      | Some (Inr (None, m')) \<Rightarrow> ext m m' \<and> onward m m' \<and> heap m' = heap m \<and> starved m m'
      | Some (Inr (Some b, m')) \<Rightarrow>
          ext m m' \<and> onward m m' \<and> (\<exists>it F. c = Inr it \<and> fresh_tree m m' b it F \<and> plain it))"

lemma made_simps [simp]:
  "\<not> made m c None"
  "made m c (Some (Inl e)) \<longleftrightarrow> c = Inl e"
  "made m c (Some (Inr (None, m'))) \<longleftrightarrow> ext m m' \<and> onward m m' \<and> heap m' = heap m \<and> starved m m'"
  "made m c (Some (Inr (Some b, m'))) \<longleftrightarrow>
     ext m m' \<and> onward m m' \<and> (\<exists>it F. c = Inr it \<and> fresh_tree m m' b it F \<and> plain it)"
  by (simp_all add: made_def)

lemma madeE:
  assumes "made m c r"
  obtains (fault) e where "r = Some (Inl e)" "c = Inl e"
  | (none) m' where "r = Some (Inr (None, m'))" "ext m m'" "onward m m'" "heap m' = heap m" "starved m m'"
  | (some) b m' it F where "r = Some (Inr (Some b, m'))" "ext m m'" "onward m m'" "c = Inr it" "fresh_tree m m' b it F" "plain it"
proof (cases r)
  case None
  then show ?thesis using assms by simp
next
  case (Some x)
  show ?thesis
  proof (cases x)
    case (Inl e)
    then show ?thesis using assms Some fault by simp
  next
    case (Inr y)
    obtain p m' where "y = (p, m')" by (cases y)
    then show ?thesis using assms Some Inr none [of m'] some by (cases p) auto
  qed
qed

text \<open>The fields of a new item without strings and children.\<close>

definition bare :: "item \<Rightarrow> cJSON \<Rightarrow> bool" where
  "bare it c \<longleftrightarrow> i_next it = None \<and> i_prev it = None \<and> i_child it = None \<and> i_valuestring it = None \<and> i_string it = None
     \<and> i_type it = ctype c \<and> i_vals it = vals_of c \<and> valuestring c = None \<and> cstring c = None \<and> child c = [] \<and> plain c"

lemma bare_built:
  assumes "ext m m1" "onward m m1" "heap m1 = (heap m)(b \<mapsto> Item null_item)" "b \<notin> dom (heap m)" "bare it c"
  shows "built m (put_item b it m1) b c [] None [b]" "onward m (put_item b it m1)"
proof -
  have "fields (heap m1) it c" "strs it = []"
    using assms(5) by (auto simp: bare_def fields_def text_in_def strs_def)
  then show "built m (put_item b it m1) b c [] None [b]"
    using built_start [of m m1 b it c] assms(1,3,4,5) by (auto simp: bare_def)
  show "onward m (put_item b it m1)" using assms(2) by (simp add: onward_def put_item_def)
qed

lemma built_fresh:
  assumes "built m0 m a c dn p F"
  shows "fresh_tree m0 m a (set_child dn c) F" "ext m0 m"
proof -
  have b: "ext m0 m" "distinct F" "set F = dom (heap m) - dom (heap m0)" using assms by (simp_all add: built_def)
  show "ext m0 m" by (rule b(1))
  show "fresh_tree m0 m a (set_child dn c) F"
    unfolding fresh_tree_def using b(1) by (intro conjI built_seg [OF assms] b(2,3)) (simp add: ext_def)
qed

lemma new_itemE:
  assumes "mem_ok m"
  obtains (none) m' where "new_item f m = Some (Inr (None, m'))" "ext m m'" "onward m m'" "heap m' = heap m" "starved m m'"
  | (fault) e where "new_item f m = Some (Inl e)" "f null_item = Inl e"
  | (some) b m' it where "new_item f m = Some (Inr (Some b, m'))" "f null_item = Inr it"
      "\<And>c. bare it c \<Longrightarrow> built m m' b c [] None [b] \<and> onward m m'"
  using assms
proof (cases rule: alloc_onward [where x = "Item null_item"])
  case (fail m')
  then show ?thesis using none [of m'] by (simp add: new_item_def cJSON_New_Item_mem_def)
next
  case (new b m')
  then have at: "item_at m' b = Inr null_item" by (simp add: item_at_def)
  show ?thesis
  proof (cases "f null_item")
    case (Inl e)
    then show ?thesis using fault [of e] new(1) at by (simp add: new_item_def cJSON_New_Item_mem_def)
  next
    case (Inr it)
    then show ?thesis
      using some [of b "put_item b it m'" it] bare_built [OF new(2,5,3,4)] new(1) at
      by (simp add: new_item_def cJSON_New_Item_mem_def)
  qed
qed

lemma new_item_made:
  assumes "mem_ok m" "\<And>e. f null_item = Inl e \<Longrightarrow> c = Inl e" "\<And>it. f null_item = Inr it \<Longrightarrow> \<exists>x. c = Inr x \<and> bare it x"
  shows "made m c (new_item f m)"
  using assms(1)
proof (cases rule: new_itemE [where f = f])
  case (some b m' it)
  then obtain x where x: "c = Inr x" "bare it x" using assms(3) by blast
  then have b: "built m m' b x [] None [b]" "onward m m'" using some(3) by blast+
  have same: "set_child [] x = x" using x(2) by (simp add: bare_def)
  have "plain x" using x(2) by (simp add: bare_def)
  then show ?thesis using built_fresh [OF b(1)] b(2) unfolding some(1) x(1) made_simps same by blast
next
  case (none m')
  then show ?thesis by simp
next
  case (fault e)
  then show ?thesis using assms(2) by simp
qed

lemma weight_leaf: "child c = [] \<Longrightarrow> weight c = 5"
  by (cases c) simp

section \<open>What an array constructor asks of the constructor of its elements\<close>

text \<open>\<open>points m x v\<close>: in \<open>m\<close> the argument \<open>x\<close> stands for the value \<open>v\<close>; an argument that is a pointer stands for what it
  points to.\<close>

locale item_maker =
  fixes mk_mem :: "nat \<Rightarrow> 'a \<Rightarrow> mem \<Rightarrow> (nat option \<times> mem) run"
    and mk :: "'v \<Rightarrow> cJSON c"
    and points :: "mem \<Rightarrow> 'a \<Rightarrow> 'v \<Rightarrow> bool"
  assumes points_kept: "points m x v \<Longrightarrow> mem_ok m \<Longrightarrow> ext m m' \<Longrightarrow> points m' x v"
    and makes: "mem_ok m \<Longrightarrow> points m x v \<Longrightarrow> 3 \<le> n \<Longrightarrow> made m (mk v) (mk_mem n x m)"
    and leaf: "mk v = Inr c \<Longrightarrow> child c = []"
begin

lemma loop_step:
  assumes b: "built m0 m a arr dn p F" and m0: "mem_ok m0" "onward m0 m"
    and dn: "list_all (\<lambda>c. child c = []) dn" "list_all plain dn" "6 * length dn + 6 \<le> n" "child arr = []" "plain arr"
    and x: "points m0 x v"
    and rest: "\<And>d cd m' F'. mk v = Inr cd \<Longrightarrow> built m0 m' a arr (dn @ [cd]) (Some d) F' \<Longrightarrow> onward m0 m'
      \<Longrightarrow> list_all (\<lambda>c. child c = []) (dn @ [cd])
      \<Longrightarrow> list_all plain (dn @ [cd]) \<Longrightarrow> made m0 (r cd) (f d m')"
  shows "made m0 (bind_c (mk v) r) (bind_r (mk_mem n x m) (\<lambda>(item, m).
       case item of
         None \<Rightarrow> bind_r (cJSON_Delete n (Some a) m) (\<lambda>m. Some (Inr (None, m)))
       | Some d \<Rightarrow> bind_r (Some (link_child a p d m)) (f d)))"
proof -
  have m: "ext m0 m" by (rule built_fresh(2) [OF b])
  have ok: "mem_ok m" using m by (rule ext_ok)
  have "made m (mk v) (mk_mem n x m)"
    by (rule makes [OF ok points_kept [OF x m0(1) m]]) (use dn(3) in simp)
  then show ?thesis
  proof (cases rule: madeE)
    case (fault e)
    then show ?thesis by simp
  next
    case (none m')
    have arr: "plain (set_child dn arr)" using dn(2,4,5) by (cases arr) simp
    have fr: "fresh_tree m0 m' a (set_child dn arr) F" and e: "ext m0 m'"
    proof -
      show e: "ext m0 m'" using m none(2) by (rule ext_trans)
      have fr: "fresh_tree m0 m a (set_child dn arr) F" by (rule built_fresh(1) [OF b])
      show "fresh_tree m0 m' a (set_child dn arr) F"
        using fr e unfolding fresh_tree_def none(4) by (simp add: ext_def del: seg.simps)
    qed
    have "sum_list (map (\<lambda>c. weight c + 1) dn) = 6 * length dn"
      using dn(1) by (induction dn) (simp_all add: weight_leaf)
    then have "weight (set_child dn arr) = 5 + 6 * length dn" by (cases arr) simp
    then have F: "length F < n"
      using seg_length [of "heap m'" None "Some a" "[set_child dn arr]" "Some a" None F] fr dn(3)
      by (simp add: fresh_tree_def del: seg.simps)
    obtain m'' where del: "cJSON_Delete n (Some a) m' = Some (Inr m'')" "heap m'' = heap m0" "allocs m'' = allocs m'" "ext m0 m''"
      by (rule fresh_tree_released [OF fr arr e m0(1) F])
    have "fails m'' = fails m'" using del(4) e by (simp add: ext_def)
    then have on: "onward m' m''" using del(3) by (simp add: onward_def)
    have "starved m0 m'" by (rule starved_trans(2) [OF m0(2) none(5)])
    then have "starved m0 m''" using on by (rule starved_trans(1))
    moreover have "onward m0 m''" using onward_trans [OF onward_trans [OF m0(2) none(3)] on] .
    ultimately show ?thesis using none(1) del by simp
  next
    case (some d m' cd Fd)
    have Fd: "seg (heap m') None (Some d) [cd] (Some d) None Fd" "distinct Fd" "set Fd = dom (heap m') - dom (heap m)"
      using some(5) by (simp_all add: fresh_tree_def)
    obtain m'' F' where l: "link_child a p d m' = Inr m''" "built m0 m'' a arr (dn @ [cd]) (Some d) F'"
      by (rule built_link [OF b m0(1) some(2) Fd])
    have same: "m'' = m'\<lparr>heap := heap m''\<rparr>"
      using l(1) by (auto simp: link_child_def put_item_def Let_def bind_c_def split: option.splits sum.splits)
    have "onward m' m''" by (subst same) simp
    with m0(2) some(3) have "onward m0 m''" using onward_trans by blast
    with l(2) some(4,6) dn(1,2) leaf have "made m0 (r cd) (f d m'')" by (intro rest) auto
    then show ?thesis using some(1,4) l(1) by simp
  qed
qed

lemma loop_made:
  assumes "built m0 m a arr dn p F" "mem_ok m0" "onward m0 m" "list_all (\<lambda>c. child c = []) dn" "list_all plain dn"
    "6 * (length dn + k) + 6 \<le> n" "child arr = []" "plain arr" "list_all2 (points m0) xs vs"
  shows "made m0 (bind_c (create_items mk vs k) (\<lambda>its. Inr (set_child (dn @ its) arr))) (create_loop mk_mem n a p xs k m)"
  using assms
proof (induction k arbitrary: m dn p F xs vs)
  case 0
  have "plain (set_child dn arr)" using 0(5,8) by (cases arr) simp
  then show ?case using built_fresh [OF 0(1)] 0(3) by auto
next
  case (Suc k)
  show ?case
  proof (cases xs)
    case Nil
    then show ?thesis using Suc.prems(9) by simp
  next
    case (Cons x xs')
    then obtain v vs' where v: "vs = v # vs'" "points m0 x v" "list_all2 (points m0) xs' vs'"
      using Suc.prems(9) by (auto simp: list_all2_Cons1)
    have assoc: "bind_c (create_items mk vs (Suc k)) (\<lambda>its. Inr (set_child (dn @ its) arr))
        = bind_c (mk v) (\<lambda>cd. bind_c (create_items mk vs' k) (\<lambda>its. Inr (set_child ((dn @ [cd]) @ its) arr)))"
      by (simp add: v(1) bind_c_def split: sum.splits)
    show ?thesis
      unfolding assoc Cons create_loop.simps(3)
      by (rule loop_step [OF Suc.prems(1-5) _ Suc.prems(7,8) v(2)])
        (use Suc.prems(6) in simp, rule Suc.IH [OF _ Suc.prems(2) _ _ _ _ Suc.prems(7,8) v(3)], use Suc.prems(6) in simp_all)
  qed
qed

lemma array_made:
  assumes "mem_ok m" "6 * nat count + 6 \<le> n" "list_all2 (points m) xs vs"
  shows "made m (create_array mk vs count) (create_array_mem mk_mem n xs count m)"
  using assms(1)
proof (cases rule: new_itemE [where f = "\<lambda>it. Inr (it\<lparr>i_type := cJSON_Array\<rparr>)"])
  case (some b m' it)
  have "bare it cJSON_CreateArray"
    using some(2) by (auto simp: bare_def null_item_def cJSON_CreateArray_def cJSON_New_Item_def is_ref_def is_const_def)
  then have b: "built m m' b cJSON_CreateArray [] None [b]" "onward m m'" "child cJSON_CreateArray = []" "plain cJSON_CreateArray"
    using some(3) by (auto simp: bare_def)
  have "made m (bind_c (create_items mk vs (nat count)) (\<lambda>its. Inr (set_child ([] @ its) cJSON_CreateArray)))
      (create_loop mk_mem n b None xs (nat count) m')"
    by (rule loop_made [OF b(1) assms(1) b(2) _ _ _ b(3,4) assms(3)]) (use assms(2) in simp_all)
  then show ?thesis using some(1) by (simp add: create_array_def create_array_mem_def cJSON_CreateArray_mem_def)
qed (simp_all add: create_array_mem_def cJSON_CreateArray_mem_def)

end

section \<open>The constructors\<close>

lemma bare_simps:
  "cJSON_CreateNull = CJSON cJSON_NULL None 0 0 0 (DFin 0) None []"
  "cJSON_CreateTrue = CJSON cJSON_True None 0 0 0 (DFin 0) None []"
  "cJSON_CreateFalse = CJSON cJSON_False None 0 0 0 (DFin 0) None []"
  "cJSON_CreateArray = CJSON cJSON_Array None 0 0 0 (DFin 0) None []"
  "cJSON_CreateObject = CJSON cJSON_Object None 0 0 0 (DFin 0) None []"
  "cJSON_CreateString s = CJSON cJSON_String (Some s) 0 0 0 (DFin 0) None []"
  by (simp_all add: cJSON_CreateNull_def cJSON_CreateTrue_def cJSON_CreateFalse_def cJSON_CreateArray_def
      cJSON_CreateObject_def cJSON_CreateString_def cJSON_New_Item_def)

lemma constants_made:
  assumes "mem_ok m"
  shows "made m (Inr cJSON_CreateNull) (cJSON_CreateNull_mem m)" "made m (Inr cJSON_CreateTrue) (cJSON_CreateTrue_mem m)"
    "made m (Inr cJSON_CreateFalse) (cJSON_CreateFalse_mem m)" "made m (Inr (cJSON_CreateBool k)) (cJSON_CreateBool_mem k m)"
    "made m (Inr cJSON_CreateArray) (cJSON_CreateArray_mem m)" "made m (Inr cJSON_CreateObject) (cJSON_CreateObject_mem m)"
  unfolding cJSON_CreateNull_mem_def cJSON_CreateTrue_mem_def cJSON_CreateFalse_mem_def cJSON_CreateBool_mem_def
    cJSON_CreateArray_mem_def cJSON_CreateObject_mem_def
  by (rule new_item_made [OF assms];
      auto simp: bare_simps cJSON_CreateBool_def cJSON_New_Item_def bare_def null_item_def is_ref_def is_const_def)+

lemma numbers_made:
  assumes "mem_ok m"
  shows "made m (cJSON_CreateNumber d) (cJSON_CreateNumber_mem d m)" "made m (cJSON_CreateUInt8 d) (cJSON_CreateUInt8_mem d m)"
    "made m (cJSON_CreateUInt16 d) (cJSON_CreateUInt16_mem d m)"
  unfolding cJSON_CreateNumber_mem_def cJSON_CreateUInt8_mem_def cJSON_CreateUInt16_mem_def
  by (rule new_item_made [OF assms];
      auto simp: cJSON_CreateNumber_def cJSON_CreateUInt8_def cJSON_CreateUInt16_def bind_c_eq_Inl bind_c_eq_Inr
        cJSON_New_Item_def bare_def null_item_def is_ref_def is_const_def)+

lemma numbers_leaf:
  "cJSON_CreateNumber d = Inr c \<Longrightarrow> child c = []" "cJSON_CreateUInt8 d = Inr c \<Longrightarrow> child c = []"
  "cJSON_CreateUInt16 d = Inr c \<Longrightarrow> child c = []"
  by (auto simp: cJSON_CreateNumber_def cJSON_CreateUInt8_def cJSON_CreateUInt16_def cJSON_New_Item_def bind_c_eq_Inr)

lemma string_made:
  assumes m: "mem_ok m" and s: "text_at m str = Inr s" and n: "3 \<le> n"
  shows "made m (Inr (cJSON_CreateString s)) (cJSON_CreateString_mem n str m)"
  using m
proof (cases rule: new_itemE [where f = "\<lambda>it. Inr (it\<lparr>i_type := cJSON_String\<rparr>)"])
  case (none m')
  then show ?thesis by (simp add: cJSON_CreateString_mem_def)
next
  case (fault e)
  then show ?thesis by simp
next
  case (some b m1 it)
  let ?c = "CJSON cJSON_String None 0 0 0 (DFin 0) None []"
  have "bare it ?c" using some(2) by (auto simp: bare_def null_item_def is_ref_def is_const_def)
  then have b: "built m m1 b ?c [] None [b]" "onward m m1" using some(3) by auto
  have m1: "ext m m1" "mem_ok m1" using built_fresh(2) [OF b(1)] ext_ok by blast+
  obtain it1 where it1: "heap m1 b = Some (Item it1)" "i_next it1 = None" "i_prev it1 = None" "i_child it1 = None"
    "fields (heap m1) it1 ?c"
    using b(1) by (auto simp: built_def)
  have no: "i_valuestring it1 = None" "i_string it1 = None"
    using it1(5) by (auto simp: fields_def text_in_def split: option.splits)
  have dom1: "dom (heap m1) - dom (heap m) = {b}" using b(1) by (auto simp: built_def)
  have dup: "cJSON_strdup str m1 = Inr (alloc (Text s) m1)"
    using ext_text [OF m m1(1) s] by (simp add: cJSON_strdup_def)
  show ?thesis using m1(2)
  proof (cases rule: alloc_onward [where x = "Text s"])
    case (fail m2)
    have it2: "heap m2 b = Some (Item it1)" using it1(1) fail(3) by simp
    have "put_item b (it1\<lparr>i_valuestring := None\<rparr>) m2 = m2"
      using it2 no(1) by (simp add: put_item_def fun_upd_idem)
    then have ch: "change_item b (\<lambda>it. it\<lparr>i_valuestring := None\<rparr>) m2 = Inr m2"
      using it2 by (simp add: change_item_def item_at_def)
    have e2: "ext m m2" using m1(1) fail(2) by (rule ext_trans)
    have fr: "fresh_tree m m2 b ?c [b]"
      using built_fresh(1) [OF b(1)] e2 unfolding fresh_tree_def fail(3) by (simp add: ext_def del: seg.simps)
    have pl: "plain ?c" and len: "length [b] < n" using n by (simp_all add: is_ref_def is_const_def)
    obtain m3 where del: "cJSON_Delete n (Some b) m2 = Some (Inr m3)" "heap m3 = heap m" "allocs m3 = allocs m2" "ext m m3"
      by (rule fresh_tree_released [OF fr pl e2 m len])
    have "fails m3 = fails m2" using del(4) e2 by (simp add: ext_def)
    then have on: "onward m2 m3" using del(3) by (simp add: onward_def)
    have "starved m m3" by (rule starved_trans(2) [OF b(2) starved_trans(1) [OF fail(4) on]])
    then show ?thesis
      using some(1) dup fail(1) ch del onward_trans [OF onward_trans [OF b(2) fail(5)] on]
      by (simp add: cJSON_CreateString_mem_def)
  next
    case (new q m2)
    let ?it = "it1\<lparr>i_valuestring := Some q\<rparr>"
    have q: "q \<noteq> b" using new(4) it1(1) by auto
    have it2: "heap m2 b = Some (Item it1)" using it1(1) new(3) q by simp
    have ch: "change_item b (\<lambda>it. it\<lparr>i_valuestring := Some q\<rparr>) m2 = Inr (put_item b ?it m2)"
      using it2 by (simp add: change_item_def item_at_def)
    have e2: "ext m m2" using m1(1) new(2) by (rule ext_trans)
    have strs: "strs ?it = [q]" using no by (simp add: strs_def)
    have bm: "b \<notin> dom (heap m)" "q \<notin> dom (heap m)"
    proof -
      show "b \<notin> dom (heap m)" using dom1 by auto
      show "q \<notin> dom (heap m)" using new(4) ext_heap [OF m m1(1), of q] by auto
    qed
    have "built m (put_item b ?it m2) b (cJSON_CreateString s) [] None (b # strs ?it)"
    proof (rule built_start [OF e2 _ bm(1)])
      show "b \<in> dom (heap m2)" using it2 by auto
      show "fields (heap m2) ?it (cJSON_CreateString s)"
        using it1(5) no new(3) by (simp add: fields_def bare_simps text_in_def)
      show "dom (heap m2) - dom (heap m) = insert b (set (strs ?it))" using dom1 bm(2) new(3) strs by auto
      show "distinct (b # strs ?it)" using q strs by simp
    qed (use it1 in simp_all)
    moreover have "set_child [] (cJSON_CreateString s) = cJSON_CreateString s" "plain (cJSON_CreateString s)"
      by (simp_all add: bare_simps is_ref_def is_const_def)
    ultimately have "fresh_tree m (put_item b ?it m2) b (cJSON_CreateString s) (b # strs ?it)" "ext m (put_item b ?it m2)"
      "plain (cJSON_CreateString s)"
      using built_fresh by metis+
    moreover have "onward m (put_item b ?it m2)"
      using onward_trans [OF b(2) new(5)] by (simp add: onward_def put_item_def)
    ultimately show ?thesis
      using some(1) dup new(1) ch by (auto simp add: cJSON_CreateString_mem_def)
  qed
qed

section \<open>The arrays\<close>

interpretation uint8_items: item_maker
  "\<lambda>n x. cJSON_CreateUInt8_mem (double_of_int (uint (x :: u8)))" "\<lambda>x. cJSON_CreateUInt8 (double_of_int (uint (x :: u8)))"
  "\<lambda>m x v. x = v"
  by unfold_locales (auto intro: numbers_made numbers_leaf)

interpretation uint16_items: item_maker
  "\<lambda>n x. cJSON_CreateUInt16_mem (double_of_int (uint (x :: u16)))" "\<lambda>x. cJSON_CreateUInt16 (double_of_int (uint (x :: u16)))"
  "\<lambda>m x v. x = v"
  by unfold_locales (auto intro: numbers_made numbers_leaf)

interpretation int_items: item_maker
  "\<lambda>n x. cJSON_CreateNumber_mem (double_of_int x)" "\<lambda>x. cJSON_CreateNumber (double_of_int x)" "\<lambda>m x v. x = v"
  by unfold_locales (auto intro: numbers_made numbers_leaf)

interpretation double_items: item_maker "\<lambda>n. cJSON_CreateNumber_mem" cJSON_CreateNumber "\<lambda>m x v. x = v"
  by unfold_locales (auto intro: numbers_made numbers_leaf)

interpretation string_items: item_maker
  cJSON_CreateString_mem "\<lambda>s. Inr (cJSON_CreateString s)" "\<lambda>m x s. text_at m x = Inr s"
proof unfold_locales
  show "child c = []" if "Inr (cJSON_CreateString s) = Inr c" for s c using that by (auto simp: bare_simps)
qed (auto intro: ext_text string_made)

text \<open>Whichever allocations fail, the array constructors return the array with all its elements, or NULL and the heap as it
  was; they leave defined behaviour only where the constructors of trees do.\<close>

lemma arrays_made:
  assumes "mem_ok m" "6 * nat count + 6 \<le> n"
  shows "made m (cJSON_CreateUInt8Array u8s count) (cJSON_CreateUInt8Array_mem n u8s count m)"
    and "made m (cJSON_CreateUInt16Array u16s count) (cJSON_CreateUInt16Array_mem n u16s count m)"
    and "made m (cJSON_CreateIntArray ints count) (cJSON_CreateIntArray_mem n ints count m)"
    and "made m (cJSON_CreateFloatArray floats count) (cJSON_CreateFloatArray_mem n floats count m)"
    and "made m (cJSON_CreateDoubleArray doubles count) (cJSON_CreateDoubleArray_mem n doubles count m)"
    and "list_all2 (\<lambda>p s. text_at m p = Inr s) ptrs strings
      \<Longrightarrow> made m (cJSON_CreateStringArray strings count) (cJSON_CreateStringArray_mem n ptrs count m)"
  using uint8_items.array_made [OF assms, of u8s u8s] uint16_items.array_made [OF assms, of u16s u16s]
    int_items.array_made [OF assms, of ints ints] double_items.array_made [OF assms]
    string_items.array_made [OF assms, of ptrs strings]
  by (simp_all add: list.rel_eq cJSON_CreateUInt8Array_def cJSON_CreateUInt8Array_mem_def
      cJSON_CreateUInt16Array_def cJSON_CreateUInt16Array_mem_def cJSON_CreateIntArray_def cJSON_CreateIntArray_mem_def
      cJSON_CreateFloatArray_def cJSON_CreateFloatArray_mem_def cJSON_CreateDoubleArray_def cJSON_CreateDoubleArray_mem_def
      cJSON_CreateStringArray_def cJSON_CreateStringArray_mem_def)

end
