(* ===== verification/Json.thy ===== *)
theory Json imports CJsonPrint CJsonParse begin

text \<open>
  \<open>json.c\<close>: reading a field of a request, loading a file into a tree and saving a tree to a file.
  The file system is a map from names to contents; \<open>writable\<close> tells which names \<open>fopen\<close> opens for
  writing. \<open>file_to_json\<close> does not terminate the buffer it reads the file into, so the parser sees
  the contents followed by whatever is in memory behind them: the argument \<open>junk\<close>.
\<close>

definition json_get_char :: "cJSON option \<Rightarrow> string \<Rightarrow> string option c" where
  "json_get_char inJson key =
     bind_c (deref (cJSON_GetObjectItem inJson key)) (\<lambda>it. Inr (valuestring it))"

definition json_get_int :: "cJSON option \<Rightarrow> string \<Rightarrow> int c" where
  "json_get_int inJson key =
     bind_c (deref (cJSON_GetObjectItem inJson key)) (\<lambda>it. Inr (valueint it))"

text \<open>The returned value and \<open>*outJson\<close>, which stays as it is when the file cannot be opened.\<close>

definition file_to_json ::
  "(string \<Rightarrow> string option) \<Rightarrow> string \<Rightarrow> string \<Rightarrow> cJSON option \<Rightarrow> (int \<times> cJSON option) c" where
  "file_to_json files junk fname outJson =
     (case files fname of
        Some data \<Rightarrow> bind_c (cJSON_Parse (c_str (data @ junk))) (\<lambda>json. Inr (0, json))
      | None \<Rightarrow> Inr (- 1, outJson))"

definition json_to_file ::
  "(string \<Rightarrow> bool) \<Rightarrow> (string \<Rightarrow> string option) \<Rightarrow> string \<Rightarrow> cJSON option
     \<Rightarrow> (int \<times> (string \<Rightarrow> string option)) c" where
  "json_to_file writable files fname inJson =
     (if writable fname
      then bind_c (deref (cJSON_Print inJson)) (\<lambda>text. Inr (0, files(fname \<mapsto> text)))
      else Inr (- 1, files))"

section \<open>Fields\<close>

text \<open>Both accessors dereference what they find: a missing field, or no object at all, is a fault.\<close>

lemma json_get_int_NULL: "cJSON_GetObjectItem obj key = None \<Longrightarrow> json_get_int obj key = Inl NullDeref"
  by (simp add: json_get_int_def)

lemma json_get_char_NULL: "cJSON_GetObjectItem obj key = None \<Longrightarrow> json_get_char obj key = Inl NullDeref"
  by (simp add: json_get_char_def)

lemma json_get_int_Some: "cJSON_GetObjectItem obj key = Some it \<Longrightarrow> json_get_int obj key = Inr (valueint it)"
  by (simp add: json_get_int_def)

lemma json_get_char_Some:
  "cJSON_GetObjectItem obj key = Some it \<Longrightarrow> json_get_char obj key = Inr (valuestring it)"
  by (simp add: json_get_char_def)

lemma json_get_int_eq: "json_get_int obj key = Inr k \<longleftrightarrow> (\<exists>it. cJSON_GetObjectItem obj key = Some it \<and> k = valueint it)"
  by (cases "cJSON_GetObjectItem obj key") (auto simp: json_get_int_def)

lemma json_get_char_eq: "json_get_char obj key = Inr s \<longleftrightarrow> (\<exists>it. cJSON_GetObjectItem obj key = Some it \<and> s = valuestring it)"
  by (cases "cJSON_GetObjectItem obj key") (auto simp: json_get_char_def)

lemma json_get_fault: "json_get_int obj key = Inl f \<Longrightarrow> f = NullDeref"
  by (cases "cJSON_GetObjectItem obj key") (auto simp: json_get_int_def)

end
