(* ===== verification/Modbusd.thy ===== *)
theory Modbusd imports UtHash Json begin

text \<open>
  \<open>modbusd.c\<close>: the modbus tcp handles, their hash table, and the handlers of the function codes.
  libmodbus is not part of the sources, so its functions are the fields of a record
  \<open>'w modbus_lib\<close> over the state \<open>'w\<close> of the world behind it (sockets, slaves), and every definition
  that calls one takes the record as argument. A \<open>modbus_t *\<close> is a number; a call that can fail
  returns the value and the \<open>errno\<close> it leaves. The reading calls also return what they store through
  the destination pointer, from its beginning.

  A handle is an object of the heap \<open>handles\<close>, at the address the hash table files it under. The log
  lines of \<open>BEGIN\<close>, \<open>LOG\<close> and \<open>ERR\<close> are left out here: they change no state the daemon reads.
\<close>

section \<open>The library\<close>

record 'w modbus_lib =
  modbus_new_tcp_pi :: "string option \<Rightarrow> string option \<Rightarrow> 'w \<Rightarrow> nat option \<times> 'w"
  modbus_set_response_timeout :: "nat \<Rightarrow> u32 \<Rightarrow> u32 \<Rightarrow> 'w \<Rightarrow> 'w"
  modbus_connect :: "nat \<Rightarrow> 'w \<Rightarrow> (int \<times> int) \<times> 'w"
  modbus_set_slave :: "nat \<Rightarrow> int \<Rightarrow> 'w \<Rightarrow> 'w"
  modbus_read_bits :: "nat \<Rightarrow> int \<Rightarrow> int \<Rightarrow> 'w \<Rightarrow> (int \<times> int \<times> u8 list) \<times> 'w"
  modbus_read_input_bits :: "nat \<Rightarrow> int \<Rightarrow> int \<Rightarrow> 'w \<Rightarrow> (int \<times> int \<times> u8 list) \<times> 'w"
  modbus_read_registers :: "nat \<Rightarrow> int \<Rightarrow> int \<Rightarrow> 'w \<Rightarrow> (int \<times> int \<times> u16 list) \<times> 'w"
  modbus_read_input_registers :: "nat \<Rightarrow> int \<Rightarrow> int \<Rightarrow> 'w \<Rightarrow> (int \<times> int \<times> u16 list) \<times> 'w"
  modbus_write_bit :: "nat \<Rightarrow> int \<Rightarrow> int \<Rightarrow> 'w \<Rightarrow> (int \<times> int) \<times> 'w"
  modbus_write_register :: "nat \<Rightarrow> int \<Rightarrow> int \<Rightarrow> 'w \<Rightarrow> (int \<times> int) \<times> 'w"
  modbus_write_bits :: "nat \<Rightarrow> int \<Rightarrow> int \<Rightarrow> u8 list \<Rightarrow> 'w \<Rightarrow> (int \<times> int) \<times> 'w"
  modbus_write_registers :: "nat \<Rightarrow> int \<Rightarrow> int \<Rightarrow> u16 list \<Rightarrow> 'w \<Rightarrow> (int \<times> int) \<times> 'w"
  modbus_strerror :: "int \<Rightarrow> string"

section \<open>Keys, handles and the state of the daemon\<close>

record mbtcp_key_s =
  ip :: string       \<comment> \<open>\<open>char ip[50]\<close>, all fifty bytes\<close>
  port :: string     \<comment> \<open>\<open>char port[50]\<close>\<close>

record mbtcp_handle_s =
  key :: mbtcp_key_s
  connected :: bool
  ctx :: nat

record 'w daemon =
  mbtcp_htable :: "UT_hash_table option"
  tcp_conn_timeout_usec :: u32
  handles :: "nat \<Rightarrow> mbtcp_handle_s option"
  next_addr :: nat                                  \<comment> \<open>the next address \<open>malloc\<close> returns\<close>
  world :: 'w

text \<open>The bytes of a key, as the hash table sees them.\<close>

definition key_bytes :: "mbtcp_key_s \<Rightarrow> string" where
  "key_bytes k = ip k @ port k"

text \<open>\<open>strcpy\<close> into a zeroed array of fifty bytes.\<close>

definition strcpy_50 :: "string option \<Rightarrow> string c" where
  "strcpy_50 src =
     bind_c (deref src) (\<lambda>s. if 50 \<le> length s then Inl BufferOverflow
                              else Inr (s @ replicate (50 - length s) NUL))"

definition make_key :: "string option \<Rightarrow> string option \<Rightarrow> mbtcp_key_s c" where
  "make_key i p =
     bind_c (strcpy_50 i) (\<lambda>ib. bind_c (strcpy_50 p) (\<lambda>pb. Inr \<lparr>ip = ib, port = pb\<rparr>))"

definition get_handle :: "'w daemon \<Rightarrow> nat \<Rightarrow> mbtcp_handle_s c" where
  "get_handle st ptr = deref (handles st ptr)"

definition set_handle :: "nat \<Rightarrow> mbtcp_handle_s \<Rightarrow> 'w daemon \<Rightarrow> 'w daemon" where
  "set_handle ptr h st = st\<lparr>handles := (handles st)(ptr \<mapsto> h)\<rparr>"

section \<open>Responses\<close>

definition modbus_set_error_resp :: "int \<Rightarrow> string \<Rightarrow> string option c" where
  "modbus_set_error_resp tid reason =
     bind_c (cJSON_AddNumberToObject cJSON_CreateObject ''tid'' (double_of_int tid)) (\<lambda>resp_root.
       let resp_root = cJSON_AddStringToObject resp_root ''status'' reason
       in Inr (cJSON_PrintUnformatted (Some resp_root)))"

definition set_modbus_errno_resp ::
  "'w modbus_lib \<Rightarrow> int \<Rightarrow> nat \<Rightarrow> int \<Rightarrow> 'w daemon \<Rightarrow> (string option \<times> 'w daemon) c" where
  "set_modbus_errno_resp L tid handle errnum st =
     bind_c (if errnum = 104
             then bind_c (get_handle st handle) (\<lambda>h.
                    Inr (set_handle handle (h\<lparr>connected := False\<rparr>) st))
             else Inr st) (\<lambda>st.
       bind_c (modbus_set_error_resp tid (modbus_strerror L errnum)) (\<lambda>resp. Inr (resp, st)))"

definition set_modbus_no_data_ok_resp :: "int \<Rightarrow> string option c" where
  "set_modbus_no_data_ok_resp tid =
     bind_c (cJSON_AddNumberToObject cJSON_CreateObject ''tid'' (double_of_int tid)) (\<lambda>resp_root.
       let resp_root = cJSON_AddStringToObject resp_root ''status'' ''ok''
       in Inr (cJSON_PrintUnformatted (Some resp_root)))"

definition set_modbus_with_data_ok_resp :: "int \<Rightarrow> cJSON \<Rightarrow> string option c" where
  "set_modbus_with_data_ok_resp tid json_arr =
     bind_c (cJSON_AddNumberToObject cJSON_CreateObject ''tid'' (double_of_int tid)) (\<lambda>resp_root.
       let resp_root = cJSON_AddItemToObject resp_root ''data'' (Some json_arr);
           resp_root = cJSON_AddStringToObject resp_root ''status'' ''ok''
       in Inr (cJSON_PrintUnformatted (Some resp_root)))"

section \<open>Reading bits and registers\<close>

text \<open>
  What a reading call leaves in the array \<open>dest\<close> of \<open>len\<close> zeroed elements; the log loop then reads
  the first \<open>ret\<close> of them.
\<close>

definition fill_array :: "int \<Rightarrow> 'a::zero list \<Rightarrow> 'a list c" where
  "fill_array len stored =
     (if nat len < length stored then Inl BufferOverflow
      else Inr (stored @ replicate (nat len - length stored) 0))"

definition log_loop :: "int \<Rightarrow> 'a list \<Rightarrow> unit c" where
  "log_loop ret arr = (if int (length arr) < ret then Inl OutOfBounds else Inr ())"

definition mbtcp_read_bit_req ::
  "'w modbus_lib \<Rightarrow> int \<Rightarrow> nat \<Rightarrow> cJSON option \<Rightarrow> 'w daemon \<Rightarrow> (string option \<times> 'w daemon) c" where
  "mbtcp_read_bit_req L fc handle req st =
     bind_c (json_get_int req ''addr'') (\<lambda>addr.
     bind_c (json_get_int req ''len'') (\<lambda>len.
     bind_c (json_get_int req ''tid'') (\<lambda>tid.
       if 2000 < len
       then bind_c (modbus_set_error_resp tid ''Too many bits requested'') (\<lambda>resp. Inr (resp, st))
       else if len \<le> 0 then Inl BadVlaSize
       else if fc \<noteq> 1 \<and> fc \<noteq> 2
       then bind_c (modbus_set_error_resp tid ''Wrong function code'') (\<lambda>resp. Inr (resp, st))
       else
         bind_c (get_handle st handle) (\<lambda>h.
           let ((ret, errno, stored), w) =
                 (if fc = 1 then modbus_read_bits L (ctx h) addr len (world st)
                  else modbus_read_input_bits L (ctx h) addr len (world st));
               st = st\<lparr>world := w\<rparr>
           in bind_c (fill_array len stored) (\<lambda>bits.
                if ret < 0 then set_modbus_errno_resp L tid handle errno st
                else bind_c (log_loop ret bits) (\<lambda>_.
                     bind_c (cJSON_CreateUInt8Array bits len) (\<lambda>arr.
                     bind_c (set_modbus_with_data_ok_resp tid arr) (\<lambda>resp. Inr (resp, st)))))))))"

definition mbtcp_read_reg_req ::
  "'w modbus_lib \<Rightarrow> int \<Rightarrow> nat \<Rightarrow> cJSON option \<Rightarrow> 'w daemon \<Rightarrow> (string option \<times> 'w daemon) c" where
  "mbtcp_read_reg_req L fc handle req st =
     bind_c (json_get_int req ''addr'') (\<lambda>addr.
     bind_c (json_get_int req ''len'') (\<lambda>len.
     bind_c (json_get_int req ''tid'') (\<lambda>tid.
       if 125 < len
       then bind_c (modbus_set_error_resp tid ''Too many registers requested'') (\<lambda>resp. Inr (resp, st))
       else if len \<le> 0 then Inl BadVlaSize
       else if fc \<noteq> 3 \<and> fc \<noteq> 4
       then bind_c (modbus_set_error_resp tid ''Wrong function code'') (\<lambda>resp. Inr (resp, st))
       else
         bind_c (get_handle st handle) (\<lambda>h.
           let ((ret, errno, stored), w) =
                 (if fc = 3 then modbus_read_registers L (ctx h) addr len (world st)
                  else modbus_read_input_registers L (ctx h) addr len (world st));
               st = st\<lparr>world := w\<rparr>
           in bind_c (fill_array len stored) (\<lambda>regs.
                if ret < 0 then set_modbus_errno_resp L tid handle errno st
                else bind_c (log_loop ret regs) (\<lambda>_.
                     bind_c (cJSON_CreateUInt16Array regs len) (\<lambda>arr.
                     bind_c (set_modbus_with_data_ok_resp tid arr) (\<lambda>resp. Inr (resp, st)))))))))"

section \<open>Writing\<close>

text \<open>The common end of the writing handlers.\<close>

definition write_resp ::
  "'w modbus_lib \<Rightarrow> int \<Rightarrow> nat \<Rightarrow> (int \<times> int) \<times> 'w \<Rightarrow> 'w daemon \<Rightarrow> (string option \<times> 'w daemon) c" where
  "write_resp L tid handle result st =
     (let ((ret, errno), w) = result; st = st\<lparr>world := w\<rparr>
      in if ret < 0 then set_modbus_errno_resp L tid handle errno st
         else bind_c (set_modbus_no_data_ok_resp tid) (\<lambda>resp. Inr (resp, st)))"

definition mbtcp_single_write_req ::
  "'w modbus_lib \<Rightarrow> int \<Rightarrow> nat \<Rightarrow> cJSON option \<Rightarrow> 'w daemon \<Rightarrow> (string option \<times> 'w daemon) c" where
  "mbtcp_single_write_req L fc handle req st =
     bind_c (json_get_int req ''addr'') (\<lambda>addr.
     bind_c (json_get_int req ''tid'') (\<lambda>tid.
     bind_c (json_get_int req ''data'') (\<lambda>data.
       if fc = 5
       then bind_c (get_handle st handle) (\<lambda>h.
              write_resp L tid handle (modbus_write_bit L (ctx h) addr data (world st)) st)
       else if fc = 6
       then bind_c (get_handle st handle) (\<lambda>h.
              write_resp L tid handle (modbus_write_register L (ctx h) addr data (world st)) st)
       else bind_c (modbus_set_error_resp tid ''Wrong function code'') (\<lambda>resp. Inr (resp, st)))))"

text \<open>
  The array a multiple write sends: \<open>malloc\<close> of a negative size fails and \<open>memset\<close> dereferences
  NULL; the loop stores one element per item of \<open>data\<close>, truncated to the width of the element.
\<close>

definition alloc_array :: "int \<Rightarrow> 'a::len word list c" where
  "alloc_array len = (if len < 0 then Inl NullDeref else Inr (replicate (nat len) 0))"

fun store_items :: "cJSON list \<Rightarrow> nat \<Rightarrow> 'a::len word list \<Rightarrow> 'a word list c" where
  "store_items [] i arr = Inr arr"
| "store_items (item # items) i arr =
     (if length arr \<le> i then Inl BufferOverflow
      else store_items items (Suc i) (arr[i := word_of_int (valueint item)]))"

definition data_array :: "cJSON option \<Rightarrow> int \<Rightarrow> 'a::len word list c" where
  "data_array req len =
     bind_c (alloc_array len) (\<lambda>arr.
     bind_c (deref (cJSON_GetObjectItem req ''data'')) (\<lambda>data. store_items (child data) 0 arr))"

definition mbtcp_multi_write_req ::
  "'w modbus_lib \<Rightarrow> int \<Rightarrow> nat \<Rightarrow> cJSON option \<Rightarrow> 'w daemon \<Rightarrow> (string option \<times> 'w daemon) c" where
  "mbtcp_multi_write_req L fc handle req st =
     bind_c (json_get_int req ''addr'') (\<lambda>addr.
     bind_c (json_get_int req ''len'') (\<lambda>len.
     bind_c (json_get_int req ''tid'') (\<lambda>tid.
       if fc = 15
       then bind_c (data_array req len) (\<lambda>bits. bind_c (get_handle st handle) (\<lambda>h.
              write_resp L tid handle (modbus_write_bits L (ctx h) addr len bits (world st)) st))
       else if fc = 16
       then bind_c (data_array req len) (\<lambda>regs. bind_c (get_handle st handle) (\<lambda>h.
              write_resp L tid handle (modbus_write_registers L (ctx h) addr len regs (world st)) st))
       else bind_c (modbus_set_error_resp tid ''Wrong function code'') (\<lambda>resp. Inr (resp, st)))))"

section \<open>Handles\<close>

definition mbtcp_get_connection_status :: "nat option \<Rightarrow> 'w daemon \<Rightarrow> bool c" where
  "mbtcp_get_connection_status handle st =
     (case handle of
        None \<Rightarrow> Inr False
      | Some ptr \<Rightarrow> bind_c (get_handle st ptr) (\<lambda>h. Inr (connected h)))"

text \<open>The returned flag and \<open>*reason\<close>, which stays as it is when the connection succeeds.\<close>

definition mbtcp_do_connect ::
  "'w modbus_lib \<Rightarrow> nat option \<Rightarrow> string option \<Rightarrow> 'w daemon \<Rightarrow> ((bool \<times> string option) \<times> 'w daemon) c" where
  "mbtcp_do_connect L handle reason st =
     (case handle of
        None \<Rightarrow> Inr ((False, Some ''NULL handle''), st)
      | Some ptr \<Rightarrow>
          bind_c (get_handle st ptr) (\<lambda>h.
            let ((ret, errno), w) = modbus_connect L (ctx h) (world st);
                st = st\<lparr>world := w\<rparr>
            in if ret = - 1 then Inr ((False, Some (modbus_strerror L errno)), st)
               else Inr ((True, reason), set_handle ptr (h\<lparr>connected := True\<rparr>) st)))"

text \<open>The lines \<open>mbtcp_list_handles\<close> prints.\<close>

definition mbtcp_list_handles :: "'w daemon \<Rightarrow> string list c" where
  "mbtcp_list_handles st =
     fold (\<lambda>ptr out. bind_c out (\<lambda>ls. bind_c (get_handle st ptr) (\<lambda>h.
         Inr (ls @ [''ip:'' @ c_str (ip (key h)) @ '', port:'' @ c_str (port (key h)) @ [CHR 0x0A]]))))
       (HASH_ITER (mbtcp_htable st)) (Inr [])"

text \<open>\<open>*ptr_handle\<close> is returned next to the flag; \<open>ptr_handle\<close> is its value before the call.\<close>

definition mbtcp_init_handle ::
  "'w modbus_lib \<Rightarrow> nat option \<Rightarrow> string option \<Rightarrow> string option \<Rightarrow> 'w daemon
     \<Rightarrow> ((bool \<times> nat option) \<times> 'w daemon) c" where
  "mbtcp_init_handle L ptr_handle ip_str port_str st =
     (let (c, w) = modbus_new_tcp_pi L ip_str port_str (world st); st = st\<lparr>world := w\<rparr>
      in case c of
           None \<Rightarrow> Inr ((False, ptr_handle), st)
         | Some c \<Rightarrow>
              let st = st\<lparr>world := modbus_set_response_timeout L c 0 (tcp_conn_timeout_usec st) (world st)\<rparr>;
                  ptr = next_addr st;
                  st = st\<lparr>next_addr := ptr + 1\<rparr>
              in bind_c (make_key ip_str port_str) (\<lambda>k.
                   let st = set_handle ptr \<lparr>key = k, connected = False, ctx = c\<rparr> st;
                       st = st\<lparr>mbtcp_htable :=
                                HASH_ADD_KEYPTR HASH_JEN (mbtcp_htable st) (key_bytes k) ptr\<rparr>
                   in bind_c (mbtcp_do_connect L (Some ptr) None st) (\<lambda>(_, st).
                        Inr ((True, Some ptr), st))))"

definition mbtcp_get_handle ::
  "string option \<Rightarrow> string option \<Rightarrow> 'w daemon \<Rightarrow> (bool \<times> nat option) c" where
  "mbtcp_get_handle ip_str port_str st =
     bind_c (make_key ip_str port_str) (\<lambda>k.
       case HASH_FIND HASH_JEN (mbtcp_htable st) (key_bytes k) of
         Some h \<Rightarrow> Inr (True, Some (hh_elt h))
       | None \<Rightarrow> Inr (False, None))"

definition lazy_init_mbtcp_handle ::
  "'w modbus_lib \<Rightarrow> nat option \<Rightarrow> cJSON option \<Rightarrow> 'w daemon \<Rightarrow> ((bool \<times> nat option) \<times> 'w daemon) c" where
  "lazy_init_mbtcp_handle L ptr_handle req st =
     bind_c (json_get_char req ''ip'') (\<lambda>i.
     bind_c (json_get_char req ''port'') (\<lambda>p.
     bind_c (mbtcp_get_handle i p st) (\<lambda>(found, ptr).
       if found then Inr ((True, ptr), st)
       else bind_c (mbtcp_init_handle L ptr i p st) (\<lambda>((ok, ptr), st).
              Inr ((ok, ptr), st)))))"

definition lazy_mbtcp_connect ::
  "'w modbus_lib \<Rightarrow> nat option \<Rightarrow> string option \<Rightarrow> 'w daemon \<Rightarrow> ((bool \<times> string option) \<times> 'w daemon) c" where
  "lazy_mbtcp_connect L handle reason st =
     bind_c (mbtcp_get_connection_status handle st) (\<lambda>up.
       if up then Inr ((True, reason), st)
       else mbtcp_do_connect L handle reason st)"

section \<open>Commands\<close>

type_synonym 'w mbtcp_fc = "nat \<Rightarrow> cJSON option \<Rightarrow> 'w daemon \<Rightarrow> (string option \<times> 'w daemon) c"

definition mbtcp_cmd_hanlder ::
  "'w modbus_lib \<Rightarrow> cJSON option \<Rightarrow> 'w mbtcp_fc \<Rightarrow> 'w daemon \<Rightarrow> (string option \<times> 'w daemon) c" where
  "mbtcp_cmd_hanlder L req fc st =
     bind_c (json_get_int req ''tid'') (\<lambda>tid.
     bind_c (lazy_init_mbtcp_handle L None req st) (\<lambda>((ok, handle), st).
       if ok
       then bind_c (lazy_mbtcp_connect L handle None st) (\<lambda>((up, reason), st).
              if up
              then bind_c (json_get_int req ''slave'') (\<lambda>slave.
                   bind_c (deref handle) (\<lambda>ptr.
                   bind_c (get_handle st ptr) (\<lambda>h.
                     fc ptr req (st\<lparr>world := modbus_set_slave L (ctx h) slave (world st)\<rparr>))))
              else bind_c (deref reason) (\<lambda>r.
                   bind_c (modbus_set_error_resp tid r) (\<lambda>resp. Inr (resp, st))))
       else bind_c (modbus_set_error_resp tid ''init modbus tcp handle fail'') (\<lambda>resp.
              Inr (resp, st))))"

definition mbtcp_set_response_timeout ::
  "int \<Rightarrow> int \<Rightarrow> 'w daemon \<Rightarrow> (string option \<times> 'w daemon) c" where
  "mbtcp_set_response_timeout tid timeout st =
     (let st = st\<lparr>tcp_conn_timeout_usec := word_of_int timeout\<rparr>
      in bind_c (set_modbus_no_data_ok_resp tid) (\<lambda>resp. Inr (resp, st)))"

definition mbtcp_fc1_req :: "'w modbus_lib \<Rightarrow> 'w mbtcp_fc" where
  "mbtcp_fc1_req L handle req = mbtcp_read_bit_req L 1 handle req"
definition mbtcp_fc2_req :: "'w modbus_lib \<Rightarrow> 'w mbtcp_fc" where
  "mbtcp_fc2_req L handle req = mbtcp_read_bit_req L 2 handle req"
definition mbtcp_fc3_req :: "'w modbus_lib \<Rightarrow> 'w mbtcp_fc" where
  "mbtcp_fc3_req L handle req = mbtcp_read_reg_req L 3 handle req"
definition mbtcp_fc4_req :: "'w modbus_lib \<Rightarrow> 'w mbtcp_fc" where
  "mbtcp_fc4_req L handle req = mbtcp_read_reg_req L 4 handle req"
definition mbtcp_fc5_req :: "'w modbus_lib \<Rightarrow> 'w mbtcp_fc" where
  "mbtcp_fc5_req L handle req = mbtcp_single_write_req L 5 handle req"
definition mbtcp_fc6_req :: "'w modbus_lib \<Rightarrow> 'w mbtcp_fc" where
  "mbtcp_fc6_req L handle req = mbtcp_single_write_req L 6 handle req"
definition mbtcp_fc15_req :: "'w modbus_lib \<Rightarrow> 'w mbtcp_fc" where
  "mbtcp_fc15_req L handle req = mbtcp_multi_write_req L 15 handle req"
definition mbtcp_fc16_req :: "'w modbus_lib \<Rightarrow> 'w mbtcp_fc" where
  "mbtcp_fc16_req L handle req = mbtcp_multi_write_req L 16 handle req"

end
