(* ===== verification/CJsonWf.thy ===== *)
theory CJsonWf imports CJsonParse begin

text \<open>
  What the parser guarantees about the items it builds: every \<open>valueint\<close> is an \<open>int\<close>, and every
  string is a C string (no NUL inside, whatever escapes it was written with).
\<close>

fun wf_item :: "cJSON \<Rightarrow> bool" where
  "wf_item (CJSON t vs u8 u16 vi vd s ch) \<longleftrightarrow>
     in_int vi \<and> pred_option nul_free vs \<and> pred_option nul_free s \<and> list_all wf_item ch"

lemma wf_item_set [simp]:
  "wf_item (set_ctype t it) \<longleftrightarrow> wf_item it" "wf_item (set_valuedouble d it) \<longleftrightarrow> wf_item it"
  by (cases it; simp)+

lemma wf_item_setI [intro]:
  "wf_item it \<Longrightarrow> in_int k \<Longrightarrow> wf_item (set_valueint k it)"
  "wf_item it \<Longrightarrow> pred_option nul_free vs \<Longrightarrow> wf_item (set_valuestring vs it)"
  "wf_item it \<Longrightarrow> pred_option nul_free s \<Longrightarrow> wf_item (set_cstring s it)"
  "wf_item it \<Longrightarrow> list_all wf_item ch \<Longrightarrow> wf_item (set_child ch it)"
  by (cases it; simp)+

lemma wf_item_sel:
  assumes "wf_item it"
  shows "in_int (valueint it)" "pred_option nul_free (valuestring it)"
    "pred_option nul_free (cstring it)" "list_all wf_item (child it)"
  using assms by (cases it; simp)+

lemma wf_New_Item [simp]: "wf_item cJSON_New_Item"
  by (simp add: cJSON_New_Item_def in_int_def)

section \<open>The bytes of a character are never NUL\<close>

lemma char_of_u32_not_NUL: "bit w 7 \<Longrightarrow> char_of_u32 w \<noteq> NUL"
proof
  assume b: "bit w 7" and "char_of_u32 w = NUL"
  then have "byte (char_of (unat w)) = 0" by (simp add: char_of_u32_def)
  then have "unat w mod 256 = 0" by (simp add: byte_def)
  then have "take_bit 8 (unat w) = 0" by (simp add: take_bit_eq_mod)
  then have "\<not> bit (take_bit 8 (unat w)) 7" by simp
  then show False using b by (simp add: bit_take_bit_iff bit_unsigned_iff)
qed

lemma continuation_byte: "bit (and (or uc 0x80) (0xBF :: u32)) 7"
  by (simp add: bit_and_iff bit_or_iff bit_numeral_simps)

lemma utf8_switch_nul_free: "nul_free out \<Longrightarrow> nul_free (snd (utf8_switch n uc out))"
  by (induction n arbitrary: uc out) (simp_all add: char_of_u32_not_NUL [OF continuation_byte])

lemma utf8_bytes_nul_free:
  assumes "uc \<noteq> 0"
  shows "nul_free (utf8_bytes uc)"
proof (cases "uc < 0x80")
  case True
  then have "unat uc < 128" "unat uc \<noteq> 0" using assms by (simp_all add: word_less_nat_alt unat_eq_0)
  then have "byte (char_of (unat uc)) \<noteq> 0" by (subst byte_char_of) simp_all
  then show ?thesis using True
    by (simp add: utf8_bytes_def utf8_len_def char_of_u32_def firstByteMark_def byte_char_of)
next
  case False
  have mark: "bit (firstByteMark n) 7" if "n \<in> {2, 3, 4}" for n
    using that by (auto simp: firstByteMark_def bit_numeral_simps)
  have len: "utf8_len uc \<in> {2, 3, 4}" using False by (simp add: utf8_len_def)
  obtain u out where s: "utf8_switch (utf8_len uc - 1) uc [] = (u, out)" by fastforce
  then have "nul_free out" using utf8_switch_nul_free [of "[]" "utf8_len uc - 1" uc] by simp
  moreover have "char_of_u32 (or u (firstByteMark (utf8_len uc))) \<noteq> NUL"
    using mark [OF len] by (intro char_of_u32_not_NUL) (simp add: bit_or_iff)
  ultimately show ?thesis by (simp add: utf8_bytes_def Let_def s [unfolded One_nat_def])
qed

section \<open>The results of the parsers\<close>

definition good :: "('a \<Rightarrow> bool) \<Rightarrow> 'a presult \<Rightarrow> bool" where
  "good P r \<longleftrightarrow> (\<forall>x t. r = POk x t \<longrightarrow> P x \<and> nul_free t)"

lemma good_simps [simp]:
  "good P (PFail ep)" "good P (PFault f)" "good P PFuel" "good P (POk x t) \<longleftrightarrow> P x \<and> nul_free t"
  by (simp_all add: good_def)

lemma good_pbind:
  "good P r \<Longrightarrow> (\<And>x t. P x \<Longrightarrow> nul_free t \<Longrightarrow> good Q (f x t)) \<Longrightarrow> good Q (pbind r f)"
  by (cases r) auto

lemma nul_free_skip [simp]: "nul_free s \<Longrightarrow> nul_free (skip s)"
  by (induction s) auto

lemma nul_free_drop [simp]: "nul_free s \<Longrightarrow> nul_free (drop n s)"
  unfolding nul_free_def by (meson in_set_dropD)

lemma simple_escape_not_NUL: "e \<noteq> NUL \<Longrightarrow> simple_escape e \<noteq> NUL"
  by (auto simp: simple_escape_def)

lemma surrogate_not_0:
  "(0x10000 :: u32) + or (push_bit 10 (and a 0x3FF)) (and b 0x3FF) \<noteq> 0"
proof
  let ?x = "or (push_bit 10 (and a 0x3FF)) (and b 0x3FF) :: u32"
  assume "0x10000 + ?x = 0"
  then have x: "?x = 0xFFFF0000" by (simp add: add_eq_0_iff)
  have "\<not> bit ?x 31"
    by (simp add: bit_or_iff bit_push_bit_iff bit_and_iff bit_numeral_simps)
  moreover have "bit (0xFFFF0000 :: u32) 31" by (simp add: bit_numeral_simps)
  ultimately show False using x by simp
qed

lemma decode_string_good:
  "decode_string st s n out = POk t r \<Longrightarrow> nul_free s \<Longrightarrow> nul_free out \<Longrightarrow> nul_free t \<and> nul_free r"
proof (induction n arbitrary: s out rule: less_induct)
  case (less n)
  show ?case
  proof (cases "n = 0")
    case True
    with less.prems show ?thesis by (simp add: decode_string.simps [of st s 0 out])
  next
    case False
    from less.prems(1) False show ?thesis
    proof (cases rule: decode_string_cases)
      case (plain c s1)
      then show ?thesis using less.prems(2,3) False by (intro less.IH [OF _ plain(3)]) auto
    next
      case (escape e s2)
      then show ?thesis using less.prems(2,3) False
        by (intro less.IH [OF _ escape(3)]) (auto simp: simple_escape_not_NUL)
    next
      case (unicode s2)
      then show ?thesis using less.prems(2,3)
        by (intro less.IH [OF _ unicode(5)]) (auto simp: utf8_bytes_nul_free)
    next
      case (surrogate s2)
      then show ?thesis using less.prems(2,3)
        utf8_bytes_nul_free [OF surrogate_not_0]
        by (intro less.IH [OF _ surrogate(10)]) auto
    qed
  qed
qed

lemma parse_string_good:
  assumes "wf_item item" and "nul_free s"
  shows "good (\<lambda>it. wf_item it \<and> pred_option nul_free (valuestring it)) (parse_string item s)"
proof -
  have "good nul_free (decode_string s (tl s) n [])" for n
    using decode_string_good [of s "tl s" n "[]"] assms(2) by (auto simp: good_def)
  then show ?thesis using assms
    by (auto simp: parse_string_def pfault_def split: sum.split
        intro!: good_pbind wf_item_setI(2))
qed

lemma nul_free_suffix:
  "nul_free s \<Longrightarrow> number_sign s = (a, t) \<Longrightarrow> nul_free t"
  "nul_free s \<Longrightarrow> number_digits n s = (m, t) \<Longrightarrow> nul_free t"
  "nul_free s \<Longrightarrow> number_fraction n k s = (m, j, t) \<Longrightarrow> nul_free t"
proof -
  show "nul_free s \<Longrightarrow> number_sign s = (a, t) \<Longrightarrow> nul_free t"
    by (auto simp: number_sign_def split: if_splits)
  show "nul_free s \<Longrightarrow> number_digits n s = (m, t) \<Longrightarrow> nul_free t"
    by (induction n s rule: number_digits.induct) (auto split: if_splits)
  show "nul_free s \<Longrightarrow> number_fraction n k s = (m, j, t) \<Longrightarrow> nul_free t"
    by (induction n k s rule: number_fraction.induct) (auto split: if_splits)
qed

lemma nul_free_exponent: "nul_free s \<Longrightarrow> number_exponent k s = Inr (j, t) \<Longrightarrow> nul_free t"
  by (induction k s rule: number_exponent.induct) (auto simp: bind_c_eq_Inr split: if_splits)

lemma nul_free_exp: "nul_free s \<Longrightarrow> number_exp s = Inr (k, t) \<Longrightarrow> nul_free t"
  by (auto simp: number_exp_def bind_c_eq_Inr Let_def split: if_splits dest!: nul_free_exponent [rotated])

lemma nul_free_integer: "nul_free s \<Longrightarrow> number_integer s = (n, t) \<Longrightarrow> nul_free t"
  by (auto simp: number_integer_def Let_def split: if_splits dest!: nul_free_suffix(2) [rotated])

lemma nul_free_scale: "nul_free s \<Longrightarrow> number_scale n s = (m, k, t) \<Longrightarrow> nul_free t"
  by (auto simp: number_scale_def split: if_splits dest!: nul_free_suffix(3) [rotated])

lemma int_of_double_in_int: "int_of_double d = Inr k \<Longrightarrow> in_int k"
  by (cases d) (auto simp: int_of_double_def in_int_def Let_def split: if_splits)

lemma parse_number_good:
  assumes "wf_item item" and "nul_free s"
  shows "good wf_item (parse_number item s)"
proof -
  obtain a s1 where a: "number_sign s = (a, s1)" by fastforce
  obtain n s2 where n: "number_integer s1 = (n, s2)" by fastforce
  obtain m k s3 where m: "number_scale n s2 = (m, k, s3)" by (metis prod_cases3)
  have s3: "nul_free s3"
    using nul_free_scale [OF nul_free_integer [OF nul_free_suffix(1) [OF assms(2) a] n] m] .
  show ?thesis
    using assms(1) nul_free_exp [OF s3]
    by (auto simp: parse_number_def a n m Let_def pfault_def split: sum.split
        intro!: wf_item_setI(1) int_of_double_in_int)
qed

lemma parse_good_all:
  "(\<forall>item s. wf_item item \<longrightarrow> nul_free s \<longrightarrow> good wf_item (parse_value n item s)) \<and>
   (\<forall>item s. wf_item item \<longrightarrow> nul_free s \<longrightarrow> good wf_item (parse_array n item s)) \<and>
   (\<forall>item chs s. wf_item item \<longrightarrow> list_all wf_item chs \<longrightarrow> nul_free s
      \<longrightarrow> good wf_item (array_loop n item chs s)) \<and>
   (\<forall>item s. wf_item item \<longrightarrow> nul_free s \<longrightarrow> good wf_item (parse_object n item s)) \<and>
   (\<forall>item chs s. wf_item item \<longrightarrow> list_all wf_item chs \<longrightarrow> nul_free s
      \<longrightarrow> good wf_item (object_loop n item chs s)) \<and>
   (\<forall>s. nul_free s \<longrightarrow> good wf_item (parse_member n s))"
proof (induction n)
  case (Suc n)
  then have val: "wf_item item \<Longrightarrow> nul_free s \<Longrightarrow> good wf_item (parse_value n item s)"
    and arr: "wf_item item \<Longrightarrow> nul_free s \<Longrightarrow> good wf_item (parse_array n item s)"
    and aloop: "wf_item item \<Longrightarrow> list_all wf_item chs \<Longrightarrow> nul_free s
      \<Longrightarrow> good wf_item (array_loop n item chs s)"
    and obj: "wf_item item \<Longrightarrow> nul_free s \<Longrightarrow> good wf_item (parse_object n item s)"
    and oloop: "wf_item item \<Longrightarrow> list_all wf_item chs \<Longrightarrow> nul_free s
      \<Longrightarrow> good wf_item (object_loop n item chs s)"
    and member: "nul_free s \<Longrightarrow> good wf_item (parse_member n s)" for item chs s
    by auto
  have "good wf_item (parse_value (Suc n) item s)" if "wf_item item" "nul_free s" for item s
  proof -
    have "good wf_item (parse_string item s)"
      using parse_string_good [OF that] by (simp add: good_def)
    then show ?thesis using that parse_number_good [OF that] arr [OF that] obj [OF that]
      unfolding parse_value.simps by (auto intro!: wf_item_setI(1) simp: in_int_def)
  qed
  moreover have "good wf_item (parse_array (Suc n) item s)" if "wf_item item" "nul_free s" for item s
    using that unfolding parse_array.simps Let_def
    by (auto intro!: good_pbind [OF val] aloop)
  moreover have "good wf_item (array_loop (Suc n) item chs s)"
    if "wf_item item" "list_all wf_item chs" "nul_free s" for item chs s
    using that unfolding array_loop.simps
    by (auto intro!: good_pbind [OF val] aloop wf_item_setI(4))
  moreover have "good wf_item (parse_object (Suc n) item s)" if "wf_item item" "nul_free s" for item s
    using that unfolding parse_object.simps Let_def
    by (auto intro!: good_pbind [OF member] oloop)
  moreover have "good wf_item (object_loop (Suc n) item chs s)"
    if "wf_item item" "list_all wf_item chs" "nul_free s" for item chs s
    using that unfolding object_loop.simps
    by (auto intro!: good_pbind [OF member] oloop wf_item_setI(4))
  moreover have "good wf_item (parse_member (Suc n) s)" if "nul_free s" for s
    using that unfolding parse_member.simps Let_def
    by (auto intro!: good_pbind [OF parse_string_good] good_pbind [OF val] wf_item_setI)
  ultimately show ?case by blast
qed simp

lemma cJSON_Parse_wf:
  assumes "nul_free text" and "cJSON_Parse text = Inr (Some it)"
  shows "wf_item it"
proof -
  have "good wf_item (parse_value n cJSON_New_Item (skip text))" for n
    using parse_good_all [of n] assms(1) by simp
  then show ?thesis using assms(2)
    by (auto simp: good_def cJSON_Parse_def cJSON_ParseWithOpts_def bind_c_eq_Inr Let_def
        split: presult.splits)
qed

lemma wf_GetObjectItem:
  "wf_item ob \<Longrightarrow> cJSON_GetObjectItem (Some ob) key = Some it \<Longrightarrow> wf_item it"
  using wf_item_sel(4) [of ob]
  by (auto simp: cJSON_GetObjectItem_def find_Some_iff list_all_length)

section \<open>Parsed items are well formed\<close>

text \<open>C18: Whatever text is parsed, every item of the tree that results holds an \<open>int\<close> in
  \<open>valueint\<close>, and its string and its name contain no NUL - not even when an escape of the text
  denotes one - so the C functions that use them later see all of them.\<close>

theorem parsed_items_wf:
  assumes "nul_free text" and "cJSON_Parse text = Inr (Some it)"
  shows "wf_item it"
  by (rule cJSON_Parse_wf [OF assms])

theorem parsed_items_wf_witness:
  "cJSON_Parse ''null'' = Inr (Some (set_ctype cJSON_NULL cJSON_New_Item))
   \<and> wf_item (set_ctype cJSON_NULL cJSON_New_Item)"
proof -
  have "cJSON_Parse ''null'' = Inr (Some (set_ctype cJSON_NULL cJSON_New_Item))"
    by (simp add: cJSON_Parse_def cJSON_ParseWithOpts_def parse_fuel_def numeral_eq_Suc)
  with parsed_items_wf [OF _ this] show ?thesis by simp
qed

end
