(* ===== verification/Response.thy ===== *)
theory Response imports Modbusd CJsonRound CJsonWf begin

text \<open>
  What a client reads from the daemon's answers. The three response builders of \<open>modbusd.c\<close> print
  an object with the members \<open>tid\<close>, \<open>data\<close> and \<open>status\<close>; the lemmas parse the text again, as a
  client does, and give the values of the members. They rest on the round trip of \<open>CJsonRound\<close>.
\<close>

text \<open>\<open>answers resp tid status data\<close>: the text \<open>resp\<close> parses to an object with these members.\<close>

definition answers :: "string \<Rightarrow> int \<Rightarrow> string \<Rightarrow> int list option \<Rightarrow> bool" where
  "answers resp tid status data \<longleftrightarrow>
     (case cJSON_Parse resp of
        Inr (Some obj) \<Rightarrow>
          json_get_int (Some obj) ''tid'' = Inr tid
          \<and> json_get_char (Some obj) ''status'' = Inr (Some status)
          \<and> map_option (\<lambda>d. map valueint (child d)) (cJSON_GetObjectItem (Some obj) ''data'') = data
      | _ \<Rightarrow> False)"

definition obj_item :: "cJSON list \<Rightarrow> cJSON" where
  "obj_item ch = CJSON cJSON_Object None 0 0 0 (DFin 0) None ch"

definition num_item :: "string \<Rightarrow> int \<Rightarrow> cJSON" where
  "num_item nm k = CJSON cJSON_Number None 0 0 k (DFin (of_int k)) (Some nm) []"

definition str_item :: "string \<Rightarrow> string \<Rightarrow> cJSON" where
  "str_item nm s = CJSON cJSON_String (Some s) 0 0 0 (DFin 0) (Some nm) []"

lemma create_number_int: "in_int k \<Longrightarrow> cJSON_CreateNumber (double_of_int k)
    = Inr (CJSON cJSON_Number None 0 0 k (DFin (of_int k)) None [])"
  by (simp add: cJSON_CreateNumber_def cJSON_New_Item_def)

lemma add_number: "in_int k \<Longrightarrow>
    cJSON_AddNumberToObject cJSON_CreateObject nm (double_of_int k) = Inr (obj_item [num_item nm k])"
  by (simp add: cJSON_AddNumberToObject_def create_number_int cJSON_AddItemToObject_def
      cJSON_AddItemToArray_def cJSON_CreateObject_def cJSON_New_Item_def obj_item_def num_item_def
      del: double_of_int_in_int)

lemma add_item: "cJSON_AddItemToObject (obj_item ch) nm (Some it) = obj_item (ch @ [set_cstring (Some nm) it])"
  by (simp add: cJSON_AddItemToObject_def cJSON_AddItemToArray_def obj_item_def)

lemma add_string: "cJSON_AddStringToObject (obj_item ch) nm s = obj_item (ch @ [str_item nm s])"
  by (simp add: cJSON_AddStringToObject_def add_item cJSON_CreateString_def cJSON_New_Item_def str_item_def)

lemma printed_object:
  assumes "printable (obj_item ch)"
  obtains resp where "cJSON_PrintUnformatted (Some (obj_item ch)) = Some resp"
    "cJSON_Parse resp = Inr (Some (canon None (obj_item ch)))"
proof -
  obtain resp where resp: "print_value (obj_item ch) 0 False = Some resp"
    using print_value_total [OF assms] by blast
  have "cJSON_Parse (resp @ []) = Inr (Some (canon None (obj_item ch)))"
    by (rule cJSON_Parse_reads [OF reads_print_value [OF resp assms]]) (simp add: ends_def obj_item_def)
  then show ?thesis using that resp
    by (simp add: cJSON_PrintUnformatted_def print_value_ptr_def)
qed

lemma names_differ:
  "cJSON_strcasecmp (Some ''tid'') (Some ''tid'') = 0" "cJSON_strcasecmp (Some ''status'') (Some ''status'') = 0"
  "cJSON_strcasecmp (Some ''data'') (Some ''data'') = 0"
  "cJSON_strcasecmp (Some ''tid'') (Some ''status'') \<noteq> 0" "cJSON_strcasecmp (Some ''tid'') (Some ''data'') \<noteq> 0"
  "cJSON_strcasecmp (Some ''data'') (Some ''status'') \<noteq> 0" "cJSON_strcasecmp (Some ''status'') (Some ''data'') \<noteq> 0"
  by code_simp+

lemma nul_free_names: "nul_free ''tid''" "nul_free ''status''" "nul_free ''data''" "nul_free ''ok''"
  by simp_all

lemma printable_members:
  "in_int k \<Longrightarrow> printable (num_item nm k)" "nul_free s \<Longrightarrow> printable (str_item nm s)"
  by (simp_all add: num_item_def str_item_def)

lemma status_resp:
  assumes "in_int tid" and "nul_free s"
  obtains resp where "cJSON_PrintUnformatted (Some (obj_item [num_item ''tid'' tid, str_item ''status'' s])) = Some resp"
    "answers resp tid s None"
proof -
  have "printable (obj_item [num_item ''tid'' tid, str_item ''status'' s])"
    using assms by (simp add: obj_item_def printable_members) (simp add: num_item_def str_item_def)
  then obtain resp where "cJSON_PrintUnformatted (Some (obj_item [num_item ''tid'' tid, str_item ''status'' s])) = Some resp"
    "cJSON_Parse resp = Inr (Some (canon None (obj_item [num_item ''tid'' tid, str_item ''status'' s])))"
    by (rule printed_object)
  then show ?thesis
    by (intro that) (auto simp: answers_def obj_item_def num_item_def str_item_def names_differ
        json_get_int_def json_get_char_def cJSON_GetObjectItem_def)
qed

lemma error_resp:
  assumes "in_int tid" and "nul_free reason"
  obtains resp where "modbus_set_error_resp tid reason = Inr (Some resp)" "answers resp tid reason None"
  using status_resp [OF assms] assms(1)
  by (auto simp: modbus_set_error_resp_def add_number add_string simp del: double_of_int_in_int)

lemma ok_resp:
  assumes "in_int tid"
  obtains resp where "set_modbus_no_data_ok_resp tid = Inr (Some resp)" "answers resp tid ''ok'' None"
  using status_resp [OF assms nul_free_names(4)] assms
  by (auto simp: set_modbus_no_data_ok_resp_def add_number add_string simp del: double_of_int_in_int)

section \<open>Arrays of registers\<close>

lemma create_items_map:
  "(\<And>x. x \<in> set xs \<Longrightarrow> mk x = Inr (f x)) \<Longrightarrow> create_items mk xs (length xs) = Inr (map f xs)"
  by (induction xs) simp_all

definition uint8_item :: "u8 \<Rightarrow> cJSON" where
  "uint8_item x = CJSON cJSON_Number None x 0 0 (DFin (of_int (uint x))) None []"

definition uint16_item :: "u16 \<Rightarrow> cJSON" where
  "uint16_item x = CJSON cJSON_Number None 0 x 0 (DFin (of_int (uint x))) None []"

definition arr_item :: "cJSON list \<Rightarrow> cJSON" where
  "arr_item its = CJSON cJSON_Array None 0 0 0 (DFin 0) None its"

text \<open>An item that prints as the number \<open>k\<close>.\<close>

definition prints_int :: "int \<Rightarrow> cJSON \<Rightarrow> bool" where
  "prints_int k it \<longleftrightarrow> printable it \<and> valueint (canon None it) = k"

lemma uint_bounds:
  "uint (x :: u8) \<le> 255 \<and> in_int (uint x)" "uint (y :: u16) \<le> 65535 \<and> in_int (uint y)"
proof -
  have "0 \<le> uint x" "uint x < 256" "0 \<le> uint y" "uint y < 65536"
    using uint_lt2p [of x] uint_lt2p [of y] by simp_all
  then show "uint x \<le> 255 \<and> in_int (uint x)" "uint y \<le> 65535 \<and> in_int (uint y)"
    unfolding in_int_def by linarith+
qed

lemma prints_number:
  "in_int k \<Longrightarrow> prints_int k (CJSON cJSON_Number None u8 u16 0 (DFin (of_int k)) None [])"
  by (simp add: prints_int_def in_int_def)

lemma create_uint8: "cJSON_CreateUInt8 (double_of_int (uint (x :: u8))) = Inr (uint8_item x)"
  using uint_bounds(1) [of x] by (simp add: cJSON_CreateUInt8_def uint8_of_double_def uint8_item_def
      cJSON_New_Item_def word_of_int_uint del: of_int_uint)

lemma create_uint16: "cJSON_CreateUInt16 (double_of_int (uint (x :: u16))) = Inr (uint16_item x)"
  using uint_bounds(2) [of x] by (simp add: cJSON_CreateUInt16_def uint16_of_double_def
      uint16_item_def cJSON_New_Item_def word_of_int_uint del: of_int_uint)

lemma create_uint8_array:
  "len = int (length xs) \<Longrightarrow> cJSON_CreateUInt8Array xs len = Inr (arr_item (map uint8_item xs))"
  by (simp add: cJSON_CreateUInt8Array_def create_array_def create_items_map [OF create_uint8]
      cJSON_CreateArray_def cJSON_New_Item_def arr_item_def)

lemma create_uint16_array:
  "len = int (length xs) \<Longrightarrow> cJSON_CreateUInt16Array xs len = Inr (arr_item (map uint16_item xs))"
  by (simp add: cJSON_CreateUInt16Array_def create_array_def create_items_map [OF create_uint16]
      cJSON_CreateArray_def cJSON_New_Item_def arr_item_def)

lemma prints_uint8: "prints_int (uint x) (uint8_item x)"
  unfolding uint8_item_def by (rule prints_number) (simp add: uint_bounds)

lemma prints_uint16: "prints_int (uint x) (uint16_item x)"
  unfolding uint16_item_def by (rule prints_number) (simp add: uint_bounds)

lemma data_resp:
  assumes "in_int tid" and "list_all2 prints_int ks its"
  obtains resp where "set_modbus_with_data_ok_resp tid (arr_item its) = Inr (Some resp)"
    "answers resp tid ''ok'' (Some ks)"
proof -
  let ?obj = "obj_item [num_item ''tid'' tid, set_cstring (Some ''data'') (arr_item its), str_item ''status'' ''ok'']"
  have vals: "list_all printable its \<and> map (\<lambda>it. valueint (canon None it)) its = ks"
    using assms(2) by (induction rule: list_all2_induct) (auto simp: prints_int_def)
  have "printable ?obj"
    using assms(1) vals by (simp add: obj_item_def printable_members arr_item_def)
      (simp add: num_item_def str_item_def)
  then obtain resp where resp: "cJSON_PrintUnformatted (Some ?obj) = Some resp"
    "cJSON_Parse resp = Inr (Some (canon None ?obj))"
    by (rule printed_object)
  have "set_modbus_with_data_ok_resp tid (arr_item its) = Inr (Some resp)"
    using assms(1) resp(1) by (simp add: set_modbus_with_data_ok_resp_def add_number add_string add_item
        del: double_of_int_in_int)
  moreover have "answers resp tid ''ok'' (Some ks)"
    using resp(2) vals by (auto simp: answers_def obj_item_def num_item_def str_item_def arr_item_def
        names_differ json_get_int_def json_get_char_def cJSON_GetObjectItem_def o_def)
  ultimately show ?thesis by (rule that)
qed

lemma list_all2_map_same: "(\<And>x. P (f x) (g x)) \<Longrightarrow> list_all2 P (map f xs) (map g xs)"
  by (simp add: list_all2_conv_all_nth)

lemma bits_resp:
  assumes "in_int tid" and "len = int (length bits)"
  obtains resp where "bind_c (cJSON_CreateUInt8Array bits len) (set_modbus_with_data_ok_resp tid) = Inr (Some resp)"
    "answers resp tid ''ok'' (Some (map uint bits))"
  using data_resp [OF assms(1) list_all2_map_same [of prints_int uint uint8_item, OF prints_uint8], of bits]
    assms(2) by (auto simp: create_uint8_array)

lemma regs_resp:
  assumes "in_int tid" and "len = int (length regs)"
  obtains resp where "bind_c (cJSON_CreateUInt16Array regs len) (set_modbus_with_data_ok_resp tid) = Inr (Some resp)"
    "answers resp tid ''ok'' (Some (map uint regs))"
  using data_resp [OF assms(1) list_all2_map_same [of prints_int uint uint16_item, OF prints_uint16], of regs]
    assms(2) by (auto simp: create_uint16_array)

end
