(* ===== verification/CJsonMemAnswer.thy ===== *)
theory CJsonMemAnswer imports CJsonMemCreate CJsonMemEdit Response begin

text \<open>
  The answers of \<open>modbusd.c\<close> on the heap: an object is made, its members are added, it is printed and deleted, and no
  call looks whether there was memory for it.
\<close>

section \<open>The functions\<close>

text \<open>An item is added to an object that may be NULL; \<open>object\<close> is only read when there is an item.\<close>

definition AddToObject_mem :: "nat \<Rightarrow> nat option \<Rightarrow> nat \<Rightarrow> nat option \<Rightarrow> mem \<Rightarrow> mem run" where
  "AddToObject_mem n object str item m =
     (case item of
        None \<Rightarrow> Some (Inr m)
      | Some i \<Rightarrow> bind_r (Some (deref object)) (\<lambda>ob. AddItemToObject_mem n ob str (Some i) m))"

text \<open>The macros.\<close>

definition AddNumberToObject_mem :: "nat \<Rightarrow> nat option \<Rightarrow> nat \<Rightarrow> double \<Rightarrow> mem \<Rightarrow> mem run" where
  "AddNumberToObject_mem n object name num m =
     bind_r (cJSON_CreateNumber_mem num m) (\<lambda>(item, m). AddToObject_mem n object name item m)"

definition AddStringToObject_mem :: "nat \<Rightarrow> nat option \<Rightarrow> nat \<Rightarrow> nat \<Rightarrow> mem \<Rightarrow> mem run" where
  "AddStringToObject_mem n object name s m =
     bind_r (cJSON_CreateString_mem n s m) (\<lambda>(item, m). AddToObject_mem n object name item m)"

text \<open>Where the string constants of \<open>modbusd.c\<close> are.\<close>

record answer_strings =
  lit_tid :: nat
  lit_status :: nat
  lit_data :: nat
  lit_ok :: nat

definition modbus_set_error_resp_mem :: "nat \<Rightarrow> answer_strings \<Rightarrow> int \<Rightarrow> nat \<Rightarrow> mem \<Rightarrow> (nat option \<times> mem) run" where
  "modbus_set_error_resp_mem n L tid reason m =
     bind_r (cJSON_CreateObject_mem m) (\<lambda>(resp_root, m).
     bind_r (AddNumberToObject_mem n resp_root (lit_tid L) (double_of_int tid) m) (\<lambda>m.
     bind_r (AddStringToObject_mem n resp_root (lit_status L) reason m) (\<lambda>m.
     bind_r (cJSON_PrintUnformatted_mem n resp_root m) (\<lambda>(resp_json_string, m).
     bind_r (cJSON_Delete n resp_root m) (\<lambda>m. Some (Inr (resp_json_string, m)))))))"

definition set_modbus_no_data_ok_resp_mem :: "nat \<Rightarrow> answer_strings \<Rightarrow> int \<Rightarrow> mem \<Rightarrow> (nat option \<times> mem) run" where
  "set_modbus_no_data_ok_resp_mem n L tid m =
     bind_r (cJSON_CreateObject_mem m) (\<lambda>(resp_root, m).
     bind_r (AddNumberToObject_mem n resp_root (lit_tid L) (double_of_int tid) m) (\<lambda>m.
     bind_r (AddStringToObject_mem n resp_root (lit_status L) (lit_ok L) m) (\<lambda>m.
     bind_r (cJSON_PrintUnformatted_mem n resp_root m) (\<lambda>(resp_json_str, m).
     bind_r (cJSON_Delete n resp_root m) (\<lambda>m. Some (Inr (resp_json_str, m)))))))"

definition set_modbus_with_data_ok_resp_mem ::
  "nat \<Rightarrow> answer_strings \<Rightarrow> int \<Rightarrow> nat option \<Rightarrow> mem \<Rightarrow> (nat option \<times> mem) run" where
  "set_modbus_with_data_ok_resp_mem n L tid json_arr m =
     bind_r (cJSON_CreateObject_mem m) (\<lambda>(resp_root, m).
     bind_r (AddNumberToObject_mem n resp_root (lit_tid L) (double_of_int tid) m) (\<lambda>m.
     bind_r (AddToObject_mem n resp_root (lit_data L) json_arr m) (\<lambda>m.
     bind_r (AddStringToObject_mem n resp_root (lit_status L) (lit_ok L) m) (\<lambda>m.
     bind_r (cJSON_PrintUnformatted_mem n resp_root m) (\<lambda>(resp_json_str, m).
     bind_r (cJSON_Delete n resp_root m) (\<lambda>m. Some (Inr (resp_json_str, m))))))))"

section \<open>A member is added\<close>

lemma AddItemToArray_heap: "AddItemToArray_mem n a item m = Some (Inr m') \<Longrightarrow> m' = m\<lparr>heap := heap m'\<rparr>"
  by (auto simp: AddItemToArray_mem_def bind_r_def put_item_def Let_def split: option.splits sum.splits)

text \<open>\<open>grown m0 m a c\<close>: since \<open>m0\<close> the tree \<open>c\<close> has been built at \<open>a\<close>, and nothing else.\<close>

definition grown :: "mem \<Rightarrow> mem \<Rightarrow> nat \<Rightarrow> cJSON \<Rightarrow> bool" where
  "grown m0 m a c \<longleftrightarrow> (\<exists>F. fresh_tree m0 m a c F) \<and> plain c \<and> ext m0 m \<and> onward m0 m"

lemma add_step:
  assumes m0: "mem_ok m0" and e: "ext m0 m" "onward m0 m"
    and c: "seg (heap m) None (Some a) [c] (Some a) None F" "plain c"
    and i: "seg (heap m) None (Some i) [nc] (Some i) None Fd" "plain nc" "cstring nc = None"
    and d: "distinct (F @ Fd)" "set (F @ Fd) = dom (heap m) - dom (heap m0)"
    and str: "text_at m str = Inr nm" and n: "length (child c) \<le> n"
  obtains m' nc' where "AddToObject_mem n (Some a) str (Some i) m = Some (Inr m')"
    "grown m0 m' a (set_child (child c @ [nc']) c)" "nc' = set_cstring (Some nm) nc \<or> nc' = nc \<and> starved m0 m'" "onward m m'"
proof -
  have ok: "mem_ok m" using e(1) by (rule ext_ok)
  obtain s m1 where al: "alloc (Text nm) m = (s, m1)" by (cases "alloc (Text nm) m")
  note h = alloc_heap [OF ok al]
  have on: "onward m m1" "s = None \<Longrightarrow> starved m m1"
    using ok by (cases rule: alloc_onward [where x = "Text nm"]; use al in simp)+
  obtain m2 where m2: "change_item i (\<lambda>p. p\<lparr>i_string := s\<rparr>) m1 = Inr m2" "only m1 m2 {i}"
    "seg (heap m2) None (Some i) [if s = None then nc else set_cstring (Some nm) nc] (Some i) None (Fd @ opt_list s)"
    by (rule new_name [OF i(1) _ i(3) ok al]) (use d(1) in simp)
  define nc' where "nc' = (if s = None then nc else set_cstring (Some nm) nc)"
  obtain it where it: "heap m i = Some (Item it)" "CJsonMemDup.fields (heap m) it nc" "i \<in> set Fd" using i(1) by auto
  then have no: "i_string it = None" using i(3) by (auto simp: CJsonMemDup.fields_def text_in_def split: option.splits)
  have i1: "item_at m1 i = Inr it" using alloc_keep [OF ok al, of i] it(1) by (simp add: item_at_def domIff)
  have out: "i \<notin> set F" using it(3) d(1) by auto
  have keep: "heap m2 x = heap m x" if "x \<in> set F" for x
  proof -
    have "x \<noteq> i" using that out by auto
    then show ?thesis using only_heap [OF m2(2), of x] alloc_keep [OF ok al, of x] subsetD [OF seg_dom [OF c(1)] that] by simp
  qed
  have c2: "seg (heap m2) None (Some a) [c] (Some a) None F" by (rule seg_frame [OF c(1) keep])
  have s_new: "set (opt_list s) \<inter> (set F \<union> set Fd) = {}" using h(3) seg_dom [OF c(1)] seg_dom [OF i(1)] by auto
  then have d2: "distinct (F @ (Fd @ opt_list s))" using d(1) by (cases s) auto
  obtain m' F' where m': "AddItemToArray_mem n a (Some i) m2 = Some (Inr m')"
    "seg (heap m') None (Some a) [cJSON_AddItemToArray c (Some nc')] (Some a) None F'"
    "edited m2 (set F \<union> set (Fd @ opt_list s)) m' F'" "set F' = set F \<union> set (Fd @ opt_list s)"
    using add_apart [OF c2 d2 m2(3) n] unfolding nc'_def by blast
  have run: "AddToObject_mem n (Some a) str (Some i) m = Some (Inr m')"
    using m'(1) m2(1) i1 it(1) no al str
    by (simp add: AddToObject_mem_def AddItemToObject_mem_def free_opt_def cJSON_strdup_def change_item_def item_at_def [of m])
  have same: "m' = m1\<lparr>heap := heap m'\<rparr>"
    using AddItemToArray_heap [OF m'(1)] m2(2) unfolding only_def by (metis mem.update_convs(1) mem.surjective)
  have dom: "dom (heap m') = dom (heap m) \<union> set (opt_list s)"
    using m'(3,4) m2(2) h(2) by (cases s) (auto simp: edited_def only_def)
  have new: "set F' = dom (heap m') - dom (heap m0)" "distinct F'"
  proof -
    have "set (opt_list s) \<inter> dom (heap m0) = {}" using h(3) ext_heap [OF m0 e(1)] by (auto simp: domIff)
    then show "set F' = dom (heap m') - dom (heap m0)" unfolding dom m'(4) using d(2) by auto
    show "distinct F'" using m'(3) by (simp add: edited_def)
  qed
  have e1: "ext m0 m1" using e(1) h(1) by (rule ext_trans)
  have "ext m0 m'"
  proof -
    have "dom (heap m') = dom (heap m1)" using dom h(2) by (cases s) auto
    then have "heap m' x = None \<longleftrightarrow> heap m1 x = None" for x by (metis domIff)
    then have ok': "mem_ok m'" using ext_ok [OF h(1)] by (subst same) (simp add: mem_ok_def)
    have "heap m' x = heap m0 x" if "x < brk m0" for x
    proof -
      have "x \<notin> set F'" using ext_new [OF e(1), of x] ext_new [OF e1, of x] that new(1) m'(4) dom h(2) by (cases s) auto
      then have "heap m' x = heap m2 x" "x \<noteq> i" using m'(3,4) it(3) by (auto simp: edited_def)
      then show ?thesis using only_heap [OF m2(2), of x] e1 that by (simp add: ext_def)
    qed
    moreover have "brk m' = brk m1" "literals m' = literals m1" "fails m' = fails m1" by (subst same, simp)+
    ultimately show ?thesis using ok' e1 by (simp add: ext_def)
  qed
  moreover have "fresh_tree m0 m' a (set_child (child c @ [nc']) c) F'"
    using m'(2) new \<open>ext m0 m'\<close> unfolding fresh_tree_def by (simp add: cJSON_AddItemToArray_def ext_def del: seg.simps)
  moreover have "plain nc'" using i(2) unfolding nc'_def by (cases nc) simp
  then have "plain (set_child (child c @ [nc']) c)" using c(2) by (cases c) simp
  moreover have onw: "onward m m'" using on(1) by (subst same) simp
  moreover have "onward m0 m'" using e(2) onw by (rule onward_trans)
  moreover have "nc' = set_cstring (Some nm) nc \<or> nc' = nc \<and> starved m0 m'"
  proof (cases "s = None")
    case True
    have "starved m0 m1" by (rule starved_trans(2) [OF e(2) on(2) [OF True]])
    then show ?thesis using True by (subst same) (simp add: nc'_def)
  qed (auto simp: nc'_def)
  ultimately show thesis using that [OF run] unfolding grown_def by blast
qed

lemma grown_seg:
  assumes "grown m0 m a c"
  obtains F where "seg (heap m) None (Some a) [c] (Some a) None F" "distinct F" "set F = dom (heap m) - dom (heap m0)"
    "plain c" "ext m0 m" "onward m0 m"
  using assms by (auto simp: grown_def fresh_tree_def)

text \<open>Nothing but counters of allocations lies between two states with the same heap.\<close>

lemma grown_same:
  "grown m0 m a c \<Longrightarrow> ext m m' \<Longrightarrow> onward m m' \<Longrightarrow> heap m' = heap m \<Longrightarrow> grown m0 m' a c"
  unfolding grown_def fresh_tree_def using ext_trans [of m0 m m'] onward_trans [of m0 m m'] by simp

lemma grown_base:
  assumes "grown m1 m a c" "ext m0 m1" "onward m0 m1" "heap m1 = heap m0"
  shows "grown m0 m a c"
proof -
  obtain F where F: "fresh_tree m1 m a c F" "plain c" "ext m1 m" "onward m1 m" using assms(1) by (auto simp: grown_def)
  have e: "ext m0 m" using assms(2) F(3) by (rule ext_trans)
  then have "fresh_tree m0 m a c F" using F(1) assms(4) by (simp add: fresh_tree_def ext_def del: seg.simps)
  then show ?thesis unfolding grown_def using F(2) e onward_trans [OF assms(3) F(4)] by blast
qed

section \<open>An answer under construction\<close>

text \<open>\<open>shortened ms full\<close>: of the members \<open>full\<close> some are missing in \<open>ms\<close>, or have no name.\<close>

definition shortened :: "cJSON list \<Rightarrow> cJSON list \<Rightarrow> bool" where
  "shortened ms full \<longleftrightarrow>
     (\<exists>parts. ms = concat parts \<and> list_all2 (\<lambda>p c. p = [c] \<or> p = [set_cstring None c] \<or> p = []) parts full)"

definition progress :: "mem \<Rightarrow> mem \<Rightarrow> nat \<Rightarrow> cJSON list \<Rightarrow> bool" where
  "progress m0 m a full \<longleftrightarrow>
     (\<exists>ms. grown m0 m a (obj_item ms) \<and> shortened ms full \<and> (ms = full \<or> starved m0 m))"

lemma shortened_add:
  assumes "shortened ms full" "p = [c] \<or> p = [set_cstring None c] \<or> p = []"
  shows "shortened (ms @ p) (full @ [c])"
proof -
  obtain parts where "ms = concat parts" "list_all2 (\<lambda>p c. p = [c] \<or> p = [set_cstring None c] \<or> p = []) parts full"
    using assms(1) by (auto simp: shortened_def)
  then show ?thesis
    unfolding shortened_def using assms(2) by (intro exI [of _ "parts @ [p]"]) (auto intro!: list_all2_appendI)
qed

lemma weight_set_cstring [simp]: "weight (set_cstring s c) = weight c"
  by (cases c) simp

lemma shortened_smaller: "shortened ms full \<Longrightarrow> length ms \<le> length full \<and> weight (obj_item ms) \<le> weight (obj_item full)"
  unfolding shortened_def
proof (elim exE conjE)
  fix parts assume ms: "ms = concat parts"
  assume "list_all2 (\<lambda>p c. p = [c] \<or> p = [set_cstring None c] \<or> p = []) parts full"
  then have "length (concat parts) \<le> length full
      \<and> sum_list (map (\<lambda>c. weight c + 1) (concat parts)) \<le> sum_list (map (\<lambda>c. weight c + 1) full)"
    by (induction rule: list_all2_induct) auto
  then show ?thesis unfolding ms obj_item_def by simp
qed

lemma progress_start: "fresh_tree m0 m a cJSON_CreateObject F \<Longrightarrow> ext m0 m \<Longrightarrow> onward m0 m \<Longrightarrow> progress m0 m a []"
  unfolding progress_def grown_def
  by (intro exI [of _ "[]"]) (auto simp: shortened_def bare_simps obj_item_def is_ref_def is_const_def)

text \<open>The item that is added has been made before the object, or after it.\<close>

lemma progress_add:
  assumes m0: "mem_ok m0" and p: "progress mb m a full" and r: "\<exists>F. fresh_tree ma m' i nc F" "plain nc" "cstring nc = None"
    and e: "ext m0 m2" "onward m0 m2"
    and s: "\<And>c F. seg (heap m) None (Some a) [c] (Some a) None F \<Longrightarrow> set F = dom (heap m) - dom (heap mb) \<Longrightarrow>
        seg (heap m2) None (Some a) [c] (Some a) None F \<and> set F \<union> (dom (heap m') - dom (heap ma)) = dom (heap m2) - dom (heap m0)
          \<and> set F \<inter> (dom (heap m') - dom (heap ma)) = {}"
    and i: "\<And>F. seg (heap m') None (Some i) [nc] (Some i) None F \<Longrightarrow> set F = dom (heap m') - dom (heap ma)
        \<Longrightarrow> seg (heap m2) None (Some i) [nc] (Some i) None F"
    and st: "starved mb m \<Longrightarrow> starved m0 m2"
    and str: "text_at m0 str = Inr nm" and n: "length full \<le> n"
  obtains m3 where "AddToObject_mem n (Some a) str (Some i) m2 = Some (Inr m3)"
    "progress m0 m3 a (full @ [set_cstring (Some nm) nc])" "onward m2 m3"
proof -
  obtain ms where ms: "grown mb m a (obj_item ms)" "shortened ms full" "ms = full \<or> starved mb m"
    using p by (auto simp: progress_def)
  obtain F where F: "seg (heap m) None (Some a) [obj_item ms] (Some a) None F" "distinct F" "set F = dom (heap m) - dom (heap mb)"
    "plain (obj_item ms)"
    by (rule grown_seg [OF ms(1)])
  obtain Fd where Fd: "seg (heap m') None (Some i) [nc] (Some i) None Fd" "distinct Fd" "set Fd = dom (heap m') - dom (heap ma)"
    using r(1) by (auto simp: fresh_tree_def simp del: seg.simps)
  note s1 = s [OF F(1,3)]
  have ch: "child (obj_item ms) = ms" "set_child xs (obj_item ms) = obj_item xs" for xs by (simp_all add: obj_item_def)
  have d: "distinct (F @ Fd)" "set (F @ Fd) = dom (heap m2) - dom (heap m0)" using F(2) Fd(2,3) s1 by simp_all
  have len: "length (child (obj_item ms)) \<le> n" using shortened_smaller [OF ms(2)] n by (simp add: ch)
  obtain m3 nc' where m3: "AddToObject_mem n (Some a) str (Some i) m2 = Some (Inr m3)"
    "grown m0 m3 a (set_child (child (obj_item ms) @ [nc']) (obj_item ms))"
    "nc' = set_cstring (Some nm) nc \<or> nc' = nc \<and> starved m0 m3" "onward m2 m3"
    by (rule add_step [OF m0 e _ F(4) i [OF Fd(1,3)] r(2,3) d ext_text [OF m0 e(1) str] len])
      (use s1 in blast)+
  have "nc = set_cstring None (set_cstring (Some nm) nc)" using r(3) by (cases nc) simp
  then have "shortened (ms @ [nc']) (full @ [set_cstring (Some nm) nc])" using m3(3) by (intro shortened_add [OF ms(2)]) auto
  moreover have "ms @ [nc'] = full @ [set_cstring (Some nm) nc] \<or> starved m0 m3"
    using ms(3) m3(3) starved_trans(1) [OF st m3(4)] by blast
  ultimately have "progress m0 m3 a (full @ [set_cstring (Some nm) nc])"
    using m3(2) unfolding progress_def ch by blast
  then show thesis using that m3(1,4) by blast
qed

text \<open>The member is made and added.\<close>

lemma progress_new:
  assumes m0: "mem_ok m0" and p: "progress m0 m a full" and r: "made m (Inr nc) r" "cstring nc = None"
    and str: "text_at m0 str = Inr nm" and n: "length full \<le> n"
  obtains m' where "bind_r r (\<lambda>(item, m). AddToObject_mem n (Some a) str item m) = Some (Inr m')"
    "progress m0 m' a (full @ [set_cstring (Some nm) nc])"
proof -
  obtain ms where ms: "grown m0 m a (obj_item ms)" "shortened ms full" "ms = full \<or> starved m0 m"
    using p by (auto simp: progress_def)
  have e: "ext m0 m" "onward m0 m" using ms(1) by (simp_all add: grown_def)
  have ok: "mem_ok m" using e(1) by (rule ext_ok)
  show thesis using r(1)
  proof (cases rule: madeE)
    case (none m')
    have "grown m0 m' a (obj_item ms)" using grown_same [OF ms(1) none(2,3,4)] .
    moreover have "shortened (ms @ []) (full @ [set_cstring (Some nm) nc])" by (rule shortened_add [OF ms(2)]) simp
    moreover have "starved m0 m'" by (rule starved_trans(2) [OF e(2) none(5)])
    ultimately have "progress m0 m' a (full @ [set_cstring (Some nm) nc])" unfolding progress_def by auto
    then show thesis using that none(1) by (simp add: AddToObject_mem_def)
  next
    case (some i m' it F)
    have nc: "it = nc" using some(4) by simp
    have "dom (heap m0) \<subseteq> dom (heap m)" "dom (heap m) \<subseteq> dom (heap m')"
      using ext_heap [OF m0 e(1)] ext_heap [OF ok some(2)] by (auto simp: dom_def)
    then have doms: "(dom (heap m) - dom (heap m0)) \<union> (dom (heap m') - dom (heap m)) = dom (heap m') - dom (heap m0)" by blast
    obtain m3 where "AddToObject_mem n (Some a) str (Some i) m' = Some (Inr m3)"
      "progress m0 m3 a (full @ [set_cstring (Some nm) nc])"
    proof (rule progress_add [OF m0 p _ _ r(2) ext_trans [OF e(1) some(2)] onward_trans [OF e(2) some(3)] _ _ _ str n])
      show "\<exists>F. fresh_tree m m' i nc F" "plain nc" using some(5,6) nc by blast+
      show "seg (heap m') None (Some a) [c] (Some a) None F
          \<and> set F \<union> (dom (heap m') - dom (heap m)) = dom (heap m') - dom (heap m0) \<and> set F \<inter> (dom (heap m') - dom (heap m)) = {}"
        if F: "seg (heap m) None (Some a) [c] (Some a) None F" "set F = dom (heap m) - dom (heap m0)" for c F
      proof (intro conjI)
        show "seg (heap m') None (Some a) [c] (Some a) None F"
          by (rule seg_frame [OF F(1)]) (use F(2) ext_heap [OF ok some(2)] in \<open>auto simp: dom_def\<close>)
      qed (use F(2) doms in auto)
      show "starved m0 m'" if "starved m0 m" using starved_trans(1) [OF that some(3)] .
    qed (assumption | blast)+
    then show thesis using that some(1) by simp
  qed simp
qed

text \<open>The member has been made before the object.\<close>

lemma progress_made:
  assumes m0: "mem_ok m0" and r: "made m0 (Inr nc) (Some (Inr (item, m1)))" "cstring nc = None" and p: "progress m1 m a full"
    and str: "text_at m0 str = Inr nm" and n: "length full \<le> n"
  obtains m' where "AddToObject_mem n (Some a) str item m = Some (Inr m')"
    "progress m0 m' a (full @ [set_cstring (Some nm) nc])"
proof -
  obtain ms where ms: "grown m1 m a (obj_item ms)" "shortened ms full" "ms = full \<or> starved m1 m"
    using p by (auto simp: progress_def)
  have e: "ext m1 m" "onward m1 m" using ms(1) by (simp_all add: grown_def)
  show thesis
  proof (cases item)
    case None
    then have none: "ext m0 m1" "onward m0 m1" "heap m1 = heap m0" "starved m0 m1" using r(1) by simp_all
    have "grown m0 m a (obj_item ms)" by (rule grown_base [OF ms(1) none(1,2,3)])
    moreover have "shortened (ms @ []) (full @ [set_cstring (Some nm) nc])" by (rule shortened_add [OF ms(2)]) simp
    moreover have "starved m0 m" by (rule starved_trans(1) [OF none(4) e(2)])
    ultimately have "progress m0 m a (full @ [set_cstring (Some nm) nc])" unfolding progress_def by auto
    then show thesis using that None by (simp add: AddToObject_mem_def)
  next
    case (Some i)
    then obtain F0 where some: "ext m0 m1" "onward m0 m1" "fresh_tree m0 m1 i nc F0" "plain nc" using r(1) by auto
    have ok: "mem_ok m1" using some(1) by (rule ext_ok)
    have "dom (heap m0) \<subseteq> dom (heap m1)" "dom (heap m1) \<subseteq> dom (heap m)"
      using ext_heap [OF m0 some(1)] ext_heap [OF ok e(1)] by (auto simp: dom_def)
    then have doms: "(dom (heap m) - dom (heap m1)) \<union> (dom (heap m1) - dom (heap m0)) = dom (heap m) - dom (heap m0)" by blast
    obtain m3 where "AddToObject_mem n (Some a) str (Some i) m = Some (Inr m3)"
      "progress m0 m3 a (full @ [set_cstring (Some nm) nc])"
    proof (rule progress_add [OF m0 p _ some(4) r(2) ext_trans [OF some(1) e(1)] onward_trans [OF some(2) e(2)] _ _ _ str n])
      show "\<exists>F. fresh_tree m0 m1 i nc F" using some(3) by blast
      show "seg (heap m) None (Some a) [c] (Some a) None F
          \<and> set F \<union> (dom (heap m1) - dom (heap m0)) = dom (heap m) - dom (heap m0) \<and> set F \<inter> (dom (heap m1) - dom (heap m0)) = {}"
        if F: "seg (heap m) None (Some a) [c] (Some a) None F" "set F = dom (heap m) - dom (heap m1)" for c F
        using F doms by blast
      show "seg (heap m) None (Some i) [nc] (Some i) None F"
        if F: "seg (heap m1) None (Some i) [nc] (Some i) None F" "set F = dom (heap m1) - dom (heap m0)" for F
        by (rule seg_frame [OF F(1)]) (use F(2) ext_heap [OF ok e(1)] in \<open>auto simp: dom_def\<close>)
      show "starved m0 m" if "starved m1 m" using starved_trans(2) [OF some(2) that] .
    qed
    then show thesis using that Some by blast
  qed
qed

text \<open>\<open>answered m0 m full r\<close>: the run \<open>r\<close> from \<open>m\<close> returns the text of an object with the members \<open>full\<close> and nothing else remains
  of what has been allocated since \<open>m0\<close>; when memory is short, members may be missing, or names, or the text, and
  when it was for the object itself the run dereferences NULL.\<close>

definition answered :: "mem \<Rightarrow> mem \<Rightarrow> cJSON list \<Rightarrow> (nat option \<times> mem) run \<Rightarrow> bool" where
  "answered m0 m full r \<longleftrightarrow>
     (case r of
        None \<Rightarrow> False
      | Some (Inl e) \<Rightarrow> e = NullDeref \<and> fails m (allocs m)
      | Some (Inr (None, m')) \<Rightarrow> heap m' = heap m0 \<and> starved m0 m'
      | Some (Inr (Some b, m')) \<Rightarrow>
          \<exists>ms t. print_value (obj_item ms) 0 False = Some t \<and> b \<notin> dom (heap m0) \<and> heap m' = (heap m0)(b \<mapsto> Text t)
            \<and> shortened ms full \<and> (ms = full \<or> starved m0 m'))"

lemma progress_finish:
  assumes m0: "mem_ok m0" and p: "progress m0 m a full" and n: "weight (obj_item full) < n"
    and t: "print_value (obj_item full) 0 False \<noteq> None"
  shows "answered m0 m1 full
    (bind_r (cJSON_PrintUnformatted_mem n (Some a) m) (\<lambda>(resp, m). bind_r (cJSON_Delete n (Some a) m) (\<lambda>m. Some (Inr (resp, m)))))"
proof -
  obtain ms where ms: "grown m0 m a (obj_item ms)" "shortened ms full" "ms = full \<or> starved m0 m"
    using p by (auto simp: progress_def)
  obtain F where F: "fresh_tree m0 m a (obj_item ms) F" "plain (obj_item ms)" "ext m0 m" "onward m0 m"
    using ms(1) by (auto simp: grown_def)
  have w: "weight (obj_item ms) < n" using shortened_smaller [OF ms(2)] n by simp
  obtain r m2 m3 where r: "print_value_mem n (Some a) 0 False m = Some (Inr (r, m2))" "json_release n (Some a) m2 = Some (Inr m3)"
    "case r of None \<Rightarrow> heap m3 = heap m0
     | Some b \<Rightarrow> \<exists>t. print_value (obj_item ms) 0 False = Some t \<and> b \<notin> dom (heap m0) \<and> heap m3 = (heap m0)(b \<mapsto> Text t)"
    "printed m (print_value (obj_item ms) 0 False) r m2" "onward m2 m3"
    by (rule print_release [OF m0 F(1-3) w])
  have on: "onward m m3" using r(4,5) onward_trans by (auto simp: printed_def)
  have run: "bind_r (cJSON_PrintUnformatted_mem n (Some a) m) (\<lambda>(resp, m). bind_r (cJSON_Delete n (Some a) m) (\<lambda>m. Some (Inr (resp, m))))
      = Some (Inr (r, m3))"
    using r(1,2) by (simp add: cJSON_PrintUnformatted_mem_def json_release_def del: print_value_mem.simps cJSON_Delete.simps)
  have full: "ms = full \<or> starved m0 m3" using ms(3) starved_trans(1) [OF _ on] by blast
  show ?thesis
  proof (cases r)
    case None
    then have "print_value (obj_item ms) 0 False = None \<or> starved m m2" using r(4) by (simp add: printed_def)
    then have "starved m0 m3"
      using full t starved_trans(2) [OF F(4) starved_trans(1) [OF _ r(5)]] by blast
    then show ?thesis using r(3) None unfolding run answered_def by simp
  next
    case (Some b)
    then show ?thesis using r(3) ms(2) full unfolding run answered_def by auto
  qed
qed

section \<open>The answers\<close>

definition strings_at :: "mem \<Rightarrow> answer_strings \<Rightarrow> bool" where
  "strings_at m L \<longleftrightarrow> text_at m (lit_tid L) = Inr ''tid'' \<and> text_at m (lit_status L) = Inr ''status''
     \<and> text_at m (lit_data L) = Inr ''data'' \<and> text_at m (lit_ok L) = Inr ''ok''"

lemma number_member:
  assumes "mem_ok m" "in_int k"
  shows "made m (Inr (set_cstring None (num_item nm k))) (cJSON_CreateNumber_mem (double_of_int k) m)"
  using numbers_made(1) [OF assms(1), of "double_of_int k"]
  unfolding create_number_int [OF assms(2)] by (simp add: num_item_def)

lemma string_member:
  assumes "mem_ok m" "text_at m p = Inr s" "3 \<le> n"
  shows "made m (Inr (set_cstring None (str_item nm s))) (cJSON_CreateString_mem n p m)"
  using string_made [OF assms] by (simp add: str_item_def bare_simps)

text \<open>With an object the answer makes progress; without one the first member that is made faults.\<close>

lemma add_number_progress:
  assumes "mem_ok m0" "progress m0 m a full" "in_int k" "text_at m0 str = Inr nm" "length full \<le> n"
  obtains m' where "AddNumberToObject_mem n (Some a) str (double_of_int k) m = Some (Inr m')"
    "progress m0 m' a (full @ [num_item nm k])"
proof -
  have ok: "mem_ok m" using assms(2) ext_ok by (auto simp: progress_def grown_def)
  show thesis
    by (rule progress_new [OF assms(1,2) number_member [OF ok assms(3), of nm] _ assms(4,5)])
      (use that in \<open>auto simp: AddNumberToObject_mem_def num_item_def\<close>)
qed

lemma add_string_progress:
  assumes "mem_ok m0" "progress m0 m a full" "text_at m0 p = Inr s" "3 \<le> n" "text_at m0 str = Inr nm" "length full \<le> n"
  obtains m' where "AddStringToObject_mem n (Some a) str p m = Some (Inr m')"
    "progress m0 m' a (full @ [str_item nm s])"
proof -
  have e: "ext m0 m" using assms(2) by (auto simp: progress_def grown_def)
  have ok: "mem_ok m" "text_at m p = Inr s" using e ext_ok ext_text [OF assms(1) _ assms(3)] by blast+
  show thesis
    by (rule progress_new [OF assms(1,2) string_member [OF ok assms(4), of nm] _ assms(5,6)])
      (use that in \<open>auto simp: AddStringToObject_mem_def str_item_def\<close>)
qed

lemma add_null:
  assumes "made m (Inr nc) r"
  obtains "bind_r r (\<lambda>(item, m). AddToObject_mem n None str item m) = Some (Inl NullDeref)"
  | m' where "bind_r r (\<lambda>(item, m). AddToObject_mem n None str item m) = Some (Inr m')"
    "ext m m'" "onward m m'" "heap m' = heap m" "starved m m'"
  using assms by (cases rule: madeE) (auto simp: AddToObject_mem_def deref_def)

lemma null_released:
  assumes "heap m = heap m0" "starved m0 m" "0 < n"
  shows "answered m0 m1 full
    (bind_r (cJSON_PrintUnformatted_mem n None m) (\<lambda>(resp, m). bind_r (cJSON_Delete n None m) (\<lambda>m. Some (Inr (resp, m)))))"
  using assms by (cases n) (simp_all add: cJSON_PrintUnformatted_mem_def answered_def)

lemma root_made:
  assumes "mem_ok m"
  obtains (none) m' where "cJSON_CreateObject_mem m = Some (Inr (None, m'))" "ext m m'" "onward m m'" "heap m' = heap m"
      "starved m m'" "fails m (allocs m)"
  | (some) a m' where "cJSON_CreateObject_mem m = Some (Inr (Some a, m'))" "progress m m' a []"
proof -
  have f: "fails m (allocs m)" if "cJSON_CreateObject_mem m = Some (Inr (None, m'))" for m'
    using that by (auto simp: cJSON_CreateObject_mem_def new_item_def cJSON_New_Item_mem_def alloc_def Let_def bind_c_def
        split: if_splits sum.splits)
  show thesis using constants_made(6) [OF assms]
  proof (cases rule: madeE)
    case (none m')
    then show thesis using that(1) f by blast
  next
    case (some b m' it F)
    then show thesis using that(2) progress_start [of m m' b F] by simp
  qed simp
qed

lemma status_answered:
  assumes m: "mem_ok m" and tid: "in_int tid" "nul_free s" and L: "strings_at m L" "text_at m p = Inr s" and n: "18 \<le> n"
  shows "answered m m [num_item ''tid'' tid, str_item ''status'' s] (modbus_set_error_resp_mem n L tid p m)"
  using m
proof (cases rule: root_made)
  case (none m1)
  have ok: "mem_ok m1" "text_at m1 p = Inr s" using none(2) ext_ok ext_text [OF m _ L(2)] by blast+
  have fault: "answered m m [num_item ''tid'' tid, str_item ''status'' s] (Some (Inl NullDeref))"
    using none(6) by (simp add: answered_def)
  show ?thesis
  proof (rule add_null [OF number_member [OF ok(1) tid(1)], of n "lit_tid L"])
    assume "bind_r (cJSON_CreateNumber_mem (double_of_int tid) m1) (\<lambda>(item, m). AddToObject_mem n None (lit_tid L) item m)
      = Some (Inl NullDeref)"
    then show ?thesis using fault none(1) by (simp add: modbus_set_error_resp_mem_def AddNumberToObject_mem_def)
  next
    fix m2
    assume t: "bind_r (cJSON_CreateNumber_mem (double_of_int tid) m1) (\<lambda>(item, m). AddToObject_mem n None (lit_tid L) item m)
      = Some (Inr m2)" "ext m1 m2" "onward m1 m2" "heap m2 = heap m1" "starved m1 m2"
    have ok2: "mem_ok m2" "text_at m2 p = Inr s" using t(2) ext_ok ext_text [OF ok(1) _ ok(2)] by blast+
    have three: "3 \<le> n" using n by simp
    show ?thesis
    proof (rule add_null [OF string_member [OF ok2 three], of n "lit_status L"])
      assume "bind_r (cJSON_CreateString_mem n p m2) (\<lambda>(item, m). AddToObject_mem n None (lit_status L) item m)
        = Some (Inl NullDeref)"
      then show ?thesis
        using fault none(1) t(1) by (simp add: modbus_set_error_resp_mem_def AddNumberToObject_mem_def AddStringToObject_mem_def)
    next
      fix m3
      assume u: "bind_r (cJSON_CreateString_mem n p m2) (\<lambda>(item, m). AddToObject_mem n None (lit_status L) item m)
        = Some (Inr m3)" "onward m2 m3" "heap m3 = heap m2"
      have "starved m m3" by (rule starved_trans(1) [OF none(5) onward_trans [OF t(3) u(2)]])
      then show ?thesis
        using null_released [of m3 m n] none(1,4) t(1,4) u(1,3) n
        by (simp add: modbus_set_error_resp_mem_def AddNumberToObject_mem_def AddStringToObject_mem_def)
    qed
  qed
next
  case (some a m1)
  have L1: "text_at m (lit_tid L) = Inr ''tid''" "text_at m (lit_status L) = Inr ''status''" using L(1) by (simp_all add: strings_at_def)
  obtain m2 where m2: "AddNumberToObject_mem n (Some a) (lit_tid L) (double_of_int tid) m1 = Some (Inr m2)"
    "progress m m2 a ([] @ [num_item ''tid'' tid])"
    by (rule add_number_progress [OF m some(2) tid(1) L1(1)]) simp
  have n3: "3 \<le> n" "length ([] @ [num_item ''tid'' tid]) \<le> n" using n by simp_all
  obtain m3 where m3: "AddStringToObject_mem n (Some a) (lit_status L) p m2 = Some (Inr m3)"
    "progress m m3 a (([] @ [num_item ''tid'' tid]) @ [str_item ''status'' s])"
    by (rule add_string_progress [OF m m2(2) L(2) n3(1) L1(2) n3(2)])
  have "print_value (obj_item [num_item ''tid'' tid, str_item ''status'' s]) 0 False \<noteq> None"
    by (rule status_resp [OF tid]) (simp add: cJSON_PrintUnformatted_def print_value_ptr_def)
  moreover have "weight (obj_item [num_item ''tid'' tid, str_item ''status'' s]) < n"
    using n by (simp add: obj_item_def num_item_def str_item_def)
  moreover have "progress m m3 a [num_item ''tid'' tid, str_item ''status'' s]" using m3(2) by simp
  ultimately show ?thesis
    using progress_finish [OF m, of m3 a _ n m] some(1) m2(1) m3(1) by (simp add: modbus_set_error_resp_mem_def)
qed

lemma data_answered:
  assumes m: "mem_ok m" and arr: "made m (Inr nc) (Some (Inr (arr, m1)))" "cstring nc = None"
    and tid: "in_int tid" and L: "strings_at m L" and n: "weight nc + 19 \<le> n"
    and full: "full = [num_item ''tid'' tid, set_cstring (Some ''data'') nc, str_item ''status'' ''ok'']"
    and t: "print_value (obj_item full) 0 False \<noteq> None"
  shows "answered m m1 full (set_modbus_with_data_ok_resp_mem n L tid arr m1)"
proof -
  have e: "ext m m1" "onward m m1" using arr(1) by (cases arr; simp)+
  have ok: "mem_ok m1" using e(1) by (rule ext_ok)
  have L0: "text_at m (lit_tid L) = Inr ''tid''" "text_at m (lit_status L) = Inr ''status''" "text_at m (lit_data L) = Inr ''data''"
    "text_at m (lit_ok L) = Inr ''ok''"
    using L by (simp_all add: strings_at_def)
  have L1: "text_at m1 (lit_tid L) = Inr ''tid''" "text_at m1 (lit_ok L) = Inr ''ok''"
    using L0 ext_text [OF m e(1)] by blast+
  have n3: "3 \<le> n" "Suc (Suc 0) \<le> n" using n by simp_all
  show ?thesis using ok
  proof (cases rule: root_made)
    case (none m2)
    have fault: "answered m m1 full (Some (Inl NullDeref))" using none(6) by (simp add: answered_def)
    have ok2: "mem_ok m2" using none(2) by (rule ext_ok)
    show ?thesis
    proof (rule add_null [OF number_member [OF ok2 tid], of n "lit_tid L"])
      assume "bind_r (cJSON_CreateNumber_mem (double_of_int tid) m2) (\<lambda>(item, m). AddToObject_mem n None (lit_tid L) item m)
        = Some (Inl NullDeref)"
      then show ?thesis using fault none(1) by (simp add: set_modbus_with_data_ok_resp_mem_def AddNumberToObject_mem_def)
    next
      fix m3
      assume t3: "bind_r (cJSON_CreateNumber_mem (double_of_int tid) m2) (\<lambda>(item, m). AddToObject_mem n None (lit_tid L) item m)
        = Some (Inr m3)" "ext m2 m3" "onward m2 m3" "heap m3 = heap m2"
      show ?thesis
      proof (cases arr)
        case (Some i)
        then have "AddToObject_mem n None (lit_data L) arr m3 = Some (Inl NullDeref)"
          by (simp add: AddToObject_mem_def deref_def)
        then show ?thesis
          using fault none(1) t3(1) by (simp add: set_modbus_with_data_ok_resp_mem_def AddNumberToObject_mem_def)
      next
        case None
        then have same: "heap m1 = heap m" "starved m m1" and skip: "AddToObject_mem n None (lit_data L) arr m3 = Some (Inr m3)"
          using arr(1) by (simp_all add: AddToObject_mem_def)
        have e3: "ext m m3" using ext_trans [OF ext_trans [OF e(1) none(2)] t3(2)] .
        have ok3: "mem_ok m3" "text_at m3 (lit_ok L) = Inr ''ok''" using e3 ext_ok ext_text [OF m _ L0(4)] by blast+
        show ?thesis
        proof (rule add_null [OF string_member [OF ok3 n3(1)], of n "lit_status L"])
          assume "bind_r (cJSON_CreateString_mem n (lit_ok L) m3) (\<lambda>(item, m). AddToObject_mem n None (lit_status L) item m)
            = Some (Inl NullDeref)"
          then show ?thesis
            using fault none(1) t3(1) skip
            by (simp add: set_modbus_with_data_ok_resp_mem_def AddNumberToObject_mem_def AddStringToObject_mem_def)
        next
          fix m4
          assume u: "bind_r (cJSON_CreateString_mem n (lit_ok L) m3) (\<lambda>(item, m). AddToObject_mem n None (lit_status L) item m)
            = Some (Inr m4)" "onward m3 m4" "heap m4 = heap m3"
          have "onward m1 m4" by (rule onward_trans [OF onward_trans [OF none(3) t3(3)] u(2)])
          then have "starved m m4" using starved_trans(1) [OF same(2)] by blast
          then show ?thesis
            using null_released [of m4 m n] none(1,4) t3(1,4) u(1,3) n3 same(1) skip
            by (simp add: set_modbus_with_data_ok_resp_mem_def AddNumberToObject_mem_def AddStringToObject_mem_def)
        qed
      qed
    qed
  next
    case (some a m2)
    obtain m3 where m3: "AddNumberToObject_mem n (Some a) (lit_tid L) (double_of_int tid) m2 = Some (Inr m3)"
      "progress m1 m3 a [num_item ''tid'' tid]"
      using add_number_progress [OF ok some(2) tid L1(1), of n] by auto
    obtain m4 where m4: "AddToObject_mem n (Some a) (lit_data L) arr m3 = Some (Inr m4)"
      "progress m m4 a [num_item ''tid'' tid, set_cstring (Some ''data'') nc]"
      using progress_made [OF m arr m3(2) L0(3), of n] n3 by auto
    obtain m5 where m5: "AddStringToObject_mem n (Some a) (lit_status L) (lit_ok L) m4 = Some (Inr m5)"
      "progress m m5 a full"
      using add_string_progress [OF m m4(2) L0(4) n3(1) L0(2)] n3 unfolding full by auto
    have "weight (obj_item full) < n" using n unfolding full by (simp add: obj_item_def num_item_def str_item_def)
    then show ?thesis
      using progress_finish [OF m m5(2) _ t, of n m1] some(1) m3(1) m4(1) m5(1) by (simp add: set_modbus_with_data_ok_resp_mem_def)
  qed
qed

text \<open>The same, with what \<open>modbusd.c\<close> answers when memory does not run short.\<close>

definition answered_as :: "mem \<Rightarrow> mem \<Rightarrow> string option c \<Rightarrow> cJSON list \<Rightarrow> (nat option \<times> mem) run \<Rightarrow> bool" where
  "answered_as m0 m res full r \<longleftrightarrow> answered m0 m full r
     \<and> (case r of
          Some (Inr (Some b, m')) \<Rightarrow> starved m0 m' \<or> (\<exists>t. res = Inr (Some t) \<and> heap m' b = Some (Text t))
        | _ \<Rightarrow> True)"

lemma answered_pure:
  assumes "answered m0 m full r" "res = Inr (print_value (obj_item full) 0 False)"
  shows "answered_as m0 m res full r"
  using assms unfolding answered_as_def by (auto simp: answered_def split: option.splits sum.splits)

lemma array_printed_answer:
  assumes "in_int tid" "list_all2 prints_int ks its"
  shows "set_modbus_with_data_ok_resp tid (arr_item its)
      = Inr (print_value (obj_item [num_item ''tid'' tid, set_cstring (Some ''data'') (arr_item its), str_item ''status'' ''ok'']) 0 False)"
    and "print_value (obj_item [num_item ''tid'' tid, set_cstring (Some ''data'') (arr_item its), str_item ''status'' ''ok'']) 0 False \<noteq> None"
proof -
  show e: "set_modbus_with_data_ok_resp tid (arr_item its)
      = Inr (print_value (obj_item [num_item ''tid'' tid, set_cstring (Some ''data'') (arr_item its), str_item ''status'' ''ok'']) 0 False)"
    using assms(1) by (simp add: set_modbus_with_data_ok_resp_def add_number add_string add_item
        cJSON_PrintUnformatted_def print_value_ptr_def Let_def [of "obj_item _"] del: double_of_int_in_int print_value.simps)
  show "print_value (obj_item [num_item ''tid'' tid, set_cstring (Some ''data'') (arr_item its), str_item ''status'' ''ok'']) 0 False \<noteq> None"
    by (rule data_resp [OF assms]) (simp add: e)
qed

lemma status_printed:
  assumes "in_int tid"
  shows "modbus_set_error_resp tid s = Inr (print_value (obj_item [num_item ''tid'' tid, str_item ''status'' s]) 0 False)"
    and "set_modbus_no_data_ok_resp tid = Inr (print_value (obj_item [num_item ''tid'' tid, str_item ''status'' ''ok'']) 0 False)"
  using assms by (simp_all add: modbus_set_error_resp_def set_modbus_no_data_ok_resp_def add_number add_string
      cJSON_PrintUnformatted_def print_value_ptr_def Let_def [of "obj_item _"] del: double_of_int_in_int print_value.simps)

lemma ok_is_error_form: "set_modbus_no_data_ok_resp_mem n L tid m = modbus_set_error_resp_mem n L tid (lit_ok L) m"
  by (simp add: set_modbus_no_data_ok_resp_mem_def modbus_set_error_resp_mem_def)

lemma data_answered_as:
  assumes "mem_ok m" "made m (Inr (arr_item its)) (Some (Inr (arr, m1)))" "list_all2 prints_int ks its" "in_int tid" "strings_at m L"
    and "weight (arr_item its) + 19 \<le> n"
  shows "answered_as m m1 (set_modbus_with_data_ok_resp tid (arr_item its))
    [num_item ''tid'' tid, set_cstring (Some ''data'') (arr_item its), str_item ''status'' ''ok'']
    (set_modbus_with_data_ok_resp_mem n L tid arr m1)"
  by (rule answered_pure [OF data_answered [OF assms(1,2) _ assms(4-6) refl array_printed_answer(2) [OF assms(4,3)]]
        array_printed_answer(1) [OF assms(4,3)]])
    (simp add: arr_item_def)

lemma weight_items:
  "weight (arr_item (map uint8_item bits)) = 5 + 6 * length bits" "weight (arr_item (map uint16_item regs)) = 5 + 6 * length regs"
  by (induction bits; simp add: arr_item_def uint8_item_def) (induction regs; simp add: arr_item_def uint16_item_def)

text \<open>C28: The answers of the daemon on the heap. Whichever allocations fail, building an answer - with a status, or with the values
  that have been read - returns and leaves the heap as it was but for the text of the answer: the object, its
  members and the array are released, each cell once. When memory has not run short the text is the answer of the model
  without memory; when it has, members or names may be missing from it, or there is no text, and when it has for
  the object itself but not for a member, NULL is dereferenced. Nothing else can go wrong.\<close>

theorem answers_released:
  assumes "mem_ok m" "in_int tid" "strings_at m L" "text_at m p = Inr reason" "nul_free reason" "18 \<le> n"
  shows "answered_as m m (modbus_set_error_resp tid reason) [num_item ''tid'' tid, str_item ''status'' reason]
      (modbus_set_error_resp_mem n L tid p m)
    \<and> answered_as m m (set_modbus_no_data_ok_resp tid) [num_item ''tid'' tid, str_item ''status'' ''ok'']
      (set_modbus_no_data_ok_resp_mem n L tid m)
    \<and> (\<forall>bits arr m1. 6 * length bits + 24 \<le> n
        \<longrightarrow> cJSON_CreateUInt8Array_mem n bits (int (length bits)) m = Some (Inr (arr, m1))
        \<longrightarrow> answered_as m m1 (set_modbus_with_data_ok_resp tid (arr_item (map uint8_item bits)))
          [num_item ''tid'' tid, set_cstring (Some ''data'') (arr_item (map uint8_item bits)), str_item ''status'' ''ok'']
          (set_modbus_with_data_ok_resp_mem n L tid arr m1))
    \<and> (\<forall>regs arr m1. 6 * length regs + 24 \<le> n
        \<longrightarrow> cJSON_CreateUInt16Array_mem n regs (int (length regs)) m = Some (Inr (arr, m1))
        \<longrightarrow> answered_as m m1 (set_modbus_with_data_ok_resp tid (arr_item (map uint16_item regs)))
          [num_item ''tid'' tid, set_cstring (Some ''data'') (arr_item (map uint16_item regs)), str_item ''status'' ''ok'']
          (set_modbus_with_data_ok_resp_mem n L tid arr m1))"
proof (intro conjI allI impI)
  show "answered_as m m (modbus_set_error_resp tid reason) [num_item ''tid'' tid, str_item ''status'' reason]
      (modbus_set_error_resp_mem n L tid p m)"
    using answered_pure [OF status_answered [OF assms(1,2,5,3,4,6)] status_printed(1) [OF assms(2)]] .
  have "text_at m (lit_ok L) = Inr ''ok''" using assms(3) by (simp add: strings_at_def)
  then show "answered_as m m (set_modbus_no_data_ok_resp tid) [num_item ''tid'' tid, str_item ''status'' ''ok'']
      (set_modbus_no_data_ok_resp_mem n L tid m)"
    using answered_pure [OF status_answered [OF assms(1,2) _ assms(3) _ assms(6)] status_printed(2) [OF assms(2)]] ok_is_error_form by simp
  fix bits arr m1
  assume n: "6 * length bits + 24 \<le> n" and r: "cJSON_CreateUInt8Array_mem n bits (int (length bits)) m = Some (Inr (arr, m1))"
  have "made m (Inr (arr_item (map uint8_item bits))) (Some (Inr (arr, m1)))"
    using arrays_made(1) [OF assms(1), of "int (length bits)" n bits] n r by (simp add: create_uint8_array)
  then show "answered_as m m1 (set_modbus_with_data_ok_resp tid (arr_item (map uint8_item bits)))
      [num_item ''tid'' tid, set_cstring (Some ''data'') (arr_item (map uint8_item bits)), str_item ''status'' ''ok'']
      (set_modbus_with_data_ok_resp_mem n L tid arr m1)"
    by (rule data_answered_as [OF assms(1) _ list_all2_map_same [of prints_int uint uint8_item, OF prints_uint8] assms(2,3)])
      (use n in \<open>simp add: weight_items\<close>)
next
  fix regs arr m1
  assume n: "6 * length regs + 24 \<le> n" and r: "cJSON_CreateUInt16Array_mem n regs (int (length regs)) m = Some (Inr (arr, m1))"
  have "made m (Inr (arr_item (map uint16_item regs))) (Some (Inr (arr, m1)))"
    using arrays_made(2) [OF assms(1), of "int (length regs)" n regs] n r by (simp add: create_uint16_array)
  then show "answered_as m m1 (set_modbus_with_data_ok_resp tid (arr_item (map uint16_item regs)))
      [num_item ''tid'' tid, set_cstring (Some ''data'') (arr_item (map uint16_item regs)), str_item ''status'' ''ok'']
      (set_modbus_with_data_ok_resp_mem n L tid arr m1)"
    by (rule data_answered_as [OF assms(1) _ list_all2_map_same [of prints_int uint uint16_item, OF prints_uint16] assms(2,3)])
      (use n in \<open>simp add: weight_items\<close>)
qed

section \<open>A small answer\<close>

definition answer_mem :: mem where
  "answer_mem = \<lparr>heap = Map.empty,
     literals = [0 \<mapsto> ''tid'', 1 \<mapsto> ''status'', 2 \<mapsto> ''data'', 3 \<mapsto> ''ok'', 4 \<mapsto> ''unsupport request''],
     brk = 5, allocs = 0, fails = (\<lambda>_. False)\<rparr>"

definition answer_lits :: answer_strings where
  "answer_lits = \<lparr>lit_tid = 0, lit_status = 1, lit_data = 2, lit_ok = 3\<rparr>"

theorem answers_released_witness:
  "\<exists>b t m'. modbus_set_error_resp_mem 18 answer_lits 7 4 answer_mem = Some (Inr (Some b, m'))
     \<and> heap m' = [b \<mapsto> Text t] \<and> modbus_set_error_resp 7 ''unsupport request'' = Inr (Some t)"
proof -
  have ok: "mem_ok answer_mem" by (simp add: mem_ok_def answer_mem_def)
  have L: "strings_at answer_mem answer_lits" "text_at answer_mem 4 = Inr ''unsupport request''"
    by (simp_all add: strings_at_def answer_mem_def answer_lits_def text_at_def)
  have plenty: "\<not> starved answer_mem x" "\<not> fails answer_mem k" "heap answer_mem = Map.empty" for x k
    by (simp_all add: starved_def answer_mem_def)
  have "answered_as answer_mem answer_mem (modbus_set_error_resp 7 ''unsupport request'')
      [num_item ''tid'' 7, str_item ''status'' ''unsupport request''] (modbus_set_error_resp_mem 18 answer_lits 7 4 answer_mem)"
    using answers_released [OF ok _ L(1,2), of 7 18] by (simp add: in_int_def)
  then show ?thesis
    by (auto simp: answered_as_def answered_def plenty split: option.splits sum.splits)
qed

end
