(* ===== verification/Handles.thy ===== *)
theory Handles imports Response begin

text \<open>
  The handles of the daemon: keys as C strings, the invariant that ties the hash table to the heap
  of handles, and how it evolves. \<open>later d d'\<close> says that \<open>d'\<close> has everything \<open>d\<close> had: no handle is
  lost, refiled or given another context.
\<close>

section \<open>Keys\<close>

definition pad :: "string \<Rightarrow> string" where
  "pad s = s @ replicate (50 - length s) NUL"

definition host_ok :: "string \<Rightarrow> bool" where
  "host_ok s \<longleftrightarrow> nul_free s \<and> length s < 50"

lemma length_pad: "length s < 50 \<Longrightarrow> length (pad s) = 50"
  by (simp add: pad_def)

lemma c_str_pad: "nul_free s \<Longrightarrow> c_str (pad s) = s"
  by (auto simp: c_str_def pad_def takeWhile_append nul_free_def takeWhile_eq_Nil_iff)

lemma strcpy_50_eq: "strcpy_50 s = Inr b \<longleftrightarrow> (\<exists>t. s = Some t \<and> length t < 50 \<and> b = pad t)"
  by (cases s) (auto simp: strcpy_50_def pad_def)

lemma make_key_eq:
  "make_key i p = Inr k \<longleftrightarrow> (\<exists>a b. i = Some a \<and> p = Some b \<and> length a < 50 \<and> length b < 50
     \<and> k = \<lparr>ip = pad a, port = pad b\<rparr>)"
  by (auto simp: make_key_def bind_c_eq_Inr strcpy_50_eq)

lemma key_bytes_inject:
  assumes "host_ok a" "host_ok b" "host_ok a'" "host_ok b'"
  shows "key_bytes \<lparr>ip = pad a, port = pad b\<rparr> = key_bytes \<lparr>ip = pad a', port = pad b'\<rparr>
    \<longleftrightarrow> a = a' \<and> b = b'"
proof
  assume "key_bytes \<lparr>ip = pad a, port = pad b\<rparr> = key_bytes \<lparr>ip = pad a', port = pad b'\<rparr>"
  then have "pad a = pad a' \<and> pad b = pad b'"
    using assms length_pad [of a] length_pad [of a'] by (simp add: key_bytes_def host_ok_def)
  then show "a = a' \<and> b = b'" using assms by (metis c_str_pad host_ok_def)
qed simp

section \<open>The invariant\<close>

definition daemon_ok :: "'w daemon \<Rightarrow> bool" where
  "daemon_ok d \<longleftrightarrow>
     hash_ok HASH_JEN (mbtcp_htable d)
     \<and> filed (hash_map (mbtcp_htable d)) (\<lambda>h. key_bytes (key h)) (handles d)
     \<and> (\<forall>e\<in>set (HASH_ITER (mbtcp_htable d)). e < next_addr d)
     \<and> (\<forall>e\<in>dom (handles d). e < next_addr d)"

definition daemon_room :: "'w daemon \<Rightarrow> bool" where
  "daemon_room d \<longleftrightarrow> hash_room (mbtcp_htable d)"

text \<open>The handle filed under an address and a port.\<close>

definition handle_of :: "'w daemon \<Rightarrow> string \<Rightarrow> string \<Rightarrow> nat option" where
  "handle_of d i p = hash_map (mbtcp_htable d) (key_bytes \<lparr>ip = pad i, port = pad p\<rparr>)"

text \<open>The same table, with the same handles but for their \<open>connected\<close> flags.\<close>

definition keeps :: "'w daemon \<Rightarrow> 'w daemon \<Rightarrow> bool" where
  "keeps d d' \<longleftrightarrow>
     mbtcp_htable d' = mbtcp_htable d \<and> next_addr d' = next_addr d
     \<and> tcp_conn_timeout_usec d' = tcp_conn_timeout_usec d
     \<and> (\<forall>e. map_option (\<lambda>h. (key h, ctx h)) (handles d' e) = map_option (\<lambda>h. (key h, ctx h)) (handles d e))"

definition later :: "'w daemon \<Rightarrow> 'w daemon \<Rightarrow> bool" where
  "later d d' \<longleftrightarrow>
     (\<forall>k e. hash_map (mbtcp_htable d) k = Some e \<longrightarrow> hash_map (mbtcp_htable d') k = Some e)
     \<and> (\<forall>e h. handles d e = Some h \<longrightarrow>
          (\<exists>h'. handles d' e = Some h' \<and> key h' = key h \<and> ctx h' = ctx h))"

lemma keeps_refl [simp]: "keeps d d"
  by (simp add: keeps_def)

lemma keeps_trans: "keeps d d' \<Longrightarrow> keeps d' d'' \<Longrightarrow> keeps d d''"
  by (simp add: keeps_def)

lemma keeps_world [simp]: "keeps d (d'\<lparr>world := w\<rparr>) \<longleftrightarrow> keeps d d'" "keeps (d\<lparr>world := w\<rparr>) d' \<longleftrightarrow> keeps d d'"
  by (simp_all add: keeps_def)

lemma keeps_set_handle:
  "keeps d d' \<Longrightarrow> handles d' e = Some h \<Longrightarrow> keeps d (set_handle e (h\<lparr>connected := b\<rparr>) d')"
  unfolding keeps_def set_handle_def by (auto; metis option.map(2))

lemma keeps_key:
  assumes "keeps d d'" and "handles d e = Some h"
  shows "\<exists>h'. handles d' e = Some h' \<and> key h' = key h \<and> ctx h' = ctx h"
proof -
  have "map_option (\<lambda>h. (key h, ctx h)) (handles d' e) = Some (key h, ctx h)"
    using assms by (simp add: keeps_def)
  then show ?thesis by auto
qed

lemma keeps_later: "keeps d d' \<Longrightarrow> later d d'"
proof -
  assume k: "keeps d d'"
  then have "mbtcp_htable d' = mbtcp_htable d" by (simp add: keeps_def)
  then show ?thesis unfolding later_def using keeps_key [OF k] by simp
qed

lemma later_refl [simp]: "later d d"
  by (simp add: later_def)

lemma later_trans: "later d d' \<Longrightarrow> later d' d'' \<Longrightarrow> later d d''"
proof -
  assume a: "later d d'" and b: "later d' d''"
  have "\<exists>h''. handles d'' e = Some h'' \<and> key h'' = key h \<and> ctx h'' = ctx h"
    if h: "handles d e = Some h" for e h
  proof -
    obtain h' where h': "handles d' e = Some h'" "key h' = key h" "ctx h' = ctx h"
      using a h unfolding later_def by blast
    then obtain h'' where "handles d'' e = Some h''" "key h'' = key h'" "ctx h'' = ctx h'"
      using b unfolding later_def by blast
    with h' show ?thesis by simp
  qed
  then show ?thesis using a b by (simp add: later_def)
qed

lemma later_handle_of: "later d d' \<Longrightarrow> handle_of d i p = Some e \<Longrightarrow> handle_of d' i p = Some e"
  by (simp add: later_def handle_of_def)

lemma keeps_dom: "keeps d d' \<Longrightarrow> dom (handles d') = dom (handles d)"
proof -
  assume k: "keeps d d'"
  have "handles d' e = None \<longleftrightarrow> handles d e = None" for e
  proof -
    have "map_option (\<lambda>h. (key h, ctx h)) (handles d' e) = map_option (\<lambda>h. (key h, ctx h)) (handles d e)"
      using k by (simp add: keeps_def)
    then show ?thesis by (cases "handles d' e"; cases "handles d e") simp_all
  qed
  then show ?thesis by (auto simp: dom_def)
qed

lemma keeps_ok:
  assumes "keeps d d'" and "daemon_ok d"
  shows "daemon_ok d'"
proof -
  have "filed (hash_map (mbtcp_htable d)) (\<lambda>h. key_bytes (key h)) (handles d')"
    unfolding filed_def
  proof (intro allI impI)
    fix k e
    assume "hash_map (mbtcp_htable d) k = Some e"
    then obtain h where "handles d e = Some h" "key_bytes (key h) = k"
      using assms(2) by (auto simp: daemon_ok_def filed_def)
    then show "\<exists>h. handles d' e = Some h \<and> key_bytes (key h) = k"
      using keeps_key [OF assms(1)] by fastforce
  qed
  then show ?thesis using assms keeps_dom [OF assms(1)] by (simp add: daemon_ok_def keeps_def)
qed

lemma keeps_room: "keeps d d' \<Longrightarrow> daemon_room d' = daemon_room d"
  by (simp add: keeps_def daemon_room_def)

section \<open>The operations on handles\<close>

lemma do_connect_keeps:
  assumes "mbtcp_do_connect L handle reason d = Inr (r, d')"
  shows "keeps d d'"
proof (cases handle)
  case (Some e)
  with assms obtain h where h: "handles d e = Some h"
    by (auto simp: mbtcp_do_connect_def get_handle_def bind_c_eq_Inr)
  obtain ret en w where c: "modbus_connect L (ctx h) (world d) = ((ret, en), w)"
    by (metis prod.exhaust)
  show ?thesis using assms h
    by (auto simp: mbtcp_do_connect_def Some get_handle_def c Let_def intro!: keeps_set_handle split: if_splits)
qed (use assms in \<open>simp add: mbtcp_do_connect_def\<close>)

lemma do_connect_total:
  "handles d e = Some h \<Longrightarrow> \<exists>r d'. mbtcp_do_connect L (Some e) reason d = Inr (r, d')"
  by (cases "modbus_connect L (ctx h) (world d)"; cases "fst (modbus_connect L (ctx h) (world d))")
    (auto simp: mbtcp_do_connect_def get_handle_def Let_def)

lemma find_handle:
  assumes "daemon_ok d"
  shows "mbtcp_get_handle (Some i) (Some p) d =
    (if 50 \<le> length i \<or> 50 \<le> length p then Inl BufferOverflow
     else Inr (handle_of d i p \<noteq> None, handle_of d i p))"
proof (cases "length i < 50 \<and> length p < 50")
  case True
  then have "make_key (Some i) (Some p) = Inr \<lparr>ip = pad i, port = pad p\<rparr>" by (simp add: make_key_eq)
  then show ?thesis
    using True find_map [of HASH_JEN "mbtcp_htable d" "key_bytes \<lparr>ip = pad i, port = pad p\<rparr>"] assms
    by (auto simp: mbtcp_get_handle_def handle_of_def daemon_ok_def split: option.split)
next
  case False
  then show ?thesis by (auto simp: mbtcp_get_handle_def make_key_def strcpy_50_def not_less)
qed

text \<open>What \<open>mbtcp_init_handle\<close> has done when it returns true, before it connects.\<close>

definition add_handle :: "'w daemon \<Rightarrow> string \<Rightarrow> string \<Rightarrow> nat \<Rightarrow> 'w daemon" where
  "add_handle d i p c =
     (let k = \<lparr>ip = pad i, port = pad p\<rparr>; e = next_addr d
      in d\<lparr>next_addr := e + 1,
           handles := (handles d)(e \<mapsto> \<lparr>key = k, connected = False, ctx = c\<rparr>),
           mbtcp_htable := HASH_ADD_KEYPTR HASH_JEN (mbtcp_htable d) (key_bytes k) e\<rparr>)"

lemma add_handle_ok:
  assumes ok: "daemon_ok d" and room: "daemon_room d" and new: "handle_of d i p = None"
  shows "daemon_ok (add_handle d i p c)" and "later d (add_handle d i p c)"
    and "handle_of (add_handle d i p c) i p = Some (next_addr d)"
    and "HASH_ITER (mbtcp_htable (add_handle d i p c)) = HASH_ITER (mbtcp_htable d) @ [next_addr d]"
proof -
  let ?k = "\<lparr>ip = pad i, port = pad p\<rparr>" and ?t = "mbtcp_htable d" and ?e = "next_addr d"
  let ?t' = "HASH_ADD_KEYPTR HASH_JEN ?t (key_bytes ?k) ?e"
  have pre: "hash_ok HASH_JEN ?t" "hash_room ?t" "hash_map ?t (key_bytes ?k) = None"
    "?e \<notin> set (HASH_ITER ?t)"
    using assms by (auto simp: daemon_ok_def daemon_room_def handle_of_def)
  have fl: "filed (hash_map ?t) (\<lambda>h. key_bytes (key h)) (handles d)"
    using ok by (simp add: daemon_ok_def)
  note elems = ut.elems_add [OF pre] and look = ut.look_add [OF pre] and inv = ut.inv_add [OF pre]
  have "filed (hash_map ?t') (\<lambda>h. key_bytes (key h))
      ((handles d)(?e \<mapsto> \<lparr>key = ?k, connected = False, ctx = c\<rparr>))"
    using ut.filed_add [of HASH_JEN ?t "\<lambda>h. key_bytes (key h)"
        "\<lparr>key = ?k, connected = False, ctx = c\<rparr>" ?e "handles d"] pre fl by simp
  then show "daemon_ok (add_handle d i p c)"
    using ok inv elems by (auto simp: add_handle_def daemon_ok_def Let_def less_Suc_eq)
  have "?e \<notin> dom (handles d)" using ok by (auto simp: daemon_ok_def)
  then show "later d (add_handle d i p c)"
    using pre(3) look by (auto simp: later_def add_handle_def Let_def dom_def)
  show "handle_of (add_handle d i p c) i p = Some ?e"
    using ut.look_add_same [OF pre] by (simp add: handle_of_def add_handle_def Let_def)
  show "HASH_ITER (mbtcp_htable (add_handle d i p c)) = HASH_ITER ?t @ [?e]"
    using elems by (simp add: add_handle_def Let_def)
qed

lemma init_handle_eq:
  assumes "length i < 50" and "length p < 50"
  shows "mbtcp_init_handle L ptr (Some i) (Some p) d =
    (case modbus_new_tcp_pi L (Some i) (Some p) (world d) of
       (None, w) \<Rightarrow> Inr ((False, ptr), d\<lparr>world := w\<rparr>)
     | (Some c, w) \<Rightarrow>
         bind_c (mbtcp_do_connect L (Some (next_addr d)) None
             (add_handle (d\<lparr>world := modbus_set_response_timeout L c 0 (tcp_conn_timeout_usec d) w\<rparr>) i p c))
           (\<lambda>(_, d'). Inr ((True, Some (next_addr d)), d')))"
proof -
  have "make_key (Some i) (Some p) = Inr \<lparr>ip = pad i, port = pad p\<rparr>"
    using assms by (simp add: make_key_eq)
  then show ?thesis
    by (simp add: mbtcp_init_handle_def add_handle_def set_handle_def Let_def split: prod.split option.split)
qed

section \<open>Getting hold of a handle\<close>

lemma lazy_init_cases:
  assumes r: "lazy_init_mbtcp_handle L None req d = Inr ((ok, ptr), d')" and d: "daemon_ok d" "daemon_room d"
  obtains (found) i p e where "json_get_char req ''ip'' = Inr (Some i)" "json_get_char req ''port'' = Inr (Some p)"
      "length i < 50" "length p < 50" "handle_of d i p = Some e" "ok" "ptr = Some e" "d' = d"
    | (created) i p e where "json_get_char req ''ip'' = Inr (Some i)" "json_get_char req ''port'' = Inr (Some p)"
      "length i < 50" "length p < 50" "handle_of d i p = None" "ok" "ptr = Some e" "e = next_addr d"
      "handle_of d' i p = Some e" "later d d'" "daemon_ok d'"
      "tcp_conn_timeout_usec d' = tcp_conn_timeout_usec d"
    | (failed) i p w where "json_get_char req ''ip'' = Inr (Some i)" "json_get_char req ''port'' = Inr (Some p)"
      "length i < 50" "length p < 50" "handle_of d i p = None" "\<not> ok" "d' = d\<lparr>world := w\<rparr>"
      "modbus_new_tcp_pi L (Some i) (Some p) (world d) = (None, w)"
proof -
  obtain io po found q where io: "json_get_char req ''ip'' = Inr io" and po: "json_get_char req ''port'' = Inr po"
    and g: "mbtcp_get_handle io po d = Inr (found, q)"
    using r by (auto simp: lazy_init_mbtcp_handle_def bind_c_eq_Inr)
  have "\<exists>i p. io = Some i \<and> po = Some p \<and> length i < 50 \<and> length p < 50"
    using g by (auto simp: mbtcp_get_handle_def bind_c_eq_Inr make_key_eq)
  then obtain i p where ip: "io = Some i" "po = Some p" "length i < 50" "length p < 50" by blast
  note g = find_handle [OF d(1), of i p]
  show ?thesis
  proof (cases "handle_of d i p")
    case (Some e)
    then show ?thesis using r io po ip g
      by (intro found [of i p e]) (simp_all add: lazy_init_mbtcp_handle_def)
  next
    case None
    then have init: "mbtcp_init_handle L None (Some i) (Some p) d = Inr ((ok, ptr), d')"
      using r io po ip g by (auto simp: lazy_init_mbtcp_handle_def bind_c_eq_Inr)
    obtain co w where new: "modbus_new_tcp_pi L (Some i) (Some p) (world d) = (co, w)" by fastforce
    show ?thesis
    proof (cases co)
      case None
      then show ?thesis using init new io po ip \<open>handle_of d i p = None\<close>
        by (intro failed [of i p w]) (auto simp: init_handle_eq)
    next
      case (Some c)
      define d0 where "d0 = d\<lparr>world := modbus_set_response_timeout L c 0 (tcp_conn_timeout_usec d) w\<rparr>"
      have e: "mbtcp_init_handle L None (Some i) (Some p) d =
          bind_c (mbtcp_do_connect L (Some (next_addr d)) None (add_handle d0 i p c))
            (\<lambda>(_, d'). Inr ((True, Some (next_addr d)), d'))"
        unfolding init_handle_eq [OF ip(3,4)] new Some d0_def by simp
      obtain y where y: "mbtcp_do_connect L (Some (next_addr d)) None (add_handle d0 i p c) = Inr y"
        and ret: "(case y of (_, d') \<Rightarrow> Inr ((True, Some (next_addr d)), d')) = (Inr ((ok, ptr), d') :: _ c)"
        using init unfolding e bind_c_eq_Inr by blast
      obtain x d1 where x: "y = (x, d1)" by fastforce
      have con: "mbtcp_do_connect L (Some (next_addr d)) None (add_handle d0 i p c) = Inr (x, d')"
        and ptr: "ok" "ptr = Some (next_addr d)"
        using y ret unfolding x by simp_all
      have "daemon_ok d0" "daemon_room d0" "handle_of d0 i p = None"
        using d None by (simp_all add: d0_def daemon_ok_def daemon_room_def handle_of_def)
      note a = add_handle_ok [OF this, of c]
      have k: "keeps (add_handle d0 i p c) d'" by (rule do_connect_keeps [OF con])
      have "later d d'"
        using later_trans [OF a(2) keeps_later [OF k]] by (simp add: d0_def later_def)
      moreover have "handle_of d' i p = Some (next_addr d)"
        using later_handle_of [OF keeps_later [OF k] a(3)] by (simp add: d0_def)
      moreover have "tcp_conn_timeout_usec d' = tcp_conn_timeout_usec d"
        using k by (simp add: keeps_def add_handle_def d0_def Let_def)
      ultimately show ?thesis
        using keeps_ok [OF k a(1)] ip io po ptr None by (intro created [of i p]) simp_all
    qed
  qed
qed

lemma lazy_init_later:
  assumes "lazy_init_mbtcp_handle L None req d = Inr (r, d')" "daemon_ok d" "daemon_room d"
  shows "daemon_ok d'" and "later d d'" and "tcp_conn_timeout_usec d' = tcp_conn_timeout_usec d"
proof -
  obtain ok ptr where r: "r = (ok, ptr)" by fastforce
  from lazy_init_cases [OF assms(1) [unfolded r] assms(2,3)]
  have "daemon_ok d' \<and> later d d' \<and> tcp_conn_timeout_usec d' = tcp_conn_timeout_usec d"
    by cases (use assms(2) in \<open>auto simp: daemon_ok_def later_def\<close>)
  then show "daemon_ok d'" "later d d'" "tcp_conn_timeout_usec d' = tcp_conn_timeout_usec d" by blast+
qed

lemma lazy_connect_keeps:
  "lazy_mbtcp_connect L handle reason d = Inr (r, d') \<Longrightarrow> keeps d d'"
  by (auto simp: lazy_mbtcp_connect_def bind_c_eq_Inr split: if_splits dest: do_connect_keeps)

text \<open>The reason of a failed connection is the library's message (or that there is no handle).\<close>

definition lib_strings :: "'w modbus_lib \<Rightarrow> bool" where
  "lib_strings L \<longleftrightarrow> (\<forall>n. nul_free (modbus_strerror L n))"

lemma do_connect_reason:
  assumes "mbtcp_do_connect L handle reason d = Inr ((False, r), d')" "lib_strings L"
  obtains s where "r = Some s" "nul_free s"
proof (cases handle)
  case None
  then show ?thesis using assms(1) by (intro that) (auto simp: mbtcp_do_connect_def)
next
  case (Some e)
  with assms(1) obtain h where h: "handles d e = Some h"
    by (auto simp: mbtcp_do_connect_def get_handle_def bind_c_eq_Inr)
  obtain ret en w where c: "modbus_connect L (ctx h) (world d) = ((ret, en), w)"
    by (metis prod.exhaust)
  show ?thesis using assms h Some c
    by (intro that [of "modbus_strerror L en"])
      (auto simp: mbtcp_do_connect_def get_handle_def Let_def lib_strings_def split: if_splits)
qed

lemma lazy_connect_reason:
  assumes "lazy_mbtcp_connect L handle reason d = Inr ((False, r), d')" "lib_strings L"
  obtains s where "r = Some s" "nul_free s"
  using assms by (auto simp: lazy_mbtcp_connect_def bind_c_eq_Inr split: if_splits
      elim!: do_connect_reason)

section \<open>The handlers of the function codes\<close>

definition is_answer :: "int \<Rightarrow> string option \<Rightarrow> bool" where
  "is_answer tid resp \<longleftrightarrow> (\<exists>t status data. resp = Some t \<and> answers t tid status data)"

section \<open>Keys tell servers apart\<close>

text \<open>The hundred bytes a handle is filed under identify its server: two addresses and ports that
  fit the key have the same bytes only if they are the same.\<close>

lemma keys_identify_servers:
  assumes "host_ok a" "host_ok b" "host_ok a'" "host_ok b'"
    and "make_key (Some a) (Some b) = Inr k" "make_key (Some a') (Some b') = Inr k'"
  shows "key_bytes k = key_bytes k' \<longleftrightarrow> a = a' \<and> b = b'"
  using key_bytes_inject [OF assms(1-4)] assms(5,6) by (auto simp: make_key_eq)

end
