(* ===== verification/Handlers.thy ===== *)
theory Handlers imports Handles begin

text \<open>
  The handlers of the function codes: each keeps the table of handles, answers with the transaction
  id of the request, and does with the slave what its function code says. \<open>fc_contract\<close> is what the
  generic command handler relies on; every function code meets it.
\<close>

lemma is_answer_errnum:
  assumes "set_modbus_errno_resp L tid e errnum d = Inr (resp, d')" "in_int tid" "lib_strings L"
  shows "is_answer tid resp" and "keeps d d'"
proof -
  from assms(1) obtain d1 where d1: "(if errnum = 104 then bind_c (get_handle d e) (\<lambda>h.
      Inr (set_handle e (h\<lparr>connected := False\<rparr>) d)) else Inr d) = Inr d1"
    and "modbus_set_error_resp tid (modbus_strerror L errnum) = Inr resp" "d' = d1"
    by (auto simp: set_modbus_errno_resp_def bind_c_eq_Inr)
  moreover obtain s where "modbus_set_error_resp tid (modbus_strerror L errnum) = Inr (Some s)"
    "answers s tid (modbus_strerror L errnum) None"
    using error_resp [OF assms(2), of "modbus_strerror L errnum"] assms(3) by (auto simp: lib_strings_def)
  ultimately show "is_answer tid resp" by (auto simp: is_answer_def)
  have "keeps d d1" using d1
    by (auto simp: get_handle_def bind_c_eq_Inr intro!: keeps_set_handle split: if_splits)
  then show "keeps d d'" using \<open>d' = d1\<close> by simp
qed

lemma is_answer_error:
  assumes "modbus_set_error_resp tid s = Inr resp" "in_int tid" "nul_free s"
  shows "is_answer tid resp"
proof -
  obtain t where "modbus_set_error_resp tid s = Inr (Some t)" "answers t tid s None"
    using error_resp [OF assms(2,3)] .
  then show ?thesis using assms(1) by (auto simp: is_answer_def)
qed

lemma is_answer_ok:
  assumes "set_modbus_no_data_ok_resp tid = Inr resp" "in_int tid"
  shows "is_answer tid resp"
proof -
  obtain t where "set_modbus_no_data_ok_resp tid = Inr (Some t)" "answers t tid ''ok'' None"
    using ok_resp [OF assms(2)] .
  then show ?thesis using assms(1) by (auto simp: is_answer_def)
qed

lemma fill_array_length: "fill_array len xs = Inr ys \<Longrightarrow> length ys = nat len"
  by (auto simp: fill_array_def split: if_splits)

lemma is_answer_bits:
  assumes "cJSON_CreateUInt8Array bits len = Inr arr" "set_modbus_with_data_ok_resp tid arr = Inr resp"
    "in_int tid" "len = int (length bits)"
  shows "is_answer tid resp"
proof -
  obtain t where "bind_c (cJSON_CreateUInt8Array bits len) (set_modbus_with_data_ok_resp tid) = Inr (Some t)"
    "answers t tid ''ok'' (Some (map uint bits))"
    using bits_resp [OF assms(3,4)] .
  then show ?thesis using assms(1,2) by (auto simp: is_answer_def)
qed

lemma is_answer_regs:
  assumes "cJSON_CreateUInt16Array regs len = Inr arr" "set_modbus_with_data_ok_resp tid arr = Inr resp"
    "in_int tid" "len = int (length regs)"
  shows "is_answer tid resp"
proof -
  obtain t where "bind_c (cJSON_CreateUInt16Array regs len) (set_modbus_with_data_ok_resp tid) = Inr (Some t)"
    "answers t tid ''ok'' (Some (map uint regs))"
    using regs_resp [OF assms(3,4)] .
  then show ?thesis using assms(1,2) by (auto simp: is_answer_def)
qed

text \<open>The contract: a handler that returns keeps the handles and answers.\<close>

definition fc_contract :: "'w mbtcp_fc \<Rightarrow> bool" where
  "fc_contract fc \<longleftrightarrow>
     (\<forall>e req d resp d' tid. fc e req d = Inr (resp, d') \<longrightarrow> json_get_int req ''tid'' = Inr tid
        \<longrightarrow> in_int tid \<longrightarrow> is_answer tid resp \<and> keeps d d')"

lemma fc_contractI:
  "(\<And>e req d resp d' tid. fc e req d = Inr (resp, d') \<Longrightarrow> json_get_int req ''tid'' = Inr tid
     \<Longrightarrow> in_int tid \<Longrightarrow> is_answer tid resp \<and> keeps d d') \<Longrightarrow> fc_contract fc"
  by (simp add: fc_contract_def)

text \<open>The two reading handlers end in the same way, after the call to the library.\<close>

lemma read_tail_contract:
  assumes f: "fill_array len xs = Inr buf" and "0 < len" and L: "lib_strings L" and tid: "in_int tid"
    and b: "(if ret < 0 then set_modbus_errno_resp L tid e en (d\<lparr>world := w\<rparr>)
        else bind_c (log_loop ret buf) (\<lambda>_. bind_c (mk buf len) (\<lambda>arr.
          bind_c (set_modbus_with_data_ok_resp tid arr) (\<lambda>resp. Inr (resp, d\<lparr>world := w\<rparr>))))) = Inr (resp, d')"
    and mk: "\<And>arr r. len = int (length buf) \<Longrightarrow> mk buf len = Inr arr
      \<Longrightarrow> set_modbus_with_data_ok_resp tid arr = Inr r \<Longrightarrow> is_answer tid r"
  shows "is_answer tid resp \<and> keeps d d'"
proof (cases "ret < 0")
  case True
  then show ?thesis using b is_answer_errnum [OF _ tid L, of e en "d\<lparr>world := w\<rparr>" resp d'] by simp
next
  case False
  have "len = int (length buf)" using fill_array_length [OF f] \<open>0 < len\<close> by simp
  then show ?thesis using b mk False by (auto simp: bind_c_eq_Inr)
qed

lemma read_bit_contract:
  assumes L: "lib_strings L"
  shows "fc_contract (mbtcp_read_bit_req L fc)"
proof (rule fc_contractI)
  fix e req d resp d' tid
  assume r: "mbtcp_read_bit_req L fc e req d = Inr (resp, d')" and tid: "json_get_int req ''tid'' = Inr tid" "in_int tid"
  from r obtain addr len where addr: "json_get_int req ''addr'' = Inr addr" and len: "json_get_int req ''len'' = Inr len"
    by (auto simp: mbtcp_read_bit_req_def bind_c_eq_Inr)
  note r = r [unfolded mbtcp_read_bit_req_def addr len tid(1) bind_c_simps]
  consider "2000 < len" | "len \<le> 2000" "0 < len" "fc \<noteq> 1 \<and> fc \<noteq> 2" | "len \<le> 2000" "0 < len" "fc = 1 \<or> fc = 2"
    using r by (auto split: if_splits)
  then show "is_answer tid resp \<and> keeps d d'"
  proof cases
    case 3
    then have nf: "(2000 < len) = False" "(len \<le> 0) = False" "(fc \<noteq> 1 \<and> fc \<noteq> 2) = False" by auto
    note r = r [unfolded nf if_False]
    then obtain h where h: "handles d e = Some h"
      by (auto simp: get_handle_def bind_c_eq_Inr)
    obtain ret en xs w where c: "(if fc = 1 then modbus_read_bits L (ctx h) addr len (world d)
        else modbus_read_input_bits L (ctx h) addr len (world d)) = ((ret, en, xs), w)"
      by (metis prod.exhaust)
    let ?K = "\<lambda>bits. if ret < 0 then set_modbus_errno_resp L tid e en (d\<lparr>world := w\<rparr>)
        else bind_c (log_loop ret bits) (\<lambda>_. bind_c (cJSON_CreateUInt8Array bits len) (\<lambda>arr.
          bind_c (set_modbus_with_data_ok_resp tid arr) (\<lambda>resp. Inr (resp, d\<lparr>world := w\<rparr>))))"
    have "bind_c (fill_array len xs) ?K = Inr (resp, d')"
      using r h by (simp add: get_handle_def Let_def c)
    then obtain bits where f: "fill_array len xs = Inr bits" and b: "?K bits = Inr (resp, d')"
      unfolding bind_c_eq_Inr by blast
    show ?thesis using f 3(2) L tid(2) b
      by (rule read_tail_contract) (rule is_answer_bits [OF _ _ tid(2)])
  qed (use r tid(2) in \<open>auto simp: bind_c_eq_Inr intro: is_answer_error\<close>)
qed

lemma read_reg_contract:
  assumes L: "lib_strings L"
  shows "fc_contract (mbtcp_read_reg_req L fc)"
proof (rule fc_contractI)
  fix e req d resp d' tid
  assume r: "mbtcp_read_reg_req L fc e req d = Inr (resp, d')" and tid: "json_get_int req ''tid'' = Inr tid" "in_int tid"
  from r obtain addr len where addr: "json_get_int req ''addr'' = Inr addr" and len: "json_get_int req ''len'' = Inr len"
    by (auto simp: mbtcp_read_reg_req_def bind_c_eq_Inr)
  note r = r [unfolded mbtcp_read_reg_req_def addr len tid(1) bind_c_simps]
  consider "125 < len" | "len \<le> 125" "0 < len" "fc \<noteq> 3 \<and> fc \<noteq> 4" | "len \<le> 125" "0 < len" "fc = 3 \<or> fc = 4"
    using r by (auto split: if_splits)
  then show "is_answer tid resp \<and> keeps d d'"
  proof cases
    case 3
    then have nf: "(125 < len) = False" "(len \<le> 0) = False" "(fc \<noteq> 3 \<and> fc \<noteq> 4) = False" by auto
    note r = r [unfolded nf if_False]
    then obtain h where h: "handles d e = Some h"
      by (auto simp: get_handle_def bind_c_eq_Inr)
    obtain ret en xs w where c: "(if fc = 3 then modbus_read_registers L (ctx h) addr len (world d)
        else modbus_read_input_registers L (ctx h) addr len (world d)) = ((ret, en, xs), w)"
      by (metis prod.exhaust)
    let ?K = "\<lambda>regs. if ret < 0 then set_modbus_errno_resp L tid e en (d\<lparr>world := w\<rparr>)
        else bind_c (log_loop ret regs) (\<lambda>_. bind_c (cJSON_CreateUInt16Array regs len) (\<lambda>arr.
          bind_c (set_modbus_with_data_ok_resp tid arr) (\<lambda>resp. Inr (resp, d\<lparr>world := w\<rparr>))))"
    have "bind_c (fill_array len xs) ?K = Inr (resp, d')"
      using r h by (simp add: get_handle_def Let_def c)
    then obtain regs where f: "fill_array len xs = Inr regs" and b: "?K regs = Inr (resp, d')"
      unfolding bind_c_eq_Inr by blast
    show ?thesis using f 3(2) L tid(2) b
      by (rule read_tail_contract) (rule is_answer_regs [OF _ _ tid(2)])
  qed (use r tid(2) in \<open>auto simp: bind_c_eq_Inr intro: is_answer_error\<close>)
qed

lemma write_resp_contract:
  assumes "write_resp L tid e result d = Inr (resp, d')" "in_int tid" "lib_strings L"
  shows "is_answer tid resp \<and> keeps d d'"
proof -
  obtain ret en w where r: "result = ((ret, en), w)" by (metis prod.exhaust)
  show ?thesis
  proof (cases "ret < 0")
    case True
    then show ?thesis using assms is_answer_errnum [of L tid e en "d\<lparr>world := w\<rparr>" resp d']
      by (simp add: write_resp_def r Let_def)
  next
    case False
    then show ?thesis using assms(1,2) by (auto simp: write_resp_def r Let_def bind_c_eq_Inr is_answer_ok)
  qed
qed

lemma single_write_contract:
  assumes L: "lib_strings L"
  shows "fc_contract (mbtcp_single_write_req L fc)"
proof (rule fc_contractI)
  fix e req d resp d' tid
  assume r: "mbtcp_single_write_req L fc e req d = Inr (resp, d')" and tid: "json_get_int req ''tid'' = Inr tid" "in_int tid"
  from r obtain addr data where f: "json_get_int req ''addr'' = Inr addr" "json_get_int req ''data'' = Inr data"
    by (auto simp: mbtcp_single_write_req_def bind_c_eq_Inr)
  note r = r [unfolded mbtcp_single_write_req_def f tid(1) bind_c_simps]
  show "is_answer tid resp \<and> keeps d d'"
    using r tid(2) by (auto simp: bind_c_eq_Inr is_answer_error split: if_splits
        dest!: write_resp_contract [OF _ tid(2) L])
qed

lemma multi_write_contract:
  assumes L: "lib_strings L"
  shows "fc_contract (mbtcp_multi_write_req L fc)"
proof (rule fc_contractI)
  fix e req d resp d' tid
  assume r: "mbtcp_multi_write_req L fc e req d = Inr (resp, d')" and tid: "json_get_int req ''tid'' = Inr tid" "in_int tid"
  from r obtain addr len where f: "json_get_int req ''addr'' = Inr addr" "json_get_int req ''len'' = Inr len"
    by (auto simp: mbtcp_multi_write_req_def bind_c_eq_Inr)
  note r = r [unfolded mbtcp_multi_write_req_def f tid(1) bind_c_simps]
  show "is_answer tid resp \<and> keeps d d'"
    using r tid(2) by (auto simp: bind_c_eq_Inr is_answer_error split: if_splits
        dest!: write_resp_contract [OF _ tid(2) L])
qed

lemma mbtcp_fc_eqs:
  "mbtcp_fc1_req L = mbtcp_read_bit_req L 1" "mbtcp_fc2_req L = mbtcp_read_bit_req L 2"
  "mbtcp_fc3_req L = mbtcp_read_reg_req L 3" "mbtcp_fc4_req L = mbtcp_read_reg_req L 4"
  "mbtcp_fc5_req L = mbtcp_single_write_req L 5" "mbtcp_fc6_req L = mbtcp_single_write_req L 6"
  "mbtcp_fc15_req L = mbtcp_multi_write_req L 15" "mbtcp_fc16_req L = mbtcp_multi_write_req L 16"
  by (simp_all add: fun_eq_iff mbtcp_fc1_req_def mbtcp_fc2_req_def mbtcp_fc3_req_def
      mbtcp_fc4_req_def mbtcp_fc5_req_def mbtcp_fc6_req_def mbtcp_fc15_req_def mbtcp_fc16_req_def)

lemma fc_contracts:
  assumes "lib_strings L"
  shows "fc_contract (mbtcp_fc1_req L)" "fc_contract (mbtcp_fc2_req L)" "fc_contract (mbtcp_fc3_req L)"
    "fc_contract (mbtcp_fc4_req L)" "fc_contract (mbtcp_fc5_req L)" "fc_contract (mbtcp_fc6_req L)"
    "fc_contract (mbtcp_fc15_req L)" "fc_contract (mbtcp_fc16_req L)"
  unfolding mbtcp_fc_eqs
  by (rule read_bit_contract read_reg_contract single_write_contract multi_write_contract, rule assms)+

section \<open>The generic command handler\<close>

lemma cmd_hanlder_run:
  assumes r: "mbtcp_cmd_hanlder L req fc d = Inr (resp, d')" and tid: "json_get_int req ''tid'' = Inr tid" "in_int tid"
    and L: "lib_strings L" and fc: "fc_contract fc"
  obtains x d1 where "lazy_init_mbtcp_handle L None req d = Inr (x, d1)" "keeps d1 d'" "is_answer tid resp"
proof -
  obtain ok ptr d1 where li: "lazy_init_mbtcp_handle L None req d = Inr ((ok, ptr), d1)"
    and r1: "(if ok then bind_c (lazy_mbtcp_connect L ptr None d1) (\<lambda>((up, reason), st).
              if up
              then bind_c (json_get_int req ''slave'') (\<lambda>slave.
                   bind_c (deref ptr) (\<lambda>ptr.
                   bind_c (get_handle st ptr) (\<lambda>h.
                     fc ptr req (st\<lparr>world := modbus_set_slave L (ctx h) slave (world st)\<rparr>))))
              else bind_c (deref reason) (\<lambda>r.
                   bind_c (modbus_set_error_resp tid r) (\<lambda>resp. Inr (resp, st))))
       else bind_c (modbus_set_error_resp tid ''init modbus tcp handle fail'') (\<lambda>resp.
              Inr (resp, d1))) = Inr (resp, d')"
    using r unfolding mbtcp_cmd_hanlder_def tid(1) bind_c_simps
    by (elim bind_c_tripleE) simp
  have "is_answer tid resp \<and> keeps d1 d'"
  proof (cases ok)
    case False
    then show ?thesis using r1 tid(2) by (auto simp: bind_c_eq_Inr intro: is_answer_error)
  next
    case True
    obtain up reason d2 where lc: "lazy_mbtcp_connect L ptr None d1 = Inr ((up, reason), d2)"
      and r2: "(if up
              then bind_c (json_get_int req ''slave'') (\<lambda>slave.
                   bind_c (deref ptr) (\<lambda>ptr.
                   bind_c (get_handle d2 ptr) (\<lambda>h.
                     fc ptr req (d2\<lparr>world := modbus_set_slave L (ctx h) slave (world d2)\<rparr>))))
              else bind_c (deref reason) (\<lambda>r.
                   bind_c (modbus_set_error_resp tid r) (\<lambda>resp. Inr (resp, d2)))) = Inr (resp, d')"
      using r1 unfolding if_P [OF True] by (elim bind_c_tripleE) simp
    have k: "keeps d1 d2" by (rule lazy_connect_keeps [OF lc])
    show ?thesis
    proof (cases up)
      case True
      then obtain e w where "fc e req (d2\<lparr>world := w\<rparr>) = Inr (resp, d')"
        using r2 by (auto simp: bind_c_eq_Inr)
      then have "is_answer tid resp \<and> keeps (d2\<lparr>world := w\<rparr>) d'"
        using fc tid unfolding fc_contract_def by blast
      then show ?thesis using keeps_trans [OF k] by auto
    next
      case False
      then obtain s where "reason = Some s" "nul_free s"
        using lazy_connect_reason [of L ptr None d1 reason d2] lc L by auto
      then show ?thesis using r2 False k tid(2) by (auto simp: bind_c_eq_Inr intro: is_answer_error)
    qed
  qed
  with li that show ?thesis by blast
qed

lemma cmd_hanlder_contract:
  assumes r: "mbtcp_cmd_hanlder L req fc d = Inr (resp, d')" and tid: "json_get_int req ''tid'' = Inr tid" "in_int tid"
    and L: "lib_strings L" and fc: "fc_contract fc" and d: "daemon_ok d" "daemon_room d"
  shows "is_answer tid resp" and "daemon_ok d'" and "later d d'"
    and "tcp_conn_timeout_usec d' = tcp_conn_timeout_usec d"
proof -
  obtain x d1 where li: "lazy_init_mbtcp_handle L None req d = Inr (x, d1)"
    and k: "keeps d1 d'" and ans: "is_answer tid resp"
    using cmd_hanlder_run [OF r tid L fc] .
  note d1 = lazy_init_later [OF li d]
  show "is_answer tid resp" by (rule ans)
  show "daemon_ok d'" using k d1(1) by (rule keeps_ok)
  show "later d d'" using d1(2) keeps_later [OF k] by (rule later_trans)
  show "tcp_conn_timeout_usec d' = tcp_conn_timeout_usec d" using k d1(3) by (simp add: keeps_def)
qed

end
