(* ===== verification/MainLoop.thy ===== *)
theory MainLoop imports Modbusd begin

text \<open>
  \<open>main.c\<close>: loading and saving the configuration, the dispatch of a request, and the request loop.
  A message of the subscriber socket is taken apart by czmq; the daemon answers by sending two-frame
  messages, and \<open>published\<close> collects what it passes to czmq for them. A socket that could not be
  made is a NULL publisher.
\<close>

section \<open>State and configuration\<close>

record 'w modbusd =
  dmn :: "'w daemon"
  enable_syslog :: int
  config_json :: "cJSON option"
  ipc_sub :: "string option"
  ipc_pub :: "string option"
  zmq_pub :: bool                                   \<comment> \<open>the publisher is not NULL\<close>
  published :: "(string \<times> string option) list"

definition load_config ::
  "(string \<Rightarrow> string option) \<Rightarrow> string \<Rightarrow> string \<Rightarrow> 'w modbusd \<Rightarrow> 'w modbusd c" where
  "load_config files junk fname st =
     bind_c (file_to_json files junk fname (config_json st)) (\<lambda>(ret, json).
       let st = st\<lparr>config_json := json\<rparr>
       in if ret < 0 then Inl ExitFailure
          else
            bind_c (json_get_int json ''syslog'') (\<lambda>sl.
            bind_c (json_get_char json ''ipc_sub'') (\<lambda>sub.
            bind_c (json_get_char json ''ipc_pub'') (\<lambda>pub.
            bind_c (json_get_int json ''mbtcp_connect_timeout'') (\<lambda>t.
              Inr (st\<lparr>enable_syslog := sl, ipc_sub := sub, ipc_pub := pub,
                      dmn := (dmn st)\<lparr>tcp_conn_timeout_usec := word_of_int t\<rparr>\<rparr>))))))"

definition save_config ::
  "(string \<Rightarrow> bool) \<Rightarrow> (string \<Rightarrow> string option) \<Rightarrow> string \<Rightarrow> cJSON option
     \<Rightarrow> (string \<Rightarrow> string option) c" where
  "save_config writable files fname config =
     bind_c (json_to_file writable files fname config) (\<lambda>(_, files). Inr files)"

section \<open>Messages\<close>

text \<open>
  czmq is not part of the sources: the two functions that take a message apart are the fields of a
  record over the library's types of messages and frames. Popping an empty message gives a NULL
  frame; what \<open>zframe_strdup\<close> does with it is up to the library.
\<close>

record ('m, 'f) czmq =
  zmsg_pop :: "'m \<Rightarrow> 'f option \<times> 'm"
  zframe_strdup :: "'f option \<Rightarrow> string c"

text \<open>One frame, as the C string the daemon goes on with.\<close>

definition pop_str :: "('m, 'f) czmq \<Rightarrow> 'm \<Rightarrow> (string \<times> 'm) c" where
  "pop_str Z msg =
     (let (frame, msg) = zmsg_pop Z msg
      in bind_c (zframe_strdup Z frame) (\<lambda>str. Inr (c_str str, msg)))"

text \<open>The two strings of a message: the mode, then the request.\<close>

definition request_strings :: "('m, 'f) czmq \<Rightarrow> 'm \<Rightarrow> (string \<times> string) c" where
  "request_strings Z msg =
     bind_c (pop_str Z msg) (\<lambda>(mode, msg).
     bind_c (pop_str Z msg) (\<lambda>(req_json_string, msg). Inr (mode, req_json_string)))"

definition send_modbus_zmq_resp ::
  "string \<Rightarrow> string option \<Rightarrow> 'w modbusd \<Rightarrow> 'w modbusd" where
  "send_modbus_zmq_resp mode json_resp st =
     (if zmq_pub st then st\<lparr>published := published st @ [(mode, json_resp)]\<rparr> else st)"

text \<open>The if-else chain over the commands of the mode \<open>tcp\<close>.\<close>

definition tcp_request ::
  "'w modbus_lib \<Rightarrow> string \<Rightarrow> cJSON option \<Rightarrow> int \<Rightarrow> 'w daemon \<Rightarrow> (string option \<times> 'w daemon) c" where
  "tcp_request L cmd req tid d =
     (if strcmp cmd ''fc1'' = 0 then mbtcp_cmd_hanlder L req (mbtcp_fc1_req L) d
      else if strcmp cmd ''fc2'' = 0 then mbtcp_cmd_hanlder L req (mbtcp_fc2_req L) d
      else if strcmp cmd ''fc3'' = 0 then mbtcp_cmd_hanlder L req (mbtcp_fc3_req L) d
      else if strcmp cmd ''fc4'' = 0 then mbtcp_cmd_hanlder L req (mbtcp_fc4_req L) d
      else if strcmp cmd ''fc5'' = 0 then mbtcp_cmd_hanlder L req (mbtcp_fc5_req L) d
      else if strcmp cmd ''fc6'' = 0 then mbtcp_cmd_hanlder L req (mbtcp_fc6_req L) d
      else if strcmp cmd ''fc15'' = 0 then mbtcp_cmd_hanlder L req (mbtcp_fc15_req L) d
      else if strcmp cmd ''fc16'' = 0 then mbtcp_cmd_hanlder L req (mbtcp_fc16_req L) d
      else if strcmp cmd ''timeout'' = 0
      then bind_c (json_get_int req ''data'') (\<lambda>t. mbtcp_set_response_timeout tid t d)
      else bind_c (modbus_set_error_resp tid ''unsupport request'') (\<lambda>resp. Inr (resp, d)))"

text \<open>What the loop does with a parsed request, and with a text that does not parse.\<close>

definition handle_request ::
  "'w modbus_lib \<Rightarrow> string \<Rightarrow> cJSON option \<Rightarrow> 'w modbusd \<Rightarrow> 'w modbusd c" where
  "handle_request L mode req st =
     bind_c (json_get_int req ''tid'') (\<lambda>tid.
       if req \<noteq> None
       then bind_c (json_get_char req ''cmd'') (\<lambda>cmd.
              if strcmp mode ''tcp'' = 0
              then bind_c (deref cmd) (\<lambda>cmd.
                   bind_c (tcp_request L cmd req tid (dmn st)) (\<lambda>(resp, d).
                     Inr (send_modbus_zmq_resp mode resp (st\<lparr>dmn := d\<rparr>))))
              else if strcmp mode ''rtu'' = 0 then Inr st
              else bind_c (modbus_set_error_resp tid ''unsupport mode'') (\<lambda>resp.
                     Inr (send_modbus_zmq_resp mode resp st)))
       else bind_c (modbus_set_error_resp tid ''Fail to parse command string'') (\<lambda>resp.
              Inr (send_modbus_zmq_resp mode resp st)))"

definition handle_message ::
  "('m, 'f) czmq \<Rightarrow> 'w modbus_lib \<Rightarrow> 'm \<Rightarrow> 'w modbusd \<Rightarrow> 'w modbusd c" where
  "handle_message Z L msg st =
     bind_c (request_strings Z msg) (\<lambda>(mode, req_json_string).
     bind_c (cJSON_Parse req_json_string) (\<lambda>req_json_obj.
       handle_request L mode req_json_obj st))"

text \<open>
  The loop: what \<open>zmsg_recv\<close> returns, call after call, until the daemon is interrupted. A NULL
  message is ignored.
\<close>

fun request_loop ::
  "('m, 'f) czmq \<Rightarrow> 'w modbus_lib \<Rightarrow> 'm option list \<Rightarrow> 'w modbusd \<Rightarrow> 'w modbusd c" where
  "request_loop Z L [] st = Inr st"
| "request_loop Z L (None # msgs) st = request_loop Z L msgs st"
| "request_loop Z L (Some msg # msgs) st =
     bind_c (handle_message Z L msg st) (\<lambda>st. request_loop Z L msgs st)"

text \<open>
  The daemon started with the state \<open>world\<close> outside, and the file system it leaves. The publisher
  and the subscriber are taken to be made.
\<close>

definition initial :: "'w \<Rightarrow> 'w modbusd" where
  "initial w =
     \<lparr>dmn = \<lparr>mbtcp_htable = None, tcp_conn_timeout_usec = 200000, handles = Map.empty,
             next_addr = 1, world = w\<rparr>,
      enable_syslog = 1, config_json = None, ipc_sub = Some ''ipc:///tmp/to.modbus'',
      ipc_pub = Some ''ipc:///tmp/from.modbus'', zmq_pub = True, published = []\<rparr>"

definition config_fname :: "string list \<Rightarrow> string" where
  "config_fname argv = (case argv of _ # f # _ \<Rightarrow> f | _ \<Rightarrow> ''./modbusd.json'')"

definition main ::
  "('m, 'f) czmq \<Rightarrow> 'w modbus_lib \<Rightarrow> (string \<Rightarrow> bool) \<Rightarrow> (string \<Rightarrow> string option) \<Rightarrow> string \<Rightarrow> string list
     \<Rightarrow> 'm option list \<Rightarrow> 'w \<Rightarrow> ('w modbusd \<times> (string \<Rightarrow> string option)) c" where
  "main Z L writable files junk argv msgs w =
     (let fname = config_fname argv
      in bind_c (load_config files junk fname (initial w)) (\<lambda>st.
         bind_c (request_loop Z L msgs st) (\<lambda>st.
         bind_c (save_config writable files fname (config_json st)) (\<lambda>files. Inr (st, files)))))"

section \<open>The daemon as a transition system\<close>

text \<open>One step handles one received message; a step that faults ends the run.\<close>

inductive serve :: "('m, 'f) czmq \<Rightarrow> 'w modbus_lib \<Rightarrow> 'w modbusd \<Rightarrow> 'm \<Rightarrow> 'w modbusd \<Rightarrow> bool"
  for Z L where
  serve: "handle_message Z L msg st = Inr st' \<Longrightarrow> serve Z L st msg st'"

inductive reachable :: "('m, 'f) czmq \<Rightarrow> 'w modbus_lib \<Rightarrow> 'w modbusd \<Rightarrow> 'w modbusd \<Rightarrow> bool"
  for Z L st0 where
  start: "reachable Z L st0 st0"
| step: "reachable Z L st0 st \<Longrightarrow> serve Z L st msg st' \<Longrightarrow> reachable Z L st0 st'"

inductive_cases serveE: "serve Z L st msg st'"
inductive_simps serve_iff: "serve Z L st msg st'"

end
