(* ===== verification/Daemon.thy ===== *)
theory Daemon imports Handlers MainLoop begin

text \<open>
  The daemon as a whole: what one message does to the handles and which answer is sent for it, and
  what holds in every state the daemon reaches.
\<close>

section \<open>Requests in the mode \<open>tcp\<close>\<close>

text \<open>The handler a command selects, if it names a function code.\<close>

definition tcp_fc :: "'w modbus_lib \<Rightarrow> string \<Rightarrow> 'w mbtcp_fc option" where
  "tcp_fc L cmd =
     (if cmd = ''fc1'' then Some (mbtcp_fc1_req L) else if cmd = ''fc2'' then Some (mbtcp_fc2_req L)
      else if cmd = ''fc3'' then Some (mbtcp_fc3_req L) else if cmd = ''fc4'' then Some (mbtcp_fc4_req L)
      else if cmd = ''fc5'' then Some (mbtcp_fc5_req L) else if cmd = ''fc6'' then Some (mbtcp_fc6_req L)
      else if cmd = ''fc15'' then Some (mbtcp_fc15_req L)
      else if cmd = ''fc16'' then Some (mbtcp_fc16_req L) else None)"

lemma strcmp_lit: "nul_free cmd \<Longrightarrow> nul_free s \<Longrightarrow> (strcmp cmd s = 0) = (cmd = s)"
  by (rule strcmp_zero_iff)

lemma tcp_request_fc:
  "nul_free cmd \<Longrightarrow> tcp_request L cmd req tid d =
     (case tcp_fc L cmd of
        Some fc \<Rightarrow> mbtcp_cmd_hanlder L req fc d
      | None \<Rightarrow>
          if cmd = ''timeout''
          then bind_c (json_get_int req ''data'') (\<lambda>t. mbtcp_set_response_timeout tid t d)
          else bind_c (modbus_set_error_resp tid ''unsupport request'') (\<lambda>resp. Inr (resp, d)))"
  by (simp add: tcp_request_def tcp_fc_def strcmp_lit)

lemma tcp_fc_contract: "tcp_fc L cmd = Some fc \<Longrightarrow> lib_strings L \<Longrightarrow> fc_contract fc"
  by (auto simp: tcp_fc_def fc_contracts split: if_splits)

lemma set_timeout_contract:
  assumes "mbtcp_set_response_timeout tid t d = Inr (resp, d')" "in_int tid"
  shows "is_answer tid resp" and "d' = d\<lparr>tcp_conn_timeout_usec := word_of_int t\<rparr>"
  using assms by (auto simp: mbtcp_set_response_timeout_def bind_c_eq_Inr is_answer_ok)

lemma timeout_ok:
  "daemon_ok (d\<lparr>tcp_conn_timeout_usec := t\<rparr>) = daemon_ok d"
  "later d (d\<lparr>tcp_conn_timeout_usec := t\<rparr>)"
  "daemon_room (d\<lparr>tcp_conn_timeout_usec := t\<rparr>) = daemon_room d"
  by (auto simp: daemon_ok_def later_def daemon_room_def)

lemma tcp_request_contract:
  assumes r: "tcp_request L cmd req tid d = Inr (resp, d')" and cmd: "nul_free cmd"
    and tid: "json_get_int req ''tid'' = Inr tid" "in_int tid" and L: "lib_strings L"
    and d: "daemon_ok d" "daemon_room d"
  shows "is_answer tid resp \<and> daemon_ok d' \<and> later d d'"
proof (cases "tcp_fc L cmd")
  case (Some fc)
  then have "mbtcp_cmd_hanlder L req fc d = Inr (resp, d')"
    using r by (simp add: tcp_request_fc [OF cmd])
  from cmd_hanlder_contract [OF this tid L tcp_fc_contract [OF Some L] d] show ?thesis by blast
next
  case None
  show ?thesis
  proof (cases "cmd = ''timeout''")
    case True
    with None r obtain t where "mbtcp_set_response_timeout tid t d = Inr (resp, d')"
      unfolding tcp_request_fc [OF cmd] bind_c_eq_Inr by (auto elim: bind_c_InrE)
    from set_timeout_contract [OF this tid(2)] show ?thesis using d by (simp add: timeout_ok)
  next
    case False
    then show ?thesis using None r tid(2) d
      by (auto simp: tcp_request_fc [OF cmd] bind_c_eq_Inr intro: is_answer_error)
  qed
qed

section \<open>One message\<close>

text \<open>A message that is handled has a mode and a request that parses, with an integer \<open>tid\<close>.\<close>

lemma pop_str_nul_free: "pop_str Z msg = Inr (s, msg') \<Longrightarrow> nul_free s"
  by (auto simp: pop_str_def bind_c_eq_Inr split: prod.splits)

lemma request_strings_nul_free:
  assumes "request_strings Z msg = Inr (mode, json)"
  shows "nul_free mode" "nul_free json"
proof -
  obtain a m1 where m1: "pop_str Z msg = Inr (a, m1)"
    and r: "bind_c (pop_str Z m1) (\<lambda>(s, m). Inr (a, s)) = Inr (mode, json)"
    using assms unfolding request_strings_def by (elim bind_c_pairE) simp
  from r obtain m2 where "pop_str Z m1 = Inr (json, m2)" "a = mode" by (elim bind_c_pairE) simp
  with m1 have "pop_str Z msg = Inr (mode, m1)" "pop_str Z m1 = Inr (json, m2)" by simp_all
  then show "nul_free mode" "nul_free json" by (auto dest: pop_str_nul_free)
qed

lemma handle_message_parts:
  assumes "handle_message Z L msg st = Inr st'"
  obtains mode json req tid where "request_strings Z msg = Inr (mode, json)" "nul_free mode"
    "cJSON_Parse json = Inr (Some req)" "wf_item req"
    "json_get_int (Some req) ''tid'' = Inr tid" "in_int tid"
    "handle_request L mode (Some req) st = Inr st'"
proof -
  obtain mode json where m: "request_strings Z msg = Inr (mode, json)"
    and r: "bind_c (cJSON_Parse json) (\<lambda>req. handle_request L mode req st) = Inr st'"
    using assms unfolding handle_message_def by (elim bind_c_pairE) simp
  obtain reqo where p: "cJSON_Parse json = Inr reqo" and h: "handle_request L mode reqo st = Inr st'"
    using r by (elim bind_c_InrE)
  obtain tid where tid: "json_get_int reqo ''tid'' = Inr tid"
    using h by (auto simp: handle_request_def bind_c_eq_Inr)
  then obtain req where req: "reqo = Some req"
    by (cases reqo) (auto simp: json_get_int_def cJSON_GetObjectItem_def)
  note nf = request_strings_nul_free [OF m]
  have wf: "wf_item req" by (rule cJSON_Parse_wf [OF nf(2) p [unfolded req]])
  have "in_int tid"
    using tid wf_GetObjectItem [OF wf] wf_item_sel(1) by (auto simp: req json_get_int_eq)
  then show ?thesis using that m nf(1) p h tid wf req by blast
qed

lemma wf_get_char:
  "wf_item req \<Longrightarrow> json_get_char (Some req) k = Inr (Some s) \<Longrightarrow> nul_free s"
proof -
  assume wf: "wf_item req" and "json_get_char (Some req) k = Inr (Some s)"
  then obtain it where "cJSON_GetObjectItem (Some req) k = Some it" "valuestring it = Some s"
    by (auto simp: json_get_char_eq)
  with wf_item_sel(2) [OF wf_GetObjectItem [OF wf]] show ?thesis by fastforce
qed

text \<open>What the daemon has done for it, by its mode.\<close>

lemma handle_request_parts:
  assumes "handle_request L mode (Some req) st = Inr st'" and tid: "json_get_int (Some req) ''tid'' = Inr tid"
    and wf: "wf_item req" and mode: "nul_free mode"
  obtains (tcp) cmd resp d where "mode = ''tcp''" "json_get_char (Some req) ''cmd'' = Inr (Some cmd)"
      "nul_free cmd" "tcp_request L cmd (Some req) tid (dmn st) = Inr (resp, d)"
      "st' = send_modbus_zmq_resp mode resp (st\<lparr>dmn := d\<rparr>)"
    | (rtu) "mode = ''rtu''" "st' = st"
    | (unknown) resp where "mode \<noteq> ''tcp''" "mode \<noteq> ''rtu''"
      "modbus_set_error_resp tid ''unsupport mode'' = Inr resp"
      "st' = send_modbus_zmq_resp mode resp st"
proof -
  have c: "(strcmp mode ''tcp'' = 0) = (mode = ''tcp'')" "(strcmp mode ''rtu'' = 0) = (mode = ''rtu'')"
    using mode by (simp_all add: strcmp_zero_iff)
  consider "mode = ''tcp''" | "mode = ''rtu''" | "mode \<noteq> ''tcp''" "mode \<noteq> ''rtu''" by blast
  then show ?thesis
  proof cases
    case 1
    then obtain co cmd where co: "json_get_char (Some req) ''cmd'' = Inr co" "co = Some cmd"
      and r: "bind_c (tcp_request L cmd (Some req) tid (dmn st)) (\<lambda>(resp, d).
          Inr (send_modbus_zmq_resp mode resp (st\<lparr>dmn := d\<rparr>))) = Inr st'"
      using assms(1) by (auto simp: handle_request_def tid bind_c_eq_Inr [of "json_get_char _ _"]
          bind_c_eq_Inr [of "deref _"])
    obtain resp d where "tcp_request L cmd (Some req) tid (dmn st) = Inr (resp, d)"
      "st' = send_modbus_zmq_resp mode resp (st\<lparr>dmn := d\<rparr>)"
      using r by (elim bind_c_pairE) simp
    then show ?thesis using tcp 1 co wf_get_char [OF wf] by blast
  next
    case 2
    then show ?thesis using assms(1) by (intro rtu) (auto simp: handle_request_def tid bind_c_eq_Inr)
  next
    case 3
    then show ?thesis using assms(1) c unknown
      by (auto simp: handle_request_def tid bind_c_eq_Inr)
  qed
qed

lemma send_resp:
  assumes "st' = send_modbus_zmq_resp mode resp st"
  shows "dmn st' = dmn st" and "zmq_pub st' = zmq_pub st"
    and "zmq_pub st \<Longrightarrow> published st' = published st @ [(mode, resp)]"
  using assms by (simp_all add: send_modbus_zmq_resp_def)

text \<open>The effect of a handled message on the handles.\<close>

lemma handle_message_ok:
  assumes h: "handle_message Z L msg st = Inr st'" and L: "lib_strings L"
    and d: "daemon_ok (dmn st)" "daemon_room (dmn st)"
  shows "daemon_ok (dmn st') \<and> later (dmn st) (dmn st') \<and> zmq_pub st' = zmq_pub st"
proof -
  obtain mode json req tid where m: "request_strings Z msg = Inr (mode, json)" and mode: "nul_free mode"
    and p: "cJSON_Parse json = Inr (Some req)"
    and wf: "wf_item req" and tid: "json_get_int (Some req) ''tid'' = Inr tid" "in_int tid"
    and r: "handle_request L mode (Some req) st = Inr st'"
    by (rule handle_message_parts [OF h])
  from r tid(1) wf mode show ?thesis
  proof (cases rule: handle_request_parts)
    case (tcp cmd resp d)
    from tcp_request_contract [OF tcp(4,3) tid L d] send_resp(1,2) [OF tcp(5)]
    show ?thesis by simp
  next
    case rtu
    then show ?thesis using d by simp
  next
    case (unknown resp)
    then show ?thesis using d send_resp(1,2) [OF unknown(4)] by simp
  qed
qed

text \<open>The answer sent for it.\<close>

lemma handle_message_answer:
  assumes h: "handle_message Z L msg st = Inr st'" and L: "lib_strings L"
    and d: "daemon_ok (dmn st)" "daemon_room (dmn st)" and pub: "zmq_pub st"
  obtains mode json req tid where "request_strings Z msg = Inr (mode, json)"
    "cJSON_Parse json = Inr (Some req)" "json_get_int (Some req) ''tid'' = Inr tid"
    "if mode = ''rtu'' then published st' = published st
     else \<exists>t s da. published st' = published st @ [(mode, Some t)] \<and> answers t tid s da"
proof -
  obtain mode json req tid where m: "request_strings Z msg = Inr (mode, json)" and mode: "nul_free mode"
    and p: "cJSON_Parse json = Inr (Some req)"
    and wf: "wf_item req" and tid: "json_get_int (Some req) ''tid'' = Inr tid" "in_int tid"
    and r: "handle_request L mode (Some req) st = Inr st'"
    by (rule handle_message_parts [OF h])
  from r tid(1) wf mode
  have "if mode = ''rtu'' then published st' = published st
     else \<exists>t s da. published st' = published st @ [(mode, Some t)] \<and> answers t tid s da"
  proof (cases rule: handle_request_parts)
    case (tcp cmd resp d1)
    have "is_answer tid resp" using tcp_request_contract [OF tcp(4,3) tid L d] by blast
    then show ?thesis using send_resp(3) [OF tcp(5)] pub tcp(1) by (auto simp: is_answer_def)
  next
    case rtu
    then show ?thesis by simp
  next
    case (unknown resp)
    have "is_answer tid resp" using unknown(3) tid(2) by (rule is_answer_error) simp
    then show ?thesis using send_resp(3) [OF unknown(4)] pub unknown(2) by (auto simp: is_answer_def)
  qed
  with that m p tid(1) show ?thesis by blast
qed

section \<open>Room for handles never comes back\<close>

text \<open>So it is enough to ask for it in the last state of a run.\<close>

lemma init_handle_table:
  assumes "mbtcp_init_handle L ptr i p d = Inr (r, d')"
  shows "mbtcp_htable d' = mbtcp_htable d
    \<or> (\<exists>k e. mbtcp_htable d' = HASH_ADD_KEYPTR HASH_JEN (mbtcp_htable d) k e)"
proof -
  obtain co w where new: "modbus_new_tcp_pi L i p (world d) = (co, w)" by fastforce
  show ?thesis
  proof (cases co)
    case None
    then show ?thesis using assms new by (simp add: mbtcp_init_handle_def) auto
  next
    case (Some c)
    note r = assms [unfolded mbtcp_init_handle_def new Some Let_def prod.case option.case]
    then obtain k where "make_key i p = Inr k" by (auto elim: bind_c_InrE)
    from r [unfolded this bind_c_simps]
    have "mbtcp_htable d' = HASH_ADD_KEYPTR HASH_JEN (mbtcp_htable d) (key_bytes k) (next_addr d)"
      by (elim bind_c_tripleE) (auto dest!: do_connect_keeps simp: keeps_def set_handle_def)
    then show ?thesis by blast
  qed
qed

lemma lazy_init_table:
  assumes "lazy_init_mbtcp_handle L ptr req d = Inr (r, d')"
  shows "mbtcp_htable d' = mbtcp_htable d
    \<or> (\<exists>k e. mbtcp_htable d' = HASH_ADD_KEYPTR HASH_JEN (mbtcp_htable d) k e)"
proof -
  obtain i p found q where "mbtcp_get_handle i p d = Inr (found, q)"
    and r: "(if found then Inr ((True, q), d)
       else bind_c (mbtcp_init_handle L q i p d) (\<lambda>((ok, ptr), st). Inr ((ok, ptr), st))) = Inr (r, d')"
    using assms unfolding lazy_init_mbtcp_handle_def
    by (elim bind_c_InrE [of "json_get_char _ _"] bind_c_pairE [of "mbtcp_get_handle _ _ _"]) simp
  show ?thesis
  proof (cases found)
    case False
    with r obtain x where "mbtcp_init_handle L q i p d = Inr (x, d')"
      by simp (elim bind_c_tripleE, simp)
    then show ?thesis by (rule init_handle_table)
  qed (use r in simp)
qed

lemma tcp_request_table:
  assumes r: "tcp_request L cmd req tid d = Inr (resp, d')" and cmd: "nul_free cmd"
    and tid: "json_get_int req ''tid'' = Inr tid" "in_int tid" and L: "lib_strings L"
  shows "mbtcp_htable d' = mbtcp_htable d
    \<or> (\<exists>k e. mbtcp_htable d' = HASH_ADD_KEYPTR HASH_JEN (mbtcp_htable d) k e)"
proof (cases "tcp_fc L cmd")
  case (Some fc)
  then have "mbtcp_cmd_hanlder L req fc d = Inr (resp, d')"
    using r by (simp add: tcp_request_fc [OF cmd])
  then obtain x d1 where "lazy_init_mbtcp_handle L None req d = Inr (x, d1)" "keeps d1 d'"
    using cmd_hanlder_run [OF _ tid L tcp_fc_contract [OF Some L]] by blast
  then show ?thesis using lazy_init_table by (simp add: keeps_def)
next
  case None
  then show ?thesis using r
    by (auto simp: tcp_request_fc [OF cmd] mbtcp_set_response_timeout_def bind_c_eq_Inr split: if_splits)
qed

lemma handle_message_room:
  assumes h: "handle_message Z L msg st = Inr st'" and L: "lib_strings L"
    and g: "hash_grow (mbtcp_htable (dmn st))"
  shows "hash_grow (mbtcp_htable (dmn st'))" and "daemon_room (dmn st') \<Longrightarrow> daemon_room (dmn st)"
proof -
  obtain mode json req tid where m: "request_strings Z msg = Inr (mode, json)" and mode: "nul_free mode"
    and p: "cJSON_Parse json = Inr (Some req)"
    and wf: "wf_item req" and tid: "json_get_int (Some req) ''tid'' = Inr tid" "in_int tid"
    and r: "handle_request L mode (Some req) st = Inr st'"
    by (rule handle_message_parts [OF h])
  from r tid(1) wf mode
  have "mbtcp_htable (dmn st') = mbtcp_htable (dmn st)
      \<or> (\<exists>k e. mbtcp_htable (dmn st') = HASH_ADD_KEYPTR HASH_JEN (mbtcp_htable (dmn st)) k e)"
  proof (cases rule: handle_request_parts)
    case (tcp cmd resp d1)
    then show ?thesis using tcp_request_table [OF tcp(4,3) tid L] send_resp(1) [OF tcp(5)] by simp
  next
    case rtu
    then show ?thesis by simp
  next
    case (unknown resp)
    then show ?thesis using send_resp(1) [OF unknown(4)] by simp
  qed
  then show "hash_grow (mbtcp_htable (dmn st'))" "daemon_room (dmn st') \<Longrightarrow> daemon_room (dmn st)"
    using g hash_grow_add by (auto simp: daemon_room_def)
qed

section \<open>All reachable states\<close>

lemma initial_ok:
  "daemon_ok (dmn (initial w))" "daemon_room (dmn (initial w))" "hash_grow (mbtcp_htable (dmn (initial w)))"
  by (simp_all add: initial_def daemon_ok_def daemon_room_def hash_room_def hash_ok_None filed_def
      hash_grow_def)

lemma reachable_grow:
  "reachable Z L st0 st \<Longrightarrow> lib_strings L \<Longrightarrow> hash_grow (mbtcp_htable (dmn st0))
    \<Longrightarrow> hash_grow (mbtcp_htable (dmn st))"
  by (induction rule: reachable.induct) (auto simp: serve_iff dest: handle_message_room(1))

lemma reachable_ok:
  assumes "reachable Z L st0 st" and "lib_strings L" and "daemon_ok (dmn st0)"
    and "hash_grow (mbtcp_htable (dmn st0))" and "daemon_room (dmn st)"
  shows "daemon_ok (dmn st) \<and> later (dmn st0) (dmn st) \<and> zmq_pub st = zmq_pub st0"
  using assms
proof (induction rule: reachable.induct)
  case (step st msg st')
  from step.hyps(2) have h: "handle_message Z L msg st = Inr st'" by (simp add: serve_iff)
  have room: "daemon_room (dmn st)"
    using handle_message_room(2) [OF h step.prems(1) reachable_grow [OF step.hyps(1)]] step.prems by blast
  have ih: "daemon_ok (dmn st) \<and> later (dmn st0) (dmn st) \<and> zmq_pub st = zmq_pub st0"
    using step.IH step.prems(1-3) room by blast
  then show ?case
    using handle_message_ok [OF h step.prems(1)] room later_trans by auto
qed simp

end
