(* ===== verification/Slaves.thy ===== *)
theory Slaves imports Daemon begin

text \<open>
  What the handlers do with a slave when everything is in order: which call they make, what they
  answer, and that a complete request never faults. \<open>lib_reads L\<close> states what libmodbus documents
  of its reading calls: they store at most the number of elements asked for, and return at most
  that number.
\<close>

section \<open>Reading\<close>

lemma fill_array_full: "int (length xs) = len \<Longrightarrow> fill_array len xs = Inr xs"
  by (auto simp: fill_array_def)

text \<open>The two ways a reading call ends, for coils and for holding registers.\<close>

lemma read_bits_answers:
  assumes "fc = 1 \<and> call = modbus_read_bits L \<or> fc = 2 \<and> call = modbus_read_input_bits L"
    and "handles d e = Some h" "json_get_int req ''addr'' = Inr addr" "json_get_int req ''len'' = Inr len"
    "json_get_int req ''tid'' = Inr tid" "in_int tid" "0 < len" "len \<le> 2000"
    and "call (ctx h) addr len (world d) = ((ret, en, xs), w)" "0 \<le> ret" "ret \<le> len" "int (length xs) = len"
  shows "\<exists>t. mbtcp_read_bit_req L fc e req d = Inr (Some t, d\<lparr>world := w\<rparr>)
    \<and> answers t tid ''ok'' (Some (map uint xs))"
proof -
  obtain t where t: "bind_c (cJSON_CreateUInt8Array xs len) (set_modbus_with_data_ok_resp tid) = Inr (Some t)"
    "answers t tid ''ok'' (Some (map uint xs))"
    using bits_resp [of tid len xs] assms by auto
  obtain arr where "cJSON_CreateUInt8Array xs len = Inr arr" "set_modbus_with_data_ok_resp tid arr = Inr (Some t)"
    using t(1) by (elim bind_c_InrE)
  then have "mbtcp_read_bit_req L fc e req d = Inr (Some t, d\<lparr>world := w\<rparr>)"
    using assms by (auto simp: mbtcp_read_bit_req_def get_handle_def fill_array_full log_loop_def)
  then show ?thesis using t(2) by blast
qed

lemma read_regs_answers:
  assumes "fc = 3 \<and> call = modbus_read_registers L \<or> fc = 4 \<and> call = modbus_read_input_registers L"
    and "handles d e = Some h" "json_get_int req ''addr'' = Inr addr" "json_get_int req ''len'' = Inr len"
    "json_get_int req ''tid'' = Inr tid" "in_int tid" "0 < len" "len \<le> 125"
    and "call (ctx h) addr len (world d) = ((ret, en, xs), w)" "0 \<le> ret" "ret \<le> len" "int (length xs) = len"
  shows "\<exists>t. mbtcp_read_reg_req L fc e req d = Inr (Some t, d\<lparr>world := w\<rparr>)
    \<and> answers t tid ''ok'' (Some (map uint xs))"
proof -
  obtain t where t: "bind_c (cJSON_CreateUInt16Array xs len) (set_modbus_with_data_ok_resp tid) = Inr (Some t)"
    "answers t tid ''ok'' (Some (map uint xs))"
    using regs_resp [of tid len xs] assms by auto
  obtain arr where "cJSON_CreateUInt16Array xs len = Inr arr" "set_modbus_with_data_ok_resp tid arr = Inr (Some t)"
    using t(1) by (elim bind_c_InrE)
  then have "mbtcp_read_reg_req L fc e req d = Inr (Some t, d\<lparr>world := w\<rparr>)"
    using assms by (auto simp: mbtcp_read_reg_req_def get_handle_def fill_array_full log_loop_def)
  then show ?thesis using t(2) by blast
qed

text \<open>A failed call: the library's message, and a handle that is to connect again after 104.\<close>

lemma errno_resp:
  assumes "handles d e = Some h" "in_int tid" "lib_strings L"
  shows "\<exists>t. set_modbus_errno_resp L tid e en d
      = Inr (Some t, if en = 104 then set_handle e (h\<lparr>connected := False\<rparr>) d else d)
    \<and> answers t tid (modbus_strerror L en) None"
proof -
  obtain t where "modbus_set_error_resp tid (modbus_strerror L en) = Inr (Some t)"
    "answers t tid (modbus_strerror L en) None"
    using error_resp [OF assms(2), of "modbus_strerror L en"] assms(3) by (auto simp: lib_strings_def)
  then show ?thesis using assms(1) by (cases "en = 104") (simp_all add: set_modbus_errno_resp_def get_handle_def)
qed

section \<open>Writing\<close>

lemma store_items_eq:
  "i + length items \<le> length arr \<Longrightarrow> store_items items i arr
     = Inr (take i arr @ map (\<lambda>it. word_of_int (valueint it)) items @ drop (i + length items) arr)"
proof (induction items i arr rule: store_items.induct)
  case (2 item items i arr)
  then have i: "i < length arr" by simp
  have "take (Suc i) (arr[i := word_of_int (valueint item)])
      = take i arr @ [word_of_int (valueint item)]"
    using i by (simp add: take_Suc_conv_app_nth)
  then show ?case using 2 i by simp
qed simp

lemma store_items_overflow:
  "i \<le> length arr \<Longrightarrow> length arr < i + length items \<Longrightarrow> store_items items i arr = Inl BufferOverflow"
  by (induction items i arr rule: store_items.induct) auto

text \<open>All that can come out of building the array of a multiple write.\<close>

lemma data_array_eq:
  "data_array req len =
     (if len < 0 then Inl NullDeref
      else case cJSON_GetObjectItem req ''data'' of
        None \<Rightarrow> Inl NullDeref
      | Some data \<Rightarrow>
          if len < int (length (child data)) then Inl BufferOverflow
          else Inr (map (\<lambda>it. word_of_int (valueint it)) (child data)
                    @ replicate (nat len - length (child data)) 0))"
  by (auto simp: data_array_def alloc_array_def store_items_eq store_items_overflow split: option.split)

lemma write_resp_ok:
  assumes "result = ((ret, en), w)" "0 \<le> ret" "in_int tid"
  shows "\<exists>t. write_resp L tid e result d = Inr (Some t, d\<lparr>world := w\<rparr>) \<and> answers t tid ''ok'' None"
proof -
  obtain t where "set_modbus_no_data_ok_resp tid = Inr (Some t)" "answers t tid ''ok'' None"
    using ok_resp [OF assms(3)] .
  then show ?thesis using assms(1,2) by (simp add: write_resp_def)
qed

lemma write_resp_total:
  assumes "handles d e = Some h" "in_int tid" "lib_strings L"
  shows "\<exists>r d'. write_resp L tid e result d = Inr (r, d')"
proof -
  obtain ret en w where r: "result = ((ret, en), w)" by (metis prod.exhaust)
  show ?thesis
  proof (cases "ret < 0")
    case True
    then show ?thesis using errno_resp [of "d\<lparr>world := w\<rparr>" e h tid L en] assms
      by (auto simp: write_resp_def r)
  next
    case False
    then show ?thesis using write_resp_ok [OF r, of tid L e d] assms(2) by auto
  qed
qed

section \<open>Complete requests are served\<close>

definition bounded_read ::
  "(nat \<Rightarrow> int \<Rightarrow> int \<Rightarrow> 'w \<Rightarrow> (int \<times> int \<times> 'a list) \<times> 'w) \<Rightarrow> bool" where
  "bounded_read call \<longleftrightarrow>
     (\<forall>c a n w. case call c a n w of ((ret, en, xs), w') \<Rightarrow> int (length xs) \<le> max 0 n \<and> ret \<le> max 0 n)"

definition lib_reads :: "'w modbus_lib \<Rightarrow> bool" where
  "lib_reads L \<longleftrightarrow> bounded_read (modbus_read_bits L) \<and> bounded_read (modbus_read_input_bits L)
     \<and> bounded_read (modbus_read_registers L) \<and> bounded_read (modbus_read_input_registers L)"

lemma bounded_readD:
  "bounded_read call \<Longrightarrow> call c a n w = ((ret, en, xs), w') \<Longrightarrow> 0 < n \<Longrightarrow> int (length xs) \<le> n \<and> ret \<le> n"
  unfolding bounded_read_def by (drule spec [of _ c], drule spec [of _ a], drule spec [of _ n],
      drule spec [of _ w]) simp

definition has_field :: "cJSON option \<Rightarrow> string \<Rightarrow> bool" where
  "has_field req k \<longleftrightarrow> cJSON_GetObjectItem req k \<noteq> None"

definition has_host :: "cJSON option \<Rightarrow> string \<Rightarrow> bool" where
  "has_host req k \<longleftrightarrow>
     (case json_get_char req k of Inr (Some s) \<Rightarrow> length s < 50 | _ \<Rightarrow> False)"

definition int_field :: "cJSON option \<Rightarrow> string \<Rightarrow> int" where
  "int_field req k = (case json_get_int req k of Inr n \<Rightarrow> n | Inl _ \<Rightarrow> 0)"

definition data_size :: "cJSON option \<Rightarrow> int" where
  "data_size req = (case cJSON_GetObjectItem req ''data'' of None \<Rightarrow> 0 | Some it \<Rightarrow> int (length (child it)))"

text \<open>What a request needs so that its handler runs through, by command.\<close>

definition complete_request :: "string \<Rightarrow> cJSON option \<Rightarrow> bool" where
  "complete_request cmd req \<longleftrightarrow>
     (if cmd \<in> {''fc1'', ''fc2'', ''fc3'', ''fc4'', ''fc5'', ''fc6'', ''fc15'', ''fc16''}
      then has_host req ''ip'' \<and> has_host req ''port'' \<and> has_field req ''slave'' \<and> has_field req ''addr''
        \<and> (if cmd \<in> {''fc5'', ''fc6''} then has_field req ''data''
           else has_field req ''len''
             \<and> (if cmd \<in> {''fc15'', ''fc16''}
                then has_field req ''data'' \<and> data_size req \<le> int_field req ''len''
                else 0 < int_field req ''len''))
      else cmd = ''timeout'' \<longrightarrow> has_field req ''data'')"

lemma has_field_int: "has_field req k \<Longrightarrow> json_get_int req k = Inr (int_field req k)"
  by (auto simp: has_field_def int_field_def json_get_int_def)

lemma has_host_char: "has_host req k \<Longrightarrow> \<exists>s. json_get_char req k = Inr (Some s) \<and> length s < 50"
  by (auto simp: has_host_def split: sum.splits option.splits)

lemma error_total:
  assumes "in_int tid" "nul_free s"
  shows "\<exists>r d'. bind_c (modbus_set_error_resp tid s) (\<lambda>resp. Inr (resp, d)) = Inr (r, d')"
proof -
  obtain t where "modbus_set_error_resp tid s = Inr (Some t)" using error_resp [OF assms] .
  then show ?thesis by simp
qed

lemma read_tail_total:
  assumes "int (length xs) \<le> len" "ret \<le> len" "0 < len" and L: "lib_strings L" and tid: "in_int tid"
    and h: "handles d e = Some h"
    and mk: "\<And>buf. int (length buf) = len \<Longrightarrow> \<exists>arr r. mk buf len = Inr arr
      \<and> set_modbus_with_data_ok_resp tid arr = Inr r"
  shows "\<exists>r d'. bind_c (fill_array len xs) (\<lambda>buf.
      if ret < 0 then set_modbus_errno_resp L tid e en (d\<lparr>world := w\<rparr>)
        else bind_c (log_loop ret buf) (\<lambda>_. bind_c (mk buf len) (\<lambda>arr.
          bind_c (set_modbus_with_data_ok_resp tid arr) (\<lambda>resp. Inr (resp, d\<lparr>world := w\<rparr>))))) = Inr (r, d')"
proof -
  obtain buf where buf: "fill_array len xs = Inr buf" "int (length buf) = len"
  proof
    have "\<not> nat len < length xs" using assms(1) by linarith
    then show "fill_array len xs = Inr (xs @ replicate (nat len - length xs) 0)"
      by (simp add: fill_array_def)
    then show "int (length (xs @ replicate (nat len - length xs) 0)) = len" using assms(1,3) by simp
  qed
  show ?thesis
  proof (cases "ret < 0")
    case True
    then show ?thesis using errno_resp [of "d\<lparr>world := w\<rparr>" e h tid L en] h tid L buf by auto
  next
    case False
    then show ?thesis using buf assms(2) mk [OF buf(2)] by (auto simp: log_loop_def)
  qed
qed

text \<open>A handler that returns for every complete request, given a handle.\<close>

lemma bits_total:
  assumes "in_int tid" "int (length buf) = len"
  shows "\<exists>arr r. cJSON_CreateUInt8Array buf len = Inr arr \<and> set_modbus_with_data_ok_resp tid arr = Inr r"
proof -
  obtain t where "bind_c (cJSON_CreateUInt8Array buf len) (set_modbus_with_data_ok_resp tid) = Inr (Some t)"
    using bits_resp [OF assms(1) assms(2) [symmetric]] .
  then show ?thesis unfolding bind_c_eq_Inr by blast
qed

lemma regs_total:
  assumes "in_int tid" "int (length buf) = len"
  shows "\<exists>arr r. cJSON_CreateUInt16Array buf len = Inr arr \<and> set_modbus_with_data_ok_resp tid arr = Inr r"
proof -
  obtain t where "bind_c (cJSON_CreateUInt16Array buf len) (set_modbus_with_data_ok_resp tid) = Inr (Some t)"
    using regs_resp [OF assms(1) assms(2) [symmetric]] .
  then show ?thesis unfolding bind_c_eq_Inr by blast
qed

lemma data_array_ok:
  "cJSON_GetObjectItem req ''data'' = Some data \<Longrightarrow> int (length (child data)) \<le> len \<Longrightarrow>
   data_array req len = Inr (map (\<lambda>it. word_of_int (valueint it)) (child data)
      @ replicate (nat len - length (child data)) 0)"
  by (auto simp: data_array_eq)

lemma read_bit_total:
  assumes "handles d e = Some h" "has_field req ''addr''" "has_field req ''len''" "0 < int_field req ''len''"
    "json_get_int req ''tid'' = Inr tid" "in_int tid" and L: "lib_strings L" "lib_reads L"
  shows "\<exists>r d'. mbtcp_read_bit_req L fc e req d = Inr (r, d')"
proof -
  let ?len = "int_field req ''len''" and ?addr = "int_field req ''addr''"
  let ?call = "if fc = 1 then modbus_read_bits L else modbus_read_input_bits L"
  note f = has_field_int [OF assms(2)] has_field_int [OF assms(3)] assms(5)
  show ?thesis
  proof (cases "?len \<le> 2000 \<and> (fc = 1 \<or> fc = 2)")
    case True
    obtain ret en xs w where c: "?call (ctx h) ?addr ?len (world d) = ((ret, en, xs), w)"
      by (metis prod.exhaust)
    have "bounded_read ?call" using L(2) by (simp add: lib_reads_def)
    from bounded_readD [OF this c assms(4)]
    have b: "int (length xs) \<le> ?len" "ret \<le> ?len" by blast+
    have nf: "(2000 < ?len) = False" "(?len \<le> 0) = False" "(fc \<noteq> 1 \<and> fc \<noteq> 2) = False"
      using True assms(4) by auto
    have c': "(if fc = 1 then modbus_read_bits L (ctx h) ?addr ?len (world d)
        else modbus_read_input_bits L (ctx h) ?addr ?len (world d)) = ((ret, en, xs), w)"
      using c by (cases "fc = 1") simp_all
    show ?thesis
      unfolding mbtcp_read_bit_req_def f bind_c_simps nf if_False get_handle_def assms(1) deref_simps
        c' Let_def prod.case
      by (rule read_tail_total [OF b assms(4) L(1) assms(6,1) bits_total [OF assms(6)]])
  next
    case False
    then show ?thesis using error_total [OF assms(6), of "''Too many bits requested''" d]
        error_total [OF assms(6), of "''Wrong function code''" d] assms(4)
      by (cases "2000 < ?len") (auto simp: mbtcp_read_bit_req_def f)
  qed
qed

lemma read_reg_total:
  assumes "handles d e = Some h" "has_field req ''addr''" "has_field req ''len''" "0 < int_field req ''len''"
    "json_get_int req ''tid'' = Inr tid" "in_int tid" and L: "lib_strings L" "lib_reads L"
  shows "\<exists>r d'. mbtcp_read_reg_req L fc e req d = Inr (r, d')"
proof -
  let ?len = "int_field req ''len''" and ?addr = "int_field req ''addr''"
  let ?call = "if fc = 3 then modbus_read_registers L else modbus_read_input_registers L"
  note f = has_field_int [OF assms(2)] has_field_int [OF assms(3)] assms(5)
  show ?thesis
  proof (cases "?len \<le> 125 \<and> (fc = 3 \<or> fc = 4)")
    case True
    obtain ret en xs w where c: "?call (ctx h) ?addr ?len (world d) = ((ret, en, xs), w)"
      by (metis prod.exhaust)
    have "bounded_read ?call" using L(2) by (simp add: lib_reads_def)
    from bounded_readD [OF this c assms(4)]
    have b: "int (length xs) \<le> ?len" "ret \<le> ?len" by blast+
    have nf: "(125 < ?len) = False" "(?len \<le> 0) = False" "(fc \<noteq> 3 \<and> fc \<noteq> 4) = False"
      using True assms(4) by auto
    have c': "(if fc = 3 then modbus_read_registers L (ctx h) ?addr ?len (world d)
        else modbus_read_input_registers L (ctx h) ?addr ?len (world d)) = ((ret, en, xs), w)"
      using c by (cases "fc = 3") simp_all
    show ?thesis
      unfolding mbtcp_read_reg_req_def f bind_c_simps nf if_False get_handle_def assms(1) deref_simps
        c' Let_def prod.case
      by (rule read_tail_total [OF b assms(4) L(1) assms(6,1) regs_total [OF assms(6)]])
  next
    case False
    then show ?thesis using error_total [OF assms(6), of "''Too many registers requested''" d]
        error_total [OF assms(6), of "''Wrong function code''" d] assms(4)
      by (cases "125 < ?len") (auto simp: mbtcp_read_reg_req_def f)
  qed
qed

lemma single_write_total:
  assumes "handles d e = Some h" "has_field req ''addr''" "has_field req ''data''"
    "json_get_int req ''tid'' = Inr tid" "in_int tid" "lib_strings L" "fc = 5 \<or> fc = 6"
  shows "\<exists>r d'. mbtcp_single_write_req L fc e req d = Inr (r, d')"
  using assms(7) write_resp_total [OF assms(1,5,6)] assms(1)
  by (elim disjE) (simp_all add: mbtcp_single_write_req_def has_field_int [OF assms(2)]
      has_field_int [OF assms(3)] assms(4) get_handle_def)

lemma multi_write_total:
  assumes "handles d e = Some h" "has_field req ''addr''" "has_field req ''len''" "has_field req ''data''"
    "data_size req \<le> int_field req ''len''"
    "json_get_int req ''tid'' = Inr tid" "in_int tid" "lib_strings L" "fc = 15 \<or> fc = 16"
  shows "\<exists>r d'. mbtcp_multi_write_req L fc e req d = Inr (r, d')"
proof -
  obtain data where data: "cJSON_GetObjectItem req ''data'' = Some data"
    using assms(4) by (auto simp: has_field_def)
  then have "int (length (child data)) \<le> int_field req ''len''"
    using assms(5) by (simp add: data_size_def)
  then show ?thesis using assms(9) write_resp_total [OF assms(1,7,8)] assms(1) data
    by (elim disjE) (simp_all add: mbtcp_multi_write_req_def has_field_int [OF assms(2)]
        has_field_int [OF assms(3)] assms(6) get_handle_def data_array_ok)
qed

section \<open>Through the command handler\<close>

lemma lazy_init_total:
  assumes "daemon_ok d" "has_host req ''ip''" "has_host req ''port''"
  shows "\<exists>r d'. lazy_init_mbtcp_handle L None req d = Inr (r, d')"
proof -
  obtain i p where ip: "json_get_char req ''ip'' = Inr (Some i)" "length i < 50"
    "json_get_char req ''port'' = Inr (Some p)" "length p < 50"
    using assms(2,3) by (auto dest!: has_host_char)
  show ?thesis
  proof (cases "handle_of d i p")
    case None
    obtain co w where new: "modbus_new_tcp_pi L (Some i) (Some p) (world d) = (co, w)" by fastforce
    have "\<exists>r d'. mbtcp_init_handle L None (Some i) (Some p) d = Inr (r, d')"
    proof (cases co)
      case (Some c)
      let ?d = "add_handle (d\<lparr>world := modbus_set_response_timeout L c 0 (tcp_conn_timeout_usec d) w\<rparr>) i p c"
      have "\<exists>h. handles ?d (next_addr d) = Some h" by (simp add: add_handle_def Let_def)
      then obtain r d' where "mbtcp_do_connect L (Some (next_addr d)) None ?d = Inr (r, d')"
        using do_connect_total by blast
      then show ?thesis using ip by (auto simp: init_handle_eq new Some)
    qed (use ip new in \<open>auto simp: init_handle_eq\<close>)
    then show ?thesis using ip None find_handle [OF assms(1), of i p]
      by (auto simp: lazy_init_mbtcp_handle_def)
  qed (use ip find_handle [OF assms(1), of i p] in \<open>auto simp: lazy_init_mbtcp_handle_def\<close>)
qed

text \<open>What \<open>lazy_init_mbtcp_handle\<close> returns with true is a handle.\<close>

lemma lazy_init_handle:
  assumes r: "lazy_init_mbtcp_handle L None req d = Inr ((True, ptr), d')" and d: "daemon_ok d" "daemon_room d"
  obtains e h where "ptr = Some e" "handles d' e = Some h"
proof -
  have filed: "\<exists>h. handles x e = Some h" if "daemon_ok x" "handle_of x i p = Some e" for x i p e
    using that by (fastforce simp: daemon_ok_def filed_def handle_of_def)
  from r d show ?thesis
  proof (cases rule: lazy_init_cases)
    case (found i p e)
    then show ?thesis using filed [OF d(1)] that by blast
  next
    case (created i p e)
    then show ?thesis using filed that by blast
  qed simp
qed

lemma lazy_connect_total:
  "handles d e = Some h \<Longrightarrow> \<exists>r d'. lazy_mbtcp_connect L (Some e) reason d = Inr (r, d')"
  using do_connect_total [of d e h L reason]
  by (auto simp: lazy_mbtcp_connect_def mbtcp_get_connection_status_def get_handle_def)

lemma cmd_hanlder_total:
  assumes d: "daemon_ok d" "daemon_room d" and host: "has_host req ''ip''" "has_host req ''port''"
    and slave: "has_field req ''slave''" and tid: "json_get_int req ''tid'' = Inr tid" "in_int tid"
    and L: "lib_strings L"
    and fc: "\<And>e h d. handles d e = Some h \<Longrightarrow> \<exists>r d'. fc e req d = Inr (r, d')"
  shows "\<exists>r d'. mbtcp_cmd_hanlder L req fc d = Inr (r, d')"
proof -
  obtain ok ptr d1 where li: "lazy_init_mbtcp_handle L None req d = Inr ((ok, ptr), d1)"
    using lazy_init_total [OF d(1) host] by fast
  show ?thesis
  proof (cases ok)
    case False
    then show ?thesis using li tid(1) error_total [OF tid(2), of "''init modbus tcp handle fail''" d1]
      by (simp add: mbtcp_cmd_hanlder_def)
  next
    case True
    obtain e h where e: "ptr = Some e" "handles d1 e = Some h"
      using lazy_init_handle [OF li [unfolded eqTrueI [OF True]] d] .
    obtain up reason d2 where lc: "lazy_mbtcp_connect L (Some e) None d1 = Inr ((up, reason), d2)"
      using lazy_connect_total [OF e(2)] by fast
    show ?thesis
    proof (cases up)
      case True
      obtain h2 where h2: "handles d2 e = Some h2"
        using keeps_key [OF lazy_connect_keeps [OF lc] e(2)] by blast
      define d3 where "d3 = d2\<lparr>world := modbus_set_slave L (ctx h2) (int_field req ''slave'') (world d2)\<rparr>"
      have "handles d3 e = Some h2" using h2 by (simp add: d3_def)
      then obtain r d' where "fc e req d3 = Inr (r, d')" using fc by blast
      then have "mbtcp_cmd_hanlder L req fc d = Inr (r, d')"
        unfolding mbtcp_cmd_hanlder_def tid(1) li e(1) bind_c_simps prod.case if_P [OF \<open>ok\<close>] lc
          if_P [OF True] has_field_int [OF slave] get_handle_def deref_simps h2 d3_def .
      then show ?thesis by blast
    next
      case False
      obtain s where s: "reason = Some s" "nul_free s"
        using lazy_connect_reason [of L "Some e" None d1 reason d2] lc False L by auto
      show ?thesis using \<open>ok\<close> False li e lc tid(1) s error_total [OF tid(2) s(2), of d2]
        by (simp add: mbtcp_cmd_hanlder_def)
    qed
  qed
qed

lemma complete_request_served:
  assumes c: "complete_request cmd req" and cmd: "nul_free cmd"
    and tid: "json_get_int req ''tid'' = Inr tid" "in_int tid"
    and L: "lib_strings L" "lib_reads L" and d: "daemon_ok d" "daemon_room d"
  shows "\<exists>r d'. tcp_request L cmd req tid d = Inr (r, d')"
proof (cases "tcp_fc L cmd")
  case (Some fc)
  have in8: "cmd \<in> {''fc1'', ''fc2'', ''fc3'', ''fc4'', ''fc5'', ''fc6'', ''fc15'', ''fc16''}"
    using Some by (auto simp: tcp_fc_def split: if_splits)
  then have f: "has_host req ''ip''" "has_host req ''port''" "has_field req ''slave''" "has_field req ''addr''"
    using c by (auto simp: complete_request_def)
  have "\<exists>r d'. fc e req d = Inr (r, d')" if h: "handles d e = Some h" for e h d
  proof -
    consider "cmd \<in> {''fc1'', ''fc2'', ''fc3'', ''fc4''}" | "cmd \<in> {''fc5'', ''fc6''}"
      | "cmd \<in> {''fc15'', ''fc16''}" using in8 by blast
    then show ?thesis
    proof cases
      case 1
      then have g: "has_field req ''len''" "0 < int_field req ''len''"
        using c by (auto simp: complete_request_def)
      show ?thesis
        using 1 Some read_bit_total [OF h f(4) g tid L] read_reg_total [OF h f(4) g tid L]
        by (auto simp: tcp_fc_def mbtcp_fc_eqs)
    next
      case 2
      then have g: "has_field req ''data''" using c by (auto simp: complete_request_def)
      show ?thesis using 2 Some single_write_total [OF h f(4) g tid L(1)]
        by (auto simp: tcp_fc_def mbtcp_fc_eqs)
    next
      case 3
      then have g: "has_field req ''len''" "has_field req ''data''" "data_size req \<le> int_field req ''len''"
        using c by (auto simp: complete_request_def)
      show ?thesis using 3 Some multi_write_total [OF h f(4) g tid L(1)]
        by (auto simp: tcp_fc_def mbtcp_fc_eqs)
    qed
  qed
  then have "\<exists>r d'. mbtcp_cmd_hanlder L req fc d = Inr (r, d')"
    by (rule cmd_hanlder_total [OF d f(1-3) tid L(1)])
  then show ?thesis by (simp add: tcp_request_fc [OF cmd] Some)
next
  case None
  show ?thesis
  proof (cases "cmd = ''timeout''")
    case True
    then have "has_field req ''data''" using c by (simp add: complete_request_def)
    moreover obtain t where "set_modbus_no_data_ok_resp tid = Inr (Some t)" using ok_resp [OF tid(2)] .
    ultimately show ?thesis unfolding tcp_request_fc [OF cmd] None
      using True by (simp add: has_field_int mbtcp_set_response_timeout_def)
  next
    case False
    then show ?thesis using None error_total [OF tid(2), of "''unsupport request''" d]
      by (simp add: tcp_request_fc [OF cmd])
  qed
qed

end
