(* ===== verification/Config.thy ===== *)
theory Config imports MainLoop CJsonRound begin

text \<open>
  The life of the configuration: what \<open>load_config\<close> takes from the file, and that the file
  \<open>save_config\<close> writes at the end loads to the same configuration again, although \<open>file_to_json\<close>
  hands the parser a buffer without a terminating NUL.
\<close>

text \<open>A configuration the daemon can write back: an object with printable members.\<close>

definition config_ok :: "cJSON \<Rightarrow> bool" where
  "config_ok c \<longleftrightarrow> printable c \<and> and (ctype c) 255 = cJSON_Object"

lemma canon_type: "printable it \<Longrightarrow> ctype (canon nm it) = and (ctype it) 255"
  by (cases it) (auto simp: Let_def)

text \<open>What is printed can be loaded, whatever follows the text in memory.\<close>

lemma file_to_json_printed:
  assumes "config_ok c" and "print_value c 0 fmt = Some doc" and "files fname = Some doc"
  shows "file_to_json files junk fname old = Inr (0, Some (canon None c))"
proof -
  have c: "printable c" "ends c rest" for rest using assms(1) by (simp_all add: config_ok_def ends_def)
  have "c_str (doc @ junk) = doc @ c_str junk"
    by (rule c_str_append [OF nul_free_print_value [OF assms(2) c(1)]])
  moreover have "cJSON_Parse (doc @ c_str junk) = Inr (Some (canon None c))"
    by (rule cJSON_Parse_reads [OF reads_print_value [OF assms(2) c(1)] c(2)])
  ultimately show ?thesis by (simp add: file_to_json_def assms(3))
qed

lemma save_config_eq:
  assumes "config_ok c" and "writable fname"
  obtains doc where "print_value c 0 True = Some doc"
    "save_config writable files fname (Some c) = Inr (files(fname \<mapsto> doc))"
proof -
  obtain doc where "print_value c 0 True = Some doc"
    using print_value_total [of c] assms(1) by (auto simp: config_ok_def)
  then show ?thesis using assms(2)
    by (intro that) (auto simp: save_config_def json_to_file_def cJSON_Print_def print_value_ptr_def)
qed

lemma config_cycle:
  assumes "config_ok c" and "writable fname"
  obtains files' where "save_config writable files fname (Some c) = Inr files'"
    "file_to_json files' junk fname old = Inr (0, Some (canon None c))"
    "save_config writable files' fname (Some (canon None c)) = Inr files'"
proof -
  obtain doc where t: "print_value c 0 True = Some doc"
    "save_config writable files fname (Some c) = Inr (files(fname \<mapsto> doc))"
    using save_config_eq [where c = c and writable = writable and fname = fname, OF assms] .
  have "print_value (canon None c) 0 True = Some doc"
    using print_canon [of c None 0 True] t(1) assms(1) by (simp add: config_ok_def)
  then have "save_config writable (files(fname \<mapsto> doc)) fname (Some (canon None c))
      = Inr (files(fname \<mapsto> doc))"
    using assms(2) by (simp add: save_config_def json_to_file_def cJSON_Print_def print_value_ptr_def)
  then show ?thesis using that t file_to_json_printed [OF assms(1) t(1), of "files(fname \<mapsto> doc)" fname]
    by simp
qed

section \<open>Loading\<close>

text \<open>The fields the daemon takes over.\<close>

lemma load_config_fields:
  assumes "load_config files junk fname st = Inr st'"
  obtains json where "file_to_json files junk fname (config_json st) = Inr (0, Some json)"
    "config_json st' = Some json" "json_get_int (Some json) ''syslog'' = Inr (enable_syslog st')"
    "json_get_char (Some json) ''ipc_sub'' = Inr (ipc_sub st')"
    "json_get_char (Some json) ''ipc_pub'' = Inr (ipc_pub st')"
    "\<exists>t. json_get_int (Some json) ''mbtcp_connect_timeout'' = Inr t
       \<and> dmn st' = (dmn st)\<lparr>tcp_conn_timeout_usec := word_of_int t\<rparr>"
    "zmq_pub st' = zmq_pub st" "published st' = published st"
proof -
  obtain ret json where f: "file_to_json files junk fname (config_json st) = Inr (ret, json)"
    and r: "(if ret < 0 then Inl ExitFailure else
            bind_c (json_get_int json ''syslog'') (\<lambda>sl.
            bind_c (json_get_char json ''ipc_sub'') (\<lambda>sub.
            bind_c (json_get_char json ''ipc_pub'') (\<lambda>pub.
            bind_c (json_get_int json ''mbtcp_connect_timeout'') (\<lambda>t.
              Inr (st\<lparr>config_json := json, enable_syslog := sl, ipc_sub := sub, ipc_pub := pub,
                      dmn := (dmn (st\<lparr>config_json := json\<rparr>))\<lparr>tcp_conn_timeout_usec := word_of_int t\<rparr>\<rparr>)))))) = Inr st'"
    using assms unfolding load_config_def Let_def
    by (elim bind_c_pairE) (rule that, assumption, simp)
  have ret: "\<not> ret < 0" using r by auto
  have "ret = 0" using f ret by (auto simp: file_to_json_def bind_c_eq_Inr split: option.splits)
  note r = r [unfolded if_not_P [OF ret]]
  obtain js where js: "json = Some js"
    using r by (cases json) (auto simp: json_get_int_def cJSON_GetObjectItem_def)
  from r obtain sl sub pub t where "json_get_int json ''syslog'' = Inr sl"
    "json_get_char json ''ipc_sub'' = Inr sub" "json_get_char json ''ipc_pub'' = Inr pub"
    "json_get_int json ''mbtcp_connect_timeout'' = Inr t"
    "st' = st\<lparr>config_json := json, enable_syslog := sl, ipc_sub := sub, ipc_pub := pub,
                      dmn := (dmn st)\<lparr>tcp_conn_timeout_usec := word_of_int t\<rparr>\<rparr>"
    by (auto elim!: bind_c_InrE)
  then show ?thesis using f \<open>ret = 0\<close> js by (intro that [of js]) auto
qed

text \<open>The state the request loop starts from.\<close>

definition started :: "'w modbusd \<Rightarrow> bool" where
  "started st \<longleftrightarrow> mbtcp_htable (dmn st) = None \<and> handles (dmn st) = Map.empty \<and> zmq_pub st \<and> published st = []"

lemma load_config_started: "load_config files junk fname (initial w) = Inr st \<Longrightarrow> started st"
  by (erule load_config_fields) (auto simp: started_def initial_def)

section \<open>Properties\<close>

text \<open>C19: What the daemon saves at the end it can load again: the written file loads to the same
  configuration (as \<open>canon\<close> describes), although the parser is handed the file's bytes with whatever
  lies behind them in memory, and saving that configuration writes the same file.\<close>

theorem config_survives:
  assumes "config_ok c" and "writable fname"
  shows "\<exists>files'. save_config writable files fname (Some c) = Inr files'
    \<and> file_to_json files' junk fname old = Inr (0, Some (canon None c))
    \<and> save_config writable files' fname (Some (canon None c)) = Inr files'"
  using config_cycle [where writable = writable, OF assms] by blast

theorem config_survives_witness:
  "\<exists>files'. save_config (\<lambda>_. True) Map.empty ''f'' (Some cJSON_CreateObject) = Inr files'
    \<and> file_to_json files' ''xyz'' ''f'' None = Inr (0, Some (canon None cJSON_CreateObject))"
proof -
  have "config_ok cJSON_CreateObject"
    by (simp add: config_ok_def cJSON_CreateObject_def cJSON_New_Item_def)
  from config_survives [OF this, of "\<lambda>_. True"] show ?thesis by blast
qed

text \<open>A configuration that loads sets the syslog flag, both socket addresses and the connection
  timeout (modulo 2 to the 32) from its fields, and touches neither the handles nor the publisher; a
  file that cannot be opened ends the daemon.\<close>

lemma load_config_effect:
  "(case load_config files junk fname st of
      Inl f \<Rightarrow> files fname = None \<longrightarrow> f = ExitFailure
    | Inr st' \<Rightarrow> \<exists>json. config_json st' = Some json
        \<and> json_get_int (Some json) ''syslog'' = Inr (enable_syslog st')
        \<and> json_get_char (Some json) ''ipc_sub'' = Inr (ipc_sub st')
        \<and> json_get_char (Some json) ''ipc_pub'' = Inr (ipc_pub st')
        \<and> (\<exists>t. json_get_int (Some json) ''mbtcp_connect_timeout'' = Inr t
              \<and> dmn st' = (dmn st)\<lparr>tcp_conn_timeout_usec := word_of_int t\<rparr>)
        \<and> zmq_pub st' = zmq_pub st \<and> published st' = published st)"
proof (cases "load_config files junk fname st")
  case (Inl f)
  then show ?thesis by (auto simp: load_config_def file_to_json_def)
next
  case (Inr st')
  then show ?thesis by (auto elim: load_config_fields)
qed


end
