(* ===== verification/Samples.thy ===== *)
theory Samples imports Slaves Config begin

text \<open>
  Concrete inputs for the witnesses: a libmodbus whose calls all succeed but for the reading of
  input registers, which fails with errno 104, requests, and a configuration like the one in
  \<open>config/modbusd.json\<close>. The texts are the printed items.
\<close>

definition sample_zmq :: "(string list, string) czmq" where
  "sample_zmq =
     \<lparr>zmsg_pop = (\<lambda>msg. case msg of [] \<Rightarrow> (None, []) | f # fs \<Rightarrow> (Some f, fs)),
      zframe_strdup = (\<lambda>frame. case frame of None \<Rightarrow> Inl LibAssert | Some bytes \<Rightarrow> Inr bytes)\<rparr>"

lemma sample_strings: "request_strings sample_zmq (mode # json # rest) = Inr (c_str mode, c_str json)"
  by (simp add: request_strings_def pop_str_def sample_zmq_def)

definition sample_lib :: "unit modbus_lib" where
  "sample_lib =
     \<lparr>modbus_new_tcp_pi = (\<lambda>i p w. (Some 7, w)),
      modbus_set_response_timeout = (\<lambda>c s u w. w),
      modbus_connect = (\<lambda>c w. ((0, 0), w)),
      modbus_set_slave = (\<lambda>c s w. w),
      modbus_read_bits = (\<lambda>c a n w. ((n, 0, replicate (nat n) 1), w)),
      modbus_read_input_bits = (\<lambda>c a n w. ((n, 0, replicate (nat n) 1), w)),
      modbus_read_registers = (\<lambda>c a n w. ((n, 0, replicate (nat n) 4660), w)),
      modbus_read_input_registers = (\<lambda>c a n w. ((- 1, 104, []), w)),
      modbus_write_bit = (\<lambda>c a b w. ((1, 0), w)),
      modbus_write_register = (\<lambda>c a v w. ((1, 0), w)),
      modbus_write_bits = (\<lambda>c a n bs w. ((n, 0), w)),
      modbus_write_registers = (\<lambda>c a n rs w. ((n, 0), w)),
      modbus_strerror = (\<lambda>n. ''Connection reset by peer'')\<rparr>"

lemma sample_lib_ok: "lib_strings sample_lib" "lib_reads sample_lib"
  by (simp_all add: lib_strings_def sample_lib_def lib_reads_def bounded_read_def max_def)

lemma sample_lib_sel [simp]:
  "modbus_set_slave sample_lib c s w = w" "modbus_connect sample_lib c w = ((0, 0), w)"
  "modbus_read_bits sample_lib c a n w = ((n, 0, replicate (nat n) 1), w)"
  "modbus_read_registers sample_lib c a n w = ((n, 0, replicate (nat n) 4660), w)"
  "modbus_read_input_registers sample_lib c a n w = ((- 1, 104, []), w)"
  "modbus_write_bit sample_lib c a b w = ((1, 0), w)"
  "modbus_write_registers sample_lib c a n rs w = ((n, 0), w)"
  "modbus_strerror sample_lib k = ''Connection reset by peer''"
  by (simp_all add: sample_lib_def)

definition sample_req :: "string \<Rightarrow> cJSON" where
  "sample_req cmd =
     obj_item [num_item ''tid'' 1, str_item ''cmd'' cmd, str_item ''ip'' ''127.0.0.1'',
       str_item ''port'' ''502'', num_item ''slave'' 3, num_item ''addr'' 10, num_item ''len'' 2,
       set_cstring (Some ''data'') (arr_item [uint16_item 5, uint16_item 6])]"

definition sample_json :: "string \<Rightarrow> string" where
  "sample_json cmd = the (cJSON_PrintUnformatted (Some (sample_req cmd)))"

lemma printable_sample: "nul_free cmd \<Longrightarrow> printable (sample_req cmd)"
  by (simp add: sample_req_def obj_item_def num_item_def str_item_def arr_item_def uint16_item_def
      in_int_def)

definition parsed_req :: "string \<Rightarrow> cJSON" where
  "parsed_req cmd = canon None (sample_req cmd)"

lemma parse_sample:
  assumes "nul_free cmd"
  shows "cJSON_Parse (c_str (sample_json cmd)) = Inr (Some (parsed_req cmd))"
proof -
  obtain e where e: "print_value (sample_req cmd) 0 False = Some e"
    using print_value_total [OF printable_sample [OF assms]] by blast
  have "cJSON_Parse (e @ []) = Inr (Some (canon None (sample_req cmd)))"
    by (rule cJSON_Parse_reads [OF reads_print_value [OF e printable_sample [OF assms]]])
      (simp add: ends_def sample_req_def obj_item_def)
  moreover have "c_str e = e"
    by (rule c_str_id [OF nul_free_print_value [OF e printable_sample [OF assms]]])
  ultimately show ?thesis
    by (simp add: sample_json_def cJSON_PrintUnformatted_def print_value_ptr_def e parsed_req_def
        del: print_value.simps)
qed

lemma sample_names:
  "cJSON_strcasecmp (Some ''tid'') (Some k) = 0 \<longleftrightarrow> k = ''tid''"
  "cJSON_strcasecmp (Some ''cmd'') (Some k) = 0 \<longleftrightarrow> k = ''cmd''"
  "cJSON_strcasecmp (Some ''ip'') (Some k) = 0 \<longleftrightarrow> k = ''ip''"
  "cJSON_strcasecmp (Some ''port'') (Some k) = 0 \<longleftrightarrow> k = ''port''"
  "cJSON_strcasecmp (Some ''slave'') (Some k) = 0 \<longleftrightarrow> k = ''slave''"
  "cJSON_strcasecmp (Some ''addr'') (Some k) = 0 \<longleftrightarrow> k = ''addr''"
  "cJSON_strcasecmp (Some ''len'') (Some k) = 0 \<longleftrightarrow> k = ''len''"
  "cJSON_strcasecmp (Some ''data'') (Some k) = 0 \<longleftrightarrow> k = ''data''"
  if "k \<in> {''tid'', ''cmd'', ''ip'', ''port'', ''slave'', ''addr'', ''len'', ''data''}"
  using that by (auto simp: cJSON_strcasecmp_def tolower_def)

lemma sample_fields:
  "json_get_int (Some (parsed_req cmd)) ''tid'' = Inr 1"
  "json_get_char (Some (parsed_req cmd)) ''cmd'' = Inr (Some cmd)"
  "json_get_char (Some (parsed_req cmd)) ''ip'' = Inr (Some ''127.0.0.1'')"
  "json_get_char (Some (parsed_req cmd)) ''port'' = Inr (Some ''502'')"
  "json_get_int (Some (parsed_req cmd)) ''slave'' = Inr 3"
  "json_get_int (Some (parsed_req cmd)) ''addr'' = Inr 10"
  "json_get_int (Some (parsed_req cmd)) ''len'' = Inr 2"
  "map_option (\<lambda>d. map valueint (child d)) (cJSON_GetObjectItem (Some (parsed_req cmd)) ''data'') = Some [5, 6]"
  by (simp_all add: parsed_req_def sample_req_def obj_item_def num_item_def str_item_def arr_item_def
      uint16_item_def json_get_int_def json_get_char_def cJSON_GetObjectItem_def sample_names)


lemma sample_complete:
  assumes "cmd \<in> {''fc1'', ''fc2'', ''fc3'', ''fc4'', ''fc5'', ''fc6'', ''fc15'', ''fc16'', ''timeout''}"
  shows "complete_request cmd (Some (parsed_req cmd))" and "nul_free cmd"
proof -
  note f = sample_fields
  have fields: "has_field (Some (parsed_req x)) k" if "k \<in> {''slave'', ''addr'', ''len'', ''data''}" for k x
    using that f(5-8) [of x] by (auto simp: has_field_def json_get_int_eq)
  moreover have "int_field (Some (parsed_req x)) ''len'' = 2" for x by (simp add: int_field_def f)
  moreover have "data_size (Some (parsed_req x)) = 2" for x
    using f(8) [of x] by (auto simp: data_size_def dest: arg_cong [of _ _ length])
  ultimately show "complete_request cmd (Some (parsed_req cmd))"
    by (simp add: complete_request_def has_host_def f)
  show "nul_free cmd" using assms by auto
qed

text \<open>The first request a fresh daemon serves.\<close>

lemma started_initial: "started (initial w)"
  by (simp add: started_def initial_def)

lemma first_handle:
  assumes "mbtcp_cmd_hanlder sample_lib (Some (parsed_req cmd)) fc (dmn (initial ())) = Inr (r, d)"
    and "fc_contract fc"
  shows "handle_of d ''127.0.0.1'' ''502'' = Some 1"
proof -
  have "in_int 1" by (simp add: in_int_def)
  obtain x d1 where d1: "lazy_init_mbtcp_handle sample_lib None (Some (parsed_req cmd)) (dmn (initial ())) = Inr (x, d1)"
    "keeps d1 d"
    by (rule cmd_hanlder_run [OF assms(1) sample_fields(1) \<open>in_int 1\<close> sample_lib_ok(1) assms(2)])
  obtain ok ptr where x: "x = (ok, ptr)" by (cases x)
  have new: "handle_of (dmn (initial ())) i p = None" "next_addr (dmn (initial ())) = 1" for i p
    by (simp_all add: handle_of_def initial_def hash_map_def)
  have "handle_of d1 ''127.0.0.1'' ''502'' = Some 1"
  proof (rule lazy_init_cases [OF d1(1) [unfolded x] initial_ok(1,2)])
    fix i p e
    assume "json_get_char (Some (parsed_req cmd)) ''ip'' = Inr (Some i)"
      "json_get_char (Some (parsed_req cmd)) ''port'' = Inr (Some p)"
      "handle_of d1 i p = Some e" "e = next_addr (dmn (initial ()))"
    then show ?thesis by (simp add: sample_fields new)
  qed (simp_all add: new sample_lib_def)
  then show ?thesis by (rule later_handle_of [OF keeps_later [OF d1(2)]])
qed

lemma serve_sample:
  assumes "cmd \<in> {''fc1'', ''fc2'', ''fc3'', ''fc4'', ''fc5'', ''fc6'', ''fc15'', ''fc16''}"
  obtains st where "serve sample_zmq sample_lib (initial ()) [''tcp'', sample_json cmd] st" "daemon_room (dmn st)"
    "handle_of (dmn st) ''127.0.0.1'' ''502'' = Some 1"
proof -
  have "cmd \<in> {''fc1'', ''fc2'', ''fc3'', ''fc4'', ''fc5'', ''fc6'', ''fc15'', ''fc16'', ''timeout''}"
    using assms by blast
  note c = sample_complete [OF this]
  have L: "lib_strings sample_lib" "lib_reads sample_lib" by (rule sample_lib_ok)+
  have one: "in_int 1" by (simp add: in_int_def)
  from complete_request_served [OF c sample_fields(1) one L initial_ok(1,2)]
  obtain r d where r: "tcp_request sample_lib cmd (Some (parsed_req cmd)) 1 (dmn (initial ())) = Inr (r, d)"
    by blast
  have "is_answer 1 r"
    using tcp_request_contract [OF r c(2) sample_fields(1) one L(1) initial_ok(1,2)] by blast
  then obtain t where t: "r = Some t" by (auto simp: is_answer_def)
  have "mbtcp_htable d = None \<or> (\<exists>k e. mbtcp_htable d = HASH_ADD_KEYPTR HASH_JEN None k e)"
    using tcp_request_table [OF r c(2) sample_fields(1) one L(1)] by (simp add: initial_def)
  then have room: "daemon_room d"
  proof (elim disjE exE)
    fix k e assume "mbtcp_htable d = HASH_ADD_KEYPTR HASH_JEN None k e"
    then show ?thesis
      by (rule_tac add_fields [of HASH_JEN None k e]) (auto simp: daemon_room_def hash_room_def order_of_def)
  qed (simp add: daemon_room_def hash_room_def)
  obtain fc where fc: "tcp_fc sample_lib cmd = Some fc" using assms by (auto simp: tcp_fc_def)
  have "handle_of d ''127.0.0.1'' ''502'' = Some 1"
    using r by (intro first_handle [OF _ tcp_fc_contract [OF fc L(1)]]) (simp add: tcp_request_fc [OF c(2)] fc)
  moreover have "c_str ''tcp'' = ''tcp''" by (rule c_str_id) simp
  then have "handle_message sample_zmq sample_lib [''tcp'', sample_json cmd] (initial ())
      = Inr ((initial ())\<lparr>dmn := d, published := published (initial ()) @ [(''tcp'', Some t)]\<rparr>)"
    using r t by (simp add: handle_message_def sample_strings parse_sample [OF c(2)] handle_request_def
        sample_fields send_modbus_zmq_resp_def initial_def)
  ultimately show ?thesis using room by (intro that) (auto simp: serve_iff)
qed

definition sample_config :: cJSON where
  "sample_config =
     obj_item [num_item ''syslog'' 1, str_item ''ipc_sub'' ''ipc:///tmp/to.modbus'',
       str_item ''ipc_pub'' ''ipc:///tmp/from.modbus'', num_item ''mbtcp_connect_timeout'' 200000]"

lemma sample_config_ok: "config_ok sample_config"
  by (simp add: config_ok_def sample_config_def obj_item_def num_item_def str_item_def in_int_def)

section \<open>A daemon with one handle\<close>

text \<open>The daemon after a first request to \<open>127.0.0.1:502\<close>, connected or not.\<close>

definition sample_hdl :: "bool \<Rightarrow> mbtcp_handle_s" where
  "sample_hdl up = \<lparr>key = \<lparr>ip = pad ''127.0.0.1'', port = pad ''502''\<rparr>, connected = up, ctx = 7\<rparr>"

lemma sample_hdl_sel [simp]:
  "key (sample_hdl up) = \<lparr>ip = pad ''127.0.0.1'', port = pad ''502''\<rparr>"
  "connected (sample_hdl up) = up" "ctx (sample_hdl up) = 7"
  "(sample_hdl up)\<lparr>connected := b\<rparr> = sample_hdl b"
  by (simp_all add: sample_hdl_def)

definition sample_daemon :: "bool \<Rightarrow> unit daemon" where
  "sample_daemon up =
     set_handle 1 (sample_hdl up) (add_handle (dmn (initial ())) ''127.0.0.1'' ''502'' 7)"

lemma sample_handle: "handles (sample_daemon up) 1 = Some (sample_hdl up)"
  by (simp add: sample_daemon_def set_handle_def)

lemma sample_daemon_ok:
  "daemon_ok (sample_daemon up)" "handle_of (sample_daemon up) ''127.0.0.1'' ''502'' = Some 1"
proof -
  let ?d = "add_handle (dmn (initial ())) ''127.0.0.1'' ''502'' 7"
  have new: "handle_of (dmn (initial ())) ''127.0.0.1'' ''502'' = None" "next_addr (dmn (initial ())) = 1"
    by (simp_all add: handle_of_def initial_def hash_map_def)
  note ok = add_handle_ok [OF initial_ok(1,2) new(1), of 7]
  have h: "handles ?d 1 = Some (sample_hdl False)"
    by (simp add: add_handle_def Let_def initial_def sample_hdl_def)
  have k: "keeps ?d (sample_daemon up)"
    using keeps_set_handle [OF keeps_refl h, of up] by (simp add: sample_daemon_def)
  show "daemon_ok (sample_daemon up)" by (rule keeps_ok [OF k ok(1)])
  show "handle_of (sample_daemon up) ''127.0.0.1'' ''502'' = Some 1"
    by (rule later_handle_of [OF keeps_later [OF k]]) (simp add: ok(3) new(2))
qed

text \<open>A request object with \<open>n\<close> as its \<open>len\<close> and two data items.\<close>

definition direct_req :: "int \<Rightarrow> cJSON" where
  "direct_req n =
     obj_item [num_item ''tid'' 1, str_item ''ip'' ''127.0.0.1'', str_item ''port'' ''502'',
       num_item ''slave'' 3, num_item ''addr'' 10, num_item ''len'' n,
       set_cstring (Some ''data'') (arr_item [num_item ''a'' 5, num_item ''b'' 70000])]"

lemma direct_fields:
  "json_get_int (Some (direct_req n)) ''tid'' = Inr 1"
  "json_get_char (Some (direct_req n)) ''ip'' = Inr (Some ''127.0.0.1'')"
  "json_get_char (Some (direct_req n)) ''port'' = Inr (Some ''502'')"
  "json_get_int (Some (direct_req n)) ''slave'' = Inr 3"
  "json_get_int (Some (direct_req n)) ''addr'' = Inr 10"
  "json_get_int (Some (direct_req n)) ''len'' = Inr n"
  "cJSON_GetObjectItem (Some (direct_req n)) ''data''
     = Some (set_cstring (Some ''data'') (arr_item [num_item ''a'' 5, num_item ''b'' 70000]))"
  by (simp_all add: direct_req_def obj_item_def num_item_def str_item_def arr_item_def
      json_get_int_def json_get_char_def cJSON_GetObjectItem_def sample_names)

end
