(* ===== verification/Requests.thy ===== *)
theory Requests imports Samples begin

text \<open>
  The requests a client can make, one by one, through the whole dispatch (\<open>tcp_request\<close>): what is
  asked of the slave, what the client is answered, and how the daemon's state changes. The properties
  speak about a request \<open>on_handle\<close>: one whose address the daemon already has a handle for.
\<close>

section \<open>Requests on a handle\<close>

text \<open>
  \<open>on_handle d req e h tid slave\<close>: the request \<open>req\<close> has an address the table of \<open>d\<close> files under
  \<open>e\<close>, where the handle \<open>h\<close> is, and the two integers every function code needs.
\<close>

definition on_handle ::
  "'w daemon \<Rightarrow> cJSON option \<Rightarrow> nat \<Rightarrow> mbtcp_handle_s \<Rightarrow> int \<Rightarrow> int \<Rightarrow> bool" where
  "on_handle d req e h tid slave \<longleftrightarrow>
     daemon_ok d \<and> handles d e = Some h
     \<and> (\<exists>i p. json_get_char req ''ip'' = Inr (Some i) \<and> json_get_char req ''port'' = Inr (Some p)
          \<and> length i < 50 \<and> length p < 50 \<and> handle_of d i p = Some e)
     \<and> json_get_int req ''tid'' = Inr tid \<and> in_int tid \<and> json_get_int req ''slave'' = Inr slave"

text \<open>The daemon when the slave has been selected, and nothing else has happened.\<close>

definition selected :: "'w modbus_lib \<Rightarrow> mbtcp_handle_s \<Rightarrow> int \<Rightarrow> 'w daemon \<Rightarrow> 'w daemon" where
  "selected L h slave d = d\<lparr>world := modbus_set_slave L (ctx h) slave (world d)\<rparr>"

lemma selected_sel [simp]:
  "handles (selected L h slave d) = handles d"
  "world (selected L h slave d) = modbus_set_slave L (ctx h) slave (world d)"
  "(selected L h slave d)\<lparr>world := w\<rparr> = d\<lparr>world := w\<rparr>"
  by (simp_all add: selected_def)

lemma lazy_init_on_handle:
  assumes "on_handle d req e h tid slave"
  shows "lazy_init_mbtcp_handle L None req d = Inr ((True, Some e), d)"
proof -
  obtain i p where "json_get_char req ''ip'' = Inr (Some i)" "json_get_char req ''port'' = Inr (Some p)"
    "length i < 50" "length p < 50" "handle_of d i p = Some e" "daemon_ok d"
    using assms by (auto simp: on_handle_def)
  then show ?thesis by (simp add: lazy_init_mbtcp_handle_def find_handle)
qed

lemma cmd_hanlder_on_handle:
  assumes on: "on_handle d req e h tid slave" and up: "connected h"
  shows "mbtcp_cmd_hanlder L req fc d = fc e req (selected L h slave d)"
proof -
  have "lazy_mbtcp_connect L (Some e) None d = Inr ((True, None), d)"
    using on up by (simp add: lazy_mbtcp_connect_def mbtcp_get_connection_status_def get_handle_def on_handle_def)
  then show ?thesis using on
    by (simp add: mbtcp_cmd_hanlder_def lazy_init_on_handle [OF on] get_handle_def on_handle_def selected_def)
qed

lemma tcp_request_cmds:
  "tcp_request L ''fc1'' req tid d = mbtcp_cmd_hanlder L req (mbtcp_read_bit_req L 1) d"
  "tcp_request L ''fc2'' req tid d = mbtcp_cmd_hanlder L req (mbtcp_read_bit_req L 2) d"
  "tcp_request L ''fc3'' req tid d = mbtcp_cmd_hanlder L req (mbtcp_read_reg_req L 3) d"
  "tcp_request L ''fc4'' req tid d = mbtcp_cmd_hanlder L req (mbtcp_read_reg_req L 4) d"
  "tcp_request L ''fc5'' req tid d = mbtcp_cmd_hanlder L req (mbtcp_single_write_req L 5) d"
  "tcp_request L ''fc6'' req tid d = mbtcp_cmd_hanlder L req (mbtcp_single_write_req L 6) d"
  "tcp_request L ''fc15'' req tid d = mbtcp_cmd_hanlder L req (mbtcp_multi_write_req L 15) d"
  "tcp_request L ''fc16'' req tid d = mbtcp_cmd_hanlder L req (mbtcp_multi_write_req L 16) d"
  "tcp_request L ''timeout'' req tid d =
     bind_c (json_get_int req ''data'') (\<lambda>t. mbtcp_set_response_timeout tid t d)"
  by (simp_all add: tcp_request_fc tcp_fc_def mbtcp_fc_eqs)

lemma sample_on_handle:
  "on_handle (sample_daemon up) (Some (parsed_req cmd)) 1 (sample_hdl up) 1 3"
  "on_handle (sample_daemon up) (Some (direct_req n)) 1 (sample_hdl up) 1 3"
  using sample_daemon_ok [of up] sample_fields [of cmd] direct_fields [of n] sample_handle [of up]
  by (simp_all add: on_handle_def in_int_def)

section \<open>Reading\<close>

text \<open>Reading coils or discrete inputs (\<open>fc1\<close>, \<open>fc2\<close>) on a connected handle selects the slave, asks
  it for exactly the \<open>len\<close> bits from \<open>addr\<close>, answers \<open>ok\<close> with the transaction id of the request and
  the bits read, in order, and changes nothing else.\<close>

lemma read_bits_served:
  assumes "on_handle d req e h tid slave" and "connected h"
    and cmd: "cmd = ''fc1'' \<and> call = modbus_read_bits L \<or> cmd = ''fc2'' \<and> call = modbus_read_input_bits L"
    and "json_get_int req ''addr'' = Inr addr" "json_get_int req ''len'' = Inr len" "0 < len" "len \<le> 2000"
    and "call (ctx h) addr len (modbus_set_slave L (ctx h) slave (world d)) = ((ret, en, bits), w)"
    and "0 \<le> ret" "ret \<le> len" "int (length bits) = len"
  shows "\<exists>t. tcp_request L cmd req tid d = Inr (Some t, d\<lparr>world := w\<rparr>)
    \<and> answers t tid ''ok'' (Some (map uint bits))"
proof -
  obtain fc where fc: "fc = 1 \<and> call = modbus_read_bits L \<or> fc = 2 \<and> call = modbus_read_input_bits L"
    "tcp_request L cmd req tid d = mbtcp_cmd_hanlder L req (mbtcp_read_bit_req L fc) d"
    using cmd tcp_request_cmds(1,2) [of L req tid d] by blast
  have "handles (selected L h slave d) e = Some h" "json_get_int req ''tid'' = Inr tid" "in_int tid"
    using assms(1) by (simp_all add: on_handle_def)
  from read_bits_answers [OF fc(1) this(1) assms(4,5) this(2,3) assms(6,7), of ret en bits w] assms(8-)
  show ?thesis by (simp add: fc(2) cmd_hanlder_on_handle [OF assms(1,2)])
qed

text \<open>C6: Reading holding or input registers (\<open>fc3\<close>, \<open>fc4\<close>) on a connected handle selects the slave,
  asks it for exactly the \<open>len\<close> registers from \<open>addr\<close>, answers \<open>ok\<close> with the 16 bit values read, in
  order and unsigned, and changes nothing else.\<close>

theorem read_regs_served:
  assumes "on_handle d req e h tid slave" and "connected h"
    and cmd: "cmd = ''fc3'' \<and> call = modbus_read_registers L \<or> cmd = ''fc4'' \<and> call = modbus_read_input_registers L"
    and "json_get_int req ''addr'' = Inr addr" "json_get_int req ''len'' = Inr len" "0 < len" "len \<le> 125"
    and "call (ctx h) addr len (modbus_set_slave L (ctx h) slave (world d)) = ((ret, en, regs), w)"
    and "0 \<le> ret" "ret \<le> len" "int (length regs) = len"
  shows "\<exists>t. tcp_request L cmd req tid d = Inr (Some t, d\<lparr>world := w\<rparr>)
    \<and> answers t tid ''ok'' (Some (map uint regs))"
proof -
  obtain fc where fc: "fc = 3 \<and> call = modbus_read_registers L \<or> fc = 4 \<and> call = modbus_read_input_registers L"
    "tcp_request L cmd req tid d = mbtcp_cmd_hanlder L req (mbtcp_read_reg_req L fc) d"
    using cmd tcp_request_cmds(3,4) [of L req tid d] by blast
  have "handles (selected L h slave d) e = Some h" "json_get_int req ''tid'' = Inr tid" "in_int tid"
    using assms(1) by (simp_all add: on_handle_def)
  from read_regs_answers [OF fc(1) this(1) assms(4,5) this(2,3) assms(6,7), of ret en regs w] assms(8-)
  show ?thesis by (simp add: fc(2) cmd_hanlder_on_handle [OF assms(1,2)])
qed

theorem read_regs_served_witness:
  "\<exists>t. tcp_request sample_lib ''fc3'' (Some (parsed_req ''fc3'')) 1 (sample_daemon True)
      = Inr (Some t, (sample_daemon True)\<lparr>world := ()\<rparr>)
    \<and> answers t 1 ''ok'' (Some (replicate 2 4660))"
proof -
  note rule = read_regs_served [where d = "sample_daemon True" and L = sample_lib and call = "modbus_read_registers sample_lib"
      and len = 2 and ret = 2 and regs = "replicate 2 4660", OF sample_on_handle(1) _ _ sample_fields(6,7)]
  show ?thesis using rule [of "''fc3''" 0 "()"]
    by simp
qed

text \<open>The answers to requests for more than the protocol allows, and what no answer is sent for.\<close>

lemma read_bit_length:
  assumes "json_get_int req ''addr'' = Inr addr" "json_get_int req ''len'' = Inr len"
    "json_get_int req ''tid'' = Inr tid" "in_int tid"
  shows "2000 < len \<Longrightarrow> \<exists>t. mbtcp_read_bit_req L fc e req d = Inr (Some t, d)
      \<and> answers t tid ''Too many bits requested'' None"
    and "len \<le> 0 \<Longrightarrow> mbtcp_read_bit_req L fc e req d = Inl BadVlaSize"
proof -
  obtain t where t: "modbus_set_error_resp tid ''Too many bits requested'' = Inr (Some t)"
    "answers t tid ''Too many bits requested'' None"
    by (rule error_resp [OF assms(4), of "''Too many bits requested''"]) simp_all
  show "2000 < len \<Longrightarrow> \<exists>t. mbtcp_read_bit_req L fc e req d = Inr (Some t, d)
      \<and> answers t tid ''Too many bits requested'' None"
    using t(2) by (simp add: mbtcp_read_bit_req_def assms(1-3) t(1))
  show "len \<le> 0 \<Longrightarrow> mbtcp_read_bit_req L fc e req d = Inl BadVlaSize"
    by (simp add: mbtcp_read_bit_req_def assms(1-3))
qed

lemma read_reg_length:
  assumes "json_get_int req ''addr'' = Inr addr" "json_get_int req ''len'' = Inr len"
    "json_get_int req ''tid'' = Inr tid" "in_int tid"
  shows "125 < len \<Longrightarrow> \<exists>t. mbtcp_read_reg_req L fc e req d = Inr (Some t, d)
      \<and> answers t tid ''Too many registers requested'' None"
    and "len \<le> 0 \<Longrightarrow> mbtcp_read_reg_req L fc e req d = Inl BadVlaSize"
proof -
  obtain t where t: "modbus_set_error_resp tid ''Too many registers requested'' = Inr (Some t)"
    "answers t tid ''Too many registers requested'' None"
    by (rule error_resp [OF assms(4), of "''Too many registers requested''"]) simp_all
  show "125 < len \<Longrightarrow> \<exists>t. mbtcp_read_reg_req L fc e req d = Inr (Some t, d)
      \<and> answers t tid ''Too many registers requested'' None"
    using t(2) by (simp add: mbtcp_read_reg_req_def assms(1-3) t(1))
  show "len \<le> 0 \<Longrightarrow> mbtcp_read_reg_req L fc e req d = Inl BadVlaSize"
    by (simp add: mbtcp_read_reg_req_def assms(1-3))
qed

text \<open>A request for more than 2000 bits or 125 registers is refused with an error answer and without
  reading from the slave.\<close>

lemma long_read_refused:
  assumes "on_handle d req e h tid slave" and "connected h"
    and "json_get_int req ''addr'' = Inr addr" "json_get_int req ''len'' = Inr len"
    and "cmd \<in> {''fc1'', ''fc2''} \<and> 2000 < len \<and> reason = ''Too many bits requested''
       \<or> cmd \<in> {''fc3'', ''fc4''} \<and> 125 < len \<and> reason = ''Too many registers requested''"
  shows "\<exists>t. tcp_request L cmd req tid d = Inr (Some t, selected L h slave d) \<and> answers t tid reason None"
proof -
  have tid: "json_get_int req ''tid'' = Inr tid" "in_int tid" using assms(1) by (simp_all add: on_handle_def)
  show ?thesis
    using assms(5) read_bit_length(1) [OF assms(3,4) tid] read_reg_length(1) [OF assms(3,4) tid]
    by (elim disjE conjE insertE emptyE)
      (simp_all add: tcp_request_cmds cmd_hanlder_on_handle [OF assms(1,2)])
qed

text \<open>A request for no bits or registers, or a negative number of them, is not refused: the array of
  that length the handler declares is undefined behaviour, whatever the slave would answer.\<close>

lemma empty_read_undefined:
  assumes "on_handle d req e h tid slave" and "connected h"
    and "json_get_int req ''addr'' = Inr addr" "json_get_int req ''len'' = Inr len" "len \<le> 0"
    and "cmd \<in> {''fc1'', ''fc2'', ''fc3'', ''fc4''}"
  shows "tcp_request L cmd req tid d = Inl BadVlaSize"
proof -
  have tid: "json_get_int req ''tid'' = Inr tid" "in_int tid" using assms(1) by (simp_all add: on_handle_def)
  show ?thesis
    using assms(6) read_bit_length(2) [OF assms(3,4) tid assms(5)] read_reg_length(2) [OF assms(3,4) tid assms(5)]
    by (elim insertE emptyE) (simp_all add: tcp_request_cmds cmd_hanlder_on_handle [OF assms(1,2)])
qed

section \<open>Writing\<close>

text \<open>Writing a single coil or register (\<open>fc5\<close>, \<open>fc6\<close>) on a connected handle hands the slave the
  address and the value of the request, answers \<open>ok\<close> without data, and changes nothing else.\<close>

lemma single_write_served:
  assumes "on_handle d req e h tid slave" and "connected h"
    and cmd: "cmd = ''fc5'' \<and> call = modbus_write_bit L \<or> cmd = ''fc6'' \<and> call = modbus_write_register L"
    and "json_get_int req ''addr'' = Inr addr" "json_get_int req ''data'' = Inr data"
    and call: "call (ctx h) addr data (modbus_set_slave L (ctx h) slave (world d)) = ((ret, en), w)" "0 \<le> ret"
  shows "\<exists>t. tcp_request L cmd req tid d = Inr (Some t, d\<lparr>world := w\<rparr>) \<and> answers t tid ''ok'' None"
proof -
  have h: "handles d e = Some h" "json_get_int req ''tid'' = Inr tid" "in_int tid"
    using assms(1) by (simp_all add: on_handle_def)
  show ?thesis using cmd write_resp_ok [OF call h(3), of L e "selected L h slave d"] call(1)
    by (elim disjE) (simp_all add: tcp_request_cmds cmd_hanlder_on_handle [OF assms(1,2)]
        mbtcp_single_write_req_def assms(4,5) h get_handle_def)
qed

text \<open>C7: Writing registers (\<open>fc16\<close>) with no more data than \<open>len\<close> says hands the slave exactly \<open>len\<close>
  values: the integers of \<open>data\<close> truncated to 16 bits, in order, and zeros after them.\<close>

theorem multi_write_served:
  assumes "on_handle d req e h tid slave" and "connected h"
    and "json_get_int req ''addr'' = Inr addr" "json_get_int req ''len'' = Inr len"
    and data: "cJSON_GetObjectItem req ''data'' = Some data" "int (length (child data)) \<le> len"
    and call: "modbus_write_registers L (ctx h) addr len
        (map (\<lambda>it. word_of_int (valueint it)) (child data) @ replicate (nat len - length (child data)) 0)
        (modbus_set_slave L (ctx h) slave (world d)) = ((ret, en), w)" "0 \<le> ret"
  shows "\<exists>t. tcp_request L ''fc16'' req tid d = Inr (Some t, d\<lparr>world := w\<rparr>) \<and> answers t tid ''ok'' None"
proof -
  have h: "handles d e = Some h" "json_get_int req ''tid'' = Inr tid" "in_int tid"
    using assms(1) by (simp_all add: on_handle_def)
  show ?thesis using write_resp_ok [OF call h(3), of L e "selected L h slave d"] call(1)
    by (simp add: tcp_request_cmds cmd_hanlder_on_handle [OF assms(1,2)]
        mbtcp_multi_write_req_def assms(3,4) h get_handle_def data_array_ok [OF data])
qed

theorem multi_write_served_witness:
  "\<exists>t. tcp_request sample_lib ''fc16'' (Some (direct_req 3)) 1 (sample_daemon True)
      = Inr (Some t, (sample_daemon True)\<lparr>world := ()\<rparr>) \<and> answers t 1 ''ok'' None"
  by (rule multi_write_served [where ret = 3, OF sample_on_handle(2) _ direct_fields(5-7)])
    (simp_all add: arr_item_def)

text \<open>C20: Writing coils or registers (\<open>fc15\<close>, \<open>fc16\<close>) with more data than \<open>len\<close> says writes behind
  the end of the array the handler allocated: the length of \<open>data\<close> is never checked.\<close>

theorem multi_write_overflow:
  assumes "on_handle d req e h tid slave" and "connected h"
    and "json_get_int req ''addr'' = Inr addr" "json_get_int req ''len'' = Inr len"
    and "cJSON_GetObjectItem req ''data'' = Some data" "0 \<le> len" "len < int (length (child data))"
    and "cmd = ''fc15'' \<or> cmd = ''fc16''"
  shows "tcp_request L cmd req tid d = Inl BufferOverflow"
proof -
  have "json_get_int req ''tid'' = Inr tid" using assms(1) by (simp add: on_handle_def)
  then show ?thesis using assms(6-8)
    by (elim disjE) (simp_all add: tcp_request_cmds cmd_hanlder_on_handle [OF assms(1,2)]
        mbtcp_multi_write_req_def assms(3-5) data_array_eq)
qed

theorem multi_write_overflow_witness:
  "tcp_request sample_lib ''fc15'' (Some (direct_req 1)) 1 (sample_daemon True) = Inl BufferOverflow"
  by (rule multi_write_overflow [OF sample_on_handle(2) _ direct_fields(5-7)])
    (simp_all add: arr_item_def)

section \<open>Failures\<close>

text \<open>A reading call that fails with \<open>en\<close>, having stored no more than the array holds.\<close>

inductive read_fails ::
  "'w modbus_lib \<Rightarrow> nat \<Rightarrow> int \<Rightarrow> int \<Rightarrow> 'w \<Rightarrow> int \<Rightarrow> 'w \<Rightarrow> string \<Rightarrow> bool" for L c addr len w en w' where
  fc1: "modbus_read_bits L c addr len w = ((ret, en, bits), w') \<Longrightarrow> ret < 0 \<Longrightarrow> int (length bits) \<le> len
    \<Longrightarrow> read_fails L c addr len w en w' ''fc1''"
| fc2: "modbus_read_input_bits L c addr len w = ((ret, en, bits), w') \<Longrightarrow> ret < 0 \<Longrightarrow> int (length bits) \<le> len
    \<Longrightarrow> read_fails L c addr len w en w' ''fc2''"
| fc3: "modbus_read_registers L c addr len w = ((ret, en, regs), w') \<Longrightarrow> ret < 0 \<Longrightarrow> int (length regs) \<le> len
    \<Longrightarrow> read_fails L c addr len w en w' ''fc3''"
| fc4: "modbus_read_input_registers L c addr len w = ((ret, en, regs), w') \<Longrightarrow> ret < 0 \<Longrightarrow> int (length regs) \<le> len
    \<Longrightarrow> read_fails L c addr len w en w' ''fc4''"

lemma fill_array_fits: "int (length xs) \<le> len \<Longrightarrow> \<exists>ys. fill_array len xs = Inr ys"
  by (simp add: fill_array_def)

lemma read_bit_fails:
  assumes "(if fc = 1 then modbus_read_bits L (ctx h) addr len (world d)
      else modbus_read_input_bits L (ctx h) addr len (world d)) = ((ret, en, xs), w)"
    and "fc = 1 \<or> fc = 2" "ret < 0" "int (length xs) \<le> len" "0 < len" "len \<le> 2000" "handles d e = Some h"
    "json_get_int req ''addr'' = Inr addr" "json_get_int req ''len'' = Inr len" "json_get_int req ''tid'' = Inr tid"
  shows "mbtcp_read_bit_req L fc e req d = set_modbus_errno_resp L tid e en (d\<lparr>world := w\<rparr>)"
  using assms fill_array_fits [OF assms(4)] by (auto simp: mbtcp_read_bit_req_def get_handle_def)

lemma read_reg_fails:
  assumes "(if fc = 3 then modbus_read_registers L (ctx h) addr len (world d)
      else modbus_read_input_registers L (ctx h) addr len (world d)) = ((ret, en, xs), w)"
    and "fc = 3 \<or> fc = 4" "ret < 0" "int (length xs) \<le> len" "0 < len" "len \<le> 125" "handles d e = Some h"
    "json_get_int req ''addr'' = Inr addr" "json_get_int req ''len'' = Inr len" "json_get_int req ''tid'' = Inr tid"
  shows "mbtcp_read_reg_req L fc e req d = set_modbus_errno_resp L tid e en (d\<lparr>world := w\<rparr>)"
  using assms fill_array_fits [OF assms(4)] by (auto simp: mbtcp_read_reg_req_def get_handle_def)

text \<open>How many bits or registers the handlers ask for.\<close>

definition max_len :: "string \<Rightarrow> int" where
  "max_len cmd = (if cmd = ''fc1'' \<or> cmd = ''fc2'' then 2000 else 125)"

lemma read_fails_resp:
  assumes "read_fails L (ctx h) addr len (world d) en w cmd" "0 < len" "len \<le> max_len cmd" "handles d e = Some h"
    "json_get_int req ''addr'' = Inr addr" "json_get_int req ''len'' = Inr len" "json_get_int req ''tid'' = Inr tid"
  obtains fc where "\<And>d'. tcp_request L cmd req tid d' = mbtcp_cmd_hanlder L req fc d'" "fc e req d = set_modbus_errno_resp L tid e en (d\<lparr>world := w\<rparr>)"
proof -
  from assms(1) show ?thesis
  proof cases
    case (fc1 ret xs)
    show ?thesis using fc1 read_bit_fails [of 1, OF _ _ fc1(3,4) assms(2) _ assms(4-)] assms(3)
      by (intro that [of "mbtcp_read_bit_req L 1"]) (simp_all add: tcp_request_cmds max_len_def)
  next
    case (fc2 ret xs)
    show ?thesis using fc2 read_bit_fails [of 2, OF _ _ fc2(3,4) assms(2) _ assms(4-)] assms(3)
      by (intro that [of "mbtcp_read_bit_req L 2"]) (simp_all add: tcp_request_cmds max_len_def)
  next
    case (fc3 ret xs)
    show ?thesis using fc3 read_reg_fails [of 3, OF _ _ fc3(3,4) assms(2) _ assms(4-)] assms(3)
      by (intro that [of "mbtcp_read_reg_req L 3"]) (simp_all add: tcp_request_cmds max_len_def)
  next
    case (fc4 ret xs)
    show ?thesis using fc4 read_reg_fails [of 4, OF _ _ fc4(3,4) assms(2) _ assms(4-)] assms(3)
      by (intro that [of "mbtcp_read_reg_req L 4"]) (simp_all add: tcp_request_cmds max_len_def)
  qed
qed

text \<open>C12: When a reading call fails - for a length the handler accepts, 1 to 2000 bits (\<open>fc1\<close>, \<open>fc2\<close>) or 1 to 125
  registers (\<open>fc3\<close>, \<open>fc4\<close>), and having stored no more than that - the client is answered with the library's message for the error
  and the transaction id of its request; after a connection reset (errno 104) the handle is marked
  as not connected, so that the next request connects again, and otherwise nothing changes.\<close>

theorem failed_read_answered:
  assumes "on_handle d req e h tid slave" and "connected h" and "lib_strings L"
    and "json_get_int req ''addr'' = Inr addr" "json_get_int req ''len'' = Inr len" "0 < len" "len \<le> max_len cmd"
    and "read_fails L (ctx h) addr len (modbus_set_slave L (ctx h) slave (world d)) en w cmd"
  shows "\<exists>t. tcp_request L cmd req tid d = Inr (Some t,
        (if en = 104 then set_handle e (h\<lparr>connected := False\<rparr>) else id) (d\<lparr>world := w\<rparr>))
    \<and> answers t tid (modbus_strerror L en) None"
proof -
  have h: "handles d e = Some h" "json_get_int req ''tid'' = Inr tid" "in_int tid"
    using assms(1) by (simp_all add: on_handle_def)
  obtain fc where fc: "tcp_request L cmd req tid d = mbtcp_cmd_hanlder L req fc d"
    "fc e req (selected L h slave d) = set_modbus_errno_resp L tid e en (d\<lparr>world := w\<rparr>)"
    by (rule read_fails_resp [of L h addr len "selected L h slave d" en w cmd e req tid])
      (use assms h in simp_all)
  have "handles (d\<lparr>world := w\<rparr>) e = Some h" using h(1) by simp
  from errno_resp [OF this h(3) assms(3), of en] show ?thesis
    by (cases "en = 104") (simp_all add: fc cmd_hanlder_on_handle [OF assms(1,2)])
qed

theorem failed_read_answered_witness:
  "\<exists>t. tcp_request sample_lib ''fc4'' (Some (parsed_req ''fc4'')) 1 (sample_daemon True)
      = Inr (Some t, set_handle 1 (sample_hdl False) ((sample_daemon True)\<lparr>world := ()\<rparr>))
    \<and> answers t 1 ''Connection reset by peer'' None"
proof -
  have "read_fails sample_lib 7 10 2 () 104 () ''fc4''" by (rule read_fails.fc4 [where ret = "- 1" and regs = "[]"]) simp_all
  with failed_read_answered [where d = "sample_daemon True" and cmd = "''fc4''" and en = 104,
      OF sample_on_handle(1) _ sample_lib_ok(1) sample_fields(6,7)]
  show ?thesis by (simp add: max_len_def)
qed

text \<open>C13: When the slave cannot be connected to, the client is answered with the library's reason; the
  handle stays in the table, not connected, and the function code is not run.\<close>

theorem failed_connect_answered:
  assumes "on_handle d req e h tid slave" and "\<not> connected h" and "lib_strings L"
    and "modbus_connect L (ctx h) (world d) = ((- 1, en), w)"
  shows "\<exists>t. mbtcp_cmd_hanlder L req fc d = Inr (Some t, d\<lparr>world := w\<rparr>)
    \<and> answers t tid (modbus_strerror L en) None"
proof -
  have h: "handles d e = Some h" "json_get_int req ''tid'' = Inr tid" "in_int tid"
    using assms(1) by (simp_all add: on_handle_def)
  obtain t where t: "modbus_set_error_resp tid (modbus_strerror L en) = Inr (Some t)"
    "answers t tid (modbus_strerror L en) None"
    using error_resp [OF h(3), of "modbus_strerror L en"] assms(3) by (auto simp: lib_strings_def)
  have "lazy_mbtcp_connect L (Some e) None d = Inr ((False, Some (modbus_strerror L en)), d\<lparr>world := w\<rparr>)"
    by (simp add: lazy_mbtcp_connect_def mbtcp_get_connection_status_def get_handle_def h assms(2,4)
        mbtcp_do_connect_def)
  then show ?thesis using t
    by (simp add: mbtcp_cmd_hanlder_def lazy_init_on_handle [OF assms(1)] h(2))
qed

theorem failed_connect_answered_witness:
  "\<exists>t. mbtcp_cmd_hanlder (sample_lib\<lparr>modbus_connect := (\<lambda>c w. ((- 1, 111), w))\<rparr>) (Some (parsed_req ''fc1''))
        (mbtcp_fc1_req sample_lib) (sample_daemon False)
      = Inr (Some t, (sample_daemon False)\<lparr>world := ()\<rparr>)
    \<and> answers t 1 ''Connection reset by peer'' None"
proof -
  let ?L = "sample_lib\<lparr>modbus_connect := (\<lambda>c w. ((- 1, 111), w))\<rparr>"
  have "lib_strings ?L" "modbus_connect ?L (ctx (sample_hdl False)) (world (sample_daemon False)) = ((- 1, 111), ())"
    using sample_lib_ok(1) by (simp_all add: lib_strings_def)
  from failed_connect_answered [OF sample_on_handle(1) _ this, of "''fc1''" "mbtcp_fc1_req sample_lib"]
  show ?thesis by simp
qed

text \<open>A handle that is not connected is connected before the function code is run: the slave is
  selected and the handler called in the state in which the connection is up.\<close>

lemma reconnects:
  assumes "on_handle d req e h tid slave" and "\<not> connected h"
    and "modbus_connect L (ctx h) (world d) = ((ret, en), w)" "ret \<noteq> - 1"
  shows "mbtcp_cmd_hanlder L req fc d
    = fc e req (selected L h slave (set_handle e (h\<lparr>connected := True\<rparr>) (d\<lparr>world := w\<rparr>)))"
proof -
  have h: "handles d e = Some h" "json_get_int req ''tid'' = Inr tid" "json_get_int req ''slave'' = Inr slave"
    using assms(1) by (simp_all add: on_handle_def)
  have "lazy_mbtcp_connect L (Some e) None d
    = Inr ((True, None), set_handle e (h\<lparr>connected := True\<rparr>) (d\<lparr>world := w\<rparr>))"
    by (simp add: lazy_mbtcp_connect_def mbtcp_get_connection_status_def get_handle_def h assms(2-4)
        mbtcp_do_connect_def)
  then show ?thesis
    by (simp add: mbtcp_cmd_hanlder_def lazy_init_on_handle [OF assms(1)] h get_handle_def set_handle_def
        selected_def)
qed

text \<open>The command \<open>timeout\<close> sets the timeout that later connections use, modulo 2 to the 32, answers
  \<open>ok\<close>, and changes nothing else.\<close>

lemma timeout_command:
  assumes "json_get_int req ''data'' = Inr t" and "in_int tid"
  shows "\<exists>resp. tcp_request L ''timeout'' req tid d
      = Inr (Some resp, d\<lparr>tcp_conn_timeout_usec := word_of_int t\<rparr>) \<and> answers resp tid ''ok'' None"
proof -
  obtain r where "set_modbus_no_data_ok_resp tid = Inr (Some r)" "answers r tid ''ok'' None"
    using ok_resp [OF assms(2)] .
  then show ?thesis by (simp add: tcp_request_cmds assms(1) mbtcp_set_response_timeout_def Let_def)
qed

end
