(* ===== verification/Service.thy ===== *)
theory Service imports Requests begin

text \<open>
  The daemon as a service: the properties of a whole run, from a start with an empty table of handles
  through any sequence of messages.
\<close>

lemma started_ok:
  assumes "started st0"
  shows "daemon_ok (dmn st0)" "hash_grow (mbtcp_htable (dmn st0))" "zmq_pub st0"
  using assms by (simp_all add: started_def daemon_ok_def hash_ok_None filed_def hash_grow_def hash_map_def)

lemma reachable_room:
  assumes "reachable Z L st1 st2" "lib_strings L" "hash_grow (mbtcp_htable (dmn st1))"
  shows "daemon_room (dmn st2) \<Longrightarrow> daemon_room (dmn st1)"
  using assms
proof induction
  case (step st msg st')
  then have "handle_message Z L msg st = Inr st'" by (simp add: serve_iff)
  from handle_message_room(2) [OF this \<open>lib_strings L\<close>] step show ?case
    using reachable_grow [OF step.hyps(1)] by blast
qed

lemma reachable_started:
  assumes "started st0" "reachable Z L st0 st" "daemon_room (dmn st)" "lib_strings L"
  shows "daemon_ok (dmn st)" "zmq_pub st"
  using reachable_ok [OF assms(2,4) started_ok(1,2) [OF assms(1)] assms(3)] started_ok(3) [OF assms(1)]
  by simp_all

lemma reachable_later:
  assumes "started st0" "reachable Z L st0 st1" "reachable Z L st1 st2" "daemon_room (dmn st2)" "lib_strings L"
  shows "daemon_ok (dmn st1)" "daemon_ok (dmn st2)" "later (dmn st1) (dmn st2)"
proof -
  have g: "hash_grow (mbtcp_htable (dmn st1))"
    by (rule reachable_grow [OF assms(2,5) started_ok(2) [OF assms(1)]])
  show ok1: "daemon_ok (dmn st1)"
    by (rule reachable_started(1) [OF assms(1,2) reachable_room [OF assms(3,5) g assms(4)] assms(5)])
  show "daemon_ok (dmn st2)" "later (dmn st1) (dmn st2)"
    using reachable_ok [OF assms(3,5) ok1 g assms(4)] by simp_all
qed

section \<open>Every message is answered\<close>

text \<open>C1: A message the daemon handles in any state it reaches has a mode and a JSON request with an
  integer \<open>tid\<close>, and is answered exactly once: one two-frame message, with the mode of the request and
  a JSON object that carries its \<open>tid\<close> and a status. Only the mode \<open>rtu\<close> gets no answer at all.\<close>

theorem message_answered:
  assumes "started st0" "reachable Z L st0 st" "daemon_room (dmn st)" "lib_strings L" "serve Z L st msg st'"
  shows "\<exists>mode json req tid. request_strings Z msg = Inr (mode, json)
    \<and> cJSON_Parse json = Inr (Some req) \<and> json_get_int (Some req) ''tid'' = Inr tid
    \<and> (if mode = ''rtu'' then published st' = published st
       else \<exists>t status data. published st' = published st @ [(mode, Some t)] \<and> answers t tid status data)"
proof -
  have h: "handle_message Z L msg st = Inr st'" using assms(5) by (simp add: serve_iff)
  note ok = reachable_started [OF assms(1-4)]
  show ?thesis by (rule handle_message_answer [OF h assms(4) ok(1) assms(3) ok(2)]) blast
qed

theorem message_answered_witness:
  "\<exists>st t status data. serve sample_zmq sample_lib (initial ()) [''tcp'', sample_json ''fc3''] st
     \<and> published st = [(''tcp'', Some t)] \<and> answers t 1 status data"
proof -
  obtain st where st: "serve sample_zmq sample_lib (initial ()) [''tcp'', sample_json ''fc3''] st"
    by (rule serve_sample [of "''fc3''"]) simp
  have tcp: "c_str ''tcp'' = ''tcp''" by (rule c_str_id) simp
  have parse: "cJSON_Parse (c_str (sample_json ''fc3'')) = Inr (Some (parsed_req ''fc3''))"
    by (rule parse_sample) simp
  obtain mode json req tid where
    m: "request_strings sample_zmq [''tcp'', sample_json ''fc3''] = Inr (mode, json)" "cJSON_Parse json = Inr (Some req)" "json_get_int (Some req) ''tid'' = Inr tid"
    "if mode = ''rtu'' then published st = published (initial ())
     else \<exists>t s d. published st = published (initial ()) @ [(mode, Some t)] \<and> answers t tid s d"
    using message_answered [OF started_initial reachable.start initial_ok(2) sample_lib_ok(1) st(1)] by blast
  have mode: "mode = ''tcp''" and json: "json = c_str (sample_json ''fc3'')"
    using m(1) tcp by (simp_all add: sample_strings)
  have req: "req = parsed_req ''fc3''" using m(2) parse by (simp add: json)
  have "tid = 1" using m(3) sample_fields(1) [of "''fc3''"] by (simp add: req)
  with req have "\<exists>t s d. published st = [(''tcp'', Some t)] \<and> answers t tid s d"
    using m(4) by (simp add: mode tcp initial_def)
  then show ?thesis using st(1) \<open>tid = 1\<close> by blast
qed

text \<open>C2: Whatever messages come, the table of handles stays intact: the integrity check of the hash
  table passes, every key in the table leads to the handle with that key, and no handle is ever lost,
  refiled or given another connection context.\<close>

theorem handles_intact:
  assumes "started st0" "reachable Z L st0 st1" "reachable Z L st1 st2" "daemon_room (dmn st2)" "lib_strings L"
  shows "daemon_ok (dmn st2) \<and> HASH_FSCK (mbtcp_htable (dmn st2)) \<and> later (dmn st1) (dmn st2)"
  using reachable_later [OF assms] hash_ok_FSCK by (auto simp: daemon_ok_def)

lemma reachable_sample:
  obtains st where "reachable sample_zmq sample_lib (initial ()) st" "daemon_room (dmn st)"
    "handle_of (dmn st) ''127.0.0.1'' ''502'' = Some 1"
  by (rule serve_sample [of "''fc3''"]) (simp, rule that, rule reachable.step [OF reachable.start])

theorem handles_intact_witness:
  "\<exists>st. reachable sample_zmq sample_lib (initial ()) st \<and> handle_of (dmn st) ''127.0.0.1'' ''502'' = Some 1
     \<and> HASH_FSCK (mbtcp_htable (dmn st))"
proof -
  obtain st where st: "reachable sample_zmq sample_lib (initial ()) st" "daemon_room (dmn st)"
    "handle_of (dmn st) ''127.0.0.1'' ''502'' = Some 1" by (rule reachable_sample)
  with handles_intact [OF started_initial reachable.start st(1,2) sample_lib_ok(1)] show ?thesis by blast
qed

text \<open>C3: A complete request is served: with an address that fits the key, the integers its command
  needs, a positive length to read and no more data than it says, no branch of the code runs into a
  fault, whatever the slave answers, so the daemon takes the step.\<close>

theorem complete_request_safe:
  assumes "started st0" "reachable Z L st0 st" "daemon_room (dmn st)" "lib_strings L" "lib_reads L"
    and "request_strings Z msg = Inr (''tcp'', json)" "cJSON_Parse json = Inr (Some req)"
    and "json_get_int (Some req) ''tid'' = Inr tid" "json_get_char (Some req) ''cmd'' = Inr (Some cmd)"
    and "complete_request cmd (Some req)"
  shows "\<exists>st'. serve Z L st msg st'"
proof -
  note ok = reachable_started [OF assms(1-4)]
  have wf: "wf_item req" by (rule cJSON_Parse_wf [OF request_strings_nul_free(2) [OF assms(6)] assms(7)])
  have cmd: "nul_free cmd" by (rule wf_get_char [OF wf assms(9)])
  have tid: "in_int tid" using assms(8) wf_GetObjectItem [OF wf] wf_item_sel(1)
    by (auto simp: json_get_int_eq)
  obtain r d where r: "tcp_request L cmd (Some req) tid (dmn st) = Inr (r, d)"
    using complete_request_served [OF assms(10) cmd assms(8) tid assms(4,5) ok(1) assms(3)] by blast
  then have "\<exists>st'. handle_message Z L msg st = Inr st'"
    using r assms(6-9) by (simp add: handle_message_def handle_request_def)
  then show ?thesis by (simp add: serve_iff)
qed

theorem complete_request_safe_witness:
  "\<exists>st. serve sample_zmq sample_lib (initial ()) [''tcp'', sample_json ''fc16''] st"
proof -
  have "c_str ''tcp'' = ''tcp''" by (rule c_str_id) simp
  then have "request_strings sample_zmq [''tcp'', sample_json ''fc16''] = Inr (''tcp'', c_str (sample_json ''fc16''))"
    by (simp add: sample_strings)
  from complete_request_safe [OF started_initial reachable.start initial_ok(2) sample_lib_ok this
      parse_sample sample_fields(1,2) sample_complete(1)]
  show ?thesis by simp
qed

section \<open>Connections are kept\<close>

text \<open>C4: A connection is made once per server: once a server has a handle, every later request for the
  same address and port gets this handle, and looking it up changes nothing.\<close>

theorem connection_reused:
  assumes "started st0" "reachable Z L st0 st1" "reachable Z L st1 st2" "daemon_room (dmn st2)" "lib_strings L"
    and "handle_of (dmn st1) i p = Some e"
    and "json_get_char req ''ip'' = Inr (Some i)" "json_get_char req ''port'' = Inr (Some p)"
    and "length i < 50" "length p < 50"
  shows "lazy_init_mbtcp_handle L None req (dmn st2) = Inr ((True, Some e), dmn st2)"
proof -
  note later = reachable_later [OF assms(1-5)]
  have "handle_of (dmn st2) i p = Some e" by (rule later_handle_of [OF later(3) assms(6)])
  then show ?thesis using assms(7-) find_handle [OF later(2), of i p]
    by (simp add: lazy_init_mbtcp_handle_def)
qed

theorem connection_reused_witness:
  "\<exists>st. reachable sample_zmq sample_lib (initial ()) st
     \<and> lazy_init_mbtcp_handle sample_lib None (Some (parsed_req ''fc6'')) (dmn st) = Inr ((True, Some 1), dmn st)"
proof -
  obtain st where st: "reachable sample_zmq sample_lib (initial ()) st" "daemon_room (dmn st)"
    "handle_of (dmn st) ''127.0.0.1'' ''502'' = Some 1" by (rule reachable_sample)
  from connection_reused [OF started_initial st(1) reachable.start st(2) sample_lib_ok(1) st(3)
      sample_fields(3,4), of "''fc6''"] st(1)
  show ?thesis by (intro exI [of _ st]) simp
qed

text \<open>C14: Two servers never share a handle: if two addresses lead to one handle, they are the same
  address and the same port.\<close>

theorem handles_separate:
  assumes "started st0" "reachable Z L st0 st" "daemon_room (dmn st)" "lib_strings L"
    and "handle_of (dmn st) i p = Some e" "handle_of (dmn st) i' p' = Some e"
    and "host_ok i" "host_ok p" "host_ok i'" "host_ok p'"
  shows "i = i' \<and> p = p'"
proof -
  have "daemon_ok (dmn st)" by (rule reachable_started [OF assms(1-4)])
  then have "filed (hash_map (mbtcp_htable (dmn st))) (\<lambda>h. key_bytes (key h)) (handles (dmn st))"
    by (simp add: daemon_ok_def)
  from ut.filed_inj [OF this] assms(5,6)
  have "key_bytes \<lparr>ip = pad i, port = pad p\<rparr> = key_bytes \<lparr>ip = pad i', port = pad p'\<rparr>"
    by (auto simp: handle_of_def)
  then show ?thesis using key_bytes_inject [OF assms(7-10)] by blast
qed

theorem handles_separate_witness:
  "\<exists>st. reachable sample_zmq sample_lib (initial ()) st \<and> handle_of (dmn st) ''127.0.0.1'' ''502'' = Some 1
     \<and> (\<forall>p. host_ok p \<and> handle_of (dmn st) ''127.0.0.1'' p = Some 1 \<longrightarrow> p = ''502'')"
proof -
  obtain st where st: "reachable sample_zmq sample_lib (initial ()) st" "daemon_room (dmn st)"
    "handle_of (dmn st) ''127.0.0.1'' ''502'' = Some 1" by (rule reachable_sample)
  have "p = ''502''" if "host_ok p" "handle_of (dmn st) ''127.0.0.1'' p = Some 1" for p
    using handles_separate [OF started_initial st(1,2) sample_lib_ok(1) that(2) st(3)] that(1)
    by (simp add: host_ok_def)
  with st show ?thesis by blast
qed

section \<open>Unparsable requests\<close>

text \<open>C21: A text that is not JSON ends the daemon: \<open>main\<close> reads the \<open>tid\<close> of the NULL object before it
  tests for NULL, so the branch that would answer such a request is never reached.\<close>

theorem unparsable_request_faults:
  assumes "request_strings Z msg = Inr (mode, json)" and "cJSON_Parse json = Inr None"
  shows "handle_message Z L msg st = Inl NullDeref"
  using assms by (simp add: handle_message_def handle_request_def json_get_int_def
      cJSON_GetObjectItem_def)

theorem unparsable_request_faults_witness:
  "handle_message sample_zmq sample_lib [''tcp'', ''?''] (initial ()) = Inl NullDeref"
proof -
  have "c_str ''?'' = ''?''" by (rule c_str_id) simp
  then have "cJSON_Parse (c_str ''?'') = Inr None"
    by (simp add: cJSON_Parse_def cJSON_ParseWithOpts_def parse_fuel_def numeral_eq_Suc is_digit_def)
  from unparsable_request_faults [OF sample_strings this] show ?thesis .
qed

end
