(* ===== verification/Spec2Isabelle.thy ===== *)
theory Spec2Isabelle imports CJsonBounds CJsonTree CJsonPatchEffect CJsonMerge CJsonChain UtHashMur UtHashBloom UtHashSrt UtHashForms Logging CJsonBuffer CJsonMinify CJsonMemPrint CJsonMemEdit CJsonMemAnswer Service begin

text \<open>
  modbusd is a daemon that gives clients on a message queue access to modbus tcp slaves. A client
  sends a message of two frames, the mode and a JSON request; the daemon parses the request, gets
  hold of a connection to the slave it names (from a hash table of handles, or a new one), has
  libmodbus do what the command says, and publishes a JSON answer with the transaction id of the
  request. This library models the daemon's own code - \<open>main.c\<close>, \<open>modbusd.c\<close>, \<open>json.c\<close> - and the
  two libraries whose sources come with it: the JSON library \<open>json/cJSON.c\<close> and the hash table
  \<open>uthash.h\<close>.

  The parts and their theories.

  \<^item> \<open>Prelude\<close>: faults (the ways a C run can leave defined behaviour, or be ended by a library),
    sequencing of fallible operations, C integers, characters and strings. \<open>CDouble\<close>: the type
    \<open>double\<close> as rationals rounded to 53 bits, infinities and NaN, with its conversions. \<open>Chains\<close>:
    doubly linked chains of addresses. \<open>Dict\<close>: the map of members of an object, up to the case of
    their names.
  \<^item> \<open>CJson\<close>: the tree of items of \<open>cJSON.h\<close> and the operations that build, query, edit and
    duplicate it; \<open>CJsonTree\<close>: what these promise. The chain a \<open>child\<close> pointer leads to is a list;
    \<open>CJsonChain\<close> runs the same operations on \<open>next\<close> and \<open>prev\<close> and shows when the list stands for them.
  \<^item> \<open>CJsonPrint\<close>: the unbuffered printer, and that everything it composes fits the buffer the code
    allocates for it; \<open>CJsonBuffer\<close>: the branches that print into one growing buffer, and that the
    text is the same. \<open>CJsonParse\<close>: the parser, with pointers into the text as suffixes, and that it
    terminates. \<open>CJsonBounds\<close>: memory safety of \<open>parse_string\<close>. \<open>CJsonWf\<close>: what holds of every parsed
    item. \<open>CJsonRound\<close>: parsing undoes printing. \<open>CJsonMinify\<close>: \<open>cJSON_Minify\<close> on its buffer and on the
    text.
  \<^item> \<open>CJsonMem\<close>: items and strings as cells of a heap whose allocations may fail, \<open>cJSON_Delete\<close>,
    references and hooks, with the ownership of cells by a tree; \<open>CJsonMemDup\<close>: \<open>cJSON_Duplicate\<close> there;
    \<open>CJsonMemParse\<close>: the parser there, which gives the tree of \<open>CJsonParse\<close> or nothing and loses no
    cell; \<open>CJsonMemPrint\<close>: the unbuffered printer with its clean-up paths, and that a request parsed,
    printed and deleted leaves the heap as it was; \<open>CJsonMemEdit\<close>: detaching, deleting, replacing and
    inserting, which refine the operations of \<open>CJson\<close> and release exactly what leaves the tree;
    \<open>CJsonMemCreate\<close>: the constructors, with what an array asks of the constructor of its elements as the locale
    \<open>item_maker\<close>; \<open>CJsonMemAnswer\<close>: the answers of the daemon, which test none of this, and that they leave
    nothing behind but their text.
  \<^item> \<open>cJSON_Utils.c\<close>: \<open>CJsonNames\<close> (comparison and escaping of names), \<open>CJsonPointer\<close> (JSON pointers, as
    positions in a tree), \<open>CJsonSort\<close> (sorting of members), \<open>CJsonPatch\<close> (comparing, generating and
    applying patches), \<open>CJsonPatchEffect\<close> (what a patch does to the map of members), \<open>CJsonMerge\<close> (merge
    patches).
  \<^item> \<open>KeyMap\<close>: the contract between the daemon and its hash table, as the locales \<open>registry\<close> and
    \<open>registry_del\<close>. \<open>UtHash\<close>: buckets, the Jenkins hash, finding, adding with expansion, deleting,
    replacing, traversal and the integrity check; the invariant \<open>hash_ok\<close>, the abstraction \<open>hash_map\<close>
    to a finite map, and the interpretation of the contract on the code's operations, for every
    hash function. \<open>UtHashFns\<close>: the other hash functions; \<open>UtHashMur\<close>: \<open>HASH_MUR\<close> on machines that are
    not x86. \<open>UtHashSort\<close>: sorting, selecting and clearing. \<open>UtHashBloom\<close>: the configuration with a bloom
    filter, with the contract of a filter as the locale \<open>hash_filter\<close>. \<open>UtHashForms\<close>: the convenience
    forms for strings, integers and pointers, and key emission. \<open>UtHashChain\<close>: the table with its
    pointers, and that it represents the lists of \<open>UtHash\<close>; \<open>UtHashSrt\<close>: \<open>HASH_SRT\<close> there.
  \<^item> \<open>Json\<close>: the accessors and file operations of \<open>json.c\<close>. \<open>Logging\<close>: the macros of \<open>log.h\<close>.
    \<open>Modbusd\<close>: the state of \<open>modbusd.c\<close> (the hash table, the heap of handles, the timeout) and its
    functions, under their names in the source. \<open>MainLoop\<close>: \<open>main.c\<close>: configuration, dispatch of a
    request, the request loop, and the daemon as a transition system (\<open>serve\<close>, \<open>reachable\<close>).
  \<^item> \<open>Response\<close>: what a client reads from an answer. \<open>Handles\<close>: the invariant that ties the table to the
    heap of handles. \<open>Handlers\<close>: the contract every function code meets. \<open>Daemon\<close>: one message, and all
    reachable states. \<open>Slaves\<close>: what the handlers do with a slave, and that complete requests are
    served. \<open>Config\<close>: loading and saving the configuration. \<open>Requests\<close>: every command through the
    whole dispatch. \<open>Service\<close>: whole runs. \<open>Samples\<close>: concrete inputs for the witnesses.

  What the model takes from outside. libmodbus is the record \<open>modbus_lib\<close> of the functions the daemon
  calls, over the state of the world behind it; czmq is the record \<open>czmq\<close> of the functions that take a
  message apart. The lemmas ask of libmodbus only that its messages are C strings (\<open>lib_strings\<close>) and
  that a reading call stores and returns at most what it was asked for (\<open>lib_reads\<close>). The file system
  is a map from names to contents. Memory allocation succeeds, except in \<open>CJsonMem\<close> and the
  theories named after it, where a function decides for every allocation whether it succeeds.

  Bounds. \<open>cJSON_ParseWithOpts\<close> runs the parser with a recursion bound of two calls per character and
  two more; \<open>parse_terminates\<close> shows that it is never reached and that a larger one gives the same
  result. The bounds of \<open>cJSON_Delete\<close> and \<open>Duplicate_mem\<close> on the heap are the number of cells and the
  weight of the tree, with which they are shown to return; the same holds of the parser, the printer
  and the edits on the heap, which return from some bound on. Loops that could run forever (the sorts, the
  walks along pointers, the growing buffer) are partial functions, and shown to return. \<open>hash_room\<close>
  bounds a table that can still grow: fewer than 2 to the 31 items and doublings left before the bucket
  count overflows; it is only asked of the last state of a run.
  The sizes of strings and texts, which cJSON computes in an \<open>int\<close>, are integers that overflow or are cut to 32
  bits in the definitions \<open>parse_string_alloc\<close>, \<open>print_string_alloc\<close>, \<open>print_array_alloc\<close>,
  \<open>print_object_alloc\<close> and in \<open>CJsonBuffer\<close>; \<open>parse_string_within_buffer\<close> and \<open>print_within_allocation\<close> say how far
  these are right. The other parts of the parser and of the printers count in natural numbers: what they say is about
  texts and strings of fewer than 2 to the 31 characters. \<open>HASH_BLOOM\<close>, the number of bits of the filter's index, is below
  64, since the code shifts by it.

  What is not modelled, and why: the sockets (czmq) and libmodbus, which are not in the sources; the
  calls of the logging macros inside \<open>main.c\<close> and \<open>modbusd.c\<close>, since nothing reads what they write;
  failing allocations in the other theories, that is in the buffered printer, in \<open>cJSON_Utils.c\<close>,
  in the daemon beside its answers, and in \<open>uthash.h\<close>, where they end the program; the release of memory
  by \<open>cJSON_Utils.c\<close>, and by the daemon beside its requests and answers; the compiler-specific variants of \<open>DECLTYPE\<close> and of the integer
  types in \<open>uthash.h\<close>, which have no behaviour of their own; the test programs.
\<close>

end
